(* ===== verification/Rhino_Prelude.thy ===== *)
theory Rhino_Prelude
  imports Main "HOL-Library.Word"
begin

text \<open>
  Shared basis of the development: machine types of the Rhino kernel (the typedefs of
  \<^verbatim>\<open>k_sys.h\<close> and \<^verbatim>\<open>k_types.h\<close>), its status codes (\<^verbatim>\<open>k_err.h\<close>), the collections of
  simplification rules the components extend, and the generic list lemmas behind the
  kernel's three sorted lists (blocked tasks by priority, ticking tasks and timers by
  remaining time).

  The interface \<open>sorted_insertion\<close> states once what every "walk to the first later entry and
  link in front of it" loop of the kernel promises; the components interpret it on their own
  loops.
\<close>

unbundle bit_operations_syntax

section \<open>Machine types\<close>

type_synonym u8 = "8 word"
type_synonym u32 = "32 word"
type_synonym tick_t = "64 word"

text \<open>Addresses of tasks and of kernel objects. A blockable object and its embedded
  \<open>blk_obj_t\<close> (always the first member of the struct) share one address.\<close>

type_synonym tid = nat
type_synonym oid = nat

lemma sint_small: "x < 2 ^ 63 \<Longrightarrow> sint (x :: tick_t) = uint x"
  by (simp add: sint_uint word_less_def)
    (rule signed_take_bit_int_eq_self; simp add: order_trans [OF _ unsigned_greater_eq])

section \<open>Status codes\<close>

datatype (plugins only: size code) kstat_t =
    RHINO_SUCCESS | RHINO_SYS_FATAL_ERR | RHINO_SYS_SP_ERR | RHINO_RUNNING | RHINO_STOPPED
  | RHINO_INV_PARAM | RHINO_NULL_PTR | RHINO_INV_ALIGN | RHINO_KOBJ_TYPE_ERR
  | RHINO_KOBJ_DEL_ERR | RHINO_KOBJ_DOCKER_EXIST | RHINO_KOBJ_BLK | RHINO_KOBJ_SET_FULL
  | RHINO_NOTIFY_FUNC_EXIST
  | RHINO_MM_POOL_SIZE_ERR | RHINO_MM_ALLOC_SIZE_ERR | RHINO_MM_FREE_ADDR_ERR
  | RHINO_MM_CORRUPT_ERR | RHINO_DYN_MEM_PROC_ERR | RHINO_NO_MEM | RHINO_RINGBUF_FULL
  | RHINO_RINGBUF_EMPTY
  | RHINO_SCHED_DISABLE | RHINO_SCHED_ALREADY_ENABLED | RHINO_SCHED_LOCK_COUNT_OVF
  | RHINO_INV_SCHED_WAY
  | RHINO_TASK_INV_STACK_SIZE | RHINO_TASK_NOT_SUSPENDED | RHINO_TASK_DEL_NOT_ALLOWED
  | RHINO_TASK_SUSPEND_NOT_ALLOWED | RHINO_TASK_CANCELED | RHINO_SUSPENDED_COUNT_OVF
  | RHINO_BEYOND_MAX_PRI | RHINO_PRI_CHG_NOT_ALLOWED | RHINO_INV_TASK_STATE
  | RHINO_IDLE_TASK_EXIST
  | RHINO_NO_PEND_WAIT | RHINO_BLK_ABORT | RHINO_BLK_TIMEOUT | RHINO_BLK_DEL
  | RHINO_BLK_INV_STATE | RHINO_BLK_POOL_SIZE_ERR
  | RHINO_TIMER_STATE_INV
  | RHINO_NO_THIS_EVENT_OPT
  | RHINO_BUF_QUEUE_INV_SIZE | RHINO_BUF_QUEUE_SIZE_ZERO | RHINO_BUF_QUEUE_FULL
  | RHINO_BUF_QUEUE_MSG_SIZE_OVERFLOW | RHINO_QUEUE_FULL | RHINO_QUEUE_NOT_FULL
  | RHINO_SEM_OVF | RHINO_SEM_TASK_WAITING
  | RHINO_MUTEX_NOT_RELEASED_BY_OWNER | RHINO_MUTEX_OWNER_NESTED | RHINO_MUTEX_NESTED_OVF
  | RHINO_NOT_CALLED_BY_INTRPT | RHINO_TRY_AGAIN
  | RHINO_WORKQUEUE_EXIST | RHINO_WORKQUEUE_NOT_EXIST | RHINO_WORKQUEUE_WORK_EXIST
  | RHINO_WORKQUEUE_BUSY | RHINO_WORKQUEUE_WORK_RUNNING
  | RHINO_TASK_STACK_OVF | RHINO_INTRPT_STACK_OVF

text \<open>
  Outcome of a kernel call made by the running task: it returns a status, or the task has
  been switched out in the middle of the call (\<open>Block\<close>) and the rest of the call, its
  \<open>_resume\<close> half, runs when the scheduler picks the task again.
\<close>

datatype outcome = Ret kstat_t | Block

section \<open>Rule collections\<close>

named_theorems krhino_defs "definitions unfolded by the functional proofs"
named_theorems frame "fields an operation does not change"

section \<open>Lists with a key\<close>

text \<open>\<open>insert_before P x xs\<close> links \<open>x\<close> in front of the first element satisfying \<open>P\<close>, or at
  the end: the effect of the kernel's search loops followed by \<open>klist_insert\<close>.\<close>

fun insert_before :: "('a \<Rightarrow> bool) \<Rightarrow> 'a \<Rightarrow> 'a list \<Rightarrow> 'a list" where
  "insert_before P x [] = [x]"
| "insert_before P x (y # ys) = (if P y then x # y # ys else y # insert_before P x ys)"

lemma set_insert_before [simp]: "set (insert_before P x xs) = insert x (set xs)"
  by (induction xs) auto

lemma length_insert_before [simp]: "length (insert_before P x xs) = Suc (length xs)"
  by (induction xs) auto

lemma distinct_insert_before [simp]:
  "distinct (insert_before P x xs) \<longleftrightarrow> x \<notin> set xs \<and> distinct xs"
  by (induction xs) auto

lemma insert_before_neq_Nil [simp]: "insert_before P x xs \<noteq> []"
  by (cases xs) auto

lemma insert_before_takeWhile:
  "insert_before P x xs = takeWhile (\<lambda>y. \<not> P y) xs @ x # dropWhile (\<lambda>y. \<not> P y) xs"
  by (induction xs) auto

lemma filter_insert_before_out [simp]:
  "\<not> Q x \<Longrightarrow> filter Q (insert_before P x xs) = filter Q xs"
  by (induction xs) auto

lemma insert_before_cong [fundef_cong]:
  "xs = ys \<Longrightarrow> x = y \<Longrightarrow> (\<And>z. z \<in> set ys \<Longrightarrow> P z = Q z) \<Longrightarrow>
   insert_before P x xs = insert_before Q y ys"
  by (induction ys arbitrary: xs) auto

text \<open>A list sorted by a key: the shape of the blocked, tick and timer lists.\<close>

definition sorted_by :: "('a \<Rightarrow> 'k::linorder) \<Rightarrow> 'a list \<Rightarrow> bool" where
  "sorted_by f xs \<longleftrightarrow> sorted (map f xs)"

lemma sorted_by_Nil [simp]: "sorted_by f []"
  by (simp add: sorted_by_def)

lemma sorted_by_Cons [simp]:
  "sorted_by f (x # xs) \<longleftrightarrow> (\<forall>y\<in>set xs. f x \<le> f y) \<and> sorted_by f xs"
  by (auto simp: sorted_by_def)

lemma sorted_by_append:
  "sorted_by f (xs @ ys) \<longleftrightarrow>
     sorted_by f xs \<and> sorted_by f ys \<and> (\<forall>x\<in>set xs. \<forall>y\<in>set ys. f x \<le> f y)"
  by (auto simp: sorted_by_def sorted_append)

lemma sorted_by_filter: "sorted_by f xs \<Longrightarrow> sorted_by f (filter P xs)"
  by (induction xs) auto

lemma sorted_by_removeAll [simp]: "sorted_by f xs \<Longrightarrow> sorted_by f (removeAll x xs)"
  by (induction xs) auto

lemma sorted_by_tl: "sorted_by f xs \<Longrightarrow> sorted_by f (tl xs)"
  by (cases xs) auto

lemma sorted_by_cong:
  "(\<And>x. x \<in> set xs \<Longrightarrow> f x = g x) \<Longrightarrow> sorted_by f xs = sorted_by g xs"
  unfolding sorted_by_def by (metis map_eq_conv)

lemma sorted_by_hd_le: "sorted_by f xs \<Longrightarrow> x \<in> set xs \<Longrightarrow> f (hd xs) \<le> f x"
  by (cases xs) auto

lemma removeAll_insert_before_same:
  "x \<notin> set xs \<Longrightarrow> removeAll x (insert_before P x xs) = xs"
  by (induction xs) auto

lemma hd_removeAll_neq: "xs \<noteq> [] \<Longrightarrow> hd xs \<noteq> x \<Longrightarrow> hd (removeAll x xs) = hd xs"
  by (cases xs) auto

lemma removeAll_hd_distinct: "distinct (x # xs) \<Longrightarrow> removeAll x (x # xs) = xs"
  by auto

section \<open>The contract of the kernel's sorted insertions\<close>

text \<open>
  \<open>ins s x xs\<close> walks over \<open>xs\<close> and puts \<open>x\<close> in front of the first entry whose key is strictly
  larger than \<open>val s x\<close>. Its clients rely on three things: nothing is lost, the list stays
  sorted, and an entry never overtakes an equal one (first come, first served among equals).
\<close>

locale sorted_insertion =
  fixes key :: "'s \<Rightarrow> 'a \<Rightarrow> 'k::linorder"
    and val :: "'s \<Rightarrow> 'a \<Rightarrow> 'k"
    and ins :: "'s \<Rightarrow> 'a \<Rightarrow> 'a list \<Rightarrow> 'a list"
  assumes ins_eq: "ins s x xs = insert_before (\<lambda>y. key s y > val s x) x xs"
begin

lemma ins_set: "set (ins s x xs) = insert x (set xs)"
  by (simp add: ins_eq)

lemma ins_distinct: "distinct (ins s x xs) \<longleftrightarrow> x \<notin> set xs \<and> distinct xs"
  by (simp add: ins_eq)

lemma ins_neq_Nil: "ins s x xs \<noteq> []"
  by (simp add: ins_eq)

lemma ins_removeAll: "x \<notin> set xs \<Longrightarrow> removeAll x (ins s x xs) = xs"
  unfolding ins_eq by (induction xs) auto

lemma ins_sorted:
  "val s x = key s x \<Longrightarrow> sorted_by (key s) xs \<Longrightarrow> sorted_by (key s) (ins s x xs)"
  unfolding ins_eq by (induction xs) (auto intro: order.trans)

text \<open>Entries with the key of \<open>x\<close> keep their order and \<open>x\<close> comes last among them.\<close>

lemma ins_fifo:
  "val s x = key s x \<Longrightarrow> sorted_by (key s) xs \<Longrightarrow>
   filter (\<lambda>y. key s y = key s x) (ins s x xs) = filter (\<lambda>y. key s y = key s x) xs @ [x]"
  unfolding ins_eq
proof (induction xs)
  case Nil
  then show ?case by simp
next
  case (Cons y ys)
  show ?case
  proof (cases "key s y > key s x")
    case True
    with Cons.prems have "\<forall>z\<in>set ys. key s z > key s x" by auto
    then have "filter (\<lambda>z. key s z = key s x) ys = []"
      by (auto simp: filter_empty_conv)
    with True Cons.prems show ?thesis by auto
  next
    case False
    with Cons show ?thesis by auto
  qed
qed

text \<open>The others keep their order whatever their key.\<close>

lemma ins_others: "\<not> Q x \<Longrightarrow> filter Q (ins s x xs) = filter Q xs"
  by (simp add: ins_eq)

lemma ins_hd: "xs \<noteq> [] \<Longrightarrow> key s (hd xs) \<le> val s x \<Longrightarrow> hd (ins s x xs) = hd xs"
  unfolding ins_eq by (cases xs) auto

end

end
