(* ===== verification/KBitmap.thy ===== *)
theory KBitmap
  imports Rhino_Prelude
begin

text \<open>
  Priority bitmap of the ready queue, \<^verbatim>\<open>include/k_bitmap.h\<close>: counting leading and trailing
  zeros by halving, and an array of 32-bit words in which number \<open>nr\<close> is stored in word
  \<open>nr / 32\<close> at bit \<open>31 - nr mod 32\<close>, so that the first set number is found by leading zeros.
  The lemmas show that the counts are exact and that \<open>krhino_bitmap_first\<close> returns the
  smallest number in the set.
\<close>

section \<open>Counting zeros\<close>

text \<open>The portable branch (no \<^verbatim>\<open>RHINO_BIT_CLZ\<close>), which the boards of the repository build.
  Each \<^verbatim>\<open>if ((x & mask) == 0) { x <<= k; n += k; }\<close> is one step on the pair \<open>(x, n)\<close>.\<close>

fun clz_step :: "nat \<Rightarrow> u32 \<Rightarrow> u32 \<times> nat \<Rightarrow> u32 \<times> nat" where
  "clz_step k m (x, n) = (if x AND m = 0 then (push_bit k x, n + k) else (x, n))"

fun ctz_step :: "nat \<Rightarrow> u32 \<Rightarrow> u32 \<times> nat \<Rightarrow> u32 \<times> nat" where
  "ctz_step k m (x, n) = (if x AND m = 0 then (drop_bit k x, n + k) else (x, n))"

definition krhino_clz32 :: "u32 \<Rightarrow> nat" where
  "krhino_clz32 x =
     (if x = 0 then 32
      else
        let xn = clz_step 16 0xFFFF0000 (x, 0);
            xn = clz_step 8 0xFF000000 xn;
            xn = clz_step 4 0xF0000000 xn;
            xn = clz_step 2 0xC0000000 xn
        in if fst xn AND 0x80000000 = 0 then snd xn + 1 else snd xn)"

definition krhino_ctz32 :: "u32 \<Rightarrow> nat" where
  "krhino_ctz32 x =
     (if x = 0 then 32
      else
        let xn = ctz_step 16 0x0000FFFF (x, 0);
            xn = ctz_step 8 0x000000FF xn;
            xn = ctz_step 4 0x0000000F xn;
            xn = ctz_step 2 0x00000003 xn
        in if fst xn AND 0x00000001 = 0 then snd xn + 1 else snd xn)"

text \<open>What the counts mean: \<open>n\<close> zero bits from the top (the bottom), then a one.\<close>

definition is_clz :: "u32 \<Rightarrow> nat \<Rightarrow> bool" where
  "is_clz x n \<longleftrightarrow> n < 32 \<and> bit x (31 - n) \<and> (\<forall>j. 31 - n < j \<longrightarrow> \<not> bit x j)"

definition is_ctz :: "u32 \<Rightarrow> nat \<Rightarrow> bool" where
  "is_ctz x n \<longleftrightarrow> n < 32 \<and> bit x n \<and> (\<forall>j < n. \<not> bit x j)"

lemma bit_u32_ge [simp]: "32 \<le> j \<Longrightarrow> \<not> bit (x :: u32) j"
  using bit_imp_le_length [of x j] by auto

lemma and_eq_0_iff_bits: "(x :: u32) AND m = 0 \<longleftrightarrow> (\<forall>j<32. bit m j \<longrightarrow> \<not> bit x j)"
proof
  assume *: "x AND m = 0"
  have "bit (x AND m) j = (bit x j \<and> bit m j)" for j by (rule bit_and_iff)
  with * show "\<forall>j<32. bit m j \<longrightarrow> \<not> bit x j" by (metis bit_0_eq bot_apply bot_bool_def)
next
  assume "\<forall>j<32. bit m j \<longrightarrow> \<not> bit x j"
  then show "x AND m = 0" by (intro bit_word_eqI) (auto simp: bit_and_iff)
qed

lemma top_mask_bits:
  "bit (0xFFFF0000 :: u32) j \<longleftrightarrow> 16 \<le> j \<and> j < 32"
  "bit (0xFF000000 :: u32) j \<longleftrightarrow> 24 \<le> j \<and> j < 32"
  "bit (0xF0000000 :: u32) j \<longleftrightarrow> 28 \<le> j \<and> j < 32"
  "bit (0xC0000000 :: u32) j \<longleftrightarrow> 30 \<le> j \<and> j < 32"
  "bit (0x80000000 :: u32) j \<longleftrightarrow> j = 31"
proof -
  have top: "bit (push_bit m (mask k) :: u32) j \<longleftrightarrow> m \<le> j \<and> j < m + k" if "m + k = 32" for m k
    using that by (auto simp: bit_push_bit_iff bit_mask_iff)
  have "(0xFFFF0000 :: u32) = push_bit 16 (mask 16)" "(0xFF000000 :: u32) = push_bit 24 (mask 8)"
    "(0xF0000000 :: u32) = push_bit 28 (mask 4)" "(0xC0000000 :: u32) = push_bit 30 (mask 2)"
    "(0x80000000 :: u32) = push_bit 31 (mask 1)"
    by (simp_all add: mask_eq_exp_minus_1 push_bit_eq_mult)
  then show "bit (0xFFFF0000 :: u32) j \<longleftrightarrow> 16 \<le> j \<and> j < 32"
    "bit (0xFF000000 :: u32) j \<longleftrightarrow> 24 \<le> j \<and> j < 32"
    "bit (0xF0000000 :: u32) j \<longleftrightarrow> 28 \<le> j \<and> j < 32"
    "bit (0xC0000000 :: u32) j \<longleftrightarrow> 30 \<le> j \<and> j < 32"
    "bit (0x80000000 :: u32) j \<longleftrightarrow> j = 31"
    by (auto simp only: top)
qed

lemma low_mask_bits:
  "bit (0x0000FFFF :: u32) j \<longleftrightarrow> j < 16" "bit (0x000000FF :: u32) j \<longleftrightarrow> j < 8"
  "bit (0x0000000F :: u32) j \<longleftrightarrow> j < 4" "bit (0x00000003 :: u32) j \<longleftrightarrow> j < 2"
  "bit (0x00000001 :: u32) j \<longleftrightarrow> j = 0"
proof -
  have "(0x0000FFFF :: u32) = mask 16" "(0x000000FF :: u32) = mask 8" "(0x0000000F :: u32) = mask 4"
    "(0x00000003 :: u32) = mask 2" "(0x00000001 :: u32) = mask 1"
    by (simp_all add: mask_eq_exp_minus_1)
  then show "bit (0x0000FFFF :: u32) j \<longleftrightarrow> j < 16" "bit (0x000000FF :: u32) j \<longleftrightarrow> j < 8"
    "bit (0x0000000F :: u32) j \<longleftrightarrow> j < 4" "bit (0x00000003 :: u32) j \<longleftrightarrow> j < 2"
    "bit (0x00000001 :: u32) j \<longleftrightarrow> j = 0"
    by (auto simp only: bit_mask_iff) (auto simp: bit_1_iff)
qed

declare bit_numeral_word_iff [simp del]

lemma is_clz_shift:
  assumes "is_clz (push_bit k x) m" and "\<forall>j. 32 - k \<le> j \<longrightarrow> \<not> bit x j" and "k < 32"
  shows "is_clz x (m + k)"
proof -
  have b: "bit (push_bit k x) j \<longleftrightarrow> k \<le> j \<and> j < 32 \<and> bit x (j - k)" for j
    by (auto simp: bit_push_bit_iff)
  from assms(1) have m: "m < 32" and set: "bit (push_bit k x) (31 - m)"
    and zero: "\<forall>j. 31 - m < j \<longrightarrow> \<not> bit (push_bit k x) j" by (auto simp: is_clz_def)
  from set b have le: "k \<le> 31 - m" and x: "bit x (31 - m - k)" by auto
  have "\<not> bit x j" if j: "31 - (m + k) < j" for j
  proof (cases "j + k < 32")
    case True
    with j have "31 - m < j + k" by auto
    with zero have "\<not> bit (push_bit k x) (j + k)" by blast
    with b [of "j + k"] True show ?thesis by auto
  next
    case False
    with assms(2) show ?thesis by auto
  qed
  with x le m show ?thesis by (auto simp: is_clz_def algebra_simps)
qed

lemma is_ctz_shift:
  assumes "is_ctz (drop_bit k x) m" and "\<forall>j<k. \<not> bit x j"
  shows "is_ctz x (m + k)"
proof -
  have b: "bit (drop_bit k x) j \<longleftrightarrow> bit x (k + j)" for j by (simp add: bit_drop_bit_eq)
  from assms(1) have set: "bit x (k + m)" and zero: "\<forall>j<m. \<not> bit x (k + j)"
    by (auto simp: is_ctz_def b)
  have "\<not> bit x j" if "j < m + k" for j
  proof (cases "j < k")
    case False
    with that have "j - k < m" by auto
    with zero have "\<not> bit x (k + (j - k))" by blast
    with False show ?thesis by simp
  qed (use assms(2) in auto)
  moreover have "m + k < 32" using set bit_u32_ge [of "k + m" x] by (metis add.commute not_le)
  ultimately show ?thesis using set by (auto simp: is_ctz_def add.commute)
qed


text \<open>
  One halving step: the word has a bit among the top (bottom) \<open>2 * k\<close>; if none of the top
  (bottom) \<open>k\<close> is set it is shifted by \<open>k\<close> and the count grows by \<open>k\<close>. Afterwards a bit is
  set among the top (bottom) \<open>k\<close>.
\<close>

definition shl_step :: "nat \<Rightarrow> u32 \<Rightarrow> u32 \<Rightarrow> u32" where
  "shl_step k m x = (if x AND m = 0 then push_bit k x else x)"

definition shr_step :: "nat \<Rightarrow> u32 \<Rightarrow> u32 \<Rightarrow> u32" where
  "shr_step k m x = (if x AND m = 0 then drop_bit k x else x)"

definition step_count :: "nat \<Rightarrow> u32 \<Rightarrow> u32 \<Rightarrow> nat" where
  "step_count k m x = (if x AND m = 0 then k else 0)"

lemma clz_half:
  assumes m: "\<And>j. bit m j \<longleftrightarrow> 32 - k \<le> j \<and> j < 32" and k: "k \<le> 16"
    and x: "\<exists>j. 32 - 2 * k \<le> j \<and> j < 32 \<and> bit x j"
  shows "\<exists>j. 32 - k \<le> j \<and> j < 32 \<and> bit (shl_step k m x) j"
    and "is_clz (shl_step k m x) n \<Longrightarrow> is_clz x (n + step_count k m x)"
proof -
  from x obtain j where j: "32 - 2 * k \<le> j" "j < 32" "bit x j" by blast
  have none: "\<forall>j. 32 - k \<le> j \<longrightarrow> \<not> bit x j" if "x AND m = 0"
    using that m bit_u32_ge [of _ x] by (metis and_eq_0_iff_bits not_less)
  show "\<exists>j. 32 - k \<le> j \<and> j < 32 \<and> bit (shl_step k m x) j"
  proof (cases "x AND m = 0")
    case True
    with none j have "j < 32 - k" by (meson not_less)
    with j k True show ?thesis
      by (intro exI [of _ "j + k"]) (auto simp: shl_step_def bit_push_bit_iff)
  next
    case False
    then show ?thesis using m by (auto simp: shl_step_def and_eq_0_iff_bits)
  qed
  show "is_clz x (n + step_count k m x)" if "is_clz (shl_step k m x) n"
    using that none k by (auto simp: shl_step_def step_count_def intro!: is_clz_shift split: if_splits)
qed

lemma ctz_half:
  assumes m: "\<And>j. bit m j \<longleftrightarrow> j < k" and x: "\<exists>j < 2 * k. bit x j"
  shows "\<exists>j < k. bit (shr_step k m x) j"
    and "is_ctz (shr_step k m x) n \<Longrightarrow> is_ctz x (n + step_count k m x)"
proof -
  from x obtain j where j: "j < 2 * k" "bit x j" by blast
  have none: "\<forall>j<k. \<not> bit x j" if "x AND m = 0"
    using that m bit_u32_ge [of _ x] by (metis and_eq_0_iff_bits not_less)
  show "\<exists>j < k. bit (shr_step k m x) j"
  proof (cases "x AND m = 0")
    case True
    with none j have "k \<le> j" by (meson not_less)
    with j True show ?thesis
      by (intro exI [of _ "j - k"]) (auto simp: shr_step_def bit_drop_bit_eq)
  next
    case False
    then show ?thesis using m by (auto simp: shr_step_def and_eq_0_iff_bits)
  qed
  show "is_ctz x (n + step_count k m x)" if "is_ctz (shr_step k m x) n"
    using that none by (auto simp: shr_step_def step_count_def intro!: is_ctz_shift split: if_splits)
qed

lemma clz_last:
  assumes "\<exists>j. 30 \<le> j \<and> j < 32 \<and> bit (x :: u32) j"
  shows "is_clz x (if x AND 0x80000000 = 0 then 1 else 0)"
proof -
  from assms obtain i where "30 \<le> i" "i < 32" "bit x i" by blast
  then have or: "bit x 30 \<or> bit x 31" by (cases "i = 30"; cases "i = 31") auto
  have "\<not> bit x j" if "30 < j" "\<not> bit x 31" for j
    using that bit_u32_ge [of j x] by (cases "j = 31") auto
  with or show ?thesis
    by (cases "bit x 31") (auto simp: and_eq_0_iff_bits top_mask_bits is_clz_def dest: spec [of _ 31])
qed

lemma ctz_last:
  assumes "\<exists>j < 2. bit (x :: u32) j"
  shows "is_ctz x (if x AND 1 = 0 then 1 else 0)"
proof -
  from assms have "bit x 0 \<or> bit x 1" by (auto simp: less_2_cases_iff)
  then show ?thesis by (auto simp: and_eq_0_iff_bits low_mask_bits is_ctz_def)
qed

lemma clz_step_eq: "clz_step k m (x, n) = (shl_step k m x, n + step_count k m x)"
  by (simp add: shl_step_def step_count_def)

lemma ctz_step_eq: "ctz_step k m (x, n) = (shr_step k m x, n + step_count k m x)"
  by (simp add: shr_step_def step_count_def)

lemma nonzero_bit: "x \<noteq> 0 \<Longrightarrow> \<exists>j<32. bit (x :: u32) j"
  using and_eq_0_iff_bits [of x "- 1"] by auto

lemma krhino_clz32_correct:
  assumes "x \<noteq> 0" shows "is_clz x (krhino_clz32 x)"
proof -
  let ?a = "shl_step 16 0xFFFF0000 x"
  let ?b = "shl_step 8 0xFF000000 ?a"
  let ?c = "shl_step 4 0xF0000000 ?b"
  let ?d = "shl_step 2 0xC0000000 ?c"
  have a: "\<exists>j. 16 \<le> j \<and> j < 32 \<and> bit ?a j"
    using clz_half(1) [of "0xFFFF0000" 16 x] nonzero_bit [OF assms] by (auto simp: top_mask_bits)
  have b: "\<exists>j. 24 \<le> j \<and> j < 32 \<and> bit ?b j"
    using clz_half(1) [of "0xFF000000" 8 ?a] a by (auto simp: top_mask_bits)
  have c: "\<exists>j. 28 \<le> j \<and> j < 32 \<and> bit ?c j"
    using clz_half(1) [of "0xF0000000" 4 ?b] b by (auto simp: top_mask_bits)
  have d: "\<exists>j. 30 \<le> j \<and> j < 32 \<and> bit ?d j"
    using clz_half(1) [of "0xC0000000" 2 ?c] c by (auto simp: top_mask_bits)
  from clz_last [OF d] have "is_clz ?c ((if ?d AND 0x80000000 = 0 then 1 else 0) + step_count 2 0xC0000000 ?c)"
    using clz_half(2) [of "0xC0000000" 2 ?c] c by (auto simp: top_mask_bits)
  then have "is_clz ?b ((if ?d AND 0x80000000 = 0 then 1 else 0) + step_count 2 0xC0000000 ?c
      + step_count 4 0xF0000000 ?b)"
    using clz_half(2) [of "0xF0000000" 4 ?b] b by (auto simp: top_mask_bits)
  then have "is_clz ?a ((if ?d AND 0x80000000 = 0 then 1 else 0) + step_count 2 0xC0000000 ?c
      + step_count 4 0xF0000000 ?b + step_count 8 0xFF000000 ?a)"
    using clz_half(2) [of "0xFF000000" 8 ?a] a by (auto simp: top_mask_bits)
  then have "is_clz x ((if ?d AND 0x80000000 = 0 then 1 else 0) + step_count 2 0xC0000000 ?c
      + step_count 4 0xF0000000 ?b + step_count 8 0xFF000000 ?a + step_count 16 0xFFFF0000 x)"
    using clz_half(2) [of "0xFFFF0000" 16 x] nonzero_bit [OF assms] by (auto simp: top_mask_bits)
  moreover have "krhino_clz32 x = (if ?d AND 0x80000000 = 0 then 1 else 0) + step_count 2 0xC0000000 ?c
      + step_count 4 0xF0000000 ?b + step_count 8 0xFF000000 ?a + step_count 16 0xFFFF0000 x"
    using assms by (simp only: krhino_clz32_def clz_step_eq Let_def if_False fst_conv snd_conv) simp
  ultimately show ?thesis by simp
qed

lemma krhino_ctz32_correct:
  assumes "x \<noteq> 0" shows "is_ctz x (krhino_ctz32 x)"
proof -
  let ?a = "shr_step 16 0x0000FFFF x"
  let ?b = "shr_step 8 0x000000FF ?a"
  let ?c = "shr_step 4 0x0000000F ?b"
  let ?d = "shr_step 2 0x00000003 ?c"
  have a: "\<exists>j<16. bit ?a j"
    using ctz_half(1) [of "0x0000FFFF" 16 x] nonzero_bit [OF assms] by (auto simp: low_mask_bits)
  have b: "\<exists>j<8. bit ?b j"
    using ctz_half(1) [of "0x000000FF" 8 ?a] a by (auto simp: low_mask_bits)
  have c: "\<exists>j<4. bit ?c j"
    using ctz_half(1) [of "0x0000000F" 4 ?b] b by (auto simp: low_mask_bits)
  have d: "\<exists>j<2. bit ?d j"
    using ctz_half(1) [of "0x00000003" 2 ?c] c by (auto simp: low_mask_bits)
  from ctz_last [OF d] have "is_ctz ?c ((if ?d AND 1 = 0 then 1 else 0) + step_count 2 0x00000003 ?c)"
    using ctz_half(2) [of "0x00000003" 2 ?c] c by (auto simp: low_mask_bits)
  then have "is_ctz ?b ((if ?d AND 1 = 0 then 1 else 0) + step_count 2 0x00000003 ?c
      + step_count 4 0x0000000F ?b)"
    using ctz_half(2) [of "0x0000000F" 4 ?b] b by (auto simp: low_mask_bits)
  then have "is_ctz ?a ((if ?d AND 1 = 0 then 1 else 0) + step_count 2 0x00000003 ?c
      + step_count 4 0x0000000F ?b + step_count 8 0x000000FF ?a)"
    using ctz_half(2) [of "0x000000FF" 8 ?a] a by (auto simp: low_mask_bits)
  then have "is_ctz x ((if ?d AND 1 = 0 then 1 else 0) + step_count 2 0x00000003 ?c
      + step_count 4 0x0000000F ?b + step_count 8 0x000000FF ?a + step_count 16 0x0000FFFF x)"
    using ctz_half(2) [of "0x0000FFFF" 16 x] nonzero_bit [OF assms] by (auto simp: low_mask_bits)
  moreover have "krhino_ctz32 x = (if ?d AND 1 = 0 then 1 else 0) + step_count 2 0x00000003 ?c
      + step_count 4 0x0000000F ?b + step_count 8 0x000000FF ?a + step_count 16 0x0000FFFF x"
    using assms by (simp only: krhino_ctz32_def ctz_step_eq Let_def if_False fst_conv snd_conv) simp
  ultimately show ?thesis by simp
qed

section \<open>The bitmap\<close>

definition BITMAP_MASK :: "nat \<Rightarrow> u32" where
  "BITMAP_MASK nr = push_bit (31 - nr mod 32) 1"

definition BITMAP_WORD :: "nat \<Rightarrow> nat" where
  "BITMAP_WORD nr = nr div 32"

text \<open>The array has \<^verbatim>\<open>NUM_WORDS\<close> words; a list update past its end would be a write out of
  bounds in C, which the invariant of the ready queue (\<open>nr < PRI_MAX\<close>) excludes.\<close>

definition krhino_bitmap_set :: "u32 list \<Rightarrow> nat \<Rightarrow> u32 list" where
  "krhino_bitmap_set bm nr = bm[BITMAP_WORD nr := bm ! BITMAP_WORD nr OR BITMAP_MASK nr]"

definition krhino_bitmap_clear :: "u32 list \<Rightarrow> nat \<Rightarrow> u32 list" where
  "krhino_bitmap_clear bm nr = bm[BITMAP_WORD nr := bm ! BITMAP_WORD nr AND NOT (BITMAP_MASK nr)]"

text \<open>The scan steps from word to word while they are zero; \<open>None\<close> is running off the end of
  the array, which C does not detect.\<close>

fun krhino_bitmap_first :: "u32 list \<Rightarrow> nat option" where
  "krhino_bitmap_first [] = None"
| "krhino_bitmap_first (w # ws) =
     (if w = 0 then map_option (\<lambda>nr. nr + 32) (krhino_bitmap_first ws)
      else Some (krhino_clz32 w))"

text \<open>The set a bitmap stands for.\<close>

definition in_bitmap :: "u32 list \<Rightarrow> nat \<Rightarrow> bool" where
  "in_bitmap bm nr \<longleftrightarrow> nr div 32 < length bm \<and> bit (bm ! (nr div 32)) (31 - nr mod 32)"

lemma length_bitmap_ops [simp]:
  "length (krhino_bitmap_set bm nr) = length bm" "length (krhino_bitmap_clear bm nr) = length bm"
  by (simp_all add: krhino_bitmap_set_def krhino_bitmap_clear_def)

lemma nr_eq_iff: "nr = (k :: nat) \<longleftrightarrow> nr div 32 = k div 32 \<and> 31 - nr mod 32 = 31 - k mod 32"
proof
  assume "nr div 32 = k div 32 \<and> 31 - nr mod 32 = 31 - k mod 32"
  moreover from this have "nr mod 32 = k mod 32"
    using mod_less_divisor [of 32 nr] mod_less_divisor [of 32 k] by linarith
  ultimately show "nr = k" by (metis div_mult_mod_eq)
qed simp

lemma bit_BITMAP_MASK [simp]: "bit (BITMAP_MASK nr) j \<longleftrightarrow> j = 31 - nr mod 32"
  by (auto simp: BITMAP_MASK_def bit_push_bit_iff bit_1_iff simp del: push_bit_of_1)

lemma in_bitmap_set [simp]:
  "nr < 32 * length bm \<Longrightarrow> in_bitmap (krhino_bitmap_set bm nr) k \<longleftrightarrow> k = nr \<or> in_bitmap bm k"
  by (auto simp: in_bitmap_def krhino_bitmap_set_def BITMAP_WORD_def nth_list_update
      bit_or_iff nr_eq_iff [of k nr] less_mult_imp_div_less)

lemma in_bitmap_clear [simp]:
  "in_bitmap (krhino_bitmap_clear bm nr) k \<longleftrightarrow> k \<noteq> nr \<and> in_bitmap bm k"
proof (cases "nr div 32 < length bm")
  case True
  then show ?thesis
    by (auto simp: in_bitmap_def krhino_bitmap_clear_def BITMAP_WORD_def nth_list_update
        bit_and_iff bit_not_iff nr_eq_iff [of k nr])
next
  case False
  then show ?thesis by (auto simp: in_bitmap_def krhino_bitmap_clear_def BITMAP_WORD_def)
qed

lemma in_bitmap_Nil [simp]: "\<not> in_bitmap [] k"
  by (simp add: in_bitmap_def)

lemma in_bitmap_Cons:
  "in_bitmap (w # ws) k \<longleftrightarrow> (if k < 32 then bit w (31 - k) else in_bitmap ws (k - 32))"
proof (cases "k < 32")
  case False
  then have "k div 32 = Suc ((k - 32) div 32)" "k mod 32 = (k - 32) mod 32"
    by (auto simp: div_if mod_if)
  with False show ?thesis by (simp add: in_bitmap_def)
qed (simp add: in_bitmap_def)

lemma in_bitmap_zero: "k < 32 \<Longrightarrow> \<not> in_bitmap (0 # ws) k"
  by (simp add: in_bitmap_Cons)

lemma krhino_bitmap_first_None: "krhino_bitmap_first bm = None \<longleftrightarrow> (\<forall>k. \<not> in_bitmap bm k)"
proof (induction bm)
  case (Cons w ws)
  show ?case
  proof (cases "w = 0")
    case True
    have "(\<forall>k. \<not> in_bitmap ws k) \<longleftrightarrow> (\<forall>k. \<not> in_bitmap (0 # ws) k)"
      by (auto simp: in_bitmap_Cons split: if_splits)
    with True Cons show ?thesis by simp
  next
    case False
    then obtain j where j: "j < 32" "bit w j" using nonzero_bit by blast
    then have "31 - (31 - j) = j" "31 - j < (32 :: nat)" by linarith+
    with j have "in_bitmap (w # ws) (31 - j)" by (simp only: in_bitmap_Cons if_True)
    with False show ?thesis by auto
  qed
qed simp

lemma krhino_bitmap_first_Some:
  "krhino_bitmap_first bm = Some n \<Longrightarrow> in_bitmap bm n \<and> (\<forall>k<n. \<not> in_bitmap bm k)"
proof (induction bm arbitrary: n)
  case (Cons w ws)
  show ?case
  proof (cases "w = 0")
    case True
    with Cons.prems obtain m where "krhino_bitmap_first ws = Some m" "n = m + 32" by auto
    with Cons.IH True show ?thesis by (auto simp: in_bitmap_Cons)
  next
    case False
    with Cons.prems krhino_clz32_correct have c: "is_clz w n" by auto
    then show ?thesis by (auto simp: in_bitmap_Cons is_clz_def)
  qed
qed simp

declare bit_numeral_word_iff [simp]

end
