(* ===== verification/KList.thy ===== *)
theory KList
  imports Rhino_Prelude
begin

text \<open>
  The intrusive doubly linked circular list of the kernel, \<^verbatim>\<open>include/k_list.h\<close>, on an explicit
  store of \<open>next\<close> and \<open>prev\<close> pointers. \<open>ring h l xs\<close> says that the nodes \<open>xs\<close> hang in this
  order on the list head \<open>l\<close>. The refinement lemmas show that every pointer operation has the
  list effect with which the components of the development are written: \<open>klist_insert\<close> appends
  (or inserts in front of a node), \<open>klist_rm\<close> removes one element, and a search loop followed
  by \<open>klist_insert\<close> is \<open>insert_before\<close>. The locale \<open>klist_contract\<close> collects these laws;
  the moves between two lists (ready, blocked, ticking) are proved once inside it.
\<close>

section \<open>The store and the operations\<close>

type_synonym node = nat

record klist =
  nxt :: "node \<Rightarrow> node"
  prv :: "node \<Rightarrow> node"

definition set_nxt :: "klist \<Rightarrow> node \<Rightarrow> node \<Rightarrow> klist" where
  "set_nxt h a b = h\<lparr>nxt := (nxt h)(a := b)\<rparr>"

definition set_prv :: "klist \<Rightarrow> node \<Rightarrow> node \<Rightarrow> klist" where
  "set_prv h a b = h\<lparr>prv := (prv h)(a := b)\<rparr>"

lemma set_sel [simp]:
  "nxt (set_nxt h a b) = (nxt h)(a := b)" "prv (set_nxt h a b) = prv h"
  "prv (set_prv h a b) = (prv h)(a := b)" "nxt (set_prv h a b) = nxt h"
  by (simp_all add: set_nxt_def set_prv_def)

definition klist_init :: "klist \<Rightarrow> node \<Rightarrow> klist" where
  "klist_init h list_head =
     (let h = set_nxt h list_head list_head in set_prv h list_head list_head)"

definition is_klist_empty :: "klist \<Rightarrow> node \<Rightarrow> bool" where
  "is_klist_empty h list \<longleftrightarrow> nxt h list = list"

definition klist_insert :: "klist \<Rightarrow> node \<Rightarrow> node \<Rightarrow> klist" where
  "klist_insert h head element =
     (let h = set_prv h element (prv h head);
          h = set_nxt h element head;
          h = set_nxt h (prv h head) element
      in set_prv h head element)"

definition klist_add :: "klist \<Rightarrow> node \<Rightarrow> node \<Rightarrow> klist" where
  "klist_add h head element =
     (let h = set_prv h element head;
          h = set_nxt h element (nxt h head);
          h = set_prv h (nxt h head) element
      in set_nxt h head element)"

definition klist_rm :: "klist \<Rightarrow> node \<Rightarrow> klist" where
  "klist_rm h element =
     (let h = set_nxt h (prv h element) (nxt h element)
      in set_prv h (nxt h element) (prv h element))"

definition klist_rm_init :: "klist \<Rightarrow> node \<Rightarrow> klist" where
  "klist_rm_init h element =
     (let h = set_nxt h (prv h element) (nxt h element);
          h = set_prv h (nxt h element) (prv h element);
          h = set_prv h element element
      in set_nxt h element element)"

text \<open>The search loops \<^verbatim>\<open>for (q = head->next; q != head; q = q->next) if (P(q)) break;\<close>.
  The fuel bounds the walk; a ring of \<open>n\<close> elements needs \<open>n + 1\<close> (lemma \<open>klist_walk_ring\<close>).\<close>

fun klist_walk :: "nat \<Rightarrow> klist \<Rightarrow> (node \<Rightarrow> bool) \<Rightarrow> node \<Rightarrow> node \<Rightarrow> node option" where
  "klist_walk 0 h P head q = None"
| "klist_walk (Suc n) h P head q =
     (if q = head \<or> P q then Some q else klist_walk n h P head (nxt h q))"

section \<open>Rings\<close>

fun seg :: "klist \<Rightarrow> node \<Rightarrow> node list \<Rightarrow> node \<Rightarrow> bool" where
  "seg h a [] b \<longleftrightarrow> nxt h a = b \<and> prv h b = a"
| "seg h a (x # xs) b \<longleftrightarrow> nxt h a = x \<and> prv h x = a \<and> seg h x xs b"

definition ring :: "klist \<Rightarrow> node \<Rightarrow> node list \<Rightarrow> bool" where
  "ring h l xs \<longleftrightarrow> distinct (l # xs) \<and> seg h l xs l"

lemma seg_append: "seg h a (xs @ y # ys) b \<longleftrightarrow> seg h a xs y \<and> seg h y ys b"
  by (induction xs arbitrary: a) auto

lemma seg_cong:
  "(\<And>x. x \<in> set (a # xs) \<Longrightarrow> nxt h' x = nxt h x) \<Longrightarrow>
   (\<And>x. x \<in> set (xs @ [b]) \<Longrightarrow> prv h' x = prv h x) \<Longrightarrow> seg h' a xs b = seg h a xs b"
  by (induction xs arbitrary: a) auto

lemma seg_last: "seg h a xs b \<Longrightarrow> prv h b = last (a # xs)"
  by (induction xs arbitrary: a) auto

lemma seg_last_nxt: "seg h a xs b \<Longrightarrow> nxt h (last (a # xs)) = b"
  by (induction xs arbitrary: a) auto

lemma ring_rotate: "ring h l (xs @ n # ys) \<longleftrightarrow> ring h n (ys @ l # xs)"
  by (auto simp: ring_def seg_append)

lemma ring_init: "ring (klist_init h l) l []"
  by (simp add: ring_def klist_init_def)

lemma ring_empty: "ring h l xs \<Longrightarrow> is_klist_empty h l \<longleftrightarrow> xs = []"
  by (cases xs) (auto simp: ring_def is_klist_empty_def)

lemma ring_first: "ring h l (x # xs) \<Longrightarrow> nxt h l = x"
  by (simp add: ring_def)

text \<open>Operations only touch the nodes of their ring and the element, so a ring without common
  nodes is untouched.\<close>

lemma ring_frame:
  assumes "ring h m ys" and "\<And>x. x \<in> set (m # ys) \<Longrightarrow> nxt h' x = nxt h x \<and> prv h' x = prv h x"
  shows "ring h' m ys"
proof -
  have "seg h' m ys m = seg h m ys m" by (rule seg_cong) (use assms(2) in auto)
  with assms(1) show ?thesis by (simp add: ring_def)
qed

lemma seg_set_last:
  "seg h a xs b \<Longrightarrow> distinct (a # xs) \<Longrightarrow> b \<notin> set xs \<Longrightarrow> e \<notin> set (a # b # xs) \<Longrightarrow>
   seg (set_prv (set_nxt (set_nxt (set_prv h e (last (a # xs))) e b) (last (a # xs)) e) b e) a (xs @ [e]) b"
proof (induction xs arbitrary: a)
  case Nil
  then show ?case by auto
next
  case (Cons x xs)
  let ?h = "set_prv (set_nxt (set_nxt (set_prv h e (last (x # xs))) e b) (last (x # xs)) e) b e"
  have "a \<noteq> last (x # xs)" using Cons.prems(2) last_in_set [of "x # xs"] by auto
  then have "nxt ?h a = nxt h a" "prv ?h x = prv h x" using Cons.prems by auto
  with Cons show ?case by auto
qed

lemma ring_klist_insert:
  assumes "ring h l xs" "e \<notin> set (l # xs)" shows "ring (klist_insert h l e) l (xs @ [e])"
proof -
  from assms have s: "seg h l xs l" "distinct (l # xs)" by (auto simp: ring_def)
  from seg_last [OF s(1)] assms(2) have "klist_insert h l e =
      set_prv (set_nxt (set_nxt (set_prv h e (last (l # xs))) e l) (last (l # xs)) e) l e"
    by (auto simp: klist_insert_def Let_def)
  moreover have "seg (set_prv (set_nxt (set_nxt (set_prv h e (last (l # xs))) e l) (last (l # xs)) e) l e)
      l (xs @ [e]) l"
    by (rule seg_set_last [OF s]) (use s assms(2) in auto)
  ultimately show ?thesis using assms by (auto simp: ring_def)
qed

lemma ring_klist_insert_before:
  assumes "ring h l (xs @ n # ys)" "e \<notin> set (l # xs @ n # ys)"
  shows "ring (klist_insert h n e) l (xs @ e # n # ys)"
proof -
  from assms(1) have "ring h n (ys @ l # xs)" by (simp add: ring_rotate)
  then have "ring (klist_insert h n e) n ((ys @ l # xs) @ [e])"
    by (rule ring_klist_insert) (use assms(2) in auto)
  then have "ring (klist_insert h n e) n (ys @ l # xs @ [e])" by simp
  then show ?thesis using ring_rotate [of "klist_insert h n e" l "xs @ [e]" n ys] by simp
qed

lemma ring_rm_first:
  assumes "ring h l (e # ys)" shows "ring (klist_rm h e) l ys"
proof (cases ys)
  case Nil
  with assms show ?thesis by (auto simp: ring_def klist_rm_def Let_def)
next
  case (Cons y zs)
  have "seg (klist_rm h e) y zs l = seg h y zs l"
    by (rule seg_cong) (use assms Cons in \<open>auto simp: ring_def klist_rm_def Let_def\<close>)
  with assms Cons show ?thesis by (auto simp: ring_def klist_rm_def Let_def)
qed

lemma ring_klist_rm:
  assumes "ring h l (xs @ e # ys)" shows "ring (klist_rm h e) l (xs @ ys)"
proof (cases xs rule: rev_cases)
  case Nil
  with assms show ?thesis by (simp add: ring_rm_first)
next
  case (snoc us p)
  with assms have "ring h p (e # ys @ l # us)" using ring_rotate [of h l us p "e # ys"] by simp
  then have "ring (klist_rm h e) p (ys @ l # us)" by (rule ring_rm_first)
  with snoc show ?thesis using ring_rotate [of "klist_rm h e" l us p ys] by simp
qed

lemma ring_klist_rm_init:
  assumes "ring h l (xs @ e # ys)"
  shows "ring (klist_rm_init h e) l (xs @ ys)" and "ring (klist_rm_init h e) e []"
proof -
  have eq: "klist_rm_init h e = klist_init (klist_rm h e) e"
    by (simp add: klist_rm_init_def klist_rm_def klist_init_def Let_def set_nxt_def set_prv_def)
  have "e \<notin> set (l # xs @ ys)" using assms by (auto simp: ring_def)
  then show "ring (klist_rm_init h e) l (xs @ ys)"
    by (intro ring_frame [OF ring_klist_rm [OF assms]]) (auto simp: eq klist_init_def Let_def)
  show "ring (klist_rm_init h e) e []" by (simp add: eq ring_init)
qed

lemma ring_klist_add:
  assumes "ring h l xs" "e \<notin> set (l # xs)" shows "ring (klist_add h l e) l (e # xs)"
proof (cases xs)
  case Nil
  with assms show ?thesis by (auto simp: ring_def klist_add_def Let_def)
next
  case (Cons x ys)
  have "seg (klist_add h l e) x ys l = seg h x ys l"
    by (rule seg_cong) (use assms Cons in \<open>auto simp: ring_def klist_add_def Let_def\<close>)
  with assms Cons show ?thesis by (auto simp: ring_def klist_add_def Let_def)
qed

text \<open>No operation reaches the nodes of another ring.\<close>

lemma ring_klist_insert_frame:
  assumes "ring h l xs" "n \<in> set (l # xs)" "ring h m ys" "set (m # ys) \<inter> set (e # l # xs) = {}"
  shows "ring (klist_insert h n e) m ys"
proof -
  have "prv h n \<in> set (l # xs)"
  proof -
    from assms(2) consider "n = l" | us vs where "xs = us @ n # vs" by (auto simp: in_set_conv_decomp)
    then show ?thesis
    proof cases
      case 1
      with assms(1) have "prv h n = last (l # xs)" by (metis ring_def seg_last)
      then show ?thesis using last_in_set [of "l # xs"] by simp
    next
      case 2
      with assms(1) have "prv h n = last (l # us)" by (metis ring_def seg_append seg_last)
      then show ?thesis using last_in_set [of "l # us"] 2 by auto
    qed
  qed
  with assms show ?thesis
    by (intro ring_frame [OF assms(3)]) (auto simp: klist_insert_def Let_def)
qed

lemma ring_neighbours:
  assumes "ring h l (xs @ e # ys)"
  shows "prv h e = last (l # xs)" and "nxt h e = hd (ys @ [l])"
  using assms by (auto simp: ring_def seg_append dest: seg_last) (cases ys; auto)+

lemma ring_klist_rm_frame:
  assumes r: "ring h l (xs @ e # ys)" and m: "ring h m zs" "set (m # zs) \<inter> set (l # xs @ e # ys) = {}"
  shows "ring (klist_rm h e) m zs" and "ring (klist_rm_init h e) m zs"
proof -
  have n: "prv h e \<in> set (l # xs)" "nxt h e \<in> set (l # ys)"
    using ring_neighbours [OF r] last_in_set [of "l # xs"] by (auto simp: hd_append)
  with m r show "ring (klist_rm h e) m zs" "ring (klist_rm_init h e) m zs"
    by (auto intro!: ring_frame [OF m(1)] simp: klist_rm_def klist_rm_init_def Let_def)
qed

section \<open>Search loops\<close>

lemma klist_walk_seg:
  "seg h a xs l \<Longrightarrow> l \<notin> set xs \<Longrightarrow> length xs < n \<Longrightarrow>
   klist_walk n h P l (nxt h a) = Some (hd (dropWhile (\<lambda>x. \<not> P x) xs @ [l]))"
proof (induction xs arbitrary: a n)
  case Nil
  then show ?case by (cases n) auto
next
  case (Cons x xs)
  then obtain k where "n = Suc k" "length xs < k" by (cases n) auto
  with Cons show ?case by auto
qed

lemma klist_walk_ring:
  "ring h l xs \<Longrightarrow> length xs < n \<Longrightarrow>
   klist_walk n h P l (nxt h l) = Some (hd (dropWhile (\<lambda>x. \<not> P x) xs @ [l]))"
  by (auto simp: ring_def intro: klist_walk_seg)

text \<open>Walk to the first entry satisfying \<open>P\<close> (or back to the head) and link in front of it:
  the code of every sorted list of the kernel.\<close>

definition klist_sorted_insert :: "nat \<Rightarrow> klist \<Rightarrow> (node \<Rightarrow> bool) \<Rightarrow> node \<Rightarrow> node \<Rightarrow> klist option" where
  "klist_sorted_insert n h P head e =
     map_option (\<lambda>q. klist_insert h q e) (klist_walk n h P head (nxt h head))"

lemma klist_sorted_insert_ring:
  assumes r: "ring h l xs" and e: "e \<notin> set (l # xs)" and n: "length xs < n"
  shows "\<exists>h'. klist_sorted_insert n h P l e = Some h' \<and> ring h' l (insert_before P e xs)"
proof (cases "dropWhile (\<lambda>x. \<not> P x) xs")
  case Nil
  then have "insert_before P e xs = xs @ [e]" by (simp add: insert_before_takeWhile)
  with Nil ring_klist_insert [OF r e] klist_walk_ring [OF r n] show ?thesis
    by (simp add: klist_sorted_insert_def del: dropWhile_eq_Nil_conv)
next
  case (Cons q ys)
  let ?us = "takeWhile (\<lambda>x. \<not> P x) xs"
  from Cons have "xs = ?us @ q # ys" by (metis takeWhile_dropWhile_id)
  with r e ring_klist_insert_before [of h l ?us q ys e]
  have "ring (klist_insert h q e) l (?us @ e # q # ys)" by simp
  with Cons klist_walk_ring [OF r n] show ?thesis
    by (simp add: klist_sorted_insert_def insert_before_takeWhile)
qed

section \<open>The contract of the list operations\<close>

text \<open>What the kernel relies on: \<open>holds s l xs\<close> is the ring of \<open>l\<close> in the store \<open>s\<close>. Two rings
  are apart when they share no node. The lemmas are the moves the scheduler makes with the
  list node of a task.\<close>

locale klist_contract =
  fixes holds :: "'s \<Rightarrow> 'n \<Rightarrow> 'n list \<Rightarrow> bool"
    and insert_op :: "'s \<Rightarrow> 'n \<Rightarrow> 'n \<Rightarrow> 's"
    and rm_op :: "'s \<Rightarrow> 'n \<Rightarrow> 's"
    and empty_op :: "'s \<Rightarrow> 'n \<Rightarrow> bool"
  assumes insert_law: "holds s l xs \<Longrightarrow> e \<notin> set (l # xs) \<Longrightarrow> holds (insert_op s l e) l (xs @ [e])"
    and rm_law: "holds s l (xs @ e # ys) \<Longrightarrow> holds (rm_op s e) l (xs @ ys)"
    and empty_law: "holds s l xs \<Longrightarrow> empty_op s l \<longleftrightarrow> xs = []"
    and insert_frame: "holds s l xs \<Longrightarrow> holds s m ys \<Longrightarrow> set (m # ys) \<inter> set (e # l # xs) = {} \<Longrightarrow>
      holds (insert_op s l e) m ys"
    and rm_frame: "holds s l (xs @ e # ys) \<Longrightarrow> holds s m zs \<Longrightarrow>
      set (m # zs) \<inter> set (l # xs @ e # ys) = {} \<Longrightarrow> holds (rm_op s e) m zs"
    and distinct_law: "holds s l xs \<Longrightarrow> distinct (l # xs)"
begin

lemma rm_removeAll: "holds s l xs \<Longrightarrow> e \<in> set xs \<Longrightarrow> holds (rm_op s e) l (removeAll e xs)"
proof -
  assume h: "holds s l xs" and "e \<in> set xs"
  then obtain us vs where xs: "xs = us @ e # vs" by (meson split_list)
  with distinct_law [OF h] have "removeAll e xs = us @ vs" by auto
  with rm_law h xs show ?thesis by simp
qed

text \<open>Unlink a node from one ring and append it to another.\<close>

lemma move:
  assumes "holds s l xs" "holds s m ys" "set (l # xs) \<inter> set (m # ys) = {}" "e \<in> set xs"
  shows "holds (insert_op (rm_op s e) m e) l (removeAll e xs)"
    and "holds (insert_op (rm_op s e) m e) m (ys @ [e])"
proof -
  obtain us vs where xs: "xs = us @ e # vs" using assms(4) by (meson split_list)
  have m: "holds (rm_op s e) m ys"
    using rm_frame [of s l us e vs m ys] assms xs by auto
  have l: "holds (rm_op s e) l (removeAll e xs)" using rm_removeAll assms by simp
  have "e \<noteq> l" using distinct_law [OF assms(1)] assms(4) by auto
  then show "holds (insert_op (rm_op s e) m e) l (removeAll e xs)"
    using insert_frame [OF m l, of e] assms(3) by auto
  show "holds (insert_op (rm_op s e) m e) m (ys @ [e])"
    using insert_law [OF m, of e] assms(3,4) by auto
qed

text \<open>\<^verbatim>\<open>while (!is_klist_empty(l)) klist_rm(l->next)\<close> ends with an empty ring.\<close>

lemma drain: "holds s l xs \<Longrightarrow> holds (fold (\<lambda>e s. rm_op s e) xs s) l []"
proof (induction xs arbitrary: s)
  case (Cons x xs)
  then have "holds (rm_op s x) l xs" using rm_law [of s l "[]" x xs] by simp
  with Cons.IH show ?case by simp
qed simp

lemma drain_empty: "holds s l xs \<Longrightarrow> empty_op (fold (\<lambda>e s. rm_op s e) xs s) l"
  using drain empty_law by blast

end

interpretation kl: klist_contract ring klist_insert klist_rm is_klist_empty
proof unfold_locales
  show "ring (klist_insert s l e) m ys"
    if "ring s l xs" "ring s m ys" "set (m # ys) \<inter> set (e # l # xs) = {}" for s l m e xs ys
    using ring_klist_insert_frame [of s l xs l m ys e] that by simp
  show "distinct (l # xs)" if "ring s l xs" for s l xs using that by (simp add: ring_def)
qed (erule (1) ring_klist_insert, simp_all only: ring_klist_rm ring_empty ring_klist_rm_frame(1))

interpretation kli: klist_contract ring klist_insert klist_rm_init is_klist_empty
proof unfold_locales
  show "ring (klist_insert s l e) m ys"
    if "ring s l xs" "ring s m ys" "set (m # ys) \<inter> set (e # l # xs) = {}" for s l m e xs ys
    using ring_klist_insert_frame [of s l xs l m ys e] that by simp
  show "distinct (l # xs)" if "ring s l xs" for s l xs using that by (simp add: ring_def)
qed (erule (1) ring_klist_insert, simp_all only: ring_klist_rm_init(1) ring_empty ring_klist_rm_frame(2))

end
