(* ===== verification/KRingbuf.thy ===== *)
theory KRingbuf
  imports Rhino_Prelude "HOL-Library.Monad_Syntax"
begin

text \<open>
  The ring buffer (\<^verbatim>\<open>k_ringbuf.c\<close>) behind the message queues: blocks of a fixed size, or records of
  any size, each preceded by its length, that are split at the end of the buffer. Pointers into
  the buffer are offsets from \<^verbatim>\<open>buf\<close>; \<^verbatim>\<open>end\<close> is the length of the buffer. \<^verbatim>\<open>size_t\<close> has 32 bits. A copy
  that would leave the buffer makes the result \<open>None\<close>. The memory behind a caller's pointer is a
  function from offsets to bytes.

  The interface \<open>fifo\<close> states what a queue of messages promises and what follows from it for any
  sequence of operations; both kinds of ring buffer are instances.
\<close>

section \<open>Data\<close>

record k_ringbuf_t =
  rb_mem :: "u8 list"
  rb_head :: nat
  rb_tail :: nat
  freesize :: nat
  rb_type :: nat
  rb_blk_size :: nat

definition RINGBUF_TYPE_FIX :: nat where [simp]: "RINGBUF_TYPE_FIX = 0"
definition RINGBUF_TYPE_DYN :: nat where [simp]: "RINGBUF_TYPE_DYN = 1"
definition RING_BUF_LEN :: nat where [simp]: "RING_BUF_LEN = 4"

abbreviation rb_end :: "k_ringbuf_t \<Rightarrow> nat" where "rb_end r \<equiv> length (rb_mem r)"

text \<open>Arithmetic of \<^verbatim>\<open>size_t\<close>.\<close>

definition sz_add :: "nat \<Rightarrow> nat \<Rightarrow> nat" where "sz_add a b = (a + b) mod 2 ^ 32"
definition sz_sub :: "nat \<Rightarrow> nat \<Rightarrow> nat" where "sz_sub a b = (if b \<le> a then a - b else a + 2 ^ 32 - b)"

text \<open>The bytes of a \<^verbatim>\<open>size_t\<close>, little endian, and back.\<close>

definition size_bytes :: "nat \<Rightarrow> u8 list" where
  "size_bytes n = map (\<lambda>i. of_nat (n div 256 ^ i)) [0..<4]"

definition bytes_size :: "u8 list \<Rightarrow> nat" where
  "bytes_size bs = (\<Sum>i<4. unat (bs ! i) * 256 ^ i)"

definition bytes_at :: "(nat \<Rightarrow> u8) \<Rightarrow> nat \<Rightarrow> u8 list" where
  "bytes_at data n = map data [0..<n]"

text \<open>\<^verbatim>\<open>memcpy\<close> to and from the buffer.\<close>

definition ring_store :: "nat \<Rightarrow> u8 list \<Rightarrow> k_ringbuf_t \<Rightarrow> k_ringbuf_t option" where
  "ring_store p xs r =
     (if p + length xs \<le> rb_end r
      then Some (r\<lparr>rb_mem := take p (rb_mem r) @ xs @ drop (p + length xs) (rb_mem r)\<rparr>) else None)"

definition ring_load :: "nat \<Rightarrow> nat \<Rightarrow> k_ringbuf_t \<Rightarrow> u8 list option" where
  "ring_load p n r = (if p + n \<le> rb_end r then Some (take n (drop p (rb_mem r))) else None)"

section \<open>Operations\<close>

definition ringbuf_reset :: "k_ringbuf_t \<Rightarrow> k_ringbuf_t" where
  "ringbuf_reset r = r\<lparr>rb_head := 0, rb_tail := 0, freesize := rb_end r\<rparr>"

definition ringbuf_init :: "u8 list \<Rightarrow> nat \<Rightarrow> nat \<Rightarrow> k_ringbuf_t" where
  "ringbuf_init buf type block_size =
     ringbuf_reset \<lparr>rb_mem = buf, rb_head = 0, rb_tail = 0, freesize = 0, rb_type = type, rb_blk_size = block_size\<rparr>"

definition wrap_tail :: "k_ringbuf_t \<Rightarrow> k_ringbuf_t" where
  "wrap_tail r = (if rb_tail r = rb_end r then r\<lparr>rb_tail := 0\<rparr> else r)"

definition wrap_head :: "k_ringbuf_t \<Rightarrow> k_ringbuf_t" where
  "wrap_head r = (if rb_head r = rb_end r then r\<lparr>rb_head := 0\<rparr> else r)"

text \<open>The two halves of \<^verbatim>\<open>ringbuf_push\<close> for records: the length, then the data, each split when it
  would cross the end of the buffer.\<close>

definition push_length :: "u8 list \<Rightarrow> k_ringbuf_t \<Rightarrow> k_ringbuf_t option" where
  "push_length c_len r =
     (let r = wrap_tail r;
          split_len = rb_end r - rb_tail r
      in do {
        (r, split_len, len_bytes) \<leftarrow>
          (if rb_tail r \<ge> rb_head r \<and> split_len < RING_BUF_LEN \<and> split_len > 0 then do {
             r \<leftarrow> ring_store (rb_tail r) (take split_len c_len) r;
             Some (r\<lparr>rb_tail := 0, freesize := sz_sub (freesize r) split_len\<rparr>, split_len, RING_BUF_LEN - split_len) }
           else Some (r, 0, RING_BUF_LEN));
        if len_bytes > 0 then do {
          r \<leftarrow> ring_store (rb_tail r) (take len_bytes (drop split_len c_len)) r;
          Some (r\<lparr>rb_tail := rb_tail r + len_bytes, freesize := sz_sub (freesize r) len_bytes\<rparr>) }
        else Some r })"

definition push_data :: "u8 list \<Rightarrow> k_ringbuf_t \<Rightarrow> k_ringbuf_t option" where
  "push_data data r =
     (let r = wrap_tail r;
          split_len = rb_end r - rb_tail r
      in do {
        (r, data) \<leftarrow>
          (if rb_tail r \<ge> rb_head r \<and> split_len < length data \<and> split_len > 0 then do {
             r \<leftarrow> ring_store (rb_tail r) (take split_len data) r;
             Some (r\<lparr>rb_tail := 0, freesize := sz_sub (freesize r) split_len\<rparr>, drop split_len data) }
           else Some (r, data));
        r \<leftarrow> ring_store (rb_tail r) data r;
        Some (r\<lparr>rb_tail := rb_tail r + length data, freesize := sz_sub (freesize r) (length data)\<rparr>) })"

definition ringbuf_push :: "k_ringbuf_t \<Rightarrow> (nat \<Rightarrow> u8) \<Rightarrow> nat \<Rightarrow> (k_ringbuf_t \<times> kstat_t) option" where
  "ringbuf_push r data len =
     (if rb_type r = RINGBUF_TYPE_FIX then
        if freesize r < rb_blk_size r then Some (r, RHINO_RINGBUF_FULL)
        else do {
          let r = wrap_tail r;
          r \<leftarrow> ring_store (rb_tail r) (bytes_at data (rb_blk_size r)) r;
          Some (r\<lparr>rb_tail := rb_tail r + rb_blk_size r, freesize := sz_sub (freesize r) (rb_blk_size r)\<rparr>,
                RHINO_SUCCESS) }
      else if len = 0 \<or> len \<ge> 2 ^ 32 - 1 then Some (r, RHINO_INV_PARAM)
      else if freesize r < sz_add RING_BUF_LEN len then Some (r, RHINO_RINGBUF_FULL)
      else do {
        r \<leftarrow> push_length (size_bytes len) r;
        r \<leftarrow> push_data (bytes_at data len) r;
        Some (r, RHINO_SUCCESS) })"

text \<open>The two halves of \<^verbatim>\<open>ringbuf_pop\<close> for records.\<close>

definition pop_length :: "k_ringbuf_t \<Rightarrow> (k_ringbuf_t \<times> u8 list) option" where
  "pop_length r =
     (let r = wrap_head r;
          split_len = rb_end r - rb_head r
      in do {
        (r, c_len, split_len) \<leftarrow>
          (if split_len < RING_BUF_LEN \<and> split_len > 0 then do {
             c \<leftarrow> ring_load (rb_head r) split_len r;
             Some (r\<lparr>rb_head := 0, freesize := sz_add (freesize r) split_len\<rparr>, c, split_len) }
           else Some (r, [], 0));
        if RING_BUF_LEN - split_len > 0 then do {
          c \<leftarrow> ring_load (rb_head r) (RING_BUF_LEN - split_len) r;
          Some (r\<lparr>rb_head := rb_head r + (RING_BUF_LEN - split_len),
                  freesize := sz_add (freesize r) (RING_BUF_LEN - split_len)\<rparr>, c_len @ c) }
        else Some (r, c_len) })"

definition pop_data :: "nat \<Rightarrow> k_ringbuf_t \<Rightarrow> (k_ringbuf_t \<times> u8 list) option" where
  "pop_data len r =
     (let r = wrap_head r;
          split_len = rb_end r - rb_head r
      in do {
        (r, out, len) \<leftarrow>
          (if rb_head r > rb_tail r \<and> split_len < len then do {
             xs \<leftarrow> ring_load (rb_head r) split_len r;
             Some (r\<lparr>rb_head := 0, freesize := sz_add (freesize r) split_len\<rparr>, xs, len - split_len) }
           else Some (r, [], len));
        xs \<leftarrow> ring_load (rb_head r) len r;
        Some (r\<lparr>rb_head := rb_head r + len, freesize := sz_add (freesize r) len\<rparr>, out @ xs) })"

text \<open>The results are the buffer, what is written from \<open>pdata\<close> on, and the length stored in \<open>*plen\<close>.\<close>

definition ringbuf_pop :: "k_ringbuf_t \<Rightarrow> (k_ringbuf_t \<times> u8 list \<times> nat) option" where
  "ringbuf_pop r =
     (if rb_type r = RINGBUF_TYPE_FIX then do {
        let r = wrap_head r;
        xs \<leftarrow> ring_load (rb_head r) (rb_blk_size r) r;
        Some (r\<lparr>rb_head := rb_head r + rb_blk_size r, freesize := sz_add (freesize r) (rb_blk_size r)\<rparr>,
              xs, rb_blk_size r) }
      else do {
        (r, c_len) \<leftarrow> pop_length r;
        let len = bytes_size c_len;
        (r, xs) \<leftarrow> pop_data len r;
        Some (r, xs, len) })"

definition ringbuf_is_full :: "k_ringbuf_t \<Rightarrow> bool" where
  "ringbuf_is_full r \<longleftrightarrow>
     rb_type r = RINGBUF_TYPE_DYN \<and> freesize r < RING_BUF_LEN + 1 \<or>
     rb_type r = RINGBUF_TYPE_FIX \<and> freesize r < rb_blk_size r"

definition ringbuf_is_empty :: "k_ringbuf_t \<Rightarrow> bool" where
  "ringbuf_is_empty r \<longleftrightarrow> freesize r = rb_end r"

section \<open>The bytes in the ring\<close>

definition rb_used :: "k_ringbuf_t \<Rightarrow> nat" where "rb_used r = rb_end r - freesize r"

definition rb_at :: "k_ringbuf_t \<Rightarrow> nat \<Rightarrow> u8" where
  "rb_at r i = rb_mem r ! ((rb_head r + i) mod rb_end r)"

definition rb_content :: "k_ringbuf_t \<Rightarrow> u8 list" where
  "rb_content r = map (rb_at r) [0..<rb_used r]"

definition rb_ok :: "k_ringbuf_t \<Rightarrow> bool" where
  "rb_ok r \<longleftrightarrow> 0 < rb_end r \<and> rb_end r < 2 ^ 32 \<and> rb_head r \<le> rb_end r \<and> rb_tail r \<le> rb_end r \<and>
     freesize r \<le> rb_end r \<and> (rb_head r + rb_used r) mod rb_end r = rb_tail r mod rb_end r"

lemma length_content [simp]: "length (rb_content r) = rb_used r"
  by (simp add: rb_content_def)

lemma wrap_sel [simp]:
  "rb_mem (wrap_tail r) = rb_mem r" "rb_head (wrap_tail r) = rb_head r" "freesize (wrap_tail r) = freesize r"
  "rb_type (wrap_tail r) = rb_type r" "rb_blk_size (wrap_tail r) = rb_blk_size r"
  "rb_mem (wrap_head r) = rb_mem r" "rb_tail (wrap_head r) = rb_tail r" "freesize (wrap_head r) = freesize r"
  "rb_type (wrap_head r) = rb_type r" "rb_blk_size (wrap_head r) = rb_blk_size r"
  "rb_used (wrap_tail r) = rb_used r" "rb_used (wrap_head r) = rb_used r"
  by (simp_all add: wrap_tail_def wrap_head_def rb_used_def)

lemma rb_used_upd [simp]:
  "rb_used (r\<lparr>rb_head := a\<rparr>) = rb_used r" "rb_used (r\<lparr>rb_tail := b\<rparr>) = rb_used r"
  by (simp_all add: rb_used_def)

lemma wrap_ok:
  assumes "rb_ok r"
  shows "rb_ok (wrap_tail r)" "rb_content (wrap_tail r) = rb_content r" "rb_tail (wrap_tail r) < rb_end r"
    "rb_ok (wrap_head r)" "rb_content (wrap_head r) = rb_content r" "rb_head (wrap_head r) < rb_end r"
  using assms
  by (auto simp: rb_ok_def wrap_tail_def wrap_head_def rb_content_def rb_at_def [abs_def])

text \<open>Writing a run of bytes at the tail.\<close>

abbreviation rb_put :: "u8 list \<Rightarrow> k_ringbuf_t \<Rightarrow> k_ringbuf_t" where
  "rb_put xs r \<equiv> r\<lparr>rb_mem := take (rb_tail r) (rb_mem r) @ xs @ drop (rb_tail r + length xs) (rb_mem r),
     rb_tail := rb_tail r + length xs, freesize := freesize r - length xs\<rparr>"

lemma mod_inj:
  assumes "a mod n = b mod n" "a \<le> b" "b < a + n" shows "a = (b :: nat)"
proof -
  have "n dvd b - a" using assms(1,2) by (metis mod_eq_dvd_iff_nat)
  moreover have "b - a < n" using assms(2,3) by simp
  ultimately have "b - a = 0" by (metis dvd_imp_le not_gr_zero not_less)
  with assms(2) show ?thesis by simp
qed

lemma put_ok:
  assumes r: "rb_ok r" and f: "length xs \<le> freesize r" and l: "rb_tail r + length xs \<le> rb_end r"
  shows "rb_ok (rb_put xs r)" "rb_content (rb_put xs r) = rb_content r @ xs" "rb_end (rb_put xs r) = rb_end r"
proof -
  let ?n = "rb_end r" and ?u = "rb_used r" and ?h = "rb_head r" and ?p = "rb_put xs r"
  show e: "rb_end ?p = ?n" using l by simp
  have w: "0 < ?n" "freesize r \<le> ?n" "(?h + ?u) mod ?n = rb_tail r mod ?n" "rb_tail r \<le> ?n"
    using r by (auto simp: rb_ok_def)
  have u: "rb_used ?p = ?u + length xs" using f w(2) l by (simp add: rb_used_def)
  have pos: "(?h + (?u + j)) mod ?n = (rb_tail r + j) mod ?n" for j
    using w(3) by (metis add.assoc mod_add_left_eq)
  show "rb_ok ?p"
    using r f l pos [of "length xs"] unfolding rb_ok_def e u by (auto simp: add.assoc)
  have old: "rb_at ?p i = rb_at r i" if i: "i < ?u" for i
  proof -
    let ?q = "(?h + i) mod ?n"
    have q: "?q < ?n" using w(1) by simp
    have "?q < rb_tail r \<or> rb_tail r + length xs \<le> ?q"
    proof (rule ccontr)
      assume "\<not> ?thesis"
      then obtain j where j: "?q = rb_tail r + j" "j < length xs"
        by (metis add_diff_inverse_nat less_diff_conv2 linorder_not_less nat_add_left_cancel_less)
      then have "(?h + i) mod ?n = (?h + (?u + j)) mod ?n" using pos [of j] q by simp
      then have "?h + i = ?h + (?u + j)"
        by (rule mod_inj) (use i j f w(2) in \<open>auto simp: rb_used_def\<close>)
      with i show False by simp
    qed
    then show ?thesis using q l unfolding rb_at_def e by (auto simp: nth_append)
  qed
  have new: "rb_at ?p (?u + j) = xs ! j" if j: "j < length xs" for j
  proof -
    have "(?h + (?u + j)) mod ?n = rb_tail r + j" using pos [of j] j l by simp
    then show ?thesis using j l w(4) unfolding rb_at_def e by (simp add: nth_append)
  qed
  show "rb_content ?p = rb_content r @ xs"
  proof (rule nth_equalityI)
    show "length (rb_content ?p) = length (rb_content r @ xs)" by (simp add: u)
    fix i assume "i < length (rb_content ?p)"
    then have i: "i < ?u + length xs" by (simp add: u)
    show "rb_content ?p ! i = (rb_content r @ xs) ! i"
    proof (cases "i < ?u")
      case True
      with i u old show ?thesis by (simp add: rb_content_def nth_append del: upt_Suc)
    next
      case False
      then obtain j where "i = ?u + j" by (metis le_Suc_ex not_less)
      with i u new show ?thesis by (simp add: rb_content_def nth_append)
    qed
  qed
qed

text \<open>Reading a run of bytes at the head.\<close>

abbreviation rb_drop :: "nat \<Rightarrow> k_ringbuf_t \<Rightarrow> k_ringbuf_t" where
  "rb_drop k r \<equiv> r\<lparr>rb_head := rb_head r + k, freesize := freesize r + k\<rparr>"

lemma drop_ok:
  assumes r: "rb_ok r" and c: "rb_content r = xs @ rest" and l: "rb_head r + length xs \<le> rb_end r"
  shows "rb_ok (rb_drop (length xs) r)" "rb_content (rb_drop (length xs) r) = rest"
    "take (length xs) (drop (rb_head r) (rb_mem r)) = xs"
proof -
  let ?n = "rb_end r" and ?u = "rb_used r" and ?h = "rb_head r" and ?k = "length xs"
  have w: "0 < ?n" "freesize r \<le> ?n" "(?h + ?u) mod ?n = rb_tail r mod ?n" using r by (auto simp: rb_ok_def)
  have u: "?u = ?k + length rest" using arg_cong [OF c, of length] by simp
  have u': "rb_used (rb_drop ?k r) = length rest" using u w(2) by (simp add: rb_used_def)
  show "rb_ok (rb_drop ?k r)"
    using r l u w(3) unfolding rb_ok_def u' by (auto simp: rb_used_def add.assoc)
  have at: "rb_at r i = (xs @ rest) ! i" if "i < ?u" for i
    using that arg_cong [OF c, of "\<lambda>ys. ys ! i"] by (simp add: rb_content_def)
  show "rb_content (rb_drop ?k r) = rest"
  proof (rule nth_equalityI)
    fix i assume "i < length (rb_content (rb_drop ?k r))"
    then have i: "i < length rest" by (simp add: u')
    have "rb_at (rb_drop ?k r) i = rb_at r (?k + i)" by (simp add: rb_at_def add.assoc)
    with i at [of "?k + i"] u show "rb_content (rb_drop ?k r) ! i = rest ! i"
      by (simp add: rb_content_def u' nth_append)
  qed (simp add: u')
  show "take ?k (drop ?h (rb_mem r)) = xs"
  proof (rule nth_equalityI)
    fix i assume "i < length (take ?k (drop ?h (rb_mem r)))"
    then have i: "i < ?k" using l by simp
    then have "rb_at r i = rb_mem r ! (?h + i)" using l by (simp add: rb_at_def)
    with i at [of i] u l show "take ?k (drop ?h (rb_mem r)) ! i = xs ! i" by (simp add: nth_append)
  qed (use l in simp)
qed

text \<open>Where a run fits without a split.\<close>

lemma tail_room:
  assumes r: "rb_ok r" and t: "rb_tail r < rb_head r" and k: "0 < k" "k \<le> freesize r"
  shows "rb_tail r + k \<le> rb_head r"
proof -
  let ?n = "rb_end r"
  have w: "0 < ?n" "rb_head r \<le> ?n" "freesize r \<le> ?n" "(rb_head r + rb_used r) mod ?n = rb_tail r mod ?n"
    using r by (auto simp: rb_ok_def)
  have "(rb_tail r + freesize r) mod ?n = (rb_head r + rb_used r + freesize r) mod ?n"
    using w(4) by (metis mod_add_left_eq)
  also have "\<dots> = rb_head r mod ?n" using w(3) by (simp add: rb_used_def)
  finally have e: "(rb_tail r + freesize r) mod ?n = rb_head r mod ?n" .
  show ?thesis
  proof (rule ccontr)
    assume n: "\<not> ?thesis"
    have "rb_head r = rb_tail r + freesize r"
      by (rule mod_inj [OF e [symmetric]]) (use n k t w in auto)
    with n k show False by simp
  qed
qed

lemma head_room:
  assumes r: "rb_ok r" and h: "rb_head r \<le> rb_tail r" and k: "k \<le> rb_used r" and u: "rb_used r < rb_end r"
  shows "rb_head r + k \<le> rb_tail r"
proof -
  let ?n = "rb_end r"
  have w: "0 < ?n" "rb_tail r \<le> ?n" "(rb_head r + rb_used r) mod ?n = rb_tail r mod ?n"
    using r by (auto simp: rb_ok_def)
  show ?thesis
  proof (rule ccontr)
    assume n: "\<not> ?thesis"
    have "rb_tail r = rb_head r + rb_used r"
      by (rule mod_inj [OF w(3) [symmetric]]) (use n k h u in auto)
    with n k show False by simp
  qed
qed

text \<open>A run of bytes, written in one piece or split at the end of the buffer.\<close>

lemma put_full:
  assumes "rb_tail r + length xs = rb_end r"
  shows "wrap_tail (rb_put xs r) = r\<lparr>rb_mem := take (rb_tail r) (rb_mem r) @ xs @ drop (rb_tail r + length xs) (rb_mem r),
    rb_tail := 0, freesize := freesize r - length xs\<rparr>"
proof -
  have "wrap_tail (rb_put xs r) = (rb_put xs r)\<lparr>rb_tail := 0\<rparr>" using assms by (simp add: wrap_tail_def)
  also have "\<dots> = r\<lparr>rb_mem := take (rb_tail r) (rb_mem r) @ xs @ drop (rb_tail r + length xs) (rb_mem r),
    rb_tail := 0, freesize := freesize r - length xs\<rparr>" by (rule k_ringbuf_t.equality) simp_all
  finally show ?thesis .
qed

lemma store_tail:
  assumes "rb_ok r" "length xs \<le> freesize r" "rb_tail r + length xs \<le> rb_end r"
  shows "\<exists>r'. ring_store (rb_tail r) xs r = Some r' \<and>
    r'\<lparr>rb_tail := rb_tail r + length xs, freesize := sz_sub (freesize r) (length xs)\<rparr> = rb_put xs r \<and>
    rb_tail r' = rb_tail r \<and> freesize r' = freesize r"
  using assms(2,3) by (simp add: ring_store_def sz_sub_def)

lemma push_data_ok:
  assumes r: "rb_ok r" and x: "0 < length xs" "length xs \<le> freesize r"
  shows "\<exists>r'. push_data xs r = Some r' \<and> rb_ok r' \<and> rb_content r' = rb_content r @ xs \<and> rb_end r' = rb_end r \<and>
    freesize r' = freesize r - length xs \<and> rb_type r' = rb_type r \<and> rb_blk_size r' = rb_blk_size r"
proof -
  define w where "w = wrap_tail r"
  have w: "rb_ok w" "rb_content w = rb_content r" "rb_tail w < rb_end w" "rb_end w = rb_end r"
    "freesize w = freesize r" "rb_type w = rb_type r" "rb_blk_size w = rb_blk_size r"
    using wrap_ok [OF r] by (simp_all add: w_def)
  have xw: "length xs \<le> freesize w" using x w by simp
  define k where "k = rb_end w - rb_tail w"
  have k: "0 < k" "rb_tail w + k = rb_end w" using w(3) by (simp_all add: k_def)
  show ?thesis
  proof (cases "rb_tail w \<ge> rb_head w \<and> k < length xs")
    case True
    define p where "p = wrap_tail (rb_put (take k xs) w)"
    have lt: "length (take k xs) = k" using True by simp
    have pe: "p = w\<lparr>rb_mem := take (rb_tail w) (rb_mem w) @ take k xs @ drop (rb_tail w + k) (rb_mem w),
        rb_tail := 0, freesize := freesize w - k\<rparr>"
      using put_full [of w "take k xs"] lt k(2) by (simp add: p_def)
    have fit: "length (take k xs) \<le> freesize w" "rb_tail w + length (take k xs) \<le> rb_end w"
      using lt k True xw by simp_all
    note put = put_ok [OF w(1) fit]
    have p: "rb_ok p" "rb_content p = rb_content w @ take k xs" "rb_end p = rb_end w"
      unfolding p_def wrap_ok(2) [OF put(1)] wrap_sel by (rule wrap_ok(1) [OF put(1)], rule put(2), rule put(3))
    have p': "freesize p = freesize w - k" "rb_tail p = 0" "rb_type p = rb_type w" "rb_blk_size p = rb_blk_size w"
      by (simp_all add: pe)
    have fit2: "length (drop k xs) \<le> freesize p" "rb_tail p + length (drop k xs) \<le> rb_end p"
      using xw p' p(3) w(1) by (auto simp: rb_ok_def)
    note put2 = put_ok [OF p(1) fit2]
    obtain q where q: "ring_store (rb_tail w) (take k xs) w = Some q"
      "q\<lparr>rb_tail := 0, freesize := sz_sub (freesize w) k\<rparr> = p" "freesize q = freesize w"
      using fit True xw by (simp add: pe lt sz_sub_def ring_store_def)
    obtain q2 where q2: "ring_store (rb_tail p) (drop k xs) p = Some q2"
      "q2\<lparr>rb_tail := rb_tail p + length (drop k xs), freesize := sz_sub (freesize p) (length (drop k xs))\<rparr> = rb_put (drop k xs) p"
      "rb_tail q2 = rb_tail p" "freesize q2 = freesize p"
      using store_tail [OF p(1) fit2] by blast
    have "push_data xs r = Some (rb_put (drop k xs) p)"
      using True k q q2
      unfolding push_data_def w_def [symmetric] Let_def k_def [symmetric] by simp
    moreover have "rb_content (rb_put (drop k xs) p) = rb_content r @ xs"
      using put2(2) unfolding p(2) w(2) by (simp only: append_assoc append_take_drop_id)
    ultimately show ?thesis using put2(1,3) p(3) p' w lt True by (intro exI [of _ "rb_put (drop k xs) p"]) simp
  next
    case False
    have l: "rb_tail w + length xs \<le> rb_end w"
    proof (cases "rb_head w \<le> rb_tail w")
      case F: False
      have "rb_tail w + length xs \<le> rb_head w" by (rule tail_room [OF w(1) _ x(1) xw]) (use F in simp)
      then show ?thesis using w(1) by (simp add: rb_ok_def)
    qed (use False k in simp)
    note put = put_ok [OF w(1) xw l]
    obtain q where q: "ring_store (rb_tail w) xs w = Some q"
      "q\<lparr>rb_tail := rb_tail w + length xs, freesize := sz_sub (freesize w) (length xs)\<rparr> = rb_put xs w"
      "rb_tail q = rb_tail w" "freesize q = freesize w"
      using store_tail [OF w(1) xw l] by blast
    have "push_data xs r = Some (rb_put xs w)"
      using False q unfolding push_data_def w_def [symmetric] Let_def k_def [symmetric] by auto
    then show ?thesis using put w by (intro exI [of _ "rb_put xs w"]) simp
  qed
qed

text \<open>The length is written in the same way.\<close>

lemma push_length_data:
  assumes "length c = RING_BUF_LEN" shows "push_length c r = push_data c r"
proof -
  have "take (4 - k) (drop k c) = drop k c" for k using assms by simp
  then show ?thesis using assms
    by (auto simp: push_length_def push_data_def Let_def split: bind_splits)
qed

lemma length_size_bytes [simp]: "length (size_bytes n) = 4"
  by (simp add: size_bytes_def)

lemma length_bytes_at [simp]: "length (bytes_at d n) = n"
  by (simp add: bytes_at_def)

lemma bytes_size_bytes:
  assumes "n < 2 ^ 32" shows "bytes_size (size_bytes n) = n"
proof -
  define a b c where abc: "a = n div 256" "b = a div 256" "c = b div 256"
  have d: "n div 65536 = b" "n div 16777216 = c" by (simp_all add: abc div_mult2_eq [symmetric])
  have sum4: "(\<Sum>i<4. f i) = f 0 + f 1 + f 2 + f 3" for f :: "nat \<Rightarrow> nat" by (simp add: eval_nat_numeral)
  have u: "unat (of_nat m :: u8) = m mod 256" for m by (subst unat_of_nat) simp
  have l: "size_bytes n = [of_nat n, of_nat a, of_nat b, of_nat c]"
    by (simp add: size_bytes_def upt_rec d abc(1))
  have "bytes_size (size_bytes n) = n mod 256 + (a mod 256) * 256 + (b mod 256) * 65536 + (c mod 256) * 16777216"
    by (simp add: bytes_size_def l sum4 u)
  moreover have "n = 256 * a + n mod 256" "a = 256 * b + a mod 256" "b = 256 * c + b mod 256"
    by (simp_all add: abc)
  moreover have "c < 256" using assms by (simp add: d(2) [symmetric] less_mult_imp_div_less)
  then have "c mod 256 = c" by simp
  ultimately show ?thesis by linarith
qed

text \<open>Reading a run.\<close>

lemma load_head:
  assumes r: "rb_ok r" and c: "rb_content r = xs @ rest" and l: "rb_head r + length xs \<le> rb_end r"
  shows "ring_load (rb_head r) (length xs) r = Some xs" "sz_add (freesize r) (length xs) = freesize r + length xs"
proof -
  show "ring_load (rb_head r) (length xs) r = Some xs" using drop_ok(3) [OF r c l] l by (simp add: ring_load_def)
  have "rb_used r = length xs + length rest" using arg_cong [OF c, of length] by simp
  then have "freesize r + length xs \<le> rb_end r" "rb_end r < 2 ^ 32" using r by (auto simp: rb_ok_def rb_used_def)
  then show "sz_add (freesize r) (length xs) = freesize r + length xs" by (simp add: sz_add_def)
qed

lemma drop_full:
  assumes "rb_head r + k = rb_end r"
  shows "wrap_head (rb_drop k r) = r\<lparr>rb_head := 0, freesize := freesize r + k\<rparr>"
proof -
  have "wrap_head (rb_drop k r) = (rb_drop k r)\<lparr>rb_head := 0\<rparr>" using assms by (simp add: wrap_head_def)
  also have "\<dots> = r\<lparr>rb_head := 0, freesize := freesize r + k\<rparr>" by (rule k_ringbuf_t.equality) simp_all
  finally show ?thesis .
qed

text \<open>A run that ends at the end of the buffer, then the rest of it from the start.\<close>

lemma load_split:
  assumes r: "rb_ok r" and c: "rb_content r = xs @ ys @ rest" and l: "rb_head r + length xs = rb_end r"
  defines "p \<equiv> r\<lparr>rb_head := 0, freesize := sz_add (freesize r) (length xs)\<rparr>"
  shows "rb_ok p" "rb_content p = ys @ rest" "rb_end p = rb_end r" "rb_head p + length ys \<le> rb_end p"
    "ring_load (rb_head r) (length xs) r = Some xs" "rb_head p = 0" "rb_type p = rb_type r"
    "rb_blk_size p = rb_blk_size r" "freesize p = freesize r + length xs"
proof -
  note d = drop_ok [OF r c eq_imp_le [OF l]] and h = load_head [OF r c eq_imp_le [OF l]]
  have p: "p = wrap_head (rb_drop (length xs) r)"
    unfolding p_def h(2) using drop_full [OF l] by simp
  show "rb_ok p" "rb_content p = ys @ rest" unfolding p using wrap_ok [OF d(1)] d(2) by simp_all
  show "rb_end p = rb_end r" "rb_head p = 0" "rb_type p = rb_type r" "rb_blk_size p = rb_blk_size r"
    by (simp_all add: p_def)
  show "ring_load (rb_head r) (length xs) r = Some xs" by (rule h)
  show "freesize p = freesize r + length xs" by (simp add: p_def h(2))
  have "length xs + length ys + length rest = rb_used r" using arg_cong [OF c, of length] by simp
  then show "rb_head p + length ys \<le> rb_end p" by (simp add: p_def rb_used_def)
qed

lemma pop_data_ok:
  assumes r: "rb_ok r" and c: "rb_content r = xs @ rest" and u: "rb_used r < rb_end r"
  shows "\<exists>r'. pop_data (length xs) r = Some (r', xs) \<and> rb_ok r' \<and> rb_content r' = rest \<and> rb_end r' = rb_end r \<and>
    freesize r' = freesize r + length xs \<and> rb_type r' = rb_type r \<and> rb_blk_size r' = rb_blk_size r"
proof -
  define w where "w = wrap_head r"
  have w: "rb_ok w" "rb_content w = rb_content r" "rb_head w < rb_end w" "rb_end w = rb_end r"
    "freesize w = freesize r" "rb_type w = rb_type r" "rb_blk_size w = rb_blk_size r" "rb_used w = rb_used r"
    using wrap_ok [OF r] by (simp_all add: w_def)
  have xu: "length xs \<le> rb_used w" using arg_cong [OF c, of length] w(8) by simp
  define k where "k = rb_end w - rb_head w"
  have k: "0 < k" "rb_head w + k = rb_end w" using w(3) by (simp_all add: k_def)
  show ?thesis
  proof (cases "rb_head w > rb_tail w \<and> k < length xs")
    case True
    have lt: "length (take k xs) = k" using True by simp
    have c': "rb_content w = take k xs @ drop k xs @ rest" using c w(2) by (metis append_assoc append_take_drop_id)
    have e: "rb_head w + length (take k xs) = rb_end w" using lt k by simp
    note s = load_split [OF w(1) c' e, unfolded lt]
    define p where "p = w\<lparr>rb_head := 0, freesize := sz_add (freesize w) k\<rparr>"
    note s = s [folded p_def]
    note h = load_head [OF s(1,2,4)] and d = drop_ok [OF s(1,2,4)]
    have "pop_data (length xs) r = Some (rb_drop (length xs - k) p, xs)"
      using True h s(5,6) unfolding pop_data_def w_def [symmetric] Let_def k_def [symmetric] by (simp add: p_def)
    then show ?thesis using d s w True by (intro exI [of _ "rb_drop (length xs - k) p"]) simp
  next
    case False
    have l: "rb_head w + length xs \<le> rb_end w"
    proof (cases "rb_head w \<le> rb_tail w")
      case True
      have "rb_head w + length xs \<le> rb_tail w" by (rule head_room [OF w(1) True xu]) (use u w in simp)
      then show ?thesis using w(1) by (simp add: rb_ok_def)
    qed (use False k in simp)
    have c': "rb_content w = xs @ rest" using c w(2) by simp
    note h = load_head [OF w(1) c' l] and d = drop_ok [OF w(1) c' l]
    have "pop_data (length xs) r = Some (rb_drop (length xs) w, xs)"
      using False h unfolding pop_data_def w_def [symmetric] Let_def k_def [symmetric] by auto
    then show ?thesis using d w by (intro exI [of _ "rb_drop (length xs) w"]) simp
  qed
qed

lemma pop_length_ok:
  assumes r: "rb_ok r" and c: "rb_content r = xs @ rest" and x: "length xs = 4"
  shows "\<exists>r'. pop_length r = Some (r', xs) \<and> rb_ok r' \<and> rb_content r' = rest \<and> rb_end r' = rb_end r \<and>
    freesize r' = freesize r + 4 \<and> rb_type r' = rb_type r \<and> rb_blk_size r' = rb_blk_size r"
proof -
  define w where "w = wrap_head r"
  have w: "rb_ok w" "rb_content w = rb_content r" "rb_head w < rb_end w" "rb_end w = rb_end r"
    "freesize w = freesize r" "rb_type w = rb_type r" "rb_blk_size w = rb_blk_size r"
    using wrap_ok [OF r] by (simp_all add: w_def)
  define k where "k = rb_end w - rb_head w"
  have k: "0 < k" "rb_head w + k = rb_end w" using w(3) by (simp_all add: k_def)
  show ?thesis
  proof (cases "k < 4")
    case True
    have lt: "length (take k xs) = k" using True x by simp
    have c': "rb_content w = take k xs @ drop k xs @ rest" using c w(2) by (metis append_assoc append_take_drop_id)
    have e: "rb_head w + length (take k xs) = rb_end w" using lt k by simp
    note s = load_split [OF w(1) c' e, unfolded lt]
    define p where "p = w\<lparr>rb_head := 0, freesize := sz_add (freesize w) k\<rparr>"
    note s = s [folded p_def]
    note h = load_head [OF s(1,2,4)] and d = drop_ok [OF s(1,2,4)]
    have "pop_length r = Some (rb_drop (4 - k) p, xs)"
      using True k x h s(5,6) unfolding pop_length_def w_def [symmetric] Let_def k_def [symmetric]
      by (simp add: p_def)
    then show ?thesis using d s w True x by (intro exI [of _ "rb_drop (4 - k) p"]) simp
  next
    case False
    have c': "rb_content w = xs @ rest" using c w(2) by simp
    have l: "rb_head w + length xs \<le> rb_end w" using False k x by simp
    note h = load_head [OF w(1) c' l] and d = drop_ok [OF w(1) c' l]
    have "pop_length r = Some (rb_drop 4 w, xs)"
      using False h x unfolding pop_length_def w_def [symmetric] Let_def k_def [symmetric] by auto
    then show ?thesis using d w x by (intro exI [of _ "rb_drop 4 w"]) simp
  qed
qed

section \<open>First in, first out\<close>

text \<open>A sequence of operations on a message queue, the way the kernel uses a ring buffer: a put may be
  refused, and a get is only tried while the counter of stored messages is positive. The results
  are the queue, the counter, the accepted and the received messages; \<open>None\<close> is an access outside the
  buffer.\<close>

datatype 'm qop = Put 'm | Get

fun fifo_run :: "('m \<Rightarrow> 's \<Rightarrow> ('s \<times> kstat_t) option) \<Rightarrow> ('s \<Rightarrow> ('s \<times> 'm) option) \<Rightarrow> 'm qop list \<Rightarrow>
    's \<Rightarrow> nat \<Rightarrow> ('s \<times> nat \<times> 'm list \<times> 'm list) option" where
  "fifo_run put get [] s n = Some (s, n, [], [])"
| "fifo_run put get (Put m # ops) s n = do {
     (s, st) \<leftarrow> put m s;
     if st = RHINO_SUCCESS then do {
       (s, n, acc, got) \<leftarrow> fifo_run put get ops s (Suc n);
       Some (s, n, m # acc, got) }
     else fifo_run put get ops s n }"
| "fifo_run put get (Get # ops) s n =
     (if n = 0 then fifo_run put get ops s n
      else do {
        (s, m) \<leftarrow> get s;
        (s, n, acc, got) \<leftarrow> fifo_run put get ops s (n - 1);
        Some (s, n, acc, m # got) })"

locale fifo =
  fixes put :: "'m \<Rightarrow> 's \<Rightarrow> ('s \<times> kstat_t) option" and get :: "'s \<Rightarrow> ('s \<times> 'm) option"
    and holds :: "'s \<Rightarrow> 'm list \<Rightarrow> bool" and valid :: "'m \<Rightarrow> bool" and room :: "'m \<Rightarrow> 's \<Rightarrow> bool"
  assumes put_room: "holds s ms \<Longrightarrow> valid m \<Longrightarrow> room m s \<Longrightarrow>
      \<exists>s'. put m s = Some (s', RHINO_SUCCESS) \<and> holds s' (ms @ [m])"
    and put_full: "holds s ms \<Longrightarrow> valid m \<Longrightarrow> \<not> room m s \<Longrightarrow> \<exists>e. e \<noteq> RHINO_SUCCESS \<and> put m s = Some (s, e)"
    and get_first: "holds s (m # ms) \<Longrightarrow> \<exists>s'. get s = Some (s', m) \<and> holds s' ms"
begin

lemma run_fifo:
  assumes "holds s ms" "\<And>m. Put m \<in> set ops \<Longrightarrow> valid m"
  shows "\<exists>s' ms' acc got. fifo_run put get ops s (length ms) = Some (s', length ms', acc, got) \<and>
    ms @ acc = got @ ms' \<and> holds s' ms'"
  using assms
proof (induction ops arbitrary: s ms)
  case Nil
  then show ?case by (intro exI [of _ s] exI [of _ ms] exI [of _ "[]"]) simp
next
  case (Cons x ops)
  show ?case
  proof (cases x)
    case (Put m)
    show ?thesis
    proof (cases "room m s")
      case True
      with Put Cons.prems put_room [of s ms m] obtain s1
        where s1: "put m s = Some (s1, RHINO_SUCCESS)" "holds s1 (ms @ [m])" by auto
      from Cons.IH [OF s1(2)] Cons.prems(2) obtain s' ms' acc got
        where r: "fifo_run put get ops s1 (Suc (length ms)) = Some (s', length ms', acc, got)"
          "ms @ m # acc = got @ ms'" "holds s' ms'" by auto
      with Put s1 show ?thesis
        by (intro exI [of _ s'] exI [of _ ms'] exI [of _ "m # acc"] exI [of _ got]) simp
    next
      case False
      with Put Cons.prems put_full [of s ms m] Cons.IH [OF Cons.prems(1)] show ?thesis by auto
    qed
  next
    case Get
    show ?thesis
    proof (cases ms)
      case Nil
      with Get Cons.IH [OF Cons.prems(1)] Cons.prems(2) show ?thesis by auto
    next
      case (Cons m ms1)
      with Cons.prems get_first [of s m ms1] obtain s1 where s1: "get s = Some (s1, m)" "holds s1 ms1" by auto
      from Cons.IH [OF s1(2)] Cons.prems(2) obtain s' ms' acc got
        where r: "fifo_run put get ops s1 (length ms1) = Some (s', length ms', acc, got)"
          "ms1 @ acc = got @ ms'" "holds s' ms'" by auto
      with Get Cons s1 show ?thesis
        by (intro exI [of _ s'] exI [of _ ms'] exI [of _ acc] exI [of _ "m # got"]) simp
    qed
  qed
qed

end

subsection \<open>Records of any size\<close>

definition ring_put :: "u8 list \<Rightarrow> k_ringbuf_t \<Rightarrow> (k_ringbuf_t \<times> kstat_t) option" where
  "ring_put m r = ringbuf_push r (nth m) (length m)"

definition ring_get :: "k_ringbuf_t \<Rightarrow> (k_ringbuf_t \<times> u8 list) option" where
  "ring_get r = do { (r, xs, len) \<leftarrow> ringbuf_pop r; Some (r, take len xs) }"

definition encode :: "u8 list list \<Rightarrow> u8 list" where
  "encode ms = concat (map (\<lambda>m. size_bytes (length m) @ m) ms)"

definition dyn_holds :: "k_ringbuf_t \<Rightarrow> u8 list list \<Rightarrow> bool" where
  "dyn_holds r ms \<longleftrightarrow> rb_ok r \<and> rb_type r = RINGBUF_TYPE_DYN \<and> rb_content r = encode ms \<and> (\<forall>m\<in>set ms. 0 < length m)"

lemma bytes_at_nth [simp]: "bytes_at (nth m) (length m) = m"
  by (simp add: bytes_at_def map_nth)

lemma rb_used_le: "rb_ok r \<Longrightarrow> rb_used r + freesize r = rb_end r"
  by (simp add: rb_ok_def rb_used_def)

lemma push_dyn:
  assumes r: "rb_ok r" "rb_type r = RINGBUF_TYPE_DYN" and l: "0 < length m" "4 + length m \<le> freesize r"
  shows "\<exists>r'. ringbuf_push r (nth m) (length m) = Some (r', RHINO_SUCCESS) \<and> rb_ok r' \<and> rb_type r' = RINGBUF_TYPE_DYN \<and>
    rb_content r' = rb_content r @ size_bytes (length m) @ m"
proof -
  have n: "freesize r < 2 ^ 32" using r(1) by (auto simp: rb_ok_def)
  obtain r1 where r1: "push_length (size_bytes (length m)) r = Some r1" "rb_ok r1"
      "rb_content r1 = rb_content r @ size_bytes (length m)" "freesize r1 = freesize r - 4" "rb_type r1 = rb_type r"
    using push_data_ok [OF r(1), of "size_bytes (length m)"] l push_length_data [of "size_bytes (length m)" r] by auto
  have lm: "length m \<le> freesize r1" using l(2) r1(4) by simp
  obtain r2 where r2: "push_data m r1 = Some r2" "rb_ok r2" "rb_content r2 = rb_content r1 @ m" "rb_type r2 = rb_type r1"
    using push_data_ok [OF r1(2) l(1)] lm by blast
  have "ringbuf_push r (nth m) (length m) = Some (r2, RHINO_SUCCESS)"
    using r l n r1(1) r2(1) by (simp add: ringbuf_push_def sz_add_def)
  with r r1 r2 show ?thesis by simp
qed

lemma pop_dyn:
  assumes r: "rb_ok r" "rb_type r = RINGBUF_TYPE_DYN" and c: "rb_content r = size_bytes (length m) @ m @ rest"
  shows "\<exists>r'. ringbuf_pop r = Some (r', m, length m) \<and> rb_ok r' \<and> rb_type r' = RINGBUF_TYPE_DYN \<and> rb_content r' = rest"
proof -
  have u: "rb_used r = 4 + length m + length rest" using arg_cong [OF c, of length] by simp
  then have m: "length m < 2 ^ 32" "4 \<le> rb_end r" using rb_used_le [OF r(1)] r(1) by (auto simp: rb_ok_def)
  obtain r1 where r1: "pop_length r = Some (r1, size_bytes (length m))" "rb_ok r1" "rb_content r1 = m @ rest"
      "rb_type r1 = rb_type r" "rb_end r1 = rb_end r"
    using pop_length_ok [OF r(1) c] by auto
  have "rb_used r1 < rb_end r1" using arg_cong [OF r1(3), of length] u rb_used_le [OF r(1)] r1(5) by simp
  then obtain r2 where r2: "pop_data (length m) r1 = Some (r2, m)" "rb_ok r2" "rb_content r2 = rest" "rb_type r2 = rb_type r1"
    using pop_data_ok [OF r1(2,3)] by auto
  have "ringbuf_pop r = Some (r2, m, length m)"
    using r r1(1) r2(1) bytes_size_bytes [OF m(1)] by (simp add: ringbuf_pop_def)
  with r r1 r2 show ?thesis by simp
qed

interpretation dyn: fifo ring_put ring_get dyn_holds "\<lambda>m. length m < 2 ^ 32 - 4"
  "\<lambda>m r. 0 < length m \<and> 4 + length m \<le> freesize r"
proof
  show "\<exists>s'. ring_put m s = Some (s', RHINO_SUCCESS) \<and> dyn_holds s' (ms @ [m])"
    if "dyn_holds s ms" "0 < length m \<and> 4 + length m \<le> freesize s" for s ms m
    using push_dyn [of s m] that by (auto simp: dyn_holds_def ring_put_def encode_def)
  show "\<exists>e. e \<noteq> RHINO_SUCCESS \<and> ring_put m s = Some (s, e)"
    if "dyn_holds s ms" "length m < 2 ^ 32 - 4" "\<not> (0 < length m \<and> 4 + length m \<le> freesize s)" for s ms m
  proof (cases "length m = 0")
    case False
    then have "freesize s < sz_add RING_BUF_LEN (length m)" using that by (simp add: sz_add_def)
    with False that show ?thesis by (simp add: ring_put_def ringbuf_push_def dyn_holds_def)
  qed (use that in \<open>simp add: ring_put_def ringbuf_push_def dyn_holds_def\<close>)
  show "\<exists>s'. ring_get s = Some (s', m) \<and> dyn_holds s' ms" if "dyn_holds s (m # ms)" for s m ms
    using pop_dyn [of s m "encode ms"] that by (auto simp: dyn_holds_def ring_get_def encode_def)
qed

subsection \<open>Blocks of a fixed size\<close>

definition fix_holds :: "nat \<Rightarrow> nat \<Rightarrow> k_ringbuf_t \<Rightarrow> u8 list list \<Rightarrow> bool" where
  "fix_holds B n r ms \<longleftrightarrow> rb_ok r \<and> rb_end r = n \<and> rb_type r = RINGBUF_TYPE_FIX \<and> rb_blk_size r = B \<and> 0 < B \<and> B dvd rb_end r \<and>
     B dvd rb_head r \<and> rb_content r = concat ms \<and> (\<forall>m\<in>set ms. length m = B)"

lemma length_concat_blocks: "\<forall>m\<in>set ms. length m = B \<Longrightarrow> length (concat ms) = B * length ms"
  by (induction ms) auto

lemma dvd_room: "B dvd (p :: nat) \<Longrightarrow> B dvd n \<Longrightarrow> p < n \<Longrightarrow> p + B \<le> n"
  by (metis add.commute dvd_add_right_iff dvd_imp_le le_add_diff_inverse less_imp_le_nat nat_add_left_cancel_le zero_less_diff)

lemma fix_tail:
  assumes "fix_holds B n r ms" shows "B dvd rb_tail r"
proof -
  have h: "(rb_head r + rb_used r) mod rb_end r = rb_tail r mod rb_end r" "B dvd rb_end r" "B dvd rb_head r"
    using assms by (auto simp: fix_holds_def rb_ok_def)
  have "rb_used r = B * length ms"
    using assms arg_cong [of _ _ length] length_concat_blocks [of ms B] by (metis fix_holds_def length_content)
  then have "B dvd rb_head r + rb_used r" using h(3) by simp
  then have "B dvd (rb_head r + rb_used r) mod rb_end r" using h(2) by (metis dvd_mod_iff)
  then show ?thesis using h(1,2) by (metis dvd_mod_iff)
qed

interpretation fixed: fifo ring_put ring_get "fix_holds B n" "\<lambda>m. length m = B" "\<lambda>_ r. B \<le> freesize r" for B n
proof
  show "\<exists>s'. ring_put m s = Some (s', RHINO_SUCCESS) \<and> fix_holds B n s' (ms @ [m])"
    if h: "fix_holds B n s ms" and m: "length m = B" and f: "B \<le> freesize s" for s ms m
  proof -
    let ?w = "wrap_tail s"
    have s: "rb_ok s" "rb_type s = RINGBUF_TYPE_FIX" "rb_blk_size s = B" "0 < B" "B dvd rb_end s" "B dvd rb_head s" "rb_end s = n"
      "rb_content s = concat ms" "\<forall>m\<in>set ms. length m = B" using h by (auto simp: fix_holds_def)
    note w = wrap_ok [OF s(1)]
    have "B dvd rb_tail ?w" using fix_tail [OF h] by (simp add: wrap_tail_def)
    then have l: "rb_tail ?w + length m \<le> rb_end ?w" using dvd_room s(5) w(3) m by simp
    have x: "length m \<le> freesize ?w" using f m by simp
    note p = put_ok [OF w(1) x l]
    obtain q where q: "ring_store (rb_tail ?w) m ?w = Some q"
      "q\<lparr>rb_tail := rb_tail ?w + length m, freesize := sz_sub (freesize ?w) (length m)\<rparr> = rb_put m ?w"
      "rb_tail q = rb_tail ?w" "freesize q = freesize ?w" using store_tail [OF w(1) x l] by blast
    have qb: "rb_blk_size q = B" using q(1) s(3) by (auto simp: ring_store_def split: if_splits)
    have "ring_put m s = Some (rb_put m ?w, RHINO_SUCCESS)"
      using s f q qb m bytes_at_nth [of m] by (simp add: ring_put_def ringbuf_push_def Let_def)
    moreover have "fix_holds B n (rb_put m ?w) (ms @ [m])"
      unfolding fix_holds_def using p w(2) s m by simp
    ultimately show ?thesis by blast
  qed
  show "\<exists>e. e \<noteq> RHINO_SUCCESS \<and> ring_put m s = Some (s, e)"
    if "fix_holds B n s ms" "\<not> B \<le> freesize s" for s ms m
    using that by (simp add: fix_holds_def ring_put_def ringbuf_push_def)
  show "\<exists>s'. ring_get s = Some (s', m) \<and> fix_holds B n s' ms" if h: "fix_holds B n s (m # ms)" for s m ms
  proof -
    let ?w = "wrap_head s"
    have s: "rb_ok s" "rb_type s = RINGBUF_TYPE_FIX" "rb_blk_size s = B" "0 < B" "B dvd rb_end s" "B dvd rb_head s" "rb_end s = n"
      "rb_content s = m @ concat ms" "\<forall>m\<in>set ms. length m = B" and len: "length m = B"
      using h by (auto simp: fix_holds_def)
    note w = wrap_ok [OF s(1)]
    have hd: "B dvd rb_head ?w" using s(6) by (simp add: wrap_head_def)
    then have l: "rb_head ?w + length m \<le> rb_end ?w" using dvd_room [OF hd, of "rb_end s"] s(5) w(6) len by simp
    have c: "rb_content ?w = m @ concat ms" using w(5) s(8) by simp
    note d = drop_ok [OF w(4) c l] and ld = load_head [OF w(4) c l]
    have "ring_get s = Some (rb_drop B ?w, m)"
      using s ld len by (simp add: ring_get_def ringbuf_pop_def Let_def)
    moreover have "fix_holds B n (rb_drop B ?w) ms"
      unfolding fix_holds_def using d s hd len by simp
    ultimately show ?thesis by blast
  qed
qed

section \<open>Properties\<close>

lemma ringbuf_init_sel [simp]:
  "freesize (ringbuf_init buf ty B) = length buf" "rb_type (ringbuf_init buf ty B) = ty"
  "rb_end (ringbuf_init buf ty B) = length buf" "rb_blk_size (ringbuf_init buf ty B) = B"
  by (simp_all add: ringbuf_init_def ringbuf_reset_def)

lemma dyn_init: "0 < length buf \<Longrightarrow> length buf < 2 ^ 32 \<Longrightarrow> dyn_holds (ringbuf_init buf RINGBUF_TYPE_DYN B) []"
  by (simp add: dyn_holds_def ringbuf_init_def ringbuf_reset_def rb_ok_def rb_used_def encode_def rb_content_def)

lemma fix_init: "0 < B \<Longrightarrow> 0 < length buf \<Longrightarrow> length buf < 2 ^ 32 \<Longrightarrow> B dvd length buf \<Longrightarrow>
    fix_holds B (length buf) (ringbuf_init buf RINGBUF_TYPE_FIX B) []"
  by (simp add: fix_holds_def ringbuf_init_def ringbuf_reset_def rb_ok_def rb_used_def rb_content_def)

text \<open>C19. A ring buffer of records of any size is a queue: whatever messages are put (of fewer than
  \<open>2 ^ 32 - 4\<close> bytes) and gotten, starting from the empty buffer, no access leaves the buffer,
  the messages gotten are the first ones of those accepted, in order and byte for byte, and the
  others are still in the buffer.\<close>

theorem ringbuf_dyn_fifo:
  assumes b: "0 < length buf" "length buf < 2 ^ 32" and v: "\<And>m. Put m \<in> set ops \<Longrightarrow> length m < 2 ^ 32 - 4"
  shows "\<exists>r' left acc got.
    fifo_run ring_put ring_get ops (ringbuf_init buf RINGBUF_TYPE_DYN blk) 0 = Some (r', length left, acc, got) \<and>
    acc = got @ left \<and> rb_content r' = encode left"
proof -
  from dyn.run_fifo [OF dyn_init [OF b], of ops blk] v show ?thesis by (auto simp: dyn_holds_def)
qed

lemma ringbuf_dyn_fifo_witness:
  "\<exists>r' left acc got. fifo_run ring_put ring_get [Put [1, 2], Get, Put [3, 4, 5], Get, Put (replicate 9 7)]
      (ringbuf_init (replicate 10 0) RINGBUF_TYPE_DYN 8) 0 = Some (r', length left, acc, got) \<and> acc = got @ left"
proof -
  have "\<exists>r' left acc got. fifo_run ring_put ring_get [Put [1, 2], Get, Put [3, 4, 5], Get, Put (replicate 9 7)]
      (ringbuf_init (replicate 10 0) RINGBUF_TYPE_DYN 8) 0 = Some (r', length left, acc, got) \<and> acc = got @ left \<and>
      rb_content r' = encode left"
    by (rule ringbuf_dyn_fifo) auto
  then show ?thesis by blast
qed

text \<open>C20. A ring buffer of fixed blocks is a queue of blocks, and it accepts a block exactly while one
  fits.\<close>

theorem ringbuf_fix_fifo:
  assumes b: "0 < B" "0 < k" "length buf = B * k" "B * k < 2 ^ 32" and v: "\<And>m. Put m \<in> set ops \<Longrightarrow> length m = B"
  shows "\<exists>r' left acc got.
    fifo_run ring_put ring_get ops (ringbuf_init buf RINGBUF_TYPE_FIX B) 0 = Some (r', length left, acc, got) \<and>
    acc = got @ left \<and> rb_content r' = concat left \<and>
    (ringbuf_is_full r' \<longleftrightarrow> length left = k) \<and> (ringbuf_is_empty r' \<longleftrightarrow> left = [])"
proof -
  have "fix_holds B (B * k) (ringbuf_init buf RINGBUF_TYPE_FIX B) []"
    using fix_init [of B buf] b by simp
  from fixed.run_fifo [OF this, of ops] v obtain r' left acc got where
    r: "fifo_run ring_put ring_get ops (ringbuf_init buf RINGBUF_TYPE_FIX B) 0 = Some (r', length left, acc, got)"
      "acc = got @ left" "fix_holds B (B * k) r' left" by auto
  have "rb_used r' = B * length left"
    using r(3) length_concat_blocks [of left B] by (metis fix_holds_def length_content)
  moreover have "rb_used r' + freesize r' = B * k" using r(3) rb_used_le [of r'] by (simp add: fix_holds_def)
  ultimately have f: "freesize r' = B * (k - length left)" "length left \<le> k"
    using b(1) by (auto simp: diff_mult_distrib2) (metis le_add1 mult_le_cancel1)
  have "k - length left = k \<longleftrightarrow> left = []" using b(2) f(2) by (cases left) auto
  then have "ringbuf_is_full r' \<longleftrightarrow> length left = k" "ringbuf_is_empty r' \<longleftrightarrow> left = []"
    using f r(3) b(1,2) by (auto simp: ringbuf_is_full_def ringbuf_is_empty_def fix_holds_def)
  with r show ?thesis by (auto simp: fix_holds_def)
qed

lemma ringbuf_fix_fifo_witness:
  "\<exists>r' left acc got. fifo_run ring_put ring_get [Put [1, 2], Put [3, 4], Get, Put [5, 6]]
      (ringbuf_init [0, 0, 0, 0] RINGBUF_TYPE_FIX 2) 0 = Some (r', length left, acc, got) \<and> acc = got @ left"
proof -
  have "\<exists>r' left acc got. fifo_run ring_put ring_get [Put [1, 2], Put [3, 4], Get, Put [5, 6]]
      (ringbuf_init [0, 0, 0, 0] RINGBUF_TYPE_FIX 2) 0 = Some (r', length left, acc, got) \<and> acc = got @ left \<and>
      rb_content r' = concat left \<and> (ringbuf_is_full r' \<longleftrightarrow> length left = 2) \<and> (ringbuf_is_empty r' \<longleftrightarrow> left = [])"
    by (rule ringbuf_fix_fifo) auto
  then show ?thesis by blast
qed

end
