(* ===== verification/KState.thy ===== *)
theory KState
  imports KBitmap KList KRingbuf
begin

text \<open>
  The data of the Rhino kernel: task control blocks (\<^verbatim>\<open>include/k_task.h\<close>), the blocking part
  shared by all kernel objects (\<^verbatim>\<open>include/k_obj.h\<close>), the objects themselves and the globals of
  \<^verbatim>\<open>k_obj.c\<close>, for the configuration the boards of the repository build: one core, no CFS class,
  round robin on, task deletion on, dynamic allocation of kernel objects on.

  Every list of the kernel is a HOL list of the tasks (objects) hanging on its head, which
  \<^theory_text>\<open>KList\<close> justifies; addresses are natural numbers and a pointer that may be \<open>NULL\<close> is an
  option. \<open>g_fault\<close> is a ghost field: it is set where the C code would dereference \<open>NULL\<close>, run
  off the end of the bitmap, or loop for ever. \<open>g_err\<close> is the sequence of codes handed to
  \<^verbatim>\<open>k_err_proc\<close>, whose board hook is empty, so the code after a call goes on.
\<close>

section \<open>Configuration constants\<close>

definition RHINO_CONFIG_PRI_MAX :: nat where [simp]: "RHINO_CONFIG_PRI_MAX = 62"
definition RHINO_IDLE_PRI :: nat where [simp]: "RHINO_IDLE_PRI = 61"
definition NUM_WORDS :: nat where [simp]: "NUM_WORDS = 2"
definition SCHED_MAX_LOCK_COUNT :: u8 where [simp]: "SCHED_MAX_LOCK_COUNT = 200"
definition RHINO_CONFIG_TIME_SLICE_DEFAULT :: u32 where [simp]: "RHINO_CONFIG_TIME_SLICE_DEFAULT = 50"
definition RHINO_CONFIG_TASK_INFO_NUM :: nat where [simp]: "RHINO_CONFIG_TASK_INFO_NUM = 5"
definition RHINO_NO_WAIT :: tick_t where "RHINO_NO_WAIT = 0"
definition RHINO_WAIT_FOREVER :: tick_t where "RHINO_WAIT_FOREVER = - 1"
definition MAX_TICKS :: tick_t where "MAX_TICKS = drop_bit 1 (- 1)"

datatype sched_policy_t = KSCHED_FIFO | KSCHED_RR | KSCHED_CFS
datatype alloc_flag_t = K_OBJ_NONE_ALLOC | K_OBJ_STATIC_ALLOC | K_OBJ_DYN_ALLOC

section \<open>Tasks\<close>

datatype task_stat_t =
  K_SEED | K_RDY | K_PEND | K_SUSPENDED | K_PEND_SUSPENDED | K_SLEEP | K_SLEEP_SUSPENDED | K_DELETED

datatype blk_state_t = BLK_FINISH | BLK_ABORT | BLK_TIMEOUT | BLK_DEL | BLK_INVALID

text \<open>\<open>blk_ptr\<close>, \<open>mutex_ptr\<close> and \<open>rr_slice\<close> are \<^verbatim>\<open>blk_obj\<close>, \<^verbatim>\<open>mutex_list\<close> and \<^verbatim>\<open>time_slice\<close>.\<close>

record ktask =
  task_state :: task_stat_t
  blk_state :: blk_state_t
  blk_ptr :: "oid option"
  prio :: nat
  b_prio :: nat
  suspend_count :: u8
  mutex_ptr :: "oid option"
  tick_match :: tick_t
  tick_remain :: tick_t
  msg :: nat
  bq_msg_size :: nat
  pend_flags :: u32
  pend_info :: nat
  pend_option :: u8
  rr_slice :: u32
  time_total :: u32
  sched_policy :: sched_policy_t
  cancel :: bool
  task_sem_obj :: "oid option"
  user_info :: "nat list"
  stack_size :: nat
  stack_base :: nat
  task_name :: string
  task_id :: u32
  task_alloc_flag :: alloc_flag_t
  newlibc_reent :: "oid option"

text \<open>The state \<^verbatim>\<open>memset(task, 0, sizeof(ktask_t))\<close> leaves.\<close>

definition ktask_zero :: ktask where
  "ktask_zero = \<lparr>task_state = K_SEED, blk_state = BLK_FINISH, blk_ptr = None, prio = 0, b_prio = 0,
     suspend_count = 0, mutex_ptr = None, tick_match = 0, tick_remain = 0, msg = 0,
     bq_msg_size = 0, pend_flags = 0, pend_info = 0, pend_option = 0, rr_slice = 0,
     time_total = 0, sched_policy = KSCHED_FIFO, cancel = False, task_sem_obj = None,
     user_info = replicate RHINO_CONFIG_TASK_INFO_NUM 0, stack_size = 0, stack_base = 0,
     task_name = [], task_id = 0, task_alloc_flag = K_OBJ_NONE_ALLOC,
     newlibc_reent = None\<rparr>"

section \<open>Kernel objects\<close>

datatype blk_policy_t = BLK_POLICY_PRI | BLK_POLICY_FIFO

datatype kobj_type_t =
    RHINO_OBJ_TYPE_NONE | RHINO_SEM_OBJ_TYPE | RHINO_MUTEX_OBJ_TYPE | RHINO_QUEUE_OBJ_TYPE
  | RHINO_BUF_QUEUE_OBJ_TYPE | RHINO_TIMER_OBJ_TYPE | RHINO_EVENT_OBJ_TYPE | RHINO_MM_OBJ_TYPE

record blk_obj_t =
  blk_list :: "tid list"
  blk_policy :: blk_policy_t
  obj_type :: kobj_type_t
  obj_cancel :: bool
  obj_name :: string

definition blk_obj_zero :: blk_obj_t where
  "blk_obj_zero = \<lparr>blk_list = [], blk_policy = BLK_POLICY_PRI, obj_type = RHINO_OBJ_TYPE_NONE,
     obj_cancel = False, obj_name = []\<rparr>"

record ksem_t =
  sem_count :: u32
  peak_count :: u32
  sem_alloc_flag :: alloc_flag_t

record kmutex_t =
  mutex_task :: "tid option"
  mutex_next :: "oid option"
  owner_nested :: u32
  mutex_alloc_flag :: alloc_flag_t

record kevent_t =
  ev_flags :: u32
  ev_alloc_flag :: alloc_flag_t

text \<open>The pointer queue stores its messages in a ring of pointers (\<open>queue_start\<close>) and counts
  them in \<open>msg_q\<close>; here \<open>q_ring\<close> is the array, \<open>q_write\<close> and \<open>q_read\<close> the two positions.\<close>

record kqueue_t =
  q_ring :: "nat list"
  q_size :: nat
  q_cur_num :: nat
  q_peak_num :: nat
  q_write :: nat
  q_read :: nat
  q_start :: nat
  q_alloc_flag :: alloc_flag_t

text \<open>\<open>bq_buf\<close> is the address of the buffer; its bytes are the memory of the ring.\<close>

record kbuf_queue_t =
  bq_buf :: nat
  bq_ring :: k_ringbuf_t
  max_msg_size :: nat
  bq_cur_num :: nat
  bq_peak_num :: nat
  min_free_buf_size :: nat
  bq_alloc_flag :: alloc_flag_t

record kobj_list_t =
  task_head :: "tid list"
  mutex_head :: "oid list"
  sem_head :: "oid list"
  queue_head :: "oid list"
  event_head :: "oid list"
  buf_queue_head :: "oid list"

section \<open>The kernel state\<close>

record runqueue_t =
  cur_list_item :: "nat \<Rightarrow> tid list"
  task_bit_map :: "u32 list"
  highest_pri :: nat

record kernel =
  g_sys_stat :: kstat_t
  g_sched_lock :: u8
  g_intrpt_nested_level :: u8
  g_preferred_ready_task :: tid
  g_active_task :: tid
  g_idle_task :: tid
  g_idle_task_spawned :: bool
  g_task_id :: u32
  g_ready_queue :: runqueue_t
  g_tick_count :: tick_t
  g_tick_head :: "tid list"
  tasks :: "tid \<Rightarrow> ktask"
  blk_objs :: "oid \<Rightarrow> blk_obj_t"
  sems :: "oid \<Rightarrow> ksem_t"
  mutexes :: "oid \<Rightarrow> kmutex_t"
  events :: "oid \<Rightarrow> kevent_t"
  queues :: "oid \<Rightarrow> kqueue_t"
  buf_queues :: "oid \<Rightarrow> kbuf_queue_t"
  g_kobj_list :: kobj_list_t
  g_res_sem :: oid
  g_res_list :: "nat list list"
  u32_mem :: "nat \<Rightarrow> u32"
  u8_mem :: "nat \<Rightarrow> u8"
  mm_freed :: "nat list"
  g_err :: "kstat_t list"
  g_fault :: bool
  cfg_mutex_inherit :: bool

section \<open>Access to tasks and objects\<close>

abbreviation task :: "kernel \<Rightarrow> tid \<Rightarrow> ktask" where "task K t \<equiv> tasks K t"
abbreviation tstate :: "kernel \<Rightarrow> tid \<Rightarrow> task_stat_t" where "tstate K t \<equiv> task_state (tasks K t)"
abbreviation tprio :: "kernel \<Rightarrow> tid \<Rightarrow> nat" where "tprio K t \<equiv> prio (tasks K t)"
abbreviation blist :: "kernel \<Rightarrow> oid \<Rightarrow> tid list" where "blist K b \<equiv> blk_list (blk_objs K b)"
abbreviation rqueue :: "kernel \<Rightarrow> nat \<Rightarrow> tid list" where
  "rqueue K p \<equiv> cur_list_item (g_ready_queue K) p"

definition upd_task :: "tid \<Rightarrow> (ktask \<Rightarrow> ktask) \<Rightarrow> kernel \<Rightarrow> kernel" where
  "upd_task t f K = K\<lparr>tasks := (tasks K)(t := f (tasks K t))\<rparr>"

definition upd_blk :: "oid \<Rightarrow> (blk_obj_t \<Rightarrow> blk_obj_t) \<Rightarrow> kernel \<Rightarrow> kernel" where
  "upd_blk b f K = K\<lparr>blk_objs := (blk_objs K)(b := f (blk_objs K b))\<rparr>"

definition upd_rq :: "(runqueue_t \<Rightarrow> runqueue_t) \<Rightarrow> kernel \<Rightarrow> kernel" where
  "upd_rq f K = K\<lparr>g_ready_queue := f (g_ready_queue K)\<rparr>"

definition upd_kobj :: "(kobj_list_t \<Rightarrow> kobj_list_t) \<Rightarrow> kernel \<Rightarrow> kernel" where
  "upd_kobj f K = K\<lparr>g_kobj_list := f (g_kobj_list K)\<rparr>"

definition fault :: "kernel \<Rightarrow> kernel" where
  "fault K = K\<lparr>g_fault := True\<rparr>"

definition k_err_proc :: "kstat_t \<Rightarrow> kernel \<Rightarrow> kernel" where
  "k_err_proc err K = K\<lparr>g_err := g_err K @ [err]\<rparr>"

text \<open>\<^verbatim>\<open>klist_rm(&task->task_list)\<close> of a blocked task: the node is unlinked from whichever
  object's list it hangs on.\<close>

definition blk_list_rm :: "tid \<Rightarrow> kernel \<Rightarrow> kernel" where
  "blk_list_rm t K =
     K\<lparr>blk_objs := (\<lambda>b. (blk_objs K b)\<lparr>blk_list := removeAll t (blk_list (blk_objs K b))\<rparr>)\<rparr>"

lemma upd_task_sel [simp]:
  "tasks (upd_task t f K) = (tasks K)(t := f (tasks K t))"
  "g_sys_stat (upd_task t f K) = g_sys_stat K" "g_sched_lock (upd_task t f K) = g_sched_lock K"
  "g_intrpt_nested_level (upd_task t f K) = g_intrpt_nested_level K"
  "g_preferred_ready_task (upd_task t f K) = g_preferred_ready_task K"
  "g_active_task (upd_task t f K) = g_active_task K" "g_idle_task (upd_task t f K) = g_idle_task K"
  "g_idle_task_spawned (upd_task t f K) = g_idle_task_spawned K" "g_task_id (upd_task t f K) = g_task_id K"
  "g_ready_queue (upd_task t f K) = g_ready_queue K" "g_tick_count (upd_task t f K) = g_tick_count K"
  "g_tick_head (upd_task t f K) = g_tick_head K" "blk_objs (upd_task t f K) = blk_objs K"
  "sems (upd_task t f K) = sems K" "mutexes (upd_task t f K) = mutexes K"
  "events (upd_task t f K) = events K" "queues (upd_task t f K) = queues K"
  "g_kobj_list (upd_task t f K) = g_kobj_list K" "g_res_sem (upd_task t f K) = g_res_sem K"
  "g_res_list (upd_task t f K) = g_res_list K" "u32_mem (upd_task t f K) = u32_mem K"
  "buf_queues (upd_task t f K) = buf_queues K" "u8_mem (upd_task t f K) = u8_mem K"
  "mm_freed (upd_task t f K) = mm_freed K" "g_err (upd_task t f K) = g_err K"
  "g_fault (upd_task t f K) = g_fault K" "cfg_mutex_inherit (upd_task t f K) = cfg_mutex_inherit K"
  by (simp_all add: upd_task_def)

lemma upd_blk_sel [simp]:
  "blk_objs (upd_blk b g K) = (blk_objs K)(b := g (blk_objs K b))" "tasks (upd_blk b g K) = tasks K"
  "g_sys_stat (upd_blk b g K) = g_sys_stat K" "g_sched_lock (upd_blk b g K) = g_sched_lock K"
  "g_intrpt_nested_level (upd_blk b g K) = g_intrpt_nested_level K"
  "g_preferred_ready_task (upd_blk b g K) = g_preferred_ready_task K"
  "g_active_task (upd_blk b g K) = g_active_task K" "g_idle_task (upd_blk b g K) = g_idle_task K"
  "g_idle_task_spawned (upd_blk b g K) = g_idle_task_spawned K" "g_task_id (upd_blk b g K) = g_task_id K"
  "g_ready_queue (upd_blk b g K) = g_ready_queue K" "g_tick_count (upd_blk b g K) = g_tick_count K"
  "g_tick_head (upd_blk b g K) = g_tick_head K"
  "sems (upd_blk b g K) = sems K" "mutexes (upd_blk b g K) = mutexes K"
  "events (upd_blk b g K) = events K" "queues (upd_blk b g K) = queues K"
  "g_kobj_list (upd_blk b g K) = g_kobj_list K" "g_res_sem (upd_blk b g K) = g_res_sem K"
  "g_res_list (upd_blk b g K) = g_res_list K" "u32_mem (upd_blk b g K) = u32_mem K"
  "buf_queues (upd_blk b g K) = buf_queues K" "u8_mem (upd_blk b g K) = u8_mem K"
  "mm_freed (upd_blk b g K) = mm_freed K" "g_err (upd_blk b g K) = g_err K"
  "g_fault (upd_blk b g K) = g_fault K" "cfg_mutex_inherit (upd_blk b g K) = cfg_mutex_inherit K"
  by (simp_all add: upd_blk_def)

lemma upd_rq_sel [simp]:
  "g_ready_queue (upd_rq f K) = f (g_ready_queue K)" "tasks (upd_rq f K) = tasks K"
  "g_sys_stat (upd_rq f K) = g_sys_stat K" "g_sched_lock (upd_rq f K) = g_sched_lock K"
  "g_intrpt_nested_level (upd_rq f K) = g_intrpt_nested_level K"
  "g_preferred_ready_task (upd_rq f K) = g_preferred_ready_task K"
  "g_active_task (upd_rq f K) = g_active_task K" "g_idle_task (upd_rq f K) = g_idle_task K"
  "g_idle_task_spawned (upd_rq f K) = g_idle_task_spawned K" "g_task_id (upd_rq f K) = g_task_id K"
  "blk_objs (upd_rq f K) = blk_objs K" "g_tick_count (upd_rq f K) = g_tick_count K"
  "g_tick_head (upd_rq f K) = g_tick_head K" "sems (upd_rq f K) = sems K"
  "mutexes (upd_rq f K) = mutexes K" "events (upd_rq f K) = events K" "queues (upd_rq f K) = queues K"
  "g_kobj_list (upd_rq f K) = g_kobj_list K" "g_res_sem (upd_rq f K) = g_res_sem K"
  "g_res_list (upd_rq f K) = g_res_list K" "u32_mem (upd_rq f K) = u32_mem K"
  "buf_queues (upd_rq f K) = buf_queues K" "u8_mem (upd_rq f K) = u8_mem K"
  "mm_freed (upd_rq f K) = mm_freed K" "g_err (upd_rq f K) = g_err K"
  "g_fault (upd_rq f K) = g_fault K" "cfg_mutex_inherit (upd_rq f K) = cfg_mutex_inherit K"
  by (simp_all add: upd_rq_def)

lemma fault_sel [simp]:
  "g_fault (fault K)" "tasks (fault K) = tasks K" "blk_objs (fault K) = blk_objs K"
  "g_ready_queue (fault K) = g_ready_queue K" "g_tick_head (fault K) = g_tick_head K"
  "g_tick_count (fault K) = g_tick_count K" "g_active_task (fault K) = g_active_task K"
  "g_sched_lock (fault K) = g_sched_lock K" "g_sys_stat (fault K) = g_sys_stat K"
  "g_intrpt_nested_level (fault K) = g_intrpt_nested_level K" "mutexes (fault K) = mutexes K"
  "g_idle_task (fault K) = g_idle_task K" "g_err (fault K) = g_err K"
  "g_kobj_list (fault K) = g_kobj_list K" "cfg_mutex_inherit (fault K) = cfg_mutex_inherit K"
  "sems (fault K) = sems K" "queues (fault K) = queues K" "buf_queues (fault K) = buf_queues K"
  "u8_mem (fault K) = u8_mem K" "events (fault K) = events K"
  by (simp_all add: fault_def)

lemma k_err_proc_sel [simp]:
  "g_err (k_err_proc e K) = g_err K @ [e]" "tasks (k_err_proc e K) = tasks K"
  "blk_objs (k_err_proc e K) = blk_objs K" "g_fault (k_err_proc e K) = g_fault K"
  "g_ready_queue (k_err_proc e K) = g_ready_queue K" "g_tick_head (k_err_proc e K) = g_tick_head K"
  "g_tick_count (k_err_proc e K) = g_tick_count K" "g_active_task (k_err_proc e K) = g_active_task K"
  "g_sched_lock (k_err_proc e K) = g_sched_lock K" "g_sys_stat (k_err_proc e K) = g_sys_stat K"
  "g_intrpt_nested_level (k_err_proc e K) = g_intrpt_nested_level K"
  "mutexes (k_err_proc e K) = mutexes K" "g_idle_task (k_err_proc e K) = g_idle_task K"
  "g_kobj_list (k_err_proc e K) = g_kobj_list K"
  "cfg_mutex_inherit (k_err_proc e K) = cfg_mutex_inherit K"
  "sems (k_err_proc e K) = sems K" "queues (k_err_proc e K) = queues K" "buf_queues (k_err_proc e K) = buf_queues K"
  "u8_mem (k_err_proc e K) = u8_mem K"
  "events (k_err_proc e K) = events K"
  by (simp_all add: k_err_proc_def)

lemma blk_list_rm_sel [simp]:
  "blk_objs (blk_list_rm t K) =
     (\<lambda>b. (blk_objs K b)\<lparr>blk_list := removeAll t (blk_list (blk_objs K b))\<rparr>)"
  "tasks (blk_list_rm t K) = tasks K" "g_fault (blk_list_rm t K) = g_fault K"
  "g_ready_queue (blk_list_rm t K) = g_ready_queue K" "g_tick_head (blk_list_rm t K) = g_tick_head K"
  "g_tick_count (blk_list_rm t K) = g_tick_count K" "g_active_task (blk_list_rm t K) = g_active_task K"
  "g_sched_lock (blk_list_rm t K) = g_sched_lock K" "g_sys_stat (blk_list_rm t K) = g_sys_stat K"
  "g_intrpt_nested_level (blk_list_rm t K) = g_intrpt_nested_level K"
  "mutexes (blk_list_rm t K) = mutexes K" "g_idle_task (blk_list_rm t K) = g_idle_task K"
  "g_kobj_list (blk_list_rm t K) = g_kobj_list K" "g_err (blk_list_rm t K) = g_err K"
  "cfg_mutex_inherit (blk_list_rm t K) = cfg_mutex_inherit K"
  "sems (blk_list_rm t K) = sems K" "queues (blk_list_rm t K) = queues K" "buf_queues (blk_list_rm t K) = buf_queues K"
  "u8_mem (blk_list_rm t K) = u8_mem K"
  "events (blk_list_rm t K) = events K"
  by (simp_all add: blk_list_rm_def)

section \<open>Frames\<close>

text \<open>
  \<open>sched_frame K K'\<close>: the call changed at most the scheduling data (ready queue, tick list, tasks,
  blocked lists, mutexes), the error log and the ghost fault. \<open>rq_frame K K'\<close>: at most the ready
  queue and the ghost fault.
\<close>

definition sched_frame :: "kernel \<Rightarrow> kernel \<Rightarrow> bool" where
  "sched_frame K K' \<longleftrightarrow>
     g_sys_stat K' = g_sys_stat K \<and> g_sched_lock K' = g_sched_lock K \<and>
     g_intrpt_nested_level K' = g_intrpt_nested_level K \<and>
     g_preferred_ready_task K' = g_preferred_ready_task K \<and> g_active_task K' = g_active_task K \<and>
     g_idle_task K' = g_idle_task K \<and> g_idle_task_spawned K' = g_idle_task_spawned K \<and>
     g_task_id K' = g_task_id K \<and> g_tick_count K' = g_tick_count K \<and> sems K' = sems K \<and>
     events K' = events K \<and> queues K' = queues K \<and> g_kobj_list K' = g_kobj_list K \<and>
     g_res_sem K' = g_res_sem K \<and> g_res_list K' = g_res_list K \<and> u32_mem K' = u32_mem K \<and>
     buf_queues K' = buf_queues K \<and> u8_mem K' = u8_mem K \<and>
     mm_freed K' = mm_freed K \<and> cfg_mutex_inherit K' = cfg_mutex_inherit K"

definition rq_frame :: "kernel \<Rightarrow> kernel \<Rightarrow> bool" where
  "rq_frame K K' \<longleftrightarrow> sched_frame K K' \<and> tasks K' = tasks K \<and> blk_objs K' = blk_objs K \<and>
     g_tick_head K' = g_tick_head K \<and> mutexes K' = mutexes K \<and> g_err K' = g_err K"

lemma sched_frame_refl [simp, frame]: "sched_frame K K"
  by (simp add: sched_frame_def)

lemma sched_frame_trans: "sched_frame A B \<Longrightarrow> sched_frame B C \<Longrightarrow> sched_frame A C"
  by (simp add: sched_frame_def)

lemma rq_frame_refl [simp, frame]: "rq_frame K K"
  by (simp add: rq_frame_def)

lemma rq_frame_trans: "rq_frame A B \<Longrightarrow> rq_frame B C \<Longrightarrow> rq_frame A C"
  by (simp add: rq_frame_def sched_frame_def)

lemma rq_frame_sched_frame: "rq_frame A B \<Longrightarrow> sched_frame A B"
  by (simp add: rq_frame_def)

lemma sched_frame_basic [simp, frame]:
  "sched_frame K (upd_task t f K)" "sched_frame K (upd_blk b g K)" "sched_frame K (upd_rq h K)"
  "sched_frame K (fault K)" "sched_frame K (k_err_proc e K)" "sched_frame K (blk_list_rm t K)"
  "sched_frame K (K\<lparr>g_tick_head := ts\<rparr>)" "sched_frame K (K\<lparr>mutexes := ms\<rparr>)"
  by (simp_all add: sched_frame_def fault_def k_err_proc_def blk_list_rm_def)

lemma rq_frame_basic [simp, frame]: "rq_frame K (upd_rq h K)" "rq_frame K (fault K)"
  by (simp_all add: rq_frame_def)

lemma sched_frameD:
  assumes "sched_frame K K'"
  shows "g_sys_stat K' = g_sys_stat K" "g_sched_lock K' = g_sched_lock K"
    "g_intrpt_nested_level K' = g_intrpt_nested_level K" "g_active_task K' = g_active_task K"
    "g_idle_task K' = g_idle_task K" "g_tick_count K' = g_tick_count K" "sems K' = sems K"
    "events K' = events K" "queues K' = queues K" "g_kobj_list K' = g_kobj_list K"
    "cfg_mutex_inherit K' = cfg_mutex_inherit K" "u32_mem K' = u32_mem K"
    "g_res_sem K' = g_res_sem K" "g_preferred_ready_task K' = g_preferred_ready_task K"
    "g_idle_task_spawned K' = g_idle_task_spawned K" "mm_freed K' = mm_freed K"
    "g_res_list K' = g_res_list K" "g_task_id K' = g_task_id K"
    "buf_queues K' = buf_queues K" "u8_mem K' = u8_mem K"
  using assms by (simp_all add: sched_frame_def)

lemma rq_frameD:
  assumes "rq_frame K K'"
  shows "tasks K' = tasks K" "blk_objs K' = blk_objs K" "g_tick_head K' = g_tick_head K"
    "mutexes K' = mutexes K" "g_err K' = g_err K"
  using assms by (simp_all add: rq_frame_def)

section \<open>Modes of the system\<close>

text \<open>Some call runs in an interrupt handler, or with the scheduler locked, or neither.\<close>

definition in_intrpt :: "kernel \<Rightarrow> bool" where
  "in_intrpt K \<longleftrightarrow> g_intrpt_nested_level K > 0"

definition sched_locked :: "kernel \<Rightarrow> bool" where
  "sched_locked K \<longleftrightarrow> g_sched_lock K > 0"

end
