(* ===== verification/KSched.thy ===== *)
theory KSched
  imports KState
begin

text \<open>
  The scheduler, \<^verbatim>\<open>k_sched.c\<close> and the interrupt entry and exit of \<^verbatim>\<open>k_sys.c\<close>: the lock
  counter, the ready queue with its bitmap and its cached highest priority, and the choice of the
  next task. A ready list is the HOL list that starts at \<open>cur_list_item\<close>; the empty list is
  the \<open>NULL\<close> pointer. \<open>rq_wf\<close> is the invariant of the ready queue; every operation keeps it.
\<close>

section \<open>The lock counter and the switch\<close>

text \<open>\<^verbatim>\<open>PendSV_Handler\<close> of \<^verbatim>\<open>port_s.sx\<close>: the preferred task becomes the active one.\<close>

definition cpu_task_switch :: "kernel \<Rightarrow> kernel" where
  "cpu_task_switch K = K\<lparr>g_active_task := g_preferred_ready_task K\<rparr>"

definition preferred_cpu_ready_task_get :: "runqueue_t \<Rightarrow> tid option" where
  "preferred_cpu_ready_task_get rq =
     (case cur_list_item rq (highest_pri rq) of [] \<Rightarrow> None | node # _ \<Rightarrow> Some node)"

definition core_sched :: "kernel \<Rightarrow> kernel" where
  "core_sched K =
     (if g_intrpt_nested_level K > 0 then K
      else if g_sched_lock K > 0 then K
      else case preferred_cpu_ready_task_get (g_ready_queue K) of
        None \<Rightarrow> fault K
      | Some preferred_task \<Rightarrow>
          if preferred_task = g_active_task K then K
          else cpu_task_switch (K\<lparr>g_preferred_ready_task := preferred_task\<rparr>))"

definition krhino_sched_disable :: "kernel \<Rightarrow> kernel \<times> kstat_t" where
  "krhino_sched_disable K =
     (if g_intrpt_nested_level K > 0 then (K, RHINO_NOT_CALLED_BY_INTRPT)
      else if g_sched_lock K \<ge> SCHED_MAX_LOCK_COUNT then (K, RHINO_SCHED_LOCK_COUNT_OVF)
      else (K\<lparr>g_sched_lock := g_sched_lock K + 1\<rparr>, RHINO_SUCCESS))"

definition krhino_sched_enable :: "kernel \<Rightarrow> kernel \<times> kstat_t" where
  "krhino_sched_enable K =
     (if g_intrpt_nested_level K > 0 then (K, RHINO_NOT_CALLED_BY_INTRPT)
      else if g_sched_lock K = 0 then (K, RHINO_SCHED_ALREADY_ENABLED)
      else
        let K = K\<lparr>g_sched_lock := g_sched_lock K - 1\<rparr>
        in if g_sched_lock K > 0 then (K, RHINO_SCHED_DISABLE)
           else (core_sched K, RHINO_SUCCESS))"

definition krhino_intrpt_enter :: "kernel \<Rightarrow> kernel \<times> kstat_t" where
  "krhino_intrpt_enter K =
     (K\<lparr>g_intrpt_nested_level := g_intrpt_nested_level K + 1\<rparr>, RHINO_SUCCESS)"

text \<open>\<^verbatim>\<open>g_per_cpu[..].dis_sched\<close> is only ever set with more than one core.\<close>

definition krhino_intrpt_exit :: "kernel \<Rightarrow> kernel" where
  "krhino_intrpt_exit K =
     (let K = K\<lparr>g_intrpt_nested_level := g_intrpt_nested_level K - 1\<rparr>
      in if g_intrpt_nested_level K > 0 then K
         else if g_sched_lock K > 0 then K
         else case preferred_cpu_ready_task_get (g_ready_queue K) of
           None \<Rightarrow> fault K
         | Some preferred_task \<Rightarrow>
             if preferred_task = g_active_task K then K
             else cpu_task_switch (K\<lparr>g_preferred_ready_task := preferred_task\<rparr>))"

section \<open>The ready queue\<close>

definition runqueue_init :: "runqueue_t \<Rightarrow> runqueue_t" where
  "runqueue_init rq =
     rq\<lparr>highest_pri := RHINO_CONFIG_PRI_MAX,
        cur_list_item := (\<lambda>pri. if pri < RHINO_CONFIG_PRI_MAX then [] else cur_list_item rq pri)\<rparr>"

definition ready_list_init :: "tid \<Rightarrow> kernel \<Rightarrow> kernel" where
  "ready_list_init t K =
     upd_rq (\<lambda>rq. rq\<lparr>
       cur_list_item := (cur_list_item rq)(tprio K t := [t]),
       task_bit_map := krhino_bitmap_set (task_bit_map rq) (tprio K t),
       highest_pri := (if tprio K t < highest_pri rq then tprio K t else highest_pri rq)\<rparr>) K"

definition is_ready_list_empty :: "kernel \<Rightarrow> nat \<Rightarrow> bool" where
  "is_ready_list_empty K pri \<longleftrightarrow> rqueue K pri = []"

definition ready_list_add_tail :: "tid \<Rightarrow> kernel \<Rightarrow> kernel" where
  "ready_list_add_tail t K =
     (if is_ready_list_empty K (tprio K t) then ready_list_init t K
      else upd_rq (\<lambda>rq. rq\<lparr>cur_list_item :=
             (cur_list_item rq)(tprio K t := cur_list_item rq (tprio K t) @ [t])\<rparr>) K)"

definition ready_list_add_head :: "tid \<Rightarrow> kernel \<Rightarrow> kernel" where
  "ready_list_add_head t K =
     (if is_ready_list_empty K (tprio K t) then ready_list_init t K
      else upd_rq (\<lambda>rq. rq\<lparr>cur_list_item :=
             (cur_list_item rq)(tprio K t := t # cur_list_item rq (tprio K t))\<rparr>) K)"

definition ready_list_add :: "tid \<Rightarrow> kernel \<Rightarrow> kernel" where
  "ready_list_add t K = ready_list_add_tail t K"

definition ready_list_rm :: "tid \<Rightarrow> kernel \<Rightarrow> kernel" where
  "ready_list_rm t K =
     (let pri = tprio K t
      in case rqueue K pri of
        [] \<Rightarrow> fault K
      | x # y # ys \<Rightarrow>
          upd_rq (\<lambda>rq. rq\<lparr>cur_list_item := (cur_list_item rq)(pri := removeAll t (x # y # ys))\<rparr>) K
      | [x] \<Rightarrow>
          let K = upd_rq (\<lambda>rq. rq\<lparr>cur_list_item := (cur_list_item rq)(pri := []),
                                  task_bit_map := krhino_bitmap_clear (task_bit_map rq) pri\<rparr>) K
          in if pri \<noteq> highest_pri (g_ready_queue K) then K
             else case krhino_bitmap_first (task_bit_map (g_ready_queue K)) of
               None \<Rightarrow> fault K
             | Some i \<Rightarrow> upd_rq (\<lambda>rq. rq\<lparr>highest_pri := i\<rparr>) K)"

definition ready_list_head_to_tail :: "tid \<Rightarrow> kernel \<Rightarrow> kernel" where
  "ready_list_head_to_tail t K =
     (case rqueue K (tprio K t) of
        [] \<Rightarrow> fault K
      | x # xs \<Rightarrow> upd_rq (\<lambda>rq. rq\<lparr>cur_list_item := (cur_list_item rq)(tprio K t := xs @ [x])\<rparr>) K)"

definition time_slice_update :: "kernel \<Rightarrow> kernel" where
  "time_slice_update K =
     (let t = g_active_task K; task_pri = tprio K t
      in if is_ready_list_empty K task_pri then K
         else if sched_policy (tasks K t) = KSCHED_FIFO then K
         else if length (rqueue K task_pri) = 1 then K
         else
           let K = (if rr_slice (tasks K t) > 0
                    then upd_task t (\<lambda>r. r\<lparr>rr_slice := rr_slice r - 1\<rparr>) K else K)
           in if rr_slice (tasks K t) > 0 then K
              else
                let K = ready_list_head_to_tail t K
                in upd_task t (\<lambda>r. r\<lparr>rr_slice := time_total r\<rparr>) K)"

definition krhino_task_yield :: "kernel \<Rightarrow> kernel \<times> kstat_t" where
  "krhino_task_yield K =
     (let K = ready_list_head_to_tail (g_active_task K) K
      in (core_sched K, RHINO_SUCCESS))"

section \<open>Frames\<close>

lemma rq_frame_ops [simp, frame]:
  "rq_frame K (ready_list_init t K)" "rq_frame K (ready_list_add_tail t K)"
  "rq_frame K (ready_list_add_head t K)" "rq_frame K (ready_list_add t K)"
  "rq_frame K (ready_list_head_to_tail t K)"
  by (simp_all add: ready_list_init_def ready_list_add_tail_def ready_list_add_head_def
      ready_list_add_def ready_list_head_to_tail_def split: list.split)

lemma rq_frame_rm [simp, frame]: "rq_frame K (ready_list_rm t K)"
proof -
  have "rq_frame K (upd_rq f (upd_rq g K))" "rq_frame K (fault (upd_rq g K))" for f g
    by (simp_all add: rq_frame_def sched_frame_def fault_def)
  then show ?thesis
    unfolding ready_list_rm_def Let_def by (auto split: list.split option.split)
qed

lemmas rq_sel [simp] =
  rq_frame_ops(2) [THEN rq_frameD(1)] rq_frame_ops(2) [THEN rq_frameD(2)]
  rq_frame_ops(2) [THEN rq_frameD(3)] rq_frame_ops(2) [THEN rq_frameD(4)]
  rq_frame_ops(2) [THEN rq_frameD(5)]
  rq_frame_ops(3) [THEN rq_frameD(1)] rq_frame_ops(3) [THEN rq_frameD(2)]
  rq_frame_ops(3) [THEN rq_frameD(3)] rq_frame_ops(3) [THEN rq_frameD(4)]
  rq_frame_ops(3) [THEN rq_frameD(5)]
  rq_frame_ops(4) [THEN rq_frameD(1)] rq_frame_ops(4) [THEN rq_frameD(2)]
  rq_frame_ops(4) [THEN rq_frameD(3)] rq_frame_ops(4) [THEN rq_frameD(4)]
  rq_frame_ops(4) [THEN rq_frameD(5)]
  rq_frame_ops(5) [THEN rq_frameD(1)] rq_frame_ops(5) [THEN rq_frameD(2)]
  rq_frame_ops(5) [THEN rq_frameD(3)] rq_frame_ops(5) [THEN rq_frameD(4)]
  rq_frame_ops(5) [THEN rq_frameD(5)]
  rq_frame_rm [THEN rq_frameD(1)] rq_frame_rm [THEN rq_frameD(2)] rq_frame_rm [THEN rq_frameD(3)]
  rq_frame_rm [THEN rq_frameD(4)] rq_frame_rm [THEN rq_frameD(5)]

lemmas rq_sched_frame [simp] =
  rq_frame_ops(2,3,4,5) [THEN rq_frame_sched_frame] rq_frame_rm [THEN rq_frame_sched_frame]

lemmas rq_sched_sel [simp] =
  rq_sched_frame [THEN sched_frameD(1)] rq_sched_frame [THEN sched_frameD(2)]
  rq_sched_frame [THEN sched_frameD(3)] rq_sched_frame [THEN sched_frameD(4)]
  rq_sched_frame [THEN sched_frameD(5)] rq_sched_frame [THEN sched_frameD(6)]
  rq_sched_frame [THEN sched_frameD(7)] rq_sched_frame [THEN sched_frameD(8)]
  rq_sched_frame [THEN sched_frameD(9)] rq_sched_frame [THEN sched_frameD(10)]
  rq_sched_frame [THEN sched_frameD(11)]

section \<open>The invariant of the ready queue\<close>

text \<open>Bitmap and lists agree, and the cached highest priority is the smallest one that has a
  ready task (or \<^verbatim>\<open>RHINO_CONFIG_PRI_MAX\<close> when nothing is ready).\<close>

definition rq_wf :: "runqueue_t \<Rightarrow> bool" where
  "rq_wf rq \<longleftrightarrow>
     length (task_bit_map rq) = NUM_WORDS \<and>
     (\<forall>p. in_bitmap (task_bit_map rq) p \<longleftrightarrow> cur_list_item rq p \<noteq> []) \<and>
     (\<forall>p \<ge> RHINO_CONFIG_PRI_MAX. cur_list_item rq p = []) \<and>
     highest_pri rq \<le> RHINO_CONFIG_PRI_MAX \<and>
     (\<forall>p < highest_pri rq. cur_list_item rq p = []) \<and>
     (highest_pri rq < RHINO_CONFIG_PRI_MAX \<longrightarrow> cur_list_item rq (highest_pri rq) \<noteq> [])"

lemma rqueue_add_tail [simp]:
  "rqueue (ready_list_add_tail t K) p = (if p = tprio K t then rqueue K p @ [t] else rqueue K p)"
  by (auto simp: ready_list_add_tail_def ready_list_init_def is_ready_list_empty_def)

lemma rqueue_add [simp]:
  "rqueue (ready_list_add t K) p = (if p = tprio K t then rqueue K p @ [t] else rqueue K p)"
  by (simp add: ready_list_add_def)

lemma rqueue_add_head [simp]:
  "rqueue (ready_list_add_head t K) p = (if p = tprio K t then t # rqueue K p else rqueue K p)"
  by (auto simp: ready_list_add_head_def ready_list_init_def is_ready_list_empty_def)

lemma rqueue_rm [simp]:
  "t \<in> set (rqueue K (tprio K t)) \<Longrightarrow>
   rqueue (ready_list_rm t K) p = (if p = tprio K t then removeAll t (rqueue K p) else rqueue K p)"
  unfolding ready_list_rm_def Let_def by (auto split: list.split option.split)

lemma rqueue_head_to_tail [simp]:
  "rqueue (ready_list_head_to_tail t K) p = (if p = tprio K t then rotate1 (rqueue K p) else rqueue K p)"
  unfolding ready_list_head_to_tail_def by (auto split: list.split)

lemma fault_add [simp]:
  "g_fault (ready_list_add_tail t K) = g_fault K" "g_fault (ready_list_add_head t K) = g_fault K"
  "g_fault (ready_list_add t K) = g_fault K"
  by (simp_all add: ready_list_add_tail_def ready_list_add_head_def ready_list_add_def
      ready_list_init_def)

lemma fault_head_to_tail [simp]:
  "rqueue K (tprio K t) \<noteq> [] \<Longrightarrow> g_fault (ready_list_head_to_tail t K) = g_fault K"
  by (auto simp: ready_list_head_to_tail_def split: list.split)

lemma rq_wf_bound: "rq_wf (g_ready_queue K) \<Longrightarrow> t \<in> set (rqueue K p) \<Longrightarrow> p < 62"
  by (metis RHINO_CONFIG_PRI_MAX_def empty_iff empty_set not_le rq_wf_def)

lemma rq_wf_add:
  assumes "rq_wf (g_ready_queue K)" "tprio K t < RHINO_CONFIG_PRI_MAX"
  shows "rq_wf (g_ready_queue (ready_list_add_tail t K))"
    and "rq_wf (g_ready_queue (ready_list_add_head t K))"
    and "rq_wf (g_ready_queue (ready_list_add t K))"
  using assms
  by (auto simp: rq_wf_def ready_list_add_tail_def ready_list_add_head_def ready_list_add_def
      ready_list_init_def is_ready_list_empty_def)

lemma rq_wf_head_to_tail:
  "rq_wf (g_ready_queue K) \<Longrightarrow> rq_wf (g_ready_queue (ready_list_head_to_tail t K))"
  by (auto simp: rq_wf_def ready_list_head_to_tail_def split: list.split)

text \<open>Removing the last task of the highest priority scans the bitmap for the next one; some
  other ready task (the idle task) makes the scan succeed.\<close>

lemma rq_wf_rm:
  assumes wf: "rq_wf (g_ready_queue K)" and t: "t \<in> set (rqueue K (tprio K t))"
    and other: "u \<in> set (rqueue K q)" "u \<noteq> t" and d: "distinct (rqueue K (tprio K t))"
  shows "rq_wf (g_ready_queue (ready_list_rm t K))" and "g_fault (ready_list_rm t K) = g_fault K"
proof -
  let ?p = "tprio K t"
  let ?bm = "krhino_bitmap_clear (task_bit_map (g_ready_queue K)) ?p"
  have p: "?p < 62" using rq_wf_bound [OF wf t] .
  have "rq_wf (g_ready_queue (ready_list_rm t K)) \<and> g_fault (ready_list_rm t K) = g_fault K"
  proof (cases "rqueue K ?p")
    case Nil
    with t show ?thesis by simp
  next
    case (Cons x xs)
    show ?thesis
    proof (cases xs)
      case (Cons y ys)
      with \<open>rqueue K ?p = x # xs\<close> d have "removeAll t (x # y # ys) \<noteq> []" by auto
      with Cons \<open>rqueue K ?p = x # xs\<close> wf show ?thesis
        by (auto simp: ready_list_rm_def rq_wf_def simp del: removeAll.simps)
    next
      case Nil
      with Cons t have x: "rqueue K ?p = [t]" by auto
      with other have q: "q \<noteq> ?p" "in_bitmap ?bm q" using wf by (auto simp: rq_wf_def)
      then obtain i where i: "krhino_bitmap_first ?bm = Some i"
        using krhino_bitmap_first_None [of ?bm] by fastforce
      from krhino_bitmap_first_Some [OF i] have "in_bitmap ?bm i" "\<forall>k<i. \<not> in_bitmap ?bm k" by auto
      moreover have "ready_list_rm t K = (if ?p = highest_pri (g_ready_queue K)
          then upd_rq (\<lambda>rq. rq\<lparr>highest_pri := i\<rparr>) (upd_rq (\<lambda>rq. rq\<lparr>cur_list_item :=
            (cur_list_item rq)(?p := []), task_bit_map := krhino_bitmap_clear (task_bit_map rq) ?p\<rparr>) K)
          else upd_rq (\<lambda>rq. rq\<lparr>cur_list_item := (cur_list_item rq)(?p := []),
            task_bit_map := krhino_bitmap_clear (task_bit_map rq) ?p\<rparr>) K)"
        using x i by (auto simp: ready_list_rm_def Let_def)
      moreover from this have "g_fault (ready_list_rm t K) = g_fault K" by simp
      ultimately show ?thesis using wf x p
        by (auto simp: rq_wf_def not_le intro: leI)
    qed
  qed
  then show "rq_wf (g_ready_queue (ready_list_rm t K))" and "g_fault (ready_list_rm t K) = g_fault K"
    by auto
qed

lemma rq_wf_init: "rq_wf (runqueue_init \<lparr>cur_list_item = (\<lambda>_. []), task_bit_map = [0, 0], highest_pri = n\<rparr>)"
  by (auto simp: rq_wf_def runqueue_init_def in_bitmap_Cons)

section \<open>The choice of the next task\<close>

text \<open>The task the scheduler would pick: the first one of the highest non-empty priority.\<close>

definition is_next :: "kernel \<Rightarrow> tid \<Rightarrow> bool" where
  "is_next K t \<longleftrightarrow> (\<exists>p ts. rqueue K p = t # ts \<and> (\<forall>q<p. rqueue K q = []))"

lemma is_next_unique: "is_next K t \<Longrightarrow> is_next K u \<Longrightarrow> t = u"
  unfolding is_next_def by (metis linorder_neqE_nat list.distinct(1) list.inject)

lemma preferred_is_next:
  assumes "rq_wf (g_ready_queue K)" and "rqueue K p \<noteq> []"
  shows "\<exists>t. preferred_cpu_ready_task_get (g_ready_queue K) = Some t \<and> is_next K t"
proof -
  from assms have "highest_pri (g_ready_queue K) < 62"
    by (metis RHINO_CONFIG_PRI_MAX_def le_neq_implies_less linorder_le_less_linear rq_wf_def)
  with assms show ?thesis
    by (cases "rqueue K (highest_pri (g_ready_queue K))")
      (auto simp: rq_wf_def preferred_cpu_ready_task_get_def is_next_def)
qed

lemma core_sched_cases:
  assumes "rq_wf (g_ready_queue K)" and "rqueue K p \<noteq> []"
  shows "\<exists>t pr. core_sched K = K\<lparr>g_active_task := t, g_preferred_ready_task := pr\<rparr> \<and>
      (if g_intrpt_nested_level K > 0 \<or> g_sched_lock K > 0 then t = g_active_task K else is_next K t)"
proof -
  obtain t where t: "preferred_cpu_ready_task_get (g_ready_queue K) = Some t" "is_next K t"
    using preferred_is_next [OF assms] by blast
  have id: "K = K\<lparr>g_active_task := g_active_task K, g_preferred_ready_task := g_preferred_ready_task K\<rparr>"
    by simp
  show ?thesis
  proof (cases "g_intrpt_nested_level K > 0 \<or> g_sched_lock K > 0")
    case True
    then have "core_sched K = K" by (auto simp: core_sched_def)
    with True id show ?thesis by metis
  next
    case False
    show ?thesis
    proof (cases "t = g_active_task K")
      case True
      with False t have "core_sched K = K" by (auto simp: core_sched_def)
      with False t True id show ?thesis by metis
    next
      case neq: False
      with False t have "core_sched K = K\<lparr>g_active_task := t, g_preferred_ready_task := t\<rparr>"
        by (auto simp: core_sched_def cpu_task_switch_def)
      with False t show ?thesis by auto
    qed
  qed
qed

end
