(* ===== verification/KPend.thy ===== *)
theory KPend
  imports KSched
begin

text \<open>
  Blocking and waking: the tick list insertions and removals of \<^verbatim>\<open>k_tick.c\<close> and the blocked lists
  of \<^verbatim>\<open>k_pend.c\<close>. A blocked task hangs on the list of its object (in first-come order, or sorted
  by priority) and, when the wait has a time limit, also on \<open>g_tick_head\<close>, sorted by the ticks
  that are left. The two insertion loops interpret \<open>sorted_insertion\<close>.
\<close>

section \<open>The tick list\<close>

definition tick_list_init :: "kernel \<Rightarrow> kernel" where
  "tick_list_init K = K\<lparr>g_tick_head := []\<rparr>"

definition tick_left :: "kernel \<Rightarrow> tid \<Rightarrow> tick_t" where
  "tick_left K t = tick_match (tasks K t) - g_tick_count K"

fun tick_list_pri_insert :: "kernel \<Rightarrow> tid \<Rightarrow> tid list \<Rightarrow> tid list" where
  "tick_list_pri_insert K t [] = [t]"
| "tick_list_pri_insert K t (q # qs) =
     (if tick_match (tasks K q) - g_tick_count K > tick_remain (tasks K t) then t # q # qs
      else q # tick_list_pri_insert K t qs)"

definition tick_list_insert :: "tid \<Rightarrow> tick_t \<Rightarrow> kernel \<Rightarrow> kernel" where
  "tick_list_insert t time K =
     (let K = upd_task t (\<lambda>r. r\<lparr>tick_match := g_tick_count K + time, tick_remain := time\<rparr>) K
      in K\<lparr>g_tick_head := tick_list_pri_insert K t (g_tick_head K)\<rparr>)"

definition tick_list_rm :: "tid \<Rightarrow> kernel \<Rightarrow> kernel" where
  "tick_list_rm t K = K\<lparr>g_tick_head := removeAll t (g_tick_head K)\<rparr>"

interpretation tickins: sorted_insertion tick_left "\<lambda>K t. tick_remain (tasks K t)" tick_list_pri_insert
proof
  show "tick_list_pri_insert K t xs = insert_before (\<lambda>y. tick_remain (tasks K t) < tick_left K y) t xs"
    for K t xs by (induction xs) (auto simp: tick_left_def)
qed

section \<open>The blocked lists\<close>

fun pend_list_add :: "kernel \<Rightarrow> tid \<Rightarrow> tid list \<Rightarrow> tid list" where
  "pend_list_add K t [] = [t]"
| "pend_list_add K t (tmp # qs) =
     (if tprio K tmp > tprio K t then t # tmp # qs else tmp # pend_list_add K t qs)"

interpretation pendins: sorted_insertion "\<lambda>K t. tprio K t" "\<lambda>K t. tprio K t" pend_list_add
proof
  show "pend_list_add K t xs = insert_before (\<lambda>y. tprio K t < tprio K y) t xs"
    for K t xs by (induction xs) auto
qed

definition pend_task_wakeup :: "tid \<Rightarrow> kernel \<Rightarrow> kernel" where
  "pend_task_wakeup t K =
     (let K = (case tstate K t of
          K_PEND \<Rightarrow>
            let K = blk_list_rm t K;
                K = ready_list_add t K
            in upd_task t (\<lambda>r. r\<lparr>task_state := K_RDY\<rparr>) K
        | K_PEND_SUSPENDED \<Rightarrow>
            let K = blk_list_rm t K
            in upd_task t (\<lambda>r. r\<lparr>task_state := K_SUSPENDED\<rparr>) K
        | _ \<Rightarrow> k_err_proc RHINO_SYS_FATAL_ERR K);
          K = tick_list_rm t K
      in upd_task t (\<lambda>r. r\<lparr>blk_state := BLK_FINISH, blk_ptr := None\<rparr>) K)"

definition pend_to_blk_obj :: "oid \<Rightarrow> tid \<Rightarrow> tick_t \<Rightarrow> kernel \<Rightarrow> kernel" where
  "pend_to_blk_obj b t timeout K =
     (let K = upd_task t (\<lambda>r. r\<lparr>blk_ptr := Some b\<rparr>) K;
          K = (if timeout \<noteq> RHINO_WAIT_FOREVER then tick_list_insert t timeout K else K);
          K = upd_task t (\<lambda>r. r\<lparr>task_state := K_PEND\<rparr>) K;
          K = ready_list_rm t K
      in if blk_policy (blk_objs K b) = BLK_POLICY_FIFO
         then upd_blk b (\<lambda>o'. o'\<lparr>blk_list := blk_list o' @ [t]\<rparr>) K
         else upd_blk b (\<lambda>o'. o'\<lparr>blk_list := pend_list_add K t (blk_list o')\<rparr>) K)"

definition pend_task_rm :: "tid \<Rightarrow> kernel \<Rightarrow> kernel" where
  "pend_task_rm t K =
     (let K = (case tstate K t of
          K_PEND \<Rightarrow>
            let K = blk_list_rm t K;
                K = ready_list_add t K
            in upd_task t (\<lambda>r. r\<lparr>task_state := K_RDY\<rparr>) K
        | K_PEND_SUSPENDED \<Rightarrow>
            let K = blk_list_rm t K
            in upd_task t (\<lambda>r. r\<lparr>task_state := K_SUSPENDED\<rparr>) K
        | _ \<Rightarrow> k_err_proc RHINO_SYS_FATAL_ERR K);
          K = tick_list_rm t K
      in upd_task t (\<lambda>r. r\<lparr>blk_state := BLK_DEL, blk_ptr := None\<rparr>) K)"

definition pend_list_reorder :: "tid \<Rightarrow> kernel \<Rightarrow> kernel" where
  "pend_list_reorder t K =
     (case blk_ptr (tasks K t) of
        None \<Rightarrow> fault K
      | Some b \<Rightarrow>
          if blk_policy (blk_objs K b) = BLK_POLICY_PRI then
            let K = blk_list_rm t K
            in upd_blk b (\<lambda>o'. o'\<lparr>blk_list := pend_list_add K t (blk_list o')\<rparr>) K
          else K)"

text \<open>\<open>BLK_INVALID\<close> is the \<^verbatim>\<open>default\<close> branch.\<close>

definition pend_state_end_proc :: "tid \<Rightarrow> oid option \<Rightarrow> kernel \<Rightarrow> kernel \<times> kstat_t" where
  "pend_state_end_proc t blk_obj K =
     (let (K, status) = (case blk_state (tasks K t) of
          BLK_FINISH \<Rightarrow> (K, RHINO_SUCCESS)
        | BLK_ABORT \<Rightarrow> (K, RHINO_BLK_ABORT)
        | BLK_TIMEOUT \<Rightarrow> (K, RHINO_BLK_TIMEOUT)
        | BLK_DEL \<Rightarrow> (K, RHINO_BLK_DEL)
        | BLK_INVALID \<Rightarrow> (k_err_proc RHINO_BLK_INV_STATE K, RHINO_BLK_INV_STATE))
      in case blk_obj of
           None \<Rightarrow> if cancel (tasks K t) then (K, RHINO_TASK_CANCELED) else (K, status)
         | Some b \<Rightarrow>
             if cancel (tasks K t) \<and> obj_cancel (blk_objs K b) then (K, RHINO_TASK_CANCELED)
             else (K, status))"

section \<open>Frames\<close>

lemma tick_list_insert_sel [simp]:
  "g_tick_head (tick_list_insert t n K) =
     tick_list_pri_insert (upd_task t (\<lambda>r. r\<lparr>tick_match := g_tick_count K + n, tick_remain := n\<rparr>) K) t
       (g_tick_head K)"
  "tasks (tick_list_insert t n K) =
     (tasks K)(t := (tasks K t)\<lparr>tick_match := g_tick_count K + n, tick_remain := n\<rparr>)"
  "blk_objs (tick_list_insert t n K) = blk_objs K"
  "g_ready_queue (tick_list_insert t n K) = g_ready_queue K"
  "mutexes (tick_list_insert t n K) = mutexes K" "g_fault (tick_list_insert t n K) = g_fault K"
  "g_err (tick_list_insert t n K) = g_err K"
  by (simp_all add: tick_list_insert_def Let_def)

lemma tick_list_rm_sel [simp]:
  "g_tick_head (tick_list_rm t K) = removeAll t (g_tick_head K)"
  "tasks (tick_list_rm t K) = tasks K" "blk_objs (tick_list_rm t K) = blk_objs K"
  "g_ready_queue (tick_list_rm t K) = g_ready_queue K" "mutexes (tick_list_rm t K) = mutexes K"
  "g_fault (tick_list_rm t K) = g_fault K" "g_err (tick_list_rm t K) = g_err K"
  by (simp_all add: tick_list_rm_def)

lemma sched_frame_tick [simp, frame]:
  "sched_frame K (tick_list_insert t n K)" "sched_frame K (tick_list_rm t K)"
  by (simp_all add: sched_frame_def tick_list_insert_def tick_list_rm_def Let_def)

text \<open>Chains of framed operations.\<close>

lemma sched_frame_steps:
  "sched_frame A B \<Longrightarrow> sched_frame A (upd_task t f B)" "sched_frame A B \<Longrightarrow> sched_frame A (upd_blk b g B)"
  "sched_frame A B \<Longrightarrow> sched_frame A (fault B)" "sched_frame A B \<Longrightarrow> sched_frame A (k_err_proc e B)"
  "sched_frame A B \<Longrightarrow> sched_frame A (blk_list_rm t B)"
  "sched_frame A B \<Longrightarrow> sched_frame A (tick_list_insert t n B)"
  "sched_frame A B \<Longrightarrow> sched_frame A (tick_list_rm t B)"
  "sched_frame A B \<Longrightarrow> sched_frame A (ready_list_add t B)"
  "sched_frame A B \<Longrightarrow> sched_frame A (ready_list_add_tail t B)"
  "sched_frame A B \<Longrightarrow> sched_frame A (ready_list_add_head t B)"
  "sched_frame A B \<Longrightarrow> sched_frame A (ready_list_rm t B)"
  "sched_frame A B \<Longrightarrow> sched_frame A (B\<lparr>mutexes := ms\<rparr>)"
  by (auto elim: sched_frame_trans)

lemma sched_frame_pend [simp, frame]:
  "sched_frame K (pend_task_wakeup t K)" "sched_frame K (pend_task_rm t K)"
  "sched_frame K (pend_to_blk_obj b t n K)" "sched_frame K (pend_list_reorder t K)"
  "sched_frame K (fst (pend_state_end_proc t bo K))"
  by (auto simp: pend_task_wakeup_def pend_task_rm_def pend_to_blk_obj_def pend_list_reorder_def
      pend_state_end_proc_def Let_def split: task_stat_t.split option.split blk_state_t.split prod.split
      intro!: sched_frame_steps sched_frame_refl)

end
