(* ===== verification/KInv.thy ===== *)
theory KInv
  imports KPend
begin

text \<open>
  The invariant of the scheduler's data, \<open>kinv\<close>: where a task hangs is determined by its state
  (ready list of its priority, list of the object it waits for, tick list), every list is free of
  duplicates, priority lists and the tick list are sorted, and the idle task is always ready. The
  lemmas show that each move of a task between these places keeps \<open>kinv\<close> and raises no fault;
  the operations of the kernel are compositions of these moves.
\<close>

section \<open>The invariant\<close>

fun is_pend :: "task_stat_t \<Rightarrow> bool" where
  "is_pend s \<longleftrightarrow> s = K_PEND \<or> s = K_PEND_SUSPENDED"

fun is_sleep :: "task_stat_t \<Rightarrow> bool" where
  "is_sleep s \<longleftrightarrow> s = K_SLEEP \<or> s = K_SLEEP_SUSPENDED"

fun is_susp :: "task_stat_t \<Rightarrow> bool" where
  "is_susp s \<longleftrightarrow> s = K_SUSPENDED \<or> s = K_PEND_SUSPENDED \<or> s = K_SLEEP_SUSPENDED"

fun is_live :: "task_stat_t \<Rightarrow> bool" where
  "is_live s \<longleftrightarrow> s \<noteq> K_SEED \<and> s \<noteq> K_DELETED"

definition placed :: "kernel \<Rightarrow> tid \<Rightarrow> bool" where
  "placed K t \<longleftrightarrow>
     (\<forall>p. t \<in> set (rqueue K p) \<longleftrightarrow> tstate K t = K_RDY \<and> p = tprio K t) \<and>
     (\<forall>b. t \<in> set (blist K b) \<longleftrightarrow> is_pend (tstate K t) \<and> blk_ptr (tasks K t) = Some b) \<and>
     (is_pend (tstate K t) \<longrightarrow> blk_ptr (tasks K t) \<noteq> None) \<and>
     (t \<in> set (g_tick_head K) \<longrightarrow> is_pend (tstate K t) \<or> is_sleep (tstate K t)) \<and>
     (is_sleep (tstate K t) \<longrightarrow> t \<in> set (g_tick_head K)) \<and>
     (is_live (tstate K t) \<longrightarrow>
        tprio K t < RHINO_CONFIG_PRI_MAX \<and> b_prio (tasks K t) < RHINO_CONFIG_PRI_MAX \<and>
        sched_policy (tasks K t) \<noteq> KSCHED_CFS) \<and>
     (is_susp (tstate K t) \<longrightarrow> suspend_count (tasks K t) \<noteq> 0)"

definition rq_inv :: "runqueue_t \<Rightarrow> bool" where
  "rq_inv rq \<longleftrightarrow> rq_wf rq \<and> (\<forall>p. distinct (cur_list_item rq p))"

definition blk_inv :: "kernel \<Rightarrow> bool" where
  "blk_inv K \<longleftrightarrow> (\<forall>b. distinct (blist K b) \<and>
     (blk_policy (blk_objs K b) = BLK_POLICY_PRI \<longrightarrow> sorted_by (\<lambda>t. tprio K t) (blist K b)))"

definition tick_inv :: "tick_t \<Rightarrow> kernel \<Rightarrow> bool" where
  "tick_inv d K \<longleftrightarrow> distinct (g_tick_head K) \<and> sorted_by (tick_left K) (g_tick_head K) \<and>
     (\<forall>t\<in>set (g_tick_head K). d \<le> tick_left K t)"

definition idle_ok :: "kernel \<Rightarrow> bool" where
  "idle_ok K \<longleftrightarrow> tstate K (g_idle_task K) = K_RDY \<and> tprio K (g_idle_task K) = RHINO_IDLE_PRI"

text \<open>Every task that exists is registered in \<^verbatim>\<open>g_kobj_list.task_head\<close>; a mutex with waiters has
  an owner, which is never the idle task.\<close>

definition reg_inv :: "kernel \<Rightarrow> bool" where
  "reg_inv K \<longleftrightarrow> (\<forall>t. is_live (tstate K t) \<longrightarrow> t \<in> set (task_head (g_kobj_list K)))"

definition mutex_inv :: "kernel \<Rightarrow> bool" where
  "mutex_inv K \<longleftrightarrow> (\<forall>b. mutex_task (mutexes K b) \<noteq> Some (g_idle_task K) \<and>
     (obj_type (blk_objs K b) = RHINO_MUTEX_OBJ_TYPE \<and> blist K b \<noteq> [] \<longrightarrow>
        mutex_task (mutexes K b) \<noteq> None))"

definition kinvd :: "tick_t \<Rightarrow> kernel \<Rightarrow> bool" where
  "kinvd d K \<longleftrightarrow> rq_inv (g_ready_queue K) \<and> blk_inv K \<and> tick_inv d K \<and> (\<forall>t. placed K t) \<and>
     idle_ok K \<and> reg_inv K \<and> mutex_inv K"

text \<open>\<open>d\<close> is the least number of ticks a ticking task may have left: one between two ticks, none
  while a tick is being processed.\<close>

abbreviation kinv :: "kernel \<Rightarrow> bool" where
  "kinv \<equiv> kinvd 1"

lemma word_one_le: "1 \<le> n \<longleftrightarrow> n \<noteq> (0 :: tick_t)"
  by (metis linorder_not_less word_less_1)

lemma kinvD:
  assumes "kinvd d K"
  shows "rq_wf (g_ready_queue K)" "distinct (rqueue K p)" "rq_inv (g_ready_queue K)" "blk_inv K"
    "tick_inv d K" "placed K t" "idle_ok K" "reg_inv K" "mutex_inv K"
  using assms by (auto simp: kinvd_def rq_inv_def)

lemma kinv_ready_iff: "kinvd d K \<Longrightarrow> t \<in> set (rqueue K p) \<longleftrightarrow> tstate K t = K_RDY \<and> p = tprio K t"
  using kinvD(6) unfolding placed_def by blast

lemma kinv_blist_iff:
  "kinvd d K \<Longrightarrow> t \<in> set (blist K b) \<longleftrightarrow> is_pend (tstate K t) \<and> blk_ptr (tasks K t) = Some b"
  using kinvD(6) unfolding placed_def by blast

lemma kinv_pend_ptr: "kinvd d K \<Longrightarrow> is_pend (tstate K t) \<Longrightarrow> \<exists>b. blk_ptr (tasks K t) = Some b"
  using kinvD(6) [of d K t] unfolding placed_def by auto

lemma kinv_tick_state:
  "kinvd d K \<Longrightarrow> t \<in> set (g_tick_head K) \<Longrightarrow> is_pend (tstate K t) \<or> is_sleep (tstate K t)"
  using kinvD(6) unfolding placed_def by blast

lemma kinv_prio:
  "kinvd d K \<Longrightarrow> is_live (tstate K t) \<Longrightarrow> tprio K t < 62"
  "kinvd d K \<Longrightarrow> is_live (tstate K t) \<Longrightarrow> b_prio (tasks K t) < 62"
  "kinvd d K \<Longrightarrow> is_live (tstate K t) \<Longrightarrow> sched_policy (tasks K t) \<noteq> KSCHED_CFS"
  using kinvD(6) [of d K t] unfolding placed_def by auto

lemma kinv_susp: "kinvd d K \<Longrightarrow> is_susp (tstate K t) \<Longrightarrow> suspend_count (tasks K t) \<noteq> 0"
  using kinvD(6) [of d K t] unfolding placed_def by auto

lemma kinv_idle_ready: "kinvd d K \<Longrightarrow> g_idle_task K \<in> set (rqueue K 61)"
  using kinv_ready_iff [of d K "g_idle_task K" 61] kinvD(7) [of d K] by (simp add: idle_ok_def)

lemma kinv_idle_state: "kinvd d K \<Longrightarrow> tstate K t \<noteq> K_RDY \<Longrightarrow> t \<noteq> g_idle_task K"
  using kinvD(7) [of d K] by (auto simp: idle_ok_def)

lemma kinv_reg: "kinvd d K \<Longrightarrow> is_live (tstate K t) \<Longrightarrow> t \<in> set (task_head (g_kobj_list K))"
  using kinvD(8) by (auto simp: reg_inv_def)

lemma kinv_owner:
  "kinvd d K \<Longrightarrow> obj_type (blk_objs K b) = RHINO_MUTEX_OBJ_TYPE \<Longrightarrow> t \<in> set (blist K b) \<Longrightarrow>
   \<exists>w. mutex_task (mutexes K b) = Some w \<and> w \<noteq> g_idle_task K"
  using kinvD(9) unfolding mutex_inv_def by (metis empty_iff empty_set option.exhaust)

lemma mutex_inv_frame:
  assumes "mutex_inv K" "mutexes K' = mutexes K" "g_idle_task K' = g_idle_task K"
    "\<And>b. obj_type (blk_objs K' b) = obj_type (blk_objs K b)"
    "\<And>b. obj_type (blk_objs K b) = RHINO_MUTEX_OBJ_TYPE \<Longrightarrow> blist K' b \<noteq> [] \<Longrightarrow> blist K b \<noteq> []"
  shows "mutex_inv K'"
  using assms unfolding mutex_inv_def by metis

section \<open>How the primitive steps act on the parts of the invariant\<close>

lemma rq_inv_add:
  assumes "rq_inv (g_ready_queue K)" "tprio K t < 62" "t \<notin> set (rqueue K (tprio K t))"
  shows "rq_inv (g_ready_queue (ready_list_add t K))"
    and "rq_inv (g_ready_queue (ready_list_add_tail t K))"
    and "rq_inv (g_ready_queue (ready_list_add_head t K))"
  using assms rq_wf_add [of K t] by (simp_all add: rq_inv_def)

lemma rq_inv_rm:
  assumes "rq_inv (g_ready_queue K)" "t \<in> set (rqueue K (tprio K t))" "u \<in> set (rqueue K q)" "u \<noteq> t"
  shows "rq_inv (g_ready_queue (ready_list_rm t K))" and "g_fault (ready_list_rm t K) = g_fault K"
  using assms rq_wf_rm [of K t u q] by (simp_all add: rq_inv_def distinct_removeAll)

lemma prio_upd_same:
  "prio r = prio (f t) \<Longrightarrow> (\<lambda>u. prio ((f(t := r)) u)) = (\<lambda>u. prio (f u))"
  by auto

lemma tick_left_upd_same:
  "tick_match (f (tasks K t)) = tick_match (tasks K t) \<Longrightarrow> tick_left (upd_task t f K) = tick_left K"
  by (auto simp: tick_left_def fun_eq_iff)

lemma blk_inv_upd_task [simp]:
  "prio (f (tasks K t)) = prio (tasks K t) \<Longrightarrow> blk_inv (upd_task t f K) \<longleftrightarrow> blk_inv K"
  by (simp add: blk_inv_def prio_upd_same del: fun_upd_apply)

lemma blk_inv_upd_prio:
  assumes "blk_inv K" and "\<And>b. t \<notin> set (blist K b)"
  shows "blk_inv (upd_task t f K)"
proof -
  have "sorted_by (\<lambda>u. tprio (upd_task t f K) u) (blist K b) = sorted_by (\<lambda>u. tprio K u) (blist K b)" for b
    by (rule sorted_by_cong) (use assms(2) [of b] in auto)
  with assms(1) show ?thesis by (simp add: blk_inv_def)
qed

lemma blk_inv_blk_list_rm: "blk_inv K \<Longrightarrow> blk_inv (blk_list_rm t K)"
  by (auto simp: blk_inv_def distinct_removeAll)

lemma blk_inv_frames [simp]:
  "blk_inv (ready_list_add t K) \<longleftrightarrow> blk_inv K" "blk_inv (ready_list_add_tail t K) \<longleftrightarrow> blk_inv K"
  "blk_inv (ready_list_add_head t K) \<longleftrightarrow> blk_inv K" "blk_inv (ready_list_rm t K) \<longleftrightarrow> blk_inv K"
  "blk_inv (ready_list_head_to_tail t K) \<longleftrightarrow> blk_inv K"
  "blk_inv (tick_list_rm t K) \<longleftrightarrow> blk_inv K" "blk_inv (fault K) \<longleftrightarrow> blk_inv K"
  "blk_inv (k_err_proc e K) \<longleftrightarrow> blk_inv K" "blk_inv (K\<lparr>mutexes := ms\<rparr>) \<longleftrightarrow> blk_inv K"
  by (simp_all add: blk_inv_def)

lemma blk_inv_tick_list_insert [simp]: "blk_inv (tick_list_insert t n K) \<longleftrightarrow> blk_inv K"
  by (simp add: blk_inv_def prio_upd_same del: fun_upd_apply)

lemma blk_inv_append:
  "blk_inv K \<Longrightarrow> t \<notin> set (blist K b) \<Longrightarrow> blk_policy (blk_objs K b) = BLK_POLICY_FIFO \<Longrightarrow>
   blk_inv (upd_blk b (\<lambda>o'. o'\<lparr>blk_list := blk_list o' @ [t]\<rparr>) K)"
  by (auto simp: blk_inv_def)

lemma pend_list_add_cong:
  "(\<And>u. tprio A u = tprio B u) \<Longrightarrow> pend_list_add A t xs = pend_list_add B t xs"
  by (induction xs) auto

lemma blk_inv_pend_list_add:
  assumes "blk_inv K" "t \<notin> set (blist K b)" "\<And>u. tprio A u = tprio K u"
  shows "blk_inv (upd_blk b (\<lambda>o'. o'\<lparr>blk_list := pend_list_add A t (blk_list o')\<rparr>) K)"
proof -
  have "pend_list_add A t xs = pend_list_add K t xs" for xs
    by (rule pend_list_add_cong) (rule assms(3))
  with assms show ?thesis
    by (auto simp: blk_inv_def pendins.ins_distinct intro!: pendins.ins_sorted)
qed

lemma tick_inv_upd_task [simp]:
  "tick_match (f (tasks K t)) = tick_match (tasks K t) \<Longrightarrow> tick_inv d (upd_task t f K) \<longleftrightarrow> tick_inv d K"
  by (simp add: tick_inv_def tick_left_upd_same)

lemma tick_left_cong: "tasks A = tasks B \<Longrightarrow> g_tick_count A = g_tick_count B \<Longrightarrow> tick_left A = tick_left B"
  by (simp add: tick_left_def fun_eq_iff)

lemma tick_inv_frames [simp]:
  "tick_inv d (ready_list_add t K) \<longleftrightarrow> tick_inv d K" "tick_inv d (ready_list_add_tail t K) \<longleftrightarrow> tick_inv d K"
  "tick_inv d (ready_list_add_head t K) \<longleftrightarrow> tick_inv d K" "tick_inv d (ready_list_rm t K) \<longleftrightarrow> tick_inv d K"
  "tick_inv d (ready_list_head_to_tail t K) \<longleftrightarrow> tick_inv d K"
  "tick_inv d (blk_list_rm t K) \<longleftrightarrow> tick_inv d K" "tick_inv d (upd_blk b g K) \<longleftrightarrow> tick_inv d K"
  "tick_inv d (fault K) \<longleftrightarrow> tick_inv d K" "tick_inv d (k_err_proc e K) \<longleftrightarrow> tick_inv d K"
  "tick_inv d (K\<lparr>mutexes := ms\<rparr>) \<longleftrightarrow> tick_inv d K"
  by (simp_all add: tick_inv_def tick_left_def [abs_def])

lemma tick_inv_rm: "tick_inv d K \<Longrightarrow> tick_inv d (tick_list_rm t K)"
proof -
  have "tick_left (tick_list_rm t K) = tick_left K"
    by (rule tick_left_cong) (simp_all add: tick_list_rm_def)
  then show "tick_inv d K \<Longrightarrow> tick_inv d (tick_list_rm t K)"
    by (auto simp: tick_inv_def distinct_removeAll)
qed

lemma tick_inv_insert:
  assumes "tick_inv d K" "t \<notin> set (g_tick_head K)" "d \<le> n"
  shows "tick_inv d (tick_list_insert t n K)"
proof -
  let ?K = "upd_task t (\<lambda>r. r\<lparr>tick_match := g_tick_count K + n, tick_remain := n\<rparr>) K"
  have left: "tick_left (tick_list_insert t n K) = tick_left ?K"
    by (rule tick_left_cong) (simp_all add: tick_list_insert_def Let_def)
  have eq: "tick_left ?K u = (if u = t then n else tick_left K u)" for u
    by (simp add: tick_left_def)
  have "sorted_by (tick_left ?K) (g_tick_head K) = sorted_by (tick_left K) (g_tick_head K)"
    by (rule sorted_by_cong) (use assms(2) in \<open>auto simp: eq\<close>)
  then have "sorted_by (tick_left ?K) (g_tick_head K)" using assms(1) by (simp add: tick_inv_def)
  then have "sorted_by (tick_left ?K) (tick_list_pri_insert ?K t (g_tick_head K))"
    by (intro tickins.ins_sorted) (simp_all add: eq)
  with assms show ?thesis
    by (auto simp: tick_inv_def left eq tickins.ins_distinct tickins.ins_set)
qed

section \<open>Moves of one task\<close>

text \<open>The view of a move: what it does to the lists and to the task. Each \<open>kinv\<close> lemma: the move
  keeps \<open>kinv\<close>; each \<open>fault\<close> lemma: it raises no fault.\<close>

fun woken :: "task_stat_t \<Rightarrow> task_stat_t" where
  "woken K_PEND = K_RDY"
| "woken K_PEND_SUSPENDED = K_SUSPENDED"
| "woken s = s"

lemma is_pend_cases:
  assumes "is_pend s" obtains "s = K_PEND" | "s = K_PEND_SUSPENDED"
  using assms by auto

lemma wakeup_view:
  assumes "is_pend (tstate K t)"
  shows "tasks (pend_task_wakeup t K) = (tasks K)(t := (tasks K t)\<lparr>task_state := woken (tstate K t),
      blk_state := BLK_FINISH, blk_ptr := None\<rparr>)"
    and "rqueue (pend_task_wakeup t K) p =
      (if tstate K t = K_PEND \<and> p = tprio K t then rqueue K p @ [t] else rqueue K p)"
    and "blk_objs (pend_task_wakeup t K) =
      (\<lambda>b. (blk_objs K b)\<lparr>blk_list := removeAll t (blist K b)\<rparr>)"
    and "g_tick_head (pend_task_wakeup t K) = removeAll t (g_tick_head K)"
    and "g_fault (pend_task_wakeup t K) = g_fault K"
    and "mutexes (pend_task_wakeup t K) = mutexes K"
    and "g_err (pend_task_wakeup t K) = g_err K"
  using assms by (cases rule: is_pend_cases; simp add: pend_task_wakeup_def Let_def)+

lemma task_rm_view:
  assumes "is_pend (tstate K t)"
  shows "tasks (pend_task_rm t K) = (tasks K)(t := (tasks K t)\<lparr>task_state := woken (tstate K t),
      blk_state := BLK_DEL, blk_ptr := None\<rparr>)"
    and "rqueue (pend_task_rm t K) p =
      (if tstate K t = K_PEND \<and> p = tprio K t then rqueue K p @ [t] else rqueue K p)"
    and "blk_objs (pend_task_rm t K) =
      (\<lambda>b. (blk_objs K b)\<lparr>blk_list := removeAll t (blist K b)\<rparr>)"
    and "g_tick_head (pend_task_rm t K) = removeAll t (g_tick_head K)"
    and "g_fault (pend_task_rm t K) = g_fault K"
    and "mutexes (pend_task_rm t K) = mutexes K"
    and "g_err (pend_task_rm t K) = g_err K"
  using assms by (cases rule: is_pend_cases; simp add: pend_task_rm_def Let_def)+

lemma placed_other:
  assumes "placed K u" "tasks K' u = tasks K u"
    "\<And>p. u \<in> set (rqueue K' p) \<longleftrightarrow> u \<in> set (rqueue K p)"
    "\<And>b. u \<in> set (blist K' b) \<longleftrightarrow> u \<in> set (blist K b)"
    "u \<in> set (g_tick_head K') \<longleftrightarrow> u \<in> set (g_tick_head K)"
  shows "placed K' u"
  using assms by (simp add: placed_def)

lemma idle_ok_other:
  assumes "idle_ok K" "g_idle_task K' = g_idle_task K"
    "tstate K' (g_idle_task K) = tstate K (g_idle_task K)"
    "tprio K' (g_idle_task K) = tprio K (g_idle_task K)"
  shows "idle_ok K'"
  using assms by (simp add: idle_ok_def)

lemma kinv_moveI_reg:
  assumes k: "kinvd d K"
    and o: "\<And>u. u \<noteq> t \<Longrightarrow> tasks K' u = tasks K u"
    and r: "\<And>u p. u \<noteq> t \<Longrightarrow> u \<in> set (rqueue K' p) \<longleftrightarrow> u \<in> set (rqueue K p)"
    and b: "\<And>u b. u \<noteq> t \<Longrightarrow> u \<in> set (blist K' b) \<longleftrightarrow> u \<in> set (blist K b)"
    and h: "\<And>u. u \<noteq> t \<Longrightarrow> u \<in> set (g_tick_head K') \<longleftrightarrow> u \<in> set (g_tick_head K)"
    and t: "placed K' t"
    and fr: "sched_frame K K'"
    and ti: "t \<noteq> g_idle_task K \<or> tstate K' t = K_RDY \<and> tprio K' t = tprio K t"
    and l: "is_live (tstate K' t) \<Longrightarrow> t \<in> set (task_head (g_kobj_list K))"
    and parts: "rq_inv (g_ready_queue K')" "blk_inv K'" "tick_inv d K'" "mutex_inv K'"
  shows "kinvd d K'"
proof -
  note i = sched_frameD(5) [OF fr] sched_frameD(10) [OF fr]
  have "placed K' u" if "u \<noteq> t" for u
    by (rule placed_other [OF kinvD(6) [OF k]]) (use that o r b h in auto)
  with t have "\<forall>u. placed K' u" by metis
  moreover have "idle_ok K'"
  proof (cases "t = g_idle_task K")
    case True
    with ti i kinvD(7) [OF k] show ?thesis by (auto simp: idle_ok_def)
  next
    case False
    with i o [of "g_idle_task K"] kinvD(7) [OF k] show ?thesis by (auto simp: idle_ok_def)
  qed
  moreover have "reg_inv K'"
    unfolding reg_inv_def
  proof (intro allI impI)
    fix u assume "is_live (tstate K' u)"
    with o [of u] l kinv_reg [OF k, of u] i show "u \<in> set (task_head (g_kobj_list K'))"
      by (cases "u = t") (simp_all del: is_live.simps)
  qed
  ultimately show ?thesis using parts by (simp add: kinvd_def)
qed

lemma kinv_moveI:
  assumes k: "kinvd d K"
    and o: "\<And>u. u \<noteq> t \<Longrightarrow> tasks K' u = tasks K u"
    and r: "\<And>u p. u \<noteq> t \<Longrightarrow> u \<in> set (rqueue K' p) \<longleftrightarrow> u \<in> set (rqueue K p)"
    and b: "\<And>u b. u \<noteq> t \<Longrightarrow> u \<in> set (blist K' b) \<longleftrightarrow> u \<in> set (blist K b)"
    and h: "\<And>u. u \<noteq> t \<Longrightarrow> u \<in> set (g_tick_head K') \<longleftrightarrow> u \<in> set (g_tick_head K)"
    and t: "placed K' t"
    and fr: "sched_frame K K'"
    and ti: "t \<noteq> g_idle_task K \<or> tstate K' t = K_RDY \<and> tprio K' t = tprio K t"
    and l: "is_live (tstate K' t) \<Longrightarrow> is_live (tstate K t)"
    and parts: "rq_inv (g_ready_queue K')" "blk_inv K'" "tick_inv d K'" "mutex_inv K'"
  shows "kinvd d K'"
  using assms kinv_reg [OF k, of t] by (intro kinv_moveI_reg [OF k, where t = t and K' = K']) auto

lemma mutex_inv_shrink:
  assumes "kinvd d K" "sched_frame K K'" "mutexes K' = mutexes K"
    "\<And>b. obj_type (blk_objs K' b) = obj_type (blk_objs K b)"
    "\<And>b. blist K' b \<noteq> [] \<Longrightarrow> blist K b \<noteq> []"
  shows "mutex_inv K'"
  by (rule mutex_inv_frame [OF kinvD(9) [OF assms(1)] assms(3) sched_frameD(5) [OF assms(2)]
      assms(4)]) (rule assms(5))

text \<open>The end of a wait, whatever its reason: \<open>K'\<close> is \<open>K\<close> with \<open>t\<close> taken off its object's list
  and the tick list, and put on the ready list unless it is suspended as well.\<close>

lemma kinv_end_wait:
  assumes k: "kinvd d K" and p: "is_pend (tstate K t)"
    and t: "tstate K' t = woken (tstate K t)" "tprio K' t = tprio K t"
      "suspend_count (tasks K' t) = suspend_count (tasks K t)" "b_prio (tasks K' t) = b_prio (tasks K t)"
      "sched_policy (tasks K' t) = sched_policy (tasks K t)"
    and o: "\<And>u. u \<noteq> t \<Longrightarrow> tasks K' u = tasks K u"
    and r: "\<And>p. rqueue K' p =
      (if tstate K t = K_PEND \<and> p = tprio K t then rqueue K p @ [t] else rqueue K p)"
    and b: "\<And>b. blist K' b = removeAll t (blist K b)"
    and h: "g_tick_head K' = removeAll t (g_tick_head K)"
    and i: "sched_frame K K'" "mutexes K' = mutexes K"
      "\<And>b. obj_type (blk_objs K' b) = obj_type (blk_objs K b)"
    and parts: "rq_inv (g_ready_queue K')" "blk_inv K'" "tick_inv d K'"
  shows "kinvd d K'"
proof (rule kinv_moveI [OF k, where t = t])
  show "mutex_inv K'" by (rule mutex_inv_shrink [OF k i]) (auto simp: b)
  show "is_live (tstate K t)" using p by auto
  show "placed K' t"
    using p kinvD(6) [OF k, of t] by (cases rule: is_pend_cases) (auto simp: placed_def t r b h)
  show "t \<noteq> g_idle_task K \<or> tstate K' t = K_RDY \<and> tprio K' t = tprio K t"
    using kinv_idle_state [OF k, of t] p by auto
qed (use o r b h i parts in auto)

lemma rq_inv_append:
  assumes k: "kinvd d K" and p: "is_pend (tstate K t)"
    and "g_ready_queue K' = g_ready_queue K" "tprio K' t = tprio K t"
  shows "rq_inv (g_ready_queue (ready_list_add t K'))"
  using kinv_ready_iff [OF k, of t] kinv_prio(1) [OF k, of t] assms kinvD(3) [OF k]
  by (intro rq_inv_add) auto

lemma kinv_wakeup:
  assumes k: "kinvd d K" and p: "is_pend (tstate K t)" shows "kinvd d (pend_task_wakeup t K)"
proof (rule kinv_end_wait [OF k p])
  show "rq_inv (g_ready_queue (pend_task_wakeup t K))"
    using p kinvD(3) [OF k] rq_inv_append [OF k p]
    by (cases rule: is_pend_cases) (simp_all add: pend_task_wakeup_def Let_def)
  show "blk_inv (pend_task_wakeup t K)"
    using p blk_inv_blk_list_rm [OF kinvD(4) [OF k]]
    by (cases rule: is_pend_cases) (simp_all add: pend_task_wakeup_def Let_def)
  show "tick_inv d (pend_task_wakeup t K)"
    using p kinvD(5) [OF k]
    by (cases rule: is_pend_cases) (simp_all add: pend_task_wakeup_def Let_def tick_inv_rm)
qed (use p wakeup_view [OF p] sched_frame_pend(1) in simp_all)

lemma kinv_task_rm:
  assumes k: "kinvd d K" and p: "is_pend (tstate K t)" shows "kinvd d (pend_task_rm t K)"
proof (rule kinv_end_wait [OF k p])
  show "rq_inv (g_ready_queue (pend_task_rm t K))"
    using p kinvD(3) [OF k] rq_inv_append [OF k p]
    by (cases rule: is_pend_cases) (simp_all add: pend_task_rm_def Let_def)
  show "blk_inv (pend_task_rm t K)"
    using p blk_inv_blk_list_rm [OF kinvD(4) [OF k]]
    by (cases rule: is_pend_cases) (simp_all add: pend_task_rm_def Let_def)
  show "tick_inv d (pend_task_rm t K)"
    using p kinvD(5) [OF k]
    by (cases rule: is_pend_cases) (simp_all add: pend_task_rm_def Let_def tick_inv_rm)
qed (use p task_rm_view [OF p] sched_frame_pend(2) in simp_all)

section \<open>Blocking\<close>

lemma rq_inv_rm_ready:
  assumes k: "kinvd d K" and t: "tstate K t = K_RDY" "t \<noteq> g_idle_task K"
    and K': "g_ready_queue K' = g_ready_queue K" "tprio K' t = tprio K t"
  shows "rq_inv (g_ready_queue (ready_list_rm t K'))" and "g_fault (ready_list_rm t K') = g_fault K'"
    and "rqueue (ready_list_rm t K') p = (if p = tprio K t then removeAll t (rqueue K p) else rqueue K p)"
proof -
  have "t \<in> set (rqueue K' (tprio K' t))" using kinv_ready_iff [OF k] t K' by simp
  moreover have "g_idle_task K \<in> set (rqueue K' 61)" using kinv_idle_ready [OF k] K' by simp
  moreover have "rq_inv (g_ready_queue K')" using kinvD(3) [OF k] K' by simp
  ultimately show "rq_inv (g_ready_queue (ready_list_rm t K'))"
    and "g_fault (ready_list_rm t K') = g_fault K'"
    using rq_inv_rm [of K' t "g_idle_task K" 61] t(2) by auto
  show "rqueue (ready_list_rm t K') p = (if p = tprio K t then removeAll t (rqueue K p) else rqueue K p)"
    using \<open>t \<in> set (rqueue K' (tprio K' t))\<close> K' by simp
qed

text \<open>\<open>pend_at K b t\<close>: the list of \<open>b\<close> once \<open>t\<close> has joined it.\<close>

definition pend_at :: "kernel \<Rightarrow> oid \<Rightarrow> tid \<Rightarrow> tid list" where
  "pend_at K b t = (if blk_policy (blk_objs K b) = BLK_POLICY_FIFO then blist K b @ [t]
                    else pend_list_add K t (blist K b))"

lemma pend_list_add_frames [simp]:
  "pend_list_add (ready_list_rm t K) u xs = pend_list_add K u xs"
  "pend_list_add (tick_list_insert t n K) u xs = pend_list_add K u xs"
  "pend_list_add (blk_list_rm t K) u xs = pend_list_add K u xs"
  "prio (f (tasks K t)) = prio (tasks K t) \<Longrightarrow> pend_list_add (upd_task t f K) u xs = pend_list_add K u xs"
  by (rule pend_list_add_cong; auto)+

lemma set_pend_at [simp]: "set (pend_at K b t) = insert t (set (blist K b))"
  by (auto simp: pend_at_def pendins.ins_set)

lemma pend_to_blk_view:
  assumes k: "kinvd d K" and t: "tstate K t = K_RDY" "t \<noteq> g_idle_task K"
  shows "tasks (pend_to_blk_obj b t n K) = (tasks K)(t := (tasks K t)\<lparr>task_state := K_PEND,
      blk_ptr := Some b,
      tick_match := (if n \<noteq> RHINO_WAIT_FOREVER then g_tick_count K + n else tick_match (tasks K t)),
      tick_remain := (if n \<noteq> RHINO_WAIT_FOREVER then n else tick_remain (tasks K t))\<rparr>)"
    and "rqueue (pend_to_blk_obj b t n K) p =
      (if p = tprio K t then removeAll t (rqueue K p) else rqueue K p)"
    and "blk_objs (pend_to_blk_obj b t n K) =
      (blk_objs K)(b := (blk_objs K b)\<lparr>blk_list := pend_at K b t\<rparr>)"
    and "set (g_tick_head (pend_to_blk_obj b t n K)) =
      (if n \<noteq> RHINO_WAIT_FOREVER then insert t (set (g_tick_head K)) else set (g_tick_head K))"
    and "g_fault (pend_to_blk_obj b t n K) = g_fault K"
    and "mutexes (pend_to_blk_obj b t n K) = mutexes K"
    and "g_err (pend_to_blk_obj b t n K) = g_err K"
    and "rq_inv (g_ready_queue (pend_to_blk_obj b t n K))"
  using rq_inv_rm_ready [OF k t]
  by (auto simp: pend_to_blk_obj_def Let_def pend_at_def tickins.ins_set)

lemma kinv_pend_to_blk:
  assumes k: "kinvd d K" and t: "tstate K t = K_RDY" "t \<noteq> g_idle_task K" and n: "d \<le> n"
    and m: "obj_type (blk_objs K b) = RHINO_MUTEX_OBJ_TYPE \<Longrightarrow> mutex_task (mutexes K b) \<noteq> None"
  shows "kinvd d (pend_to_blk_obj b t n K)"
proof (rule kinv_moveI [OF k, where t = t])
  let ?K = "pend_to_blk_obj b t n K"
  note v = pend_to_blk_view [OF k t, of b n]
  have nt: "t \<notin> set (g_tick_head K)" using kinv_tick_state [OF k, of t] t by auto
  have nb: "t \<notin> set (blist K c)" for c using kinv_blist_iff [OF k, of t c] t by auto
  have d: "distinct (rqueue K p)" for p using kinvD(2) [OF k] .
  show "blk_inv ?K"
    using kinvD(4) [OF k] nb [of b] t(1)
    by (auto simp: pend_to_blk_obj_def Let_def intro!: blk_inv_append blk_inv_pend_list_add)
  show "tick_inv d ?K"
    using kinvD(5) [OF k] nt n by (auto simp: pend_to_blk_obj_def Let_def 
        intro!: tick_inv_insert)
  show "placed ?K t"
    using kinvD(6) [OF k, of t] t(1) nb by (auto simp: placed_def v)
  show "rq_inv (g_ready_queue ?K)" "t \<noteq> g_idle_task K \<or> tstate ?K t = K_RDY \<and> tprio ?K t = tprio K t"
    using v t by auto
  show "mutex_inv ?K"
    using kinvD(9) [OF k] m by (auto simp: mutex_inv_def v sched_frame_pend(3) [THEN sched_frameD(5)])
  show "is_live (tstate K t)" using t by simp
qed (auto simp: pend_to_blk_view [OF k t])

section \<open>Sleeping, suspending, resuming\<close>

lemma kinv_sleep:
  assumes k: "kinvd d K" and t: "tstate K t = K_RDY" "t \<noteq> g_idle_task K" and n: "d \<le> n"
  shows "kinvd d (ready_list_rm t (tick_list_insert t n (upd_task t (\<lambda>r. r\<lparr>task_state := K_SLEEP\<rparr>) K)))"
    (is "kinvd d ?K")
    and "g_fault (ready_list_rm t (tick_list_insert t n (upd_task t (\<lambda>r. r\<lparr>task_state := K_SLEEP\<rparr>) K)))
      = g_fault K"
proof -
  note v = rq_inv_rm_ready [OF k t, of "tick_list_insert t n (upd_task t (\<lambda>r. r\<lparr>task_state := K_SLEEP\<rparr>) K)"]
  have nt: "t \<notin> set (g_tick_head K)" using kinv_tick_state [OF k, of t] t by auto
  show "kinvd d ?K"
  proof (rule kinv_moveI [OF k, where t = t])
    show "tick_inv d ?K" using kinvD(5) [OF k] nt n by (auto intro!: tick_inv_insert)
    show "placed ?K t" using kinvD(6) [OF k, of t] t(1) v(3)
      by (auto simp: placed_def tickins.ins_set)
    show "blk_inv ?K" using kinvD(4) [OF k] by simp
    show fr: "sched_frame K ?K" by (intro sched_frame_steps) simp
    show "mutex_inv ?K" by (rule mutex_inv_shrink [OF k fr]) auto
  qed (use t v in \<open>auto simp: tickins.ins_set\<close>)
  show "g_fault ?K = g_fault K" using v by simp
qed

text \<open>A change of a task's control block that leaves the state's place alone.\<close>

lemma kinv_upd_task:
  assumes k: "kinvd d K"
    and f: "prio (f (tasks K t)) = prio (tasks K t)" "tick_match (f (tasks K t)) = tick_match (tasks K t)"
      "is_pend (tstate K t) \<Longrightarrow> blk_ptr (f (tasks K t)) = blk_ptr (tasks K t)"
      "tstate K t = K_RDY \<longleftrightarrow> task_state (f (tasks K t)) = K_RDY"
      "is_pend (tstate K t) \<longleftrightarrow> is_pend (task_state (f (tasks K t)))"
      "is_sleep (tstate K t) \<longleftrightarrow> is_sleep (task_state (f (tasks K t)))"
      "is_live (task_state (f (tasks K t))) \<longleftrightarrow> is_live (tstate K t)"
      "is_live (tstate K t) \<Longrightarrow> b_prio (f (tasks K t)) < 62"
      "is_live (tstate K t) \<Longrightarrow> sched_policy (f (tasks K t)) \<noteq> KSCHED_CFS"
      "is_susp (task_state (f (tasks K t))) \<Longrightarrow> suspend_count (f (tasks K t)) \<noteq> 0"
  shows "kinvd d (upd_task t f K)"
proof (rule kinv_moveI [OF k, where t = t])
  show "placed (upd_task t f K) t"
    using kinvD(6) [OF k, of t] f unfolding placed_def
    by (cases "is_pend (tstate K t)")
      (simp_all del: is_pend.simps is_sleep.simps is_susp.simps is_live.simps)
  show "mutex_inv (upd_task t f K)" by (rule mutex_inv_shrink [OF k]) auto
  show "is_live (tstate (upd_task t f K) t) \<Longrightarrow> is_live (tstate K t)"
    using f by (simp del: is_live.simps)
  show "t \<noteq> g_idle_task K \<or> tstate (upd_task t f K) t = K_RDY \<and> tprio (upd_task t f K) t = tprio K t"
    using f kinvD(7) [OF k] by (auto simp: idle_ok_def)
qed (use kinvD(3-5) [OF k] f in auto)

lemma kinv_suspend_ready:
  assumes k: "kinvd d K" and t: "tstate K t = K_RDY" "t \<noteq> g_idle_task K" and c: "c \<noteq> 0"
  shows "kinvd d (ready_list_rm t (upd_task t (\<lambda>r. r\<lparr>suspend_count := c, task_state := K_SUSPENDED\<rparr>) K))"
    (is "kinvd d ?K")
    and "g_fault (ready_list_rm t (upd_task t (\<lambda>r. r\<lparr>suspend_count := c, task_state := K_SUSPENDED\<rparr>) K))
      = g_fault K"
proof -
  note v = rq_inv_rm_ready [OF k t, of "upd_task t (\<lambda>r. r\<lparr>suspend_count := c, task_state := K_SUSPENDED\<rparr>) K"]
  show "kinvd d ?K"
  proof (rule kinv_moveI [OF k, where t = t])
    show "placed ?K t" using kinvD(6) [OF k, of t] t(1) v(3) c by (auto simp: placed_def)
    show "blk_inv ?K" "tick_inv d ?K" using kinvD(4,5) [OF k] by simp_all
    show fr: "sched_frame K ?K" by (intro sched_frame_steps) simp
    show "mutex_inv ?K" by (rule mutex_inv_shrink [OF k fr]) auto
  qed (use t v in auto)
  show "g_fault ?K = g_fault K" using v by simp
qed

text \<open>A suspended task becomes ready.\<close>

lemma kinv_make_ready:
  assumes k: "kinvd d K" and t: "tstate K t = K_SUSPENDED"
    and f: "task_state (f (tasks K t)) = K_RDY" "prio (f (tasks K t)) = prio (tasks K t)"
      "tick_match (f (tasks K t)) = tick_match (tasks K t)" "b_prio (f (tasks K t)) = b_prio (tasks K t)"
      "sched_policy (f (tasks K t)) = sched_policy (tasks K t)"
  shows "kinvd d (ready_list_add t (upd_task t f K))" (is "kinvd d ?K")
proof (rule kinv_moveI [OF k, where t = t])
  have nr: "t \<notin> set (rqueue K q)" for q using kinv_ready_iff [OF k, of t q] t by auto
  have nb: "t \<notin> set (blist K q)" for q using kinv_blist_iff [OF k, of t q] t by auto
  have nt: "t \<notin> set (g_tick_head K)" using kinv_tick_state [OF k, of t] t by auto
  have pr: "tprio K t < 62" "b_prio (tasks K t) < 62" "sched_policy (tasks K t) \<noteq> KSCHED_CFS" using kinv_prio [OF k, of t] t by auto
  show fr: "sched_frame K ?K" by (intro sched_frame_steps) simp
  show "mutex_inv ?K" by (rule mutex_inv_shrink [OF k fr]) auto
  show "is_live (tstate K t)" using t by simp
  show "placed ?K t" using nr nb nt f pr by (auto simp: placed_def)
  show "rq_inv (g_ready_queue ?K)" using kinvD(3) [OF k] nr pr f by (intro rq_inv_add) auto
  show "blk_inv ?K" "tick_inv d ?K" using kinvD(4,5) [OF k] f by simp_all
  show "t \<noteq> g_idle_task K \<or> tstate ?K t = K_RDY \<and> tprio ?K t = tprio K t" using f by auto
qed auto

section \<open>Changing a priority\<close>

lemma rq_inv_change_prio:
  assumes k: "kinvd d K" and t: "tstate K t = K_RDY" "t \<noteq> g_idle_task K" and p: "p < 62"
    and K': "K' = upd_task t (\<lambda>r. r\<lparr>prio := p\<rparr>) (ready_list_rm t K)"
  shows "rq_inv (g_ready_queue (ready_list_add_tail t K'))"
    and "rq_inv (g_ready_queue (ready_list_add_head t K'))" and "g_fault K' = g_fault K"
    and "u \<noteq> t \<Longrightarrow> u \<in> set (rqueue K' q) \<longleftrightarrow> u \<in> set (rqueue K q)"
    and "t \<notin> set (rqueue K' q)"
proof -
  note v = rq_inv_rm_ready [OF k t, of K]
  show nt: "t \<notin> set (rqueue K' q)" for q
    using v(3) kinv_ready_iff [OF k, of t] by (auto simp: K' split: if_splits)
  show "rq_inv (g_ready_queue (ready_list_add_tail t K'))"
    "rq_inv (g_ready_queue (ready_list_add_head t K'))"
    using v nt p by (auto simp: K' intro!: rq_inv_add)
  show "g_fault K' = g_fault K" using v by (simp add: K')
  show "u \<noteq> t \<Longrightarrow> u \<in> set (rqueue K' q) \<longleftrightarrow> u \<in> set (rqueue K q)" using v by (simp add: K')
qed

lemma kinv_prio_ready:
  assumes k: "kinvd d K" and t: "tstate K t = K_RDY" "t \<noteq> g_idle_task K" and p: "p < 62"
  shows "kinvd d (ready_list_add_tail t (upd_task t (\<lambda>r. r\<lparr>prio := p\<rparr>) (ready_list_rm t K)))"
    and "kinvd d (ready_list_add_head t (upd_task t (\<lambda>r. r\<lparr>prio := p\<rparr>) (ready_list_rm t K)))"
proof -
  let ?K = "upd_task t (\<lambda>r. r\<lparr>prio := p\<rparr>) (ready_list_rm t K)"
  note v = rq_inv_change_prio [OF k t p refl]
  have nb: "t \<notin> set (blist K b)" for b using kinv_blist_iff [OF k, of t b] t by auto
  have main: "kinvd d K'" if r: "rq_inv (g_ready_queue K')" and f: "sched_frame ?K K'"
    and e: "tasks K' = tasks ?K" "blk_objs K' = blk_objs K" "g_tick_head K' = g_tick_head K"
      "mutexes K' = mutexes K"
    and m: "\<And>u q. u \<in> set (rqueue K' q) \<longleftrightarrow> u \<in> set (rqueue ?K q) \<or> u = t \<and> q = p" for K'
  proof (rule kinv_moveI [OF k, where t = t])
    show fr: "sched_frame K K'"
      by (rule sched_frame_trans [OF _ f]) (intro sched_frame_steps sched_frame_refl)
    show "mutex_inv K'" by (rule mutex_inv_shrink [OF k fr]) (auto simp: e)
    have "blk_inv (upd_task t (\<lambda>r. r\<lparr>prio := p\<rparr>) K)" using kinvD(4) [OF k] nb by (rule blk_inv_upd_prio)
    then show "blk_inv K'" by (simp add: blk_inv_def e)
    have "tick_left K' = tick_left K"
      using sched_frameD(6) [OF fr] by (auto simp: tick_left_def e fun_eq_iff)
    then show "tick_inv d K'" using kinvD(5) [OF k] by (simp add: tick_inv_def e)
    show "placed K' t" using kinvD(6) [OF k, of t] t p v(5) by (auto simp: placed_def e m)
  qed (use r e m v t in auto)
  show "kinvd d (ready_list_add_tail t ?K)" by (rule main) (use v in \<open>auto split: if_splits\<close>)
  show "kinvd d (ready_list_add_head t ?K)" by (rule main) (use v in \<open>auto split: if_splits\<close>)
qed

lemma kinv_prio_idle_lists:
  assumes k: "kinvd d K" and t: "tstate K t \<noteq> K_RDY" "\<not> is_pend (tstate K t)" and p: "p < 62"
  shows "kinvd d (upd_task t (\<lambda>r. r\<lparr>prio := p\<rparr>) K)" (is "kinvd d ?K")
proof (rule kinv_moveI [OF k, where t = t])
  have nb: "t \<notin> set (blist K b)" for b using kinv_blist_iff [OF k, of t b] t by auto
  show "blk_inv ?K" using kinvD(4) [OF k] nb by (rule blk_inv_upd_prio)
  show "placed ?K t" using kinvD(6) [OF k, of t] t p by (auto simp: placed_def)
  show "mutex_inv ?K" by (rule mutex_inv_shrink [OF k]) auto
  show "t \<noteq> g_idle_task K \<or> tstate ?K t = K_RDY \<and> tprio ?K t = tprio K t"
    using kinv_idle_state [OF k] t by auto
qed (use kinvD(3,5) [OF k] in auto)

lemma reorder_view:
  assumes "blk_ptr (tasks K t) = Some b"
  shows "tasks (pend_list_reorder t K) = tasks K"
    "g_ready_queue (pend_list_reorder t K) = g_ready_queue K"
    "g_tick_head (pend_list_reorder t K) = g_tick_head K"
    "mutexes (pend_list_reorder t K) = mutexes K"
    "g_fault (pend_list_reorder t K) = g_fault K" "g_err (pend_list_reorder t K) = g_err K"
    "blk_objs (pend_list_reorder t K) = (if blk_policy (blk_objs K b) = BLK_POLICY_PRI
       then (\<lambda>c. (blk_objs K c)\<lparr>blk_list := removeAll t (blist K c)\<rparr>)
         (b := (blk_objs K b)\<lparr>blk_list := pend_list_add K t (removeAll t (blist K b))\<rparr>)
       else blk_objs K)"
  using assms by (simp_all add: pend_list_reorder_def Let_def)

lemma kinv_prio_pend:
  assumes k: "kinvd d K" and t: "is_pend (tstate K t)" and p: "p < 62"
  shows "kinvd d (pend_list_reorder t (upd_task t (\<lambda>r. r\<lparr>prio := p\<rparr>) K))" (is "kinvd d ?K")
    and "g_fault (pend_list_reorder t (upd_task t (\<lambda>r. r\<lparr>prio := p\<rparr>) K)) = g_fault K"
    and "set (blist (pend_list_reorder t (upd_task t (\<lambda>r. r\<lparr>prio := p\<rparr>) K)) c) = set (blist K c)"
proof -
  let ?U = "upd_task t (\<lambda>r. r\<lparr>prio := p\<rparr>) K"
  obtain b where b: "blk_ptr (tasks K t) = Some b" using kinv_pend_ptr [OF k t] by blast
  then have b': "blk_ptr (tasks ?U t) = Some b" by simp
  note v = reorder_view [OF b']
  have in_b: "t \<in> set (blist K c) \<longleftrightarrow> c = b" for c using kinv_blist_iff [OF k] t b by auto
  show sets: "set (blist ?K c) = set (blist K c)" for c
    using in_b [of c] by (auto simp: v pendins.ins_set)
  show "g_fault ?K = g_fault K" by (simp add: v)
  show "kinvd d ?K"
  proof (rule kinv_moveI [OF k, where t = t])
    show fr: "sched_frame K ?K"
      by (rule sched_frame_trans [OF _ sched_frame_pend(4)]) simp
    show "mutex_inv ?K"
    proof (rule mutex_inv_shrink [OF k fr])
      show "blist ?K c \<noteq> [] \<Longrightarrow> blist K c \<noteq> []" for c using sets [of c] by auto
    qed (auto simp: v)
    show "blk_inv ?K"
    proof (cases "blk_policy (blk_objs K b) = BLK_POLICY_PRI")
      case True
      let ?R = "blk_list_rm t K"
      have "blk_inv ?R" by (rule blk_inv_blk_list_rm [OF kinvD(4) [OF k]])
      then have "blk_inv (upd_task t (\<lambda>r. r\<lparr>prio := p\<rparr>) ?R)" by (rule blk_inv_upd_prio) auto
      then have "blk_inv (blk_list_rm t ?U)" by (simp add: blk_inv_def)
      then have "blk_inv (upd_blk b (\<lambda>o'. o'\<lparr>blk_list := pend_list_add ?U t (blk_list o')\<rparr>) (blk_list_rm t ?U))"
        by (rule blk_inv_pend_list_add) auto
      with True show ?thesis by (simp add: blk_inv_def v)
    next
      case False
      have srt: "sorted_by (\<lambda>u. tprio ?U u) (blist K c)"
        if "blk_policy (blk_objs K c) = BLK_POLICY_PRI" for c
      proof -
        have "c \<noteq> b" using that False by auto
        then have "sorted_by (\<lambda>u. tprio ?U u) (blist K c) = sorted_by (\<lambda>u. tprio K u) (blist K c)"
          by (intro sorted_by_cong) (use in_b [of c] in auto)
        with that kinvD(4) [OF k] show ?thesis by (simp add: blk_inv_def)
      qed
      have same: "blk_objs ?K = blk_objs K" using False by (simp add: v)
      show ?thesis unfolding blk_inv_def
      proof (intro allI conjI impI)
        fix c
        show "distinct (blist ?K c)" unfolding same using kinvD(4) [OF k] by (simp add: blk_inv_def)
        assume "blk_policy (blk_objs ?K c) = BLK_POLICY_PRI"
        then show "sorted_by (\<lambda>t. tprio ?K t) (blist ?K c)"
          unfolding same v(1) by (rule srt)
      qed
    qed
    have "tstate K t \<noteq> K_RDY" using t by auto
    then show "placed ?K t" using kinvD(6) [OF k, of t] t p b unfolding placed_def
      by (simp add: v(1-3) sets)
    have "tick_left ?K = tick_left K"
      using sched_frameD(6) [OF fr] by (auto simp: tick_left_def v fun_eq_iff)
    then show "tick_inv d ?K" using kinvD(5) [OF k] by (simp add: tick_inv_def v)
    show "t \<noteq> g_idle_task K \<or> tstate ?K t = K_RDY \<and> tprio ?K t = tprio K t"
      using kinv_idle_state [OF k, of t] t by auto
    show "u \<in> set (blist ?K c) \<longleftrightarrow> u \<in> set (blist K c)" for u c using sets by simp
  qed (use kinvD(3) [OF k] v t in auto)
qed

end
