(* ===== verification/KPri.thy ===== *)
theory KPri
  imports KInv
begin

text \<open>
  Priorities and mutexes: the priority change with its walk along the chain of mutex owners
  (\<^verbatim>\<open>task_pri_change\<close> in \<^verbatim>\<open>k_task.c\<close>) and the priority computations of \<^verbatim>\<open>k_mutex.c\<close>, for both values
  of \<^verbatim>\<open>RHINO_CONFIG_MUTEX_INHERIT\<close> (field \<open>cfg_mutex_inherit\<close>). The walk is a loop without an
  obvious bound; it is modelled with fuel that is proved to suffice in every state that satisfies
  the invariant, deadlocked ones included.
\<close>

section \<open>The mutexes a task holds\<close>

text \<open>The singly linked list from \<^verbatim>\<open>task->mutex_list\<close> through \<^verbatim>\<open>mutex->mutex_list\<close>. Its mutexes are
  registered in \<^verbatim>\<open>g_kobj_list.mutex_head\<close>, whose length bounds the walk.\<close>

fun mutex_chain :: "nat \<Rightarrow> kernel \<Rightarrow> oid option \<Rightarrow> oid list" where
  "mutex_chain 0 K m = []"
| "mutex_chain (Suc n) K None = []"
| "mutex_chain (Suc n) K (Some m) = m # mutex_chain n K (mutex_next (mutexes K m))"

definition held_mutexes :: "kernel \<Rightarrow> tid \<Rightarrow> oid list" where
  "held_mutexes K t = mutex_chain (length (mutex_head (g_kobj_list K))) K (mutex_ptr (tasks K t))"

definition upd_mutex :: "oid \<Rightarrow> (kmutex_t \<Rightarrow> kmutex_t) \<Rightarrow> kernel \<Rightarrow> kernel" where
  "upd_mutex m f K = K\<lparr>mutexes := (mutexes K)(m := f (mutexes K m))\<rparr>"

text \<open>The priority of the first task blocked on a mutex, if there is one.\<close>

definition first_blk_prio :: "kernel \<Rightarrow> oid \<Rightarrow> nat \<Rightarrow> nat" where
  "first_blk_prio K m pri = (case blist K m of [] \<Rightarrow> pri | first_blk_task # _ \<Rightarrow> tprio K first_blk_task)"

fun pri_limit_walk :: "kernel \<Rightarrow> oid list \<Rightarrow> nat \<Rightarrow> nat \<Rightarrow> nat" where
  "pri_limit_walk K [] pri high_pri = high_pri"
| "pri_limit_walk K (m # ms) pri high_pri =
     (let pri = first_blk_prio K m pri;
          high_pri = (if pri < high_pri then pri else high_pri)
      in pri_limit_walk K ms pri high_pri)"

definition mutex_pri_limit :: "kernel \<Rightarrow> tid \<Rightarrow> nat \<Rightarrow> nat" where
  "mutex_pri_limit K t pri =
     (if cfg_mutex_inherit K then pri_limit_walk K (held_mutexes K t) pri pri else pri)"

text \<open>\<^verbatim>\<open>*prev = next\<close>, where \<^verbatim>\<open>prev\<close> points into the task (\<open>None\<close>) or into a mutex.\<close>

definition set_prev_link :: "tid \<Rightarrow> oid option \<Rightarrow> oid option \<Rightarrow> kernel \<Rightarrow> kernel" where
  "set_prev_link t prev next K =
     (case prev of
        None \<Rightarrow> upd_task t (\<lambda>r. r\<lparr>mutex_ptr := next\<rparr>) K
      | Some m \<Rightarrow> upd_mutex m (\<lambda>r. r\<lparr>mutex_next := next\<rparr>) K)"

fun pri_look_walk :: "tid \<Rightarrow> oid option \<Rightarrow> oid option \<Rightarrow> oid list \<Rightarrow> nat \<Rightarrow> nat \<Rightarrow> kernel \<Rightarrow> kernel \<times> nat" where
  "pri_look_walk t rel prev [] new_pri pri K = (K, new_pri)"
| "pri_look_walk t rel prev (m # ms) new_pri pri K =
     (if rel = Some m then
        pri_look_walk t rel prev ms new_pri pri (set_prev_link t prev (mutex_next (mutexes K m)) K)
      else
        let pri = first_blk_prio K m pri;
            new_pri = (if new_pri > pri then pri else new_pri)
        in pri_look_walk t rel (Some m) ms new_pri pri K)"

definition mutex_pri_look :: "tid \<Rightarrow> oid option \<Rightarrow> kernel \<Rightarrow> kernel \<times> nat" where
  "mutex_pri_look t mutex_rel K =
     (if cfg_mutex_inherit K
      then pri_look_walk t mutex_rel None (held_mutexes K t) (b_prio (tasks K t)) (b_prio (tasks K t)) K
      else (K, b_prio (tasks K t)))"

section \<open>The priority change\<close>

definition is_task_exec :: "kernel \<Rightarrow> tid \<Rightarrow> bool" where
  "is_task_exec K t \<longleftrightarrow> g_active_task K = t"

text \<open>One round of the loop: it goes on with the owner of the mutex the task waits for (\<open>Inl\<close>)
  or ends with a status (\<open>Inr\<close>).\<close>

definition task_pri_step :: "tid \<Rightarrow> nat \<Rightarrow> kernel \<Rightarrow> kernel \<times> (tid \<times> nat + kstat_t)" where
  "task_pri_step t new_pri K =
     (if tprio K t \<noteq> new_pri then
        (if tstate K t = K_RDY then
           let task_exec = is_task_exec K t;
               K = (if task_exec
                    then if sched_policy (tasks K t) \<noteq> KSCHED_CFS then ready_list_rm t K else K
                    else ready_list_rm t K);
               K = upd_task t (\<lambda>r. r\<lparr>prio := new_pri\<rparr>) K;
               K = (if task_exec
                    then if sched_policy (tasks K t) \<noteq> KSCHED_CFS then ready_list_add_head t K else K
                    else ready_list_add_tail t K)
           in (K, Inr RHINO_SUCCESS)
         else if tstate K t = K_SLEEP \<or> tstate K t = K_SUSPENDED \<or> tstate K t = K_SLEEP_SUSPENDED then
           (upd_task t (\<lambda>r. r\<lparr>prio := new_pri\<rparr>) K, Inr RHINO_SUCCESS)
         else if tstate K t = K_PEND \<or> tstate K t = K_PEND_SUSPENDED then
           let old_pri = tprio K t;
               K = upd_task t (\<lambda>r. r\<lparr>prio := new_pri\<rparr>) K;
               K = pend_list_reorder t K
           in case blk_ptr (tasks K t) of
                None \<Rightarrow> (fault K, Inr RHINO_SUCCESS)
              | Some b \<Rightarrow>
                  if obj_type (blk_objs K b) = RHINO_MUTEX_OBJ_TYPE then
                    case mutex_task (mutexes K b) of
                      None \<Rightarrow> (fault K, Inr RHINO_SUCCESS)
                    | Some owner \<Rightarrow>
                        if tprio K owner > tprio K t then (K, Inl (owner, new_pri))
                        else if tprio K owner = old_pri then
                          let (K, new_pri) = mutex_pri_look owner None K
                          in if new_pri \<noteq> tprio K owner then (K, Inl (owner, new_pri))
                             else (K, Inr RHINO_SUCCESS)
                        else (K, Inr RHINO_SUCCESS)
                  else (K, Inr RHINO_SUCCESS)
         else (k_err_proc RHINO_INV_TASK_STATE K, Inr RHINO_INV_TASK_STATE))
      else (K, Inr RHINO_SUCCESS))"

fun task_pri_loop :: "nat \<Rightarrow> tid \<Rightarrow> nat \<Rightarrow> kernel \<Rightarrow> kernel \<times> kstat_t" where
  "task_pri_loop 0 t new_pri K = (fault K, RHINO_SUCCESS)"
| "task_pri_loop (Suc n) t new_pri K =
     (case task_pri_step t new_pri K of
        (K', Inl (t', new_pri')) \<Rightarrow> task_pri_loop n t' new_pri' K'
      | (K', Inr s) \<Rightarrow> (K', s))"

definition pri_fuel :: "kernel \<Rightarrow> nat" where
  "pri_fuel K = 2 * length (task_head (g_kobj_list K)) + 2"

definition task_pri_change :: "tid \<Rightarrow> nat \<Rightarrow> kernel \<Rightarrow> kernel \<times> kstat_t" where
  "task_pri_change t new_pri K = task_pri_loop (pri_fuel K) t new_pri K"

definition mutex_release :: "tid \<Rightarrow> oid option \<Rightarrow> kernel \<Rightarrow> kernel" where
  "mutex_release t mutex_rel K =
     (let (K, new_pri) = mutex_pri_look t mutex_rel K
      in if new_pri \<noteq> tprio K t then fst (task_pri_change t new_pri K) else K)"

definition mutex_task_pri_reset :: "tid \<Rightarrow> kernel \<Rightarrow> kernel" where
  "mutex_task_pri_reset t K =
     (if cfg_mutex_inherit K then
        case blk_ptr (tasks K t) of
          None \<Rightarrow> fault K
        | Some b \<Rightarrow>
            if obj_type (blk_objs K b) = RHINO_MUTEX_OBJ_TYPE then
              case mutex_task (mutexes K b) of
                None \<Rightarrow> fault K
              | Some owner \<Rightarrow>
                  if tprio K owner = tprio K t then mutex_release owner None K else K
            else K
      else K)"

lemma upd_mutex_sel [simp]:
  "mutexes (upd_mutex m f K) = (mutexes K)(m := f (mutexes K m))"
  "tasks (upd_mutex m f K) = tasks K" "blk_objs (upd_mutex m f K) = blk_objs K"
  "g_ready_queue (upd_mutex m f K) = g_ready_queue K" "g_tick_head (upd_mutex m f K) = g_tick_head K"
  "g_fault (upd_mutex m f K) = g_fault K" "g_err (upd_mutex m f K) = g_err K"
  by (simp_all add: upd_mutex_def)

lemma sched_frame_upd_mutex [simp, frame]: "sched_frame K (upd_mutex m f K)"
  by (simp add: upd_mutex_def)

section \<open>What a priority change leaves alone\<close>

text \<open>\<open>prio_frame K K'\<close>: only priorities, the order of lists, the ready queue and the links of the
  mutex lists may differ; every task is blocked on the same object and ticks as before.\<close>

definition prio_frame :: "kernel \<Rightarrow> kernel \<Rightarrow> bool" where
  "prio_frame K K' \<longleftrightarrow> sched_frame K K' \<and>
     (\<forall>u. \<exists>p m. tasks K' u = (tasks K u)\<lparr>prio := p, mutex_ptr := m\<rparr>) \<and>
     (\<forall>b. \<exists>xs. blk_objs K' b = (blk_objs K b)\<lparr>blk_list := xs\<rparr> \<and> set xs = set (blist K b)) \<and>
     (\<forall>b. \<exists>m. mutexes K' b = (mutexes K b)\<lparr>mutex_next := m\<rparr>) \<and>
     g_tick_head K' = g_tick_head K"

lemma prio_frame_taskE:
  assumes "prio_frame K K'" obtains p m where "tasks K' u = (tasks K u)\<lparr>prio := p, mutex_ptr := m\<rparr>"
  using assms unfolding prio_frame_def by blast

lemma prio_frame_blkE:
  assumes "prio_frame K K'"
  obtains xs where "blk_objs K' b = (blk_objs K b)\<lparr>blk_list := xs\<rparr>" "set xs = set (blist K b)"
  using assms unfolding prio_frame_def by blast

lemma prio_frame_mutexE:
  assumes "prio_frame K K'" obtains m where "mutexes K' b = (mutexes K b)\<lparr>mutex_next := m\<rparr>"
  using assms unfolding prio_frame_def by blast

lemma prio_frameI:
  assumes "sched_frame K K'" "\<And>u. \<exists>p m. tasks K' u = (tasks K u)\<lparr>prio := p, mutex_ptr := m\<rparr>"
    "\<And>b. \<exists>xs. blk_objs K' b = (blk_objs K b)\<lparr>blk_list := xs\<rparr> \<and> set xs = set (blist K b)"
    "\<And>b. \<exists>m. mutexes K' b = (mutexes K b)\<lparr>mutex_next := m\<rparr>"
    "g_tick_head K' = g_tick_head K"
  shows "prio_frame K K'"
  using assms by (simp add: prio_frame_def)

lemma ktask_same_prio: "\<exists>p m. r = r\<lparr>prio := p, mutex_ptr := m\<rparr>" for r :: ktask
  by (intro exI [of _ "prio r"] exI [of _ "mutex_ptr r"]) simp

lemma ktask_new_prio: "\<exists>q m. r\<lparr>prio := p\<rparr> = r\<lparr>prio := q, mutex_ptr := m\<rparr>" for r :: ktask
  by (intro exI [of _ p] exI [of _ "mutex_ptr r"]) simp

lemma blk_same_list: "\<exists>xs. r = r\<lparr>blk_list := xs\<rparr> \<and> set xs = set (blk_list r)" for r :: blk_obj_t
  by (rule exI [of _ "blk_list r"]) simp

lemma mutex_same_next: "\<exists>m. r = r\<lparr>mutex_next := m\<rparr>" for r :: kmutex_t
  by (rule exI [of _ "mutex_next r"]) simp

lemma prio_frame_refl [simp]: "prio_frame K K"
  by (rule prio_frameI) (simp_all add: ktask_same_prio blk_same_list mutex_same_next)

lemma prio_frame_trans:
  assumes A: "prio_frame A B" and B: "prio_frame B C" shows "prio_frame A C"
proof (rule prio_frameI)
  show "sched_frame A C" using assms by (auto simp: prio_frame_def intro: sched_frame_trans)
  show "\<exists>p m. tasks C u = (tasks A u)\<lparr>prio := p, mutex_ptr := m\<rparr>" for u
    by (rule prio_frame_taskE [OF A, of u]; rule prio_frame_taskE [OF B, of u]) auto
  show "\<exists>xs. blk_objs C b = (blk_objs A b)\<lparr>blk_list := xs\<rparr> \<and> set xs = set (blist A b)" for b
    by (rule prio_frame_blkE [OF A, of b]; rule prio_frame_blkE [OF B, of b]) auto
  show "\<exists>m. mutexes C b = (mutexes A b)\<lparr>mutex_next := m\<rparr>" for b
    by (rule prio_frame_mutexE [OF A, of b]; rule prio_frame_mutexE [OF B, of b]) auto
qed (use assms in \<open>auto simp: prio_frame_def\<close>)

lemma prio_frame_task:
  assumes "prio_frame K K'"
  shows "tstate K' u = tstate K u" "blk_ptr (tasks K' u) = blk_ptr (tasks K u)"
    "b_prio (tasks K' u) = b_prio (tasks K u)" "blk_state (tasks K' u) = blk_state (tasks K u)"
    "tick_match (tasks K' u) = tick_match (tasks K u)" "cancel (tasks K' u) = cancel (tasks K u)"
    "suspend_count (tasks K' u) = suspend_count (tasks K u)"
    "sched_policy (tasks K' u) = sched_policy (tasks K u)"
    "task_sem_obj (tasks K' u) = task_sem_obj (tasks K u)"
    "task_alloc_flag (tasks K' u) = task_alloc_flag (tasks K u)"
  by (rule prio_frame_taskE [OF assms, of u]; simp)+

lemma prio_frame_blk:
  assumes "prio_frame K K'"
  shows "set (blist K' b) = set (blist K b)" "obj_type (blk_objs K' b) = obj_type (blk_objs K b)"
    "obj_cancel (blk_objs K' b) = obj_cancel (blk_objs K b)"
    "blk_policy (blk_objs K' b) = blk_policy (blk_objs K b)"
    "mutex_task (mutexes K' b) = mutex_task (mutexes K b)"
    "owner_nested (mutexes K' b) = owner_nested (mutexes K b)"
    "mutex_alloc_flag (mutexes K' b) = mutex_alloc_flag (mutexes K b)"
  by (rule prio_frame_blkE [OF assms, of b]; rule prio_frame_mutexE [OF assms, of b]; simp)+

lemma prio_frame_empty: "prio_frame K K' \<Longrightarrow> blist K' b = [] \<longleftrightarrow> blist K b = []"
  using prio_frame_blk(1) [of K K' b] by (metis set_empty)

lemma prio_frame_glob:
  assumes "prio_frame K K'"
  shows "g_tick_head K' = g_tick_head K" "sched_frame K K'"
  using assms by (simp_all add: prio_frame_def)

lemma pri_look_le: "snd (pri_look_walk t rel prev ms n p K) \<le> n"
proof (induction ms arbitrary: prev n p K)
  case (Cons m ms)
  show ?case
  proof (cases "rel = Some m")
    case False
    let ?p = "first_blk_prio K m p"
    have "snd (pri_look_walk t rel (Some m) ms (if n > ?p then ?p else n) ?p K) \<le> (if n > ?p then ?p else n)"
      by (rule Cons.IH)
    also have "\<dots> \<le> n" by simp
    finally show ?thesis using False by (simp add: Let_def)
  next
    case True
    have "snd (pri_look_walk t (Some m) prev ms n p K') \<le> n" for K' using Cons.IH True by simp
    with True show ?thesis by simp
  qed
qed simp

lemma mutex_pri_look_le: "snd (mutex_pri_look t rel K) \<le> b_prio (tasks K t)"
  by (simp add: mutex_pri_look_def pri_look_le)

lemma pri_look_None: "fst (pri_look_walk t None prev ms n p K) = K"
  by (induction ms arbitrary: prev n p) (simp_all add: Let_def)

lemma mutex_pri_look_None [simp]: "fst (mutex_pri_look t None K) = K"
  by (simp add: mutex_pri_look_def pri_look_None)

section \<open>One round keeps the invariant\<close>

lemma pri_step_ready:
  assumes k: "kinvd d K" and t: "tstate K t = K_RDY" "t \<noteq> g_idle_task K" and p: "p < 62" "tprio K t \<noteq> p"
  shows "snd (task_pri_step t p K) = Inr RHINO_SUCCESS" and "kinvd d (fst (task_pri_step t p K))"
    and "prio_frame K (fst (task_pri_step t p K))" and "g_fault (fst (task_pri_step t p K)) = g_fault K"
    and "tprio (fst (task_pri_step t p K)) t = p"
proof -
  let ?K = "upd_task t (\<lambda>r. r\<lparr>prio := p\<rparr>) (ready_list_rm t K)"
  have pol: "sched_policy (tasks K t) \<noteq> KSCHED_CFS" using kinv_prio(3) [OF k, of t] t by simp
  have step: "task_pri_step t p K =
      (if is_task_exec K t then ready_list_add_head t ?K else ready_list_add_tail t ?K, Inr RHINO_SUCCESS)"
    using t p pol by (simp add: task_pri_step_def Let_def is_task_exec_def)
  show "snd (task_pri_step t p K) = Inr RHINO_SUCCESS" by (simp add: step)
  show "kinvd d (fst (task_pri_step t p K))" using kinv_prio_ready [OF k t p(1)] by (simp add: step)
  show "g_fault (fst (task_pri_step t p K)) = g_fault K"
    using rq_inv_change_prio(3) [OF k t p(1) refl] by (simp add: step)
  have "sched_frame K (ready_list_add_head t ?K)" "sched_frame K (ready_list_add_tail t ?K)"
    by (intro sched_frame_steps sched_frame_refl)+
  then show "prio_frame K (fst (task_pri_step t p K))"
    by (auto simp: step intro!: prio_frameI ktask_same_prio ktask_new_prio blk_same_list mutex_same_next)
  show "tprio (fst (task_pri_step t p K)) t = p" by (simp add: step)
qed

lemma pri_step_other:
  assumes k: "kinvd d K" and t: "tstate K t = K_SLEEP \<or> tstate K t = K_SUSPENDED \<or> tstate K t = K_SLEEP_SUSPENDED"
    and p: "p < 62" "tprio K t \<noteq> p"
  shows "task_pri_step t p K = (upd_task t (\<lambda>r. r\<lparr>prio := p\<rparr>) K, Inr RHINO_SUCCESS)"
    and "kinvd d (fst (task_pri_step t p K))"
    and "prio_frame K (fst (task_pri_step t p K))"
proof -
  have n: "tstate K t \<noteq> K_RDY" "\<not> is_pend (tstate K t)" using t by auto
  show step: "task_pri_step t p K = (upd_task t (\<lambda>r. r\<lparr>prio := p\<rparr>) K, Inr RHINO_SUCCESS)"
    using t p by (auto simp: task_pri_step_def)
  show "kinvd d (fst (task_pri_step t p K))" using kinv_prio_idle_lists [OF k n p(1)] by (simp add: step)
  show "prio_frame K (fst (task_pri_step t p K))"
    by (auto simp: step intro!: prio_frameI ktask_same_prio ktask_new_prio blk_same_list mutex_same_next)
qed

text \<open>A blocked task: it is reordered in its list, and the walk goes on with the owner of the mutex
  when the owner has to be raised to the same priority, or was at the old priority and is to be
  recomputed.\<close>

definition goes_on :: "kernel \<Rightarrow> kernel \<Rightarrow> tid \<Rightarrow> nat \<Rightarrow> tid \<Rightarrow> nat \<Rightarrow> bool" where
  "goes_on K K' t p w p' \<longleftrightarrow> w \<noteq> g_idle_task K \<and>
     (p < tprio K' w \<and> p' = p \<or>
      tprio K' w \<le> p \<and> tprio K' w = tprio K t \<and> p' \<noteq> tprio K' w \<and> p' \<le> b_prio (tasks K' w))"

lemma pri_step_pend:
  assumes k: "kinvd d K" and t: "is_pend (tstate K t)" and p: "p < 62" "tprio K t \<noteq> p"
  obtains K' r where "task_pri_step t p K = (K', r)" "kinvd d K'" "prio_frame K K'"
    "g_fault K' = g_fault K" "\<And>u. tprio K' u = (if u = t then p else tprio K u)"
    "r = Inr RHINO_SUCCESS \<or> (\<exists>w p'. r = Inl (w, p') \<and> goes_on K K' t p w p')"
proof -
  let ?U = "upd_task t (\<lambda>r. r\<lparr>prio := p\<rparr>) K"
  let ?K = "pend_list_reorder t ?U"
  note v = kinv_prio_pend [OF k t p(1)]
  obtain b where b: "blk_ptr (tasks K t) = Some b" using kinv_pend_ptr [OF k t] by blast
  then have b': "blk_ptr (tasks ?U t) = Some b" by simp
  note rv = reorder_view [OF b']
  have ty: "obj_type (blk_objs ?K c) = obj_type (blk_objs K c)" for c by (simp add: rv)
  have st: "tstate K t \<noteq> K_RDY" "\<not> (tstate K t = K_SLEEP \<or> tstate K t = K_SUSPENDED \<or> tstate K t = K_SLEEP_SUSPENDED)"
    "tstate K t = K_PEND \<or> tstate K t = K_PEND_SUSPENDED" using t by auto
  have fr: "sched_frame K ?K" by (rule sched_frame_trans [OF _ sched_frame_pend(4)]) simp
  have pf: "prio_frame K ?K"
  proof (rule prio_frameI [OF fr])
    show "\<exists>q m. tasks ?K u = (tasks K u)\<lparr>prio := q, mutex_ptr := m\<rparr>" for u
      by (cases "u = t") (auto simp: rv ktask_same_prio ktask_new_prio)
    show "\<exists>xs. blk_objs ?K c = (blk_objs K c)\<lparr>blk_list := xs\<rparr> \<and> set xs = set (blist K c)" for c
      by (rule exI [of _ "blist ?K c"]) (use v(3) [of c] in \<open>simp add: rv\<close>)
  qed (simp_all add: rv mutex_same_next)
  have own: "\<exists>w. mutex_task (mutexes K b) = Some w \<and> w \<noteq> g_idle_task K"
    if "obj_type (blk_objs K b) = RHINO_MUTEX_OBJ_TYPE"
    using kinv_owner [OF k that, of t] kinv_blist_iff [OF k, of t b] t b by auto
  have prio: "tprio ?K u = (if u = t then p else tprio K u)" for u by (simp add: rv)
  have bb: "blk_ptr (tasks ?K t) = Some b" using b by (simp add: rv)
  have mm: "mutexes ?K = mutexes K" by (simp add: rv)
  have pp: "tprio ?K t = p" by (simp add: prio)
  show ?thesis
  proof (cases "obj_type (blk_objs K b) = RHINO_MUTEX_OBJ_TYPE")
    case False
    have "task_pri_step t p K = (?K, Inr RHINO_SUCCESS)"
      using False st p by (simp add: task_pri_step_def Let_def bb ty del: upd_task_sel)
    then show ?thesis by (rule that [OF _ v(1) pf v(2) prio]) simp
  next
    case True
    then obtain w where w: "mutex_task (mutexes K b) = Some w" "w \<noteq> g_idle_task K" using own by blast
    let ?q = "snd (mutex_pri_look w None ?K)"
    have look: "mutex_pri_look w None ?K = (?K, ?q)" by (metis mutex_pri_look_None prod.collapse)
    have step: "task_pri_step t p K =
        (if p < tprio ?K w then (?K, Inl (w, p))
         else if tprio ?K w = tprio K t \<and> ?q \<noteq> tprio ?K w then (?K, Inl (w, ?q))
         else (?K, Inr RHINO_SUCCESS))"
      using True st p w look by (simp add: task_pri_step_def Let_def bb ty mm pp split_beta del: upd_task_sel)
    define r where "r = snd (task_pri_step t p K)"
    have eq: "task_pri_step t p K = (?K, r)" by (auto simp: r_def step)
    have "r = Inr RHINO_SUCCESS \<or> (\<exists>w' p'. r = Inl (w', p') \<and> goes_on K ?K t p w' p')"
      using w(2) mutex_pri_look_le [of w None ?K] by (auto simp: r_def step goes_on_def)
    with eq show ?thesis by (intro that [OF _ v(1) pf v(2) prio])
  qed
qed

section \<open>Termination of the walk\<close>

text \<open>While priorities are raised, fewer and fewer tasks are below the new priority; while they
  are lowered, fewer and fewer tasks sit at the old one, and a lowering walk turns into a raising
  one at most once. No assumption on the wait-for graph is needed.\<close>

definition pri_measure :: "kernel \<Rightarrow> tid \<Rightarrow> nat \<Rightarrow> nat" where
  "pri_measure K t p =
     (let L = set (task_head (g_kobj_list K))
      in if p < tprio K t then card {u \<in> L. p < tprio K u}
         else card L + card {u \<in> L. tprio K u = tprio K t})"

lemma pri_measure_bound: "pri_measure K t p \<le> 2 * length (task_head (g_kobj_list K))"
proof -
  let ?L = "set (task_head (g_kobj_list K))"
  have "card {u \<in> ?L. p < tprio K u} \<le> card ?L" "card {u \<in> ?L. tprio K u = tprio K t} \<le> card ?L"
    by (rule card_mono; auto)+
  moreover have "card ?L \<le> length (task_head (g_kobj_list K))" by (rule card_length)
  ultimately show ?thesis unfolding pri_measure_def Let_def by (cases "p < tprio K t") simp_all
qed

lemma pri_measure_decreases:
  assumes tl: "t \<in> set (task_head (g_kobj_list K))" and kl: "g_kobj_list K' = g_kobj_list K"
    and pr: "\<And>u. tprio K' u = (if u = t then p else tprio K u)" and ne: "tprio K t \<noteq> p"
    and g: "goes_on K K' t p w p'"
  shows "pri_measure K' w p' < pri_measure K t p"
proof -
  let ?L = "set (task_head (g_kobj_list K))"
  have fin: "finite {u \<in> ?L. P u}" for P by simp
  have less: "card {u \<in> ?L. P u} < card {u \<in> ?L. Q u}" if "\<And>u. P u \<Longrightarrow> Q u" "Q t" "\<not> P t" for P Q
    by (rule psubset_card_mono [OF fin]) (use that tl in auto)
  have le: "card {u \<in> ?L. P u} \<le> card ?L" for P by (rule card_mono) auto
  have pos: "0 < card {u \<in> ?L. tprio K u = tprio K t}" using tl by (auto simp: card_gt_0_iff)
  from g consider (raise) "p < tprio K' w" "p' = p"
    | (look) "tprio K' w \<le> p" "tprio K' w = tprio K t" "p' \<noteq> tprio K' w"
    by (auto simp: goes_on_def)
  then show ?thesis
  proof cases
    case raise
    show ?thesis
    proof (cases "p < tprio K t")
      case True
      then have "card {u \<in> ?L. p < tprio K' u} < card {u \<in> ?L. p < tprio K u}"
        by (intro less) (auto simp: pr split: if_splits)
      with raise True show ?thesis by (simp add: pri_measure_def Let_def kl)
    next
      case False
      with raise le [of "\<lambda>u. p < tprio K' u"] pos show ?thesis
        by (simp add: pri_measure_def Let_def kl)
    qed
  next
    case look
    then have low: "\<not> p < tprio K t" using ne by simp
    show ?thesis
    proof (cases "p' < tprio K' w")
      case True
      with le [of "\<lambda>u. p' < tprio K' u"] low pos show ?thesis
        by (simp add: pri_measure_def Let_def kl)
    next
      case False
      have "card {u \<in> ?L. tprio K' u = tprio K' w} < card {u \<in> ?L. tprio K u = tprio K t}"
        using look ne by (intro less) (auto simp: pr split: if_splits)
      with False low show ?thesis by (simp add: pri_measure_def Let_def kl)
    qed
  qed
qed

lemma task_pri_loop_ok:
  assumes "kinvd d K" "t \<noteq> g_idle_task K" "is_live (tstate K t) \<Longrightarrow> p < 62" "pri_measure K t p < n"
  shows "kinvd d (fst (task_pri_loop n t p K)) \<and> prio_frame K (fst (task_pri_loop n t p K)) \<and>
    g_fault (fst (task_pri_loop n t p K)) = g_fault K"
  using assms
proof (induction n arbitrary: t p K)
  case (Suc n)
  note k = Suc.prems(1)
  consider "tprio K t = p" | "tprio K t \<noteq> p" "tstate K t = K_RDY"
    | "tprio K t \<noteq> p" "tstate K t = K_SLEEP \<or> tstate K t = K_SUSPENDED \<or> tstate K t = K_SLEEP_SUSPENDED"
    | "tprio K t \<noteq> p" "is_pend (tstate K t)" | "tprio K t \<noteq> p" "tstate K t = K_SEED \<or> tstate K t = K_DELETED"
    by (cases "tstate K t") auto
  then show ?case
  proof cases
    case 1
    with k show ?thesis by (simp add: task_pri_step_def)
  next
    case 2
    with Suc.prems have "p < 62" by simp
    with pri_step_ready [OF k 2(2) Suc.prems(2) _ 2(1)] show ?thesis
      by (auto split: prod.splits)
  next
    case 3
    with Suc.prems have "p < 62" by auto
    with pri_step_other [OF k 3(2) _ 3(1)] show ?thesis by simp
  next
    case 5
    then have "task_pri_step t p K = (k_err_proc RHINO_INV_TASK_STATE K, Inr RHINO_INV_TASK_STATE)"
      by (auto simp: task_pri_step_def)
    moreover have "kinvd d (k_err_proc RHINO_INV_TASK_STATE K)"
      using k by (simp add: kinvd_def placed_def idle_ok_def reg_inv_def mutex_inv_def)
    moreover have "prio_frame K (k_err_proc RHINO_INV_TASK_STATE K)"
      by (rule prio_frameI) (simp_all add: ktask_same_prio blk_same_list mutex_same_next)
    ultimately show ?thesis by simp
  next
    case 4
    then have live: "is_live (tstate K t)" by auto
    with Suc.prems have p: "p < 62" by simp
    obtain K' r where step: "task_pri_step t p K = (K', r)" and K': "kinvd d K'" "prio_frame K K'"
      "g_fault K' = g_fault K" "\<And>u. tprio K' u = (if u = t then p else tprio K u)"
      and r: "r = Inr RHINO_SUCCESS \<or> (\<exists>w p'. r = Inl (w, p') \<and> goes_on K K' t p w p')"
      using pri_step_pend [OF k 4(2) p 4(1)] by metis
    note kl = sched_frameD [OF prio_frame_glob(2) [OF K'(2)]]
    from r show ?thesis
    proof
      assume "r = Inr RHINO_SUCCESS"
      with step K' show ?thesis by simp
    next
      assume "\<exists>w p'. r = Inl (w, p') \<and> goes_on K K' t p w p'"
      then obtain w p' where w: "r = Inl (w, p')" and g: "goes_on K K' t p w p'" by blast
      have "pri_measure K' w p' < pri_measure K t p"
        by (rule pri_measure_decreases [OF kinv_reg [OF k live] kl(10) K'(4) 4(1) g])
      then have "pri_measure K' w p' < n" using Suc.prems(4) by simp
      moreover have "w \<noteq> g_idle_task K'" using g kl(5) by (simp add: goes_on_def)
      moreover have "p' < 62" if "is_live (tstate K' w)"
        using g p kinv_prio(2) [OF K'(1) that] by (auto simp: goes_on_def)
      ultimately have "kinvd d (fst (task_pri_loop n w p' K')) \<and> prio_frame K' (fst (task_pri_loop n w p' K')) \<and>
          g_fault (fst (task_pri_loop n w p' K')) = g_fault K'"
        using Suc.IH K'(1) by blast
      with step w K' show ?thesis by (auto intro: prio_frame_trans)
    qed
  qed
qed simp

theorem task_pri_change_ok:
  assumes "kinvd d K" "t \<noteq> g_idle_task K" "is_live (tstate K t) \<Longrightarrow> p < 62"
  shows "kinvd d (fst (task_pri_change t p K))" and "prio_frame K (fst (task_pri_change t p K))"
    and "g_fault (fst (task_pri_change t p K)) = g_fault K"
  using task_pri_loop_ok [OF assms, of "pri_fuel K"] pri_measure_bound [of K t p]
  by (auto simp: task_pri_change_def pri_fuel_def)

section \<open>Releasing a mutex\<close>

lemma set_prev_link_frame: "prio_frame K (set_prev_link t prev next K)"
proof (rule prio_frameI)
  show "\<exists>p m. tasks (set_prev_link t prev next K) u = (tasks K u)\<lparr>prio := p, mutex_ptr := m\<rparr>" for u
    by (cases prev; cases "u = t")
      (auto simp: set_prev_link_def ktask_same_prio intro!: exI [of _ "tprio K t"])
  show "\<exists>m. mutexes (set_prev_link t prev next K) b = (mutexes K b)\<lparr>mutex_next := m\<rparr>" for b
    by (auto simp: set_prev_link_def mutex_same_next split: option.split)
qed (auto simp: set_prev_link_def blk_same_list split: option.split)

lemma kinv_link:
  assumes k: "kinvd d K" shows "kinvd d (set_prev_link t prev next K)"
proof (cases prev)
  case None
  have "kinvd d (upd_task t (\<lambda>r. r\<lparr>mutex_ptr := next\<rparr>) K)"
    by (rule kinv_upd_task [OF k])
      (use kinv_prio(2,3) [OF k, of t] kinv_susp [OF k, of t] in auto)
  with None show ?thesis by (simp add: set_prev_link_def)
next
  case (Some m)
  have "tick_left (upd_mutex m f K) = tick_left K" for f
    by (auto simp: tick_left_def fun_eq_iff upd_mutex_def)
  then have "kinvd d (upd_mutex m (\<lambda>r. r\<lparr>mutex_next := next\<rparr>) K)"
    using k by (simp add: kinvd_def blk_inv_def tick_inv_def placed_def idle_ok_def reg_inv_def
        mutex_inv_def sched_frameD(5) [OF sched_frame_upd_mutex] sched_frameD(10) [OF sched_frame_upd_mutex])
  with Some show ?thesis by (simp add: set_prev_link_def)
qed

lemma pri_look_walk_ok:
  "kinvd d K \<Longrightarrow> kinvd d (fst (pri_look_walk t rel prev ms n p K)) \<and>
     prio_frame K (fst (pri_look_walk t rel prev ms n p K)) \<and>
     g_fault (fst (pri_look_walk t rel prev ms n p K)) = g_fault K"
proof (induction ms arbitrary: prev n p K)
  case (Cons m ms)
  show ?case
  proof (cases "rel = Some m")
    case True
    let ?K = "set_prev_link t prev (mutex_next (mutexes K m)) K"
    have "g_fault ?K = g_fault K" by (auto simp: set_prev_link_def split: option.split)
    moreover note Cons.IH [OF kinv_link [OF Cons.prems], of prev n p t prev "mutex_next (mutexes K m)"]
    ultimately show ?thesis using True
      by (auto intro: prio_frame_trans [OF set_prev_link_frame])
  next
    case False
    with Cons show ?thesis by (simp add: Let_def)
  qed
qed simp

lemma mutex_pri_look_ok:
  assumes "kinvd d K"
  shows "kinvd d (fst (mutex_pri_look t rel K))" "prio_frame K (fst (mutex_pri_look t rel K))"
    "g_fault (fst (mutex_pri_look t rel K)) = g_fault K"
  using assms pri_look_walk_ok [OF assms] by (auto simp: mutex_pri_look_def)

lemma mutex_release_ok:
  assumes k: "kinvd d K" and t: "t \<noteq> g_idle_task K"
  shows "kinvd d (mutex_release t rel K) \<and> prio_frame K (mutex_release t rel K) \<and>
    g_fault (mutex_release t rel K) = g_fault K"
proof -
  obtain K1 p where look: "mutex_pri_look t rel K = (K1, p)" by (cases "mutex_pri_look t rel K")
  have k1: "kinvd d K1" "prio_frame K K1" "g_fault K1 = g_fault K"
    using mutex_pri_look_ok [OF k, of t rel] look by auto
  have t1: "t \<noteq> g_idle_task K1" using t sched_frameD(5) [OF prio_frame_glob(2) [OF k1(2)]] by simp
  have "p \<le> b_prio (tasks K t)" using mutex_pri_look_le [of t rel K] look by simp
  then have "is_live (tstate K1 t) \<Longrightarrow> p < 62"
    using kinv_prio(2) [OF k, of t] prio_frame_task(1) [OF k1(2), of t] by (auto simp del: is_live.simps)
  from task_pri_change_ok [OF k1(1) t1 this] show ?thesis
    using look k1 by (auto simp: mutex_release_def intro: prio_frame_trans)
qed

text \<open>The reset after a wait has ended runs while the task still points to the object it waited
  for; the owner is then known.\<close>

lemma mutex_task_pri_reset_ok:
  assumes k: "kinvd d K" and b: "blk_ptr (tasks K t) = Some b"
    and own: "obj_type (blk_objs K b) = RHINO_MUTEX_OBJ_TYPE \<Longrightarrow> mutex_task (mutexes K b) \<noteq> None"
  shows "kinvd d (mutex_task_pri_reset t K) \<and> prio_frame K (mutex_task_pri_reset t K) \<and>
    g_fault (mutex_task_pri_reset t K) = g_fault K"
proof (cases "cfg_mutex_inherit K \<and> obj_type (blk_objs K b) = RHINO_MUTEX_OBJ_TYPE")
  case True
  then obtain w where w: "mutex_task (mutexes K b) = Some w" using own by auto
  with kinvD(9) [OF k] have "w \<noteq> g_idle_task K" by (auto simp: mutex_inv_def)
  from mutex_release_ok [OF k this] True w b k show ?thesis by (auto simp: mutex_task_pri_reset_def)
next
  case False
  with b k show ?thesis by (auto simp: mutex_task_pri_reset_def)
qed

section \<open>Priority inheritance along the wait-for chain\<close>

definition waits_for :: "kernel \<Rightarrow> tid \<Rightarrow> tid \<Rightarrow> bool" where
  "waits_for K u w \<longleftrightarrow> is_pend (tstate K u) \<and>
     (\<exists>b. blk_ptr (tasks K u) = Some b \<and> obj_type (blk_objs K b) = RHINO_MUTEX_OBJ_TYPE \<and>
          mutex_task (mutexes K b) = Some w)"

text \<open>Every owner that still exists is at least as urgent as each task that waits for one of its
  mutexes.\<close>

definition inherits :: "kernel \<Rightarrow> bool" where
  "inherits K \<longleftrightarrow> (\<forall>u w. waits_for K u w \<and> is_live (tstate K w) \<longrightarrow> tprio K w \<le> tprio K u)"

lemma waits_for_frame: "prio_frame K K' \<Longrightarrow> waits_for K' u w \<longleftrightarrow> waits_for K u w"
  by (simp add: waits_for_def prio_frame_task prio_frame_blk)

lemma waits_for_unique: "waits_for K u w \<Longrightarrow> waits_for K u w' \<Longrightarrow> w = w'"
  by (auto simp: waits_for_def)

text \<open>A round of a raising walk: it goes on exactly with an owner that is still less urgent.\<close>

lemma raise_step_pend:
  assumes k: "kinvd d K" and t: "is_pend (tstate K t)" and p: "p < tprio K t"
  obtains K' r where "task_pri_step t p K = (K', r)" "kinvd d K'" "prio_frame K K'"
    "g_fault K' = g_fault K" "\<And>u. tprio K' u = (if u = t then p else tprio K u)"
    "\<And>w. waits_for K t w \<Longrightarrow> p < tprio K' w \<Longrightarrow> r = Inl (w, p)"
    "\<And>w p'. r = Inl (w, p') \<Longrightarrow> p' = p \<and> waits_for K t w \<and> p < tprio K' w \<and> w \<noteq> g_idle_task K"
proof -
  have "tprio K t < 62" using kinv_prio(1) [OF k, of t] t by auto
  then have p62: "p < 62" "tprio K t \<noteq> p" using p by auto
  obtain K' r where step: "task_pri_step t p K = (K', r)" and K': "kinvd d K'" "prio_frame K K'"
    "g_fault K' = g_fault K" "\<And>u. tprio K' u = (if u = t then p else tprio K u)"
    and r: "r = Inr RHINO_SUCCESS \<or> (\<exists>w p'. r = Inl (w, p') \<and> goes_on K K' t p w p')"
    using pri_step_pend [OF k t p62] by metis
  obtain b where b: "blk_ptr (tasks K t) = Some b" using kinv_pend_ptr [OF k t] by blast
  let ?K = "pend_list_reorder t (upd_task t (\<lambda>r. r\<lparr>prio := p\<rparr>) K)"
  have b': "blk_ptr (tasks (upd_task t (\<lambda>r. r\<lparr>prio := p\<rparr>) K) t) = Some b" using b by simp
  note rv = reorder_view [OF b']
  have bb: "blk_ptr (tasks ?K t) = Some b" "tprio ?K t = p" "mutexes ?K = mutexes K"
    "obj_type (blk_objs ?K b) = obj_type (blk_objs K b)" using b by (simp_all add: rv)
  have st: "tstate K t \<noteq> K_RDY" "tstate K t = K_PEND \<or> tstate K t = K_PEND_SUSPENDED"
    "tstate K t \<noteq> K_SLEEP" "tstate K t \<noteq> K_SUSPENDED" "tstate K t \<noteq> K_SLEEP_SUSPENDED" using t by auto
  have go: "r = Inl (w, p)" if w: "waits_for K t w" "p < tprio K' w" for w
  proof -
    have own: "obj_type (blk_objs K b) = RHINO_MUTEX_OBJ_TYPE" "mutex_task (mutexes K b) = Some w"
      using w(1) b by (auto simp: waits_for_def)
    have "w \<noteq> t" using w(2) K'(4) [of w] by auto
    then have "p < tprio ?K w" using w(2) K'(4) [of w] by (simp add: rv)
    then have "task_pri_step t p K = (?K, Inl (w, p))"
      using st p62 own by (simp add: task_pri_step_def Let_def bb del: upd_task_sel)
    with step show ?thesis by simp
  qed
  have orig: "p' = p \<and> waits_for K t w \<and> p < tprio K' w \<and> w \<noteq> g_idle_task K" if "r = Inl (w, p')" for w p'
  proof -
    from r that have g: "goes_on K K' t p w p'" by auto
    have lt: "p < tprio K' w" "p' = p" using g p by (auto simp: goes_on_def)
    have "waits_for K t w"
    proof (cases "obj_type (blk_objs K b) = RHINO_MUTEX_OBJ_TYPE")
      case False
      then have "task_pri_step t p K = (?K, Inr RHINO_SUCCESS)"
        using st p62 by (simp add: task_pri_step_def Let_def bb del: upd_task_sel)
      with step that show ?thesis by simp
    next
      case True
      then obtain v where v: "mutex_task (mutexes K b) = Some v"
        using kinv_owner [OF k, of b t] kinv_blist_iff [OF k, of t b] t b by auto
      then have wv: "waits_for K t v" using True b t by (auto simp: waits_for_def)
      have "w = v"
      proof -
        have "snd (task_pri_step t p K) = Inl (w, p')" using step that by simp
        then show ?thesis using st p62 True v
          by (auto simp: task_pri_step_def Let_def bb split_beta split: if_splits simp del: upd_task_sel)
      qed
      with wv show ?thesis by simp
    qed
    with lt g show ?thesis by (simp add: goes_on_def)
  qed
  show ?thesis using that [OF step K' go orig] .
qed

lemma raise_loop:
  assumes "kinvd d K" "t \<noteq> g_idle_task K" "is_live (tstate K t)" "p < tprio K t" "pri_measure K t p < n"
    and "\<And>u w. waits_for K u w \<Longrightarrow> is_live (tstate K w) \<Longrightarrow>
           tprio K w \<le> tprio K u \<or> w = t \<and> p \<le> tprio K u"
  shows "inherits (fst (task_pri_loop n t p K)) \<and> tprio (fst (task_pri_loop n t p K)) t = p \<and>
    (\<forall>u. tprio K u \<le> p \<longrightarrow> tprio (fst (task_pri_loop n t p K)) u = tprio K u)"
  using assms
proof (induction n arbitrary: t K)
  case (Suc n)
  note k = Suc.prems(1) and edge = Suc.prems(6) and lt = Suc.prems(4)
  have p62: "p < 62" "tprio K t \<noteq> p" using kinv_prio(1) [OF k Suc.prems(3)] lt by auto
  have stop: "inherits K'" if K': "prio_frame K K'" "\<And>u. tprio K' u = (if u = t then p else tprio K u)"
    and no: "\<And>w. waits_for K t w \<Longrightarrow> is_live (tstate K w) \<Longrightarrow> tprio K' w \<le> p" for K'
    unfolding inherits_def
  proof (intro allI impI)
    fix u w assume "waits_for K' u w \<and> is_live (tstate K' w)"
    then have w: "waits_for K u w" "is_live (tstate K w)"
      using waits_for_frame [OF K'(1)] prio_frame_task(1) [OF K'(1)] by simp_all
    show "tprio K' w \<le> tprio K' u"
    proof (cases "u = t")
      case True
      with no [of w] w K'(2) [of t] show ?thesis by simp
    next
      case False
      with edge [OF w] K'(2) lt show ?thesis by auto
    qed
  qed
  consider (rdy) "tstate K t = K_RDY"
    | (oth) "tstate K t = K_SLEEP \<or> tstate K t = K_SUSPENDED \<or> tstate K t = K_SLEEP_SUSPENDED"
    | (pnd) "is_pend (tstate K t)" using Suc.prems(3) by (cases "tstate K t") auto
  then show ?case
  proof cases
    case rdy
    note s = pri_step_ready [OF k rdy Suc.prems(2) p62]
    obtain K' where step: "task_pri_step t p K = (K', Inr RHINO_SUCCESS)" using s(1) by (metis prod.collapse)
    have pol: "sched_policy (tasks K t) \<noteq> KSCHED_CFS" using kinv_prio(3) [OF k, of t] rdy by simp
    have K': "K' = fst (task_pri_step t p K)" using step by simp
    have pr: "tprio K' u = (if u = t then p else tprio K u)" for u
      using pol rdy p62 unfolding K' by (simp add: task_pri_step_def Let_def)
    have "inherits K'" by (rule stop) (use s(3) step pr rdy in \<open>auto simp: waits_for_def\<close>)
    with step pr lt show ?thesis by auto
  next
    case oth
    note s = pri_step_other [OF k oth p62]
    have "inherits (fst (task_pri_step t p K))"
      by (rule stop) (use s(1,3) oth in \<open>auto simp: waits_for_def\<close>)
    with s(1) lt show ?thesis by auto
  next
    case pnd
    obtain K' r where step: "task_pri_step t p K = (K', r)" and K': "kinvd d K'" "prio_frame K K'"
      "g_fault K' = g_fault K" and pr: "\<And>u. tprio K' u = (if u = t then p else tprio K u)"
      and go: "\<And>w. waits_for K t w \<Longrightarrow> p < tprio K' w \<Longrightarrow> r = Inl (w, p)"
      and orig: "\<And>w p'. r = Inl (w, p') \<Longrightarrow> p' = p \<and> waits_for K t w \<and> p < tprio K' w \<and> w \<noteq> g_idle_task K"
      by (rule raise_step_pend [OF k pnd lt]) (rule that)
    show ?thesis
    proof (cases r)
      case (Inr x)
      have "inherits K'"
      proof (rule stop [OF K'(2) pr])
        show "tprio K' w \<le> p" if "waits_for K t w" for w
          using go [OF that] Inr by (cases "p < tprio K' w") simp_all
      qed
      with step Inr pr lt show ?thesis by auto
    next
      case (Inl wp)
      obtain w p' where wp: "wp = (w, p')" by (cases wp)
      have b: "p' = p" "waits_for K t w" "p < tprio K' w" "w \<noteq> g_idle_task K" using orig Inl wp by auto
      have "w \<noteq> t" using b(3) pr [of w] by auto
      have kl: "g_kobj_list K' = g_kobj_list K" "g_idle_task K' = g_idle_task K"
        using sched_frameD [OF prio_frame_glob(2) [OF K'(2)]] by auto
      have "goes_on K K' t p w p" using b by (simp add: goes_on_def)
      from pri_measure_decreases [OF kinv_reg [OF k Suc.prems(3)] kl(1) pr p62(2) this]
      have m: "pri_measure K' w p < n" using Suc.prems(5) by simp
      have e: "tprio K' y \<le> tprio K' x \<or> y = w \<and> p \<le> tprio K' x"
        if "waits_for K' x y" "is_live (tstate K' y)" for x y
      proof -
        have xy: "waits_for K x y" "is_live (tstate K y)"
          using that waits_for_frame [OF K'(2)] prio_frame_task(1) [OF K'(2)] by simp_all
        show ?thesis
        proof (cases "x = t")
          case True
          with xy b(2) have "y = w" using waits_for_unique by blast
          with True pr [of t] show ?thesis by simp
        next
          case False
          with edge [OF xy] pr lt show ?thesis by auto
        qed
      qed
      have main: "inherits (fst (task_pri_loop n w p K')) \<and> tprio (fst (task_pri_loop n w p K')) w = p \<and>
          (\<forall>u. tprio K' u \<le> p \<longrightarrow> tprio (fst (task_pri_loop n w p K')) u = tprio K' u)"
        if "is_live (tstate K' w)"
        by (rule Suc.IH [OF K'(1) _ that b(3) m e]) (use b kl in auto)
      show ?thesis
      proof (cases "is_live (tstate K' w)")
        case True
        from main [OF True] show ?thesis using step Inl wp b(1) pr lt by auto
      next
        case False
        obtain n' where n: "n = Suc n'" using m by (cases n) auto
        have st: "tstate K' w \<noteq> K_RDY" "tstate K' w \<noteq> K_SLEEP" "tstate K' w \<noteq> K_SUSPENDED"
          "tstate K' w \<noteq> K_SLEEP_SUSPENDED" "tstate K' w \<noteq> K_PEND" "tstate K' w \<noteq> K_PEND_SUSPENDED"
          using False by auto
        have fin: "task_pri_loop (Suc n) t p K = (k_err_proc RHINO_INV_TASK_STATE K', RHINO_INV_TASK_STATE)"
          using step Inl wp b(1,3) st n by (simp add: task_pri_step_def)
        have "inherits K'"
        proof (rule stop [OF K'(2) pr])
          fix v assume "waits_for K t v" "is_live (tstate K v)"
          with b(2) waits_for_unique have "v = w" by blast
          with False \<open>is_live (tstate K v)\<close> prio_frame_task(1) [OF K'(2)] show "tprio K' v \<le> p" by simp
        qed
        then have "inherits (k_err_proc RHINO_INV_TASK_STATE K')" by (simp add: inherits_def waits_for_def)
        with fin pr lt show ?thesis by auto
      qed
    qed
  qed
qed simp

end
