(* ===== verification/KTick.thy ===== *)
theory KTick
  imports KPri
begin

text \<open>
  Time and the invariant of the whole system. The tick handler (\<^verbatim>\<open>k_tick.c\<close>, \<^verbatim>\<open>k_time.c\<close>): the
  tick list is scanned from its head until the first task with time left; the conversions between
  milliseconds and ticks. \<open>sys_inv\<close> adds to \<open>kinv\<close> that no fault has happened and that the active
  task is ready whenever it runs; \<open>runs_next\<close> says that it is the one the scheduler would choose.
\<close>

section \<open>The tick handler\<close>

definition tick_expire :: "tid \<Rightarrow> kernel \<Rightarrow> kernel" where
  "tick_expire t K =
     (case tstate K t of
        K_SLEEP \<Rightarrow>
          let K = upd_task t (\<lambda>r. r\<lparr>blk_state := BLK_FINISH, task_state := K_RDY\<rparr>) K;
              K = tick_list_rm t K
          in ready_list_add t K
      | K_PEND \<Rightarrow>
          let K = tick_list_rm t K;
              K = blk_list_rm t K;
              K = ready_list_add t K;
              K = upd_task t (\<lambda>r. r\<lparr>blk_state := BLK_TIMEOUT, task_state := K_RDY\<rparr>) K;
              K = mutex_task_pri_reset t K
          in upd_task t (\<lambda>r. r\<lparr>blk_ptr := None\<rparr>) K
      | K_PEND_SUSPENDED \<Rightarrow>
          let K = tick_list_rm t K;
              K = blk_list_rm t K;
              K = upd_task t (\<lambda>r. r\<lparr>blk_state := BLK_TIMEOUT, task_state := K_SUSPENDED\<rparr>) K;
              K = mutex_task_pri_reset t K
          in upd_task t (\<lambda>r. r\<lparr>blk_ptr := None\<rparr>) K
      | K_SLEEP_SUSPENDED \<Rightarrow>
          let K = upd_task t (\<lambda>r. r\<lparr>task_state := K_SUSPENDED, blk_state := BLK_FINISH\<rparr>) K
          in tick_list_rm t K
      | _ \<Rightarrow> k_err_proc RHINO_SYS_FATAL_ERR K)"

text \<open>\<^verbatim>\<open>delta\<close> is computed in the signed type; the subtraction is taken modulo \<open>2 ^ 64\<close>.\<close>

fun tick_scan :: "tid list \<Rightarrow> kernel \<Rightarrow> kernel" where
  "tick_scan [] K = K"
| "tick_scan (t # iter_temp) K =
     (let delta = tick_match (tasks K t) - g_tick_count K
      in if sint delta > 0 then K else tick_scan iter_temp (tick_expire t K))"

definition tick_list_update :: "tick_t \<Rightarrow> kernel \<Rightarrow> kernel" where
  "tick_list_update ticks K =
     (let K = K\<lparr>g_tick_count := g_tick_count K + ticks\<rparr>
      in tick_scan (g_tick_head K) K)"

definition krhino_tick_proc :: "kernel \<Rightarrow> kernel" where
  "krhino_tick_proc K = time_slice_update (tick_list_update 1 K)"

definition krhino_next_sleep_ticks_get :: "kernel \<Rightarrow> tick_t" where
  "krhino_next_sleep_ticks_get K =
     (case g_tick_head K of
        [] \<Rightarrow> RHINO_WAIT_FOREVER
      | iter # _ \<Rightarrow> tick_match (tasks K iter) - g_tick_count K)"

section \<open>Time\<close>

definition RHINO_CONFIG_TICKS_PER_SECOND :: tick_t where
  [simp]: "RHINO_CONFIG_TICKS_PER_SECOND = 1000"

definition krhino_sys_tick_get :: "kernel \<Rightarrow> tick_t" where
  "krhino_sys_tick_get K = g_tick_count K"

definition krhino_sys_time_get :: "tick_t \<Rightarrow> kernel \<Rightarrow> tick_t" where
  "krhino_sys_time_get hz K = krhino_sys_tick_get K * 1000 div hz"

text \<open>The padding rounds up to a whole unit; its type (16 and 32 bits) is wide enough for
  \<open>1000 div hz - 1\<close> and \<open>hz div 1000 - 1\<close>. \<open>hz\<close> is \<^verbatim>\<open>RHINO_CONFIG_TICKS_PER_SECOND\<close>.\<close>

definition krhino_ms_to_ticks :: "tick_t \<Rightarrow> tick_t \<Rightarrow> tick_t" where
  "krhino_ms_to_ticks hz ms =
     (let padding = 1000 div hz;
          padding = (if padding > 0 then padding - 1 else 0)
      in (ms + padding) * hz div 1000)"

definition krhino_ticks_to_ms :: "tick_t \<Rightarrow> tick_t \<Rightarrow> tick_t" where
  "krhino_ticks_to_ms hz ticks =
     (let padding = hz div 1000;
          padding = (if padding > 0 then padding - 1 else 0)
      in (ticks + padding) * 1000 div hz)"

section \<open>The invariant of the system\<close>

definition mode_frame :: "kernel \<Rightarrow> kernel \<Rightarrow> bool" where
  "mode_frame K K' \<longleftrightarrow> g_sched_lock K' = g_sched_lock K \<and>
     g_intrpt_nested_level K' = g_intrpt_nested_level K \<and> g_active_task K' = g_active_task K"

definition act_rdy :: "kernel \<Rightarrow> bool" where
  "act_rdy K \<longleftrightarrow> (g_intrpt_nested_level K = 0 \<or> g_sched_lock K > 0 \<longrightarrow>
     tstate K (g_active_task K) = K_RDY)"

definition sys_inv :: "kernel \<Rightarrow> bool" where
  "sys_inv K \<longleftrightarrow> kinv K \<and> \<not> g_fault K \<and> act_rdy K"

definition runs_next :: "kernel \<Rightarrow> bool" where
  "runs_next K \<longleftrightarrow> (g_intrpt_nested_level K = 0 \<and> g_sched_lock K = 0 \<longrightarrow> is_next K (g_active_task K))"

lemma mode_frame_sched: "sched_frame K K' \<Longrightarrow> mode_frame K K'"
  by (simp add: mode_frame_def sched_frame_def)

lemma mode_frame_refl [simp]: "mode_frame K K"
  by (simp add: mode_frame_def)

lemma mode_frame_trans: "mode_frame A B \<Longrightarrow> mode_frame B C \<Longrightarrow> mode_frame A C"
  by (simp add: mode_frame_def)

lemma sys_invD:
  assumes "sys_inv K"
  shows "kinv K" "\<not> g_fault K" "act_rdy K"
    "g_intrpt_nested_level K = 0 \<Longrightarrow> tstate K (g_active_task K) = K_RDY"
    "g_sched_lock K > 0 \<Longrightarrow> tstate K (g_active_task K) = K_RDY"
  using assms by (auto simp: sys_inv_def act_rdy_def)

lemma kinv_switch [simp]:
  "kinvd d (K\<lparr>g_active_task := a, g_preferred_ready_task := b\<rparr>) \<longleftrightarrow> kinvd d K"
proof -
  have "tick_left (K\<lparr>g_active_task := a, g_preferred_ready_task := b\<rparr>) = tick_left K"
    by (simp add: tick_left_def fun_eq_iff)
  then show ?thesis
    by (simp add: kinvd_def blk_inv_def tick_inv_def placed_def idle_ok_def reg_inv_def mutex_inv_def)
qed

lemma is_next_ready: "kinvd d K \<Longrightarrow> is_next K t \<Longrightarrow> tstate K t = K_RDY"
  using kinv_ready_iff [of d K t] unfolding is_next_def by (metis list.set_intros(1))

text \<open>Every call that ends in \<open>core_sched\<close>: the next task runs, unless the call was made from an
  interrupt handler or with the scheduler locked.\<close>

lemma core_sched_ok:
  assumes k: "kinv K" and f: "\<not> g_fault K"
    and l: "g_sched_lock K > 0 \<Longrightarrow> tstate K (g_active_task K) = K_RDY"
  shows "sys_inv (core_sched K)" and "runs_next (core_sched K)"
proof -
  have ne: "rqueue K 61 \<noteq> []" using kinv_idle_ready [OF k] by auto
  obtain t pr where c: "core_sched K = K\<lparr>g_active_task := t, g_preferred_ready_task := pr\<rparr>"
    and t: "if g_intrpt_nested_level K > 0 \<or> g_sched_lock K > 0 then t = g_active_task K else is_next K t"
    using core_sched_cases [OF kinvD(1) [OF k] ne] by blast
  have nx: "is_next (core_sched K) u = is_next K u" for u by (simp add: c is_next_def)
  have "act_rdy (core_sched K)"
    using t l is_next_ready [OF k, of t] by (auto simp: act_rdy_def c word_neq_0_conv split: if_splits)
  with k f show "sys_inv (core_sched K)" by (simp add: sys_inv_def c)
  show "runs_next (core_sched K)"
    using t nx by (auto simp: runs_next_def c split: if_splits)
qed

lemma finish_sched:
  assumes s: "sys_inv K" and k: "kinv K'" and f: "g_fault K' = g_fault K" and m: "mode_frame K K'"
    and a: "tstate K (g_active_task K) = K_RDY \<Longrightarrow> g_sched_lock K > 0 \<Longrightarrow>
      tstate K' (g_active_task K) = K_RDY"
  shows "sys_inv (core_sched K')" and "runs_next (core_sched K')"
  using core_sched_ok [OF k] sys_invD [OF s] f m a by (auto simp: mode_frame_def)

text \<open>Calls that leave the ready queue and the task states alone.\<close>

lemma finish_plain:
  assumes s: "sys_inv K" and k: "kinv K'" and f: "g_fault K' = g_fault K" and m: "mode_frame K K'"
    and t: "tstate K' (g_active_task K) = tstate K (g_active_task K)"
  shows "sys_inv K'"
  using sys_invD [OF s] k f m t by (auto simp: sys_inv_def act_rdy_def mode_frame_def)

lemma runs_next_same:
  assumes "runs_next K" "mode_frame K K'" "\<And>p. rqueue K' p = rqueue K p" shows "runs_next K'"
  using assms by (auto simp: runs_next_def mode_frame_def is_next_def)

lemma active_not_idle:
  "sys_inv K \<Longrightarrow> g_active_task K \<noteq> g_idle_task K \<Longrightarrow> g_intrpt_nested_level K = 0 \<Longrightarrow>
   tstate K (g_active_task K) = K_RDY \<and> g_active_task K \<noteq> g_idle_task K"
  using sys_invD(4) by blast

section \<open>One expiry\<close>

fun expired :: "task_stat_t \<Rightarrow> task_stat_t" where
  "expired K_SLEEP = K_RDY"
| "expired K_PEND = K_RDY"
| "expired K_PEND_SUSPENDED = K_SUSPENDED"
| "expired K_SLEEP_SUSPENDED = K_SUSPENDED"
| "expired s = s"

lemma expired_pend: "is_pend s \<Longrightarrow> expired s = woken s"
  by auto

text \<open>Forgetting the object once the wait is over.\<close>

lemma kinv_forget_obj:
  assumes k: "kinvd d K" and n: "\<not> is_pend (tstate K t)"
  shows "kinvd d (upd_task t (\<lambda>r. r\<lparr>blk_ptr := None\<rparr>) K)"
  by (rule kinv_upd_task [OF k])
    (use n kinv_prio(2,3) [OF k, of t] kinv_susp [OF k, of t] in auto)

text \<open>The end of a wait with the reset of the owner's priority: shared by the time-out, the abort
  and (with another final state) the deletion of a blocked task.\<close>

lemma end_wait_reset:
  assumes k: "kinvd d K" and p: "is_pend (tstate K t)"
    and K1: "kinvd d K1" "\<not> is_pend (tstate K1 t)" "blk_ptr (tasks K1 t) = blk_ptr (tasks K t)"
      "mutexes K1 = mutexes K" "\<And>b. obj_type (blk_objs K1 b) = obj_type (blk_objs K b)"
  shows "kinvd d (mutex_task_pri_reset t K1)" "prio_frame K1 (mutex_task_pri_reset t K1)"
    "g_fault (mutex_task_pri_reset t K1) = g_fault K1"
    "kinvd d (upd_task t (\<lambda>r. r\<lparr>blk_ptr := None\<rparr>) (mutex_task_pri_reset t K1))"
proof -
  obtain b where b: "blk_ptr (tasks K t) = Some b" using kinv_pend_ptr [OF k p] by blast
  then have "t \<in> set (blist K b)" using kinv_blist_iff [OF k] p by simp
  then have "mutex_task (mutexes K1 b) \<noteq> None" if "obj_type (blk_objs K1 b) = RHINO_MUTEX_OBJ_TYPE"
    using kinv_owner [OF k, of b t] that K1(4,5) by auto
  from mutex_task_pri_reset_ok [OF K1(1) _ this, of t] K1(3) b
  have r: "kinvd d (mutex_task_pri_reset t K1) \<and> prio_frame K1 (mutex_task_pri_reset t K1) \<and>
    g_fault (mutex_task_pri_reset t K1) = g_fault K1" by simp
  then show "kinvd d (mutex_task_pri_reset t K1)" "prio_frame K1 (mutex_task_pri_reset t K1)"
    "g_fault (mutex_task_pri_reset t K1) = g_fault K1" by auto
  with K1(2) show "kinvd d (upd_task t (\<lambda>r. r\<lparr>blk_ptr := None\<rparr>) (mutex_task_pri_reset t K1))"
    by (intro kinv_forget_obj) (simp_all add: prio_frame_task del: is_pend.simps)
qed

text \<open>\<open>wait_over t s v K\<close>: the first half of such an end; \<open>s\<close> is the new state, \<open>v\<close> the reason.\<close>

definition wait_over :: "tid \<Rightarrow> blk_state_t \<Rightarrow> kernel \<Rightarrow> kernel" where
  "wait_over t v K =
     (if tstate K t = K_PEND
      then upd_task t (\<lambda>r. r\<lparr>blk_state := v, task_state := K_RDY\<rparr>)
        (ready_list_add t (blk_list_rm t (tick_list_rm t K)))
      else upd_task t (\<lambda>r. r\<lparr>blk_state := v, task_state := K_SUSPENDED\<rparr>)
        (blk_list_rm t (tick_list_rm t K)))"

lemma wait_over_view:
  assumes "is_pend (tstate K t)"
  shows "tasks (wait_over t v K) = (tasks K)(t := (tasks K t)\<lparr>task_state := woken (tstate K t), blk_state := v\<rparr>)"
    and "rqueue (wait_over t v K) p =
      (if tstate K t = K_PEND \<and> p = tprio K t then rqueue K p @ [t] else rqueue K p)"
    and "blk_objs (wait_over t v K) = (\<lambda>b. (blk_objs K b)\<lparr>blk_list := removeAll t (blist K b)\<rparr>)"
    and "g_tick_head (wait_over t v K) = removeAll t (g_tick_head K)"
    and "g_fault (wait_over t v K) = g_fault K" "mutexes (wait_over t v K) = mutexes K"
    and "sched_frame K (wait_over t v K)"
  using assms by (auto simp: wait_over_def intro!: sched_frame_steps)

lemma kinv_wait_over:
  assumes k: "kinvd d K" and p: "is_pend (tstate K t)" shows "kinvd d (wait_over t v K)"
proof (rule kinv_end_wait [OF k p])
  show "rq_inv (g_ready_queue (wait_over t v K))"
    using p kinvD(3) [OF k] rq_inv_append [OF k p]
    by (cases rule: is_pend_cases) (simp_all add: wait_over_def)
  show "blk_inv (wait_over t v K)"
    using p kinvD(4) [OF k] by (cases rule: is_pend_cases) (simp_all add: wait_over_def blk_inv_blk_list_rm)
  show "tick_inv d (wait_over t v K)"
    using p kinvD(5) [OF k]
    by (cases rule: is_pend_cases) (simp_all add: wait_over_def tick_inv_rm)
qed (use p wait_over_view [OF p] in simp_all)

lemma expire_pend_eq:
  assumes "is_pend (tstate K t)"
  shows "tick_expire t K =
    upd_task t (\<lambda>r. r\<lparr>blk_ptr := None\<rparr>) (mutex_task_pri_reset t (wait_over t BLK_TIMEOUT K))"
  using assms by (cases rule: is_pend_cases) (simp_all add: tick_expire_def wait_over_def Let_def)

lemma expire_pend_ok:
  assumes k: "kinvd d K" and p: "is_pend (tstate K t)"
  shows "kinvd d (tick_expire t K)" "g_fault (tick_expire t K) = g_fault K"
    "sched_frame K (tick_expire t K)" "g_tick_head (tick_expire t K) = removeAll t (g_tick_head K)"
    "tstate (tick_expire t K) u = (if u = t then expired (tstate K t) else tstate K u)"
    "tick_match (tasks (tick_expire t K) u) = tick_match (tasks K u)"
    "blk_state (tasks (tick_expire t K) u) = (if u = t then BLK_TIMEOUT else blk_state (tasks K u))"
proof -
  let ?W = "wait_over t BLK_TIMEOUT K"
  note w = wait_over_view [OF p, of BLK_TIMEOUT]
  have np: "\<not> is_pend (tstate ?W t)" using p by (auto simp: w)
  note r = end_wait_reset [OF k p kinv_wait_over [OF k p] np _ w(6), simplified w, simplified]
  note f = prio_frame_task [OF r(2)] prio_frame_glob [OF r(2)]
  note e = expire_pend_eq [OF p]
  show "kinvd d (tick_expire t K)" "g_fault (tick_expire t K) = g_fault K" using r by (simp_all add: e)
  show "sched_frame K (tick_expire t K)"
    unfolding e by (intro sched_frame_steps sched_frame_trans [OF w(7)] f)
  show "g_tick_head (tick_expire t K) = removeAll t (g_tick_head K)" by (simp add: e f w)
  show "tstate (tick_expire t K) u = (if u = t then expired (tstate K t) else tstate K u)"
    using p by (simp add: e f w expired_pend del: is_pend.simps)
  show "tick_match (tasks (tick_expire t K) u) = tick_match (tasks K u)" by (simp add: e f w)
  show "blk_state (tasks (tick_expire t K) u) = (if u = t then BLK_TIMEOUT else blk_state (tasks K u))"
    by (simp add: e f w)
qed

lemma expire_sleep_ok:
  assumes k: "kinvd d K" and p: "is_sleep (tstate K t)"
  shows "kinvd d (tick_expire t K)" "g_fault (tick_expire t K) = g_fault K"
    "sched_frame K (tick_expire t K)" "g_tick_head (tick_expire t K) = removeAll t (g_tick_head K)"
    "tstate (tick_expire t K) u = (if u = t then expired (tstate K t) else tstate K u)"
    "tick_match (tasks (tick_expire t K) u) = tick_match (tasks K u)"
    "blk_state (tasks (tick_expire t K) u) = (if u = t then BLK_FINISH else blk_state (tasks K u))"
proof -
  from p consider (a) "tstate K t = K_SLEEP" | (b) "tstate K t = K_SLEEP_SUSPENDED" by auto
  then have main: "kinvd d (tick_expire t K) \<and> g_fault (tick_expire t K) = g_fault K \<and>
      sched_frame K (tick_expire t K) \<and> g_tick_head (tick_expire t K) = removeAll t (g_tick_head K) \<and>
      tasks (tick_expire t K) =
        (tasks K)(t := (tasks K t)\<lparr>blk_state := BLK_FINISH, task_state := expired (tstate K t)\<rparr>)"
  proof cases
    case a
    let ?K = "ready_list_add t (tick_list_rm t (upd_task t (\<lambda>r. r\<lparr>blk_state := BLK_FINISH, task_state := K_RDY\<rparr>) K))"
    have eq: "tick_expire t K = ?K" by (simp add: tick_expire_def a Let_def)
    have nr: "t \<notin> set (rqueue K q)" for q using kinv_ready_iff [OF k, of t q] a by auto
    have nb: "t \<notin> set (blist K q)" for q using kinv_blist_iff [OF k, of t q] a by auto
    have pr: "tprio K t < 62" "b_prio (tasks K t) < 62" "sched_policy (tasks K t) \<noteq> KSCHED_CFS"
      using kinv_prio [OF k, of t] a by auto
    have fr: "sched_frame K ?K" by (intro sched_frame_steps) simp
    have "kinvd d ?K"
    proof (rule kinv_moveI [OF k, where t = t])
      show "placed ?K t" using nr nb pr by (auto simp: placed_def)
      show "rq_inv (g_ready_queue ?K)" using kinvD(3) [OF k] nr pr by (intro rq_inv_add) auto
      show "blk_inv ?K" using kinvD(4) [OF k] by simp
      show "tick_inv d ?K" using kinvD(5) [OF k] by (simp add: tick_inv_rm)
      show "mutex_inv ?K" by (rule mutex_inv_shrink [OF k fr]) auto
    qed (use fr a in auto)
    with fr show ?thesis by (simp add: eq a)
  next
    case b
    let ?K = "tick_list_rm t (upd_task t (\<lambda>r. r\<lparr>task_state := K_SUSPENDED, blk_state := BLK_FINISH\<rparr>) K)"
    have eq: "tick_expire t K = ?K" by (simp add: tick_expire_def b Let_def)
    have nr: "t \<notin> set (rqueue K q)" for q using kinv_ready_iff [OF k, of t q] b by auto
    have nb: "t \<notin> set (blist K q)" for q using kinv_blist_iff [OF k, of t q] b by auto
    have pr: "tprio K t < 62" "b_prio (tasks K t) < 62" "sched_policy (tasks K t) \<noteq> KSCHED_CFS"
      "suspend_count (tasks K t) \<noteq> 0"
      using kinv_prio [OF k, of t] kinv_susp [OF k, of t] b by auto
    have fr: "sched_frame K ?K" by (intro sched_frame_steps) simp
    have "kinvd d ?K"
    proof (rule kinv_moveI [OF k, where t = t])
      show "placed ?K t" using nr nb pr by (auto simp: placed_def)
      show "rq_inv (g_ready_queue ?K)" "blk_inv ?K" using kinvD(3,4) [OF k] by simp_all
      show "tick_inv d ?K" using kinvD(5) [OF k] by (simp add: tick_inv_rm)
      show "mutex_inv ?K" by (rule mutex_inv_shrink [OF k fr]) auto
      show "t \<noteq> g_idle_task K \<or> tstate ?K t = K_RDY \<and> tprio ?K t = tprio K t"
        using kinv_idle_state [OF k, of t] b by simp
    qed (use fr b in auto)
    with fr show ?thesis by (auto simp: eq b fun_eq_iff)
  qed
  then show "kinvd d (tick_expire t K)" "g_fault (tick_expire t K) = g_fault K"
    "sched_frame K (tick_expire t K)" "g_tick_head (tick_expire t K) = removeAll t (g_tick_head K)"
    "tstate (tick_expire t K) u = (if u = t then expired (tstate K t) else tstate K u)"
    "tick_match (tasks (tick_expire t K) u) = tick_match (tasks K u)"
    "blk_state (tasks (tick_expire t K) u) = (if u = t then BLK_FINISH else blk_state (tasks K u))"
    by auto
qed

lemma expire_ok:
  assumes k: "kinvd d K" and t: "t \<in> set (g_tick_head K)"
  shows "kinvd d (tick_expire t K)" "g_fault (tick_expire t K) = g_fault K"
    "sched_frame K (tick_expire t K)" "g_tick_head (tick_expire t K) = removeAll t (g_tick_head K)"
    "tstate (tick_expire t K) u = (if u = t then expired (tstate K t) else tstate K u)"
    "tick_match (tasks (tick_expire t K) u) = tick_match (tasks K u)"
    "u \<noteq> t \<Longrightarrow> blk_state (tasks (tick_expire t K) u) = blk_state (tasks K u)"
    "blk_state (tasks (tick_expire t K) t) = (if is_pend (tstate K t) then BLK_TIMEOUT else BLK_FINISH)"
proof -
  have "is_pend (tstate K t) \<or> is_sleep (tstate K t)" using kinv_tick_state [OF k t] .
  then consider "is_pend (tstate K t)" | "is_sleep (tstate K t)" "\<not> is_pend (tstate K t)" by auto
  then show "kinvd d (tick_expire t K)" "g_fault (tick_expire t K) = g_fault K"
    "sched_frame K (tick_expire t K)" "g_tick_head (tick_expire t K) = removeAll t (g_tick_head K)"
    "tstate (tick_expire t K) u = (if u = t then expired (tstate K t) else tstate K u)"
    "tick_match (tasks (tick_expire t K) u) = tick_match (tasks K u)"
    "u \<noteq> t \<Longrightarrow> blk_state (tasks (tick_expire t K) u) = blk_state (tasks K u)"
    "blk_state (tasks (tick_expire t K) t) = (if is_pend (tstate K t) then BLK_TIMEOUT else BLK_FINISH)"
    by (cases; simp only: expire_pend_ok [OF k] expire_sleep_ok [OF k] if_True if_False simp_thms)+
qed

section \<open>The scan\<close>

definition due :: "kernel \<Rightarrow> tid \<Rightarrow> bool" where
  "due K t \<longleftrightarrow> sint (tick_left K t) \<le> 0"

lemma due_cong:
  "tick_match (tasks A t) = tick_match (tasks B t) \<Longrightarrow> g_tick_count A = g_tick_count B \<Longrightarrow> due A t = due B t"
  by (simp add: due_def tick_left_def)

lemma tick_scan_ok:
  assumes "kinvd d K" "g_tick_head K = ts"
  shows "kinvd d (tick_scan ts K) \<and> g_fault (tick_scan ts K) = g_fault K \<and>
    sched_frame K (tick_scan ts K) \<and> g_tick_head (tick_scan ts K) = dropWhile (due K) ts \<and>
    (\<forall>u. tick_match (tasks (tick_scan ts K) u) = tick_match (tasks K u)) \<and>
    (\<forall>u. tstate (tick_scan ts K) u =
      (if u \<in> set (takeWhile (due K) ts) then expired (tstate K u) else tstate K u)) \<and>
    (\<forall>u. blk_state (tasks (tick_scan ts K) u) =
      (if u \<in> set (takeWhile (due K) ts)
       then if is_pend (tstate K u) then BLK_TIMEOUT else BLK_FINISH else blk_state (tasks K u)))"
  using assms
proof (induction ts arbitrary: K)
  case (Cons t ts)
  note k = Cons.prems(1)
  show ?case
  proof (cases "due K t")
    case False
    then have "tick_scan (t # ts) K = K" by (simp add: due_def tick_left_def Let_def)
    with False k Cons.prems(2) show ?thesis by simp
  next
    case True
    then have eq: "tick_scan (t # ts) K = tick_scan ts (tick_expire t K)"
      by (simp add: due_def tick_left_def Let_def)
    have t: "t \<in> set (g_tick_head K)" using Cons.prems by simp
    have d: "t \<notin> set ts" using kinvD(5) [OF k] Cons.prems(2) by (simp add: tick_inv_def)
    note e = expire_ok [OF k t]
    have "g_tick_head (tick_expire t K) = ts" using e(4) Cons.prems(2) d by simp
    note IH = Cons.IH [OF e(1) this]
    have due: "due (tick_expire t K) = due K"
      by (rule ext, rule due_cong) (use e(6) sched_frameD(6) [OF e(3)] in auto)
    have nt: "t \<notin> set (takeWhile (due K) ts)" using d by (meson set_takeWhileD)
    have st: "tstate (tick_expire t K) u = tstate K u" "blk_state (tasks (tick_expire t K) u) = blk_state (tasks K u)"
      if "u \<noteq> t" for u using that e(5,7) by auto
    have "tstate (tick_scan ts (tick_expire t K)) u =
        (if u = t \<or> u \<in> set (takeWhile (due K) ts) then expired (tstate K u) else tstate K u)"
      "blk_state (tasks (tick_scan ts (tick_expire t K)) u) =
        (if u = t \<or> u \<in> set (takeWhile (due K) ts)
         then if is_pend (tstate K u) then BLK_TIMEOUT else BLK_FINISH else blk_state (tasks K u))" for u
      using IH nt e(5) [of t] e(8) st [of u]
      by (cases "u = t"; simp add: due del: is_pend.simps)+
    then show ?thesis
      unfolding eq using IH True e(2,6) sched_frame_trans [OF e(3)]
      by (auto simp: due simp del: is_pend.simps)
  qed
qed simp

text \<open>The tick list is sorted by the ticks left, so nothing due is missed: when every time-out is
  at most \<^verbatim>\<open>MAX_TICKS\<close>, the tasks before the first one with time left are exactly those due.\<close>

lemma kinv_count_step:
  assumes k: "kinv K" shows "kinvd 0 (K\<lparr>g_tick_count := g_tick_count K + 1\<rparr>)"
proof -
  let ?K = "K\<lparr>g_tick_count := g_tick_count K + 1\<rparr>"
  have left: "tick_left ?K t = tick_left K t - 1" for t by (simp add: tick_left_def)
  have srt: "sorted_by (tick_left K) (g_tick_head K)" "\<forall>t\<in>set (g_tick_head K). 1 \<le> tick_left K t"
    using kinvD(5) [OF k] by (auto simp: tick_inv_def)
  have "sorted_by (tick_left ?K) ts"
    if "sorted_by (tick_left K) ts" "\<forall>t\<in>set ts. 1 \<le> tick_left K t" for ts
    using that by (induction ts) (auto simp: left word_le_minus_mono_left)
  with srt have "tick_inv 0 ?K" using kinvD(5) [OF k] by (simp add: tick_inv_def)
  with k show ?thesis
    by (simp add: kinvd_def blk_inv_def placed_def idle_ok_def reg_inv_def mutex_inv_def)
qed

lemma sint_pos_imp: "0 < sint (x :: tick_t) \<Longrightarrow> 1 \<le> x"
  by (cases "x = 0") (auto simp: word_one_le)

lemma tick_update_ok:
  assumes k: "kinv K"
  defines "K1 \<equiv> K\<lparr>g_tick_count := g_tick_count K + 1\<rparr>"
  shows "kinv (tick_list_update 1 K)" "g_fault (tick_list_update 1 K) = g_fault K"
    "sched_frame K1 (tick_list_update 1 K)"
    "g_tick_head (tick_list_update 1 K) = dropWhile (due K1) (g_tick_head K)"
    "tstate (tick_list_update 1 K) u =
      (if u \<in> set (takeWhile (due K1) (g_tick_head K)) then expired (tstate K u) else tstate K u)"
    "blk_state (tasks (tick_list_update 1 K) u) =
      (if u \<in> set (takeWhile (due K1) (g_tick_head K))
       then if is_pend (tstate K u) then BLK_TIMEOUT else BLK_FINISH else blk_state (tasks K u))"
proof -
  have eq: "tick_list_update 1 K = tick_scan (g_tick_head K) K1"
    by (simp add: tick_list_update_def K1_def Let_def)
  have k1: "kinvd 0 K1" unfolding K1_def by (rule kinv_count_step [OF k])
  have "g_tick_head K1 = g_tick_head K" by (simp add: K1_def)
  note s = tick_scan_ok [OF k1 this]
  have same: "tstate K1 u = tstate K u" "blk_state (tasks K1 u) = blk_state (tasks K u)"
    "g_fault K1 = g_fault K" for u by (simp_all add: K1_def)
  show "g_fault (tick_list_update 1 K) = g_fault K" "sched_frame K1 (tick_list_update 1 K)"
    and head: "g_tick_head (tick_list_update 1 K) = dropWhile (due K1) (g_tick_head K)"
    and "tstate (tick_list_update 1 K) u =
      (if u \<in> set (takeWhile (due K1) (g_tick_head K)) then expired (tstate K u) else tstate K u)"
    "blk_state (tasks (tick_list_update 1 K) u) =
      (if u \<in> set (takeWhile (due K1) (g_tick_head K))
       then if is_pend (tstate K u) then BLK_TIMEOUT else BLK_FINISH else blk_state (tasks K u))"
    using s by (simp_all add: eq same)
  let ?K = "tick_list_update 1 K"
  have k0: "kinvd 0 ?K" using s by (simp add: eq)
  have left: "tick_left ?K t = tick_left K1 t" for t
    using s by (simp add: eq tick_left_def sched_frameD(6))
  have "1 \<le> tick_left ?K t" if t: "t \<in> set (g_tick_head ?K)" for t
  proof -
    obtain h hs where hs: "g_tick_head ?K = h # hs" using t by (cases "g_tick_head ?K") auto
    then have "\<not> due K1 h" using head hd_dropWhile [of "due K1" "g_tick_head K"] by auto
    then have "1 \<le> tick_left ?K h" by (simp add: due_def left sint_pos_imp)
    moreover have "tick_left ?K h \<le> tick_left ?K t"
      using kinvD(5) [OF k0] t hs by (auto simp: tick_inv_def)
    ultimately show ?thesis by simp
  qed
  with k0 show "kinv ?K" by (simp add: kinvd_def tick_inv_def)
qed

section \<open>Rotation, locking, interrupts\<close>

lemma kinv_head_to_tail:
  assumes k: "kinvd d K" shows "kinvd d (ready_list_head_to_tail t K)"
proof (rule kinv_moveI [OF k, where t = t])
  let ?K = "ready_list_head_to_tail t K"
  show "rq_inv (g_ready_queue ?K)"
    using kinvD(3) [OF k] rq_wf_head_to_tail [of K t] by (simp add: rq_inv_def)
  show "blk_inv ?K" "tick_inv d ?K" using kinvD(4,5) [OF k] by simp_all
  show "mutex_inv ?K" by (rule mutex_inv_shrink [OF k]) auto
  show "placed ?K t" by (rule placed_other [OF kinvD(6) [OF k]]) auto
  show "t \<noteq> g_idle_task K \<or> tstate ?K t = K_RDY \<and> tprio ?K t = tprio K t"
    using kinvD(7) [OF k] by (auto simp: idle_ok_def)
qed auto

text \<open>Fields of the control block no invariant speaks of.\<close>

lemma kinv_upd_aux:
  assumes k: "kinvd d K"
    and "\<And>r. task_state (f r) = task_state r" "\<And>r. prio (f r) = prio r" "\<And>r. b_prio (f r) = b_prio r"
      "\<And>r. tick_match (f r) = tick_match r" "\<And>r. blk_ptr (f r) = blk_ptr r"
      "\<And>r. sched_policy (f r) = sched_policy r" "\<And>r. suspend_count (f r) = suspend_count r"
  shows "kinvd d (upd_task t f K)"
  by (rule kinv_upd_task [OF k])
    (use assms(2-) kinv_prio(2,3) [OF k, of t] kinv_susp [OF k, of t] in
      \<open>simp_all del: is_live.simps is_susp.simps\<close>)

lemma time_slice_update_ok:
  assumes k: "kinv K"
  shows "kinv (time_slice_update K)" "g_fault (time_slice_update K) = g_fault K"
    "sched_frame K (time_slice_update K)" "tstate (time_slice_update K) u = tstate K u"
    "g_tick_head (time_slice_update K) = g_tick_head K"
    "blk_state (tasks (time_slice_update K) u) = blk_state (tasks K u)"
proof -
  let ?t = "g_active_task K"
  let ?D = "upd_task ?t (\<lambda>r. r\<lparr>rr_slice := rr_slice r - 1\<rparr>) K"
  let ?H = "\<lambda>A. upd_task ?t (\<lambda>r. r\<lparr>rr_slice := time_total r\<rparr>) (ready_list_head_to_tail ?t A)"
  have kD: "kinv ?D" by (rule kinv_upd_aux [OF k]) simp_all
  have kH: "kinv (?H A)" if "kinv A" for A
    by (rule kinv_upd_aux [OF kinv_head_to_tail [OF that]]) simp_all
  have ex: "time_slice_update K = K \<or> time_slice_update K = ?D \<or> time_slice_update K = ?H ?D \<or>
      time_slice_update K = ?H K"
    by (auto simp: time_slice_update_def Let_def is_ready_list_empty_def)
  then show "kinv (time_slice_update K)"
    by (elim disjE; simp only: k kD kH [OF k] kH [OF kD])
  have fH: "sched_frame K (?H A)" if "sched_frame K A" for A
    by (intro sched_frame_steps sched_frame_trans [OF that]) simp
  show "sched_frame K (time_slice_update K)" using ex fH [of K] fH [of ?D] by (elim disjE; simp only: sched_frame_refl sched_frame_basic)
  show "tstate (time_slice_update K) u = tstate K u"
    "g_tick_head (time_slice_update K) = g_tick_head K"
    "blk_state (tasks (time_slice_update K) u) = blk_state (tasks K u)"
    using ex by (elim disjE; simp)+
  show "g_fault (time_slice_update K) = g_fault K"
    by (auto simp: time_slice_update_def Let_def is_ready_list_empty_def)
qed

lemma kinv_lock [simp]:
  "kinvd d (K\<lparr>g_sched_lock := n\<rparr>) \<longleftrightarrow> kinvd d K"
  "kinvd d (K\<lparr>g_intrpt_nested_level := n\<rparr>) \<longleftrightarrow> kinvd d K"
proof -
  have "tick_left (K\<lparr>g_sched_lock := n\<rparr>) = tick_left K" "tick_left (K\<lparr>g_intrpt_nested_level := n\<rparr>) = tick_left K"
    by (simp_all add: tick_left_def fun_eq_iff)
  then show "kinvd d (K\<lparr>g_sched_lock := n\<rparr>) \<longleftrightarrow> kinvd d K"
    "kinvd d (K\<lparr>g_intrpt_nested_level := n\<rparr>) \<longleftrightarrow> kinvd d K"
    by (simp_all add: kinvd_def blk_inv_def tick_inv_def placed_def idle_ok_def reg_inv_def mutex_inv_def)
qed

lemma sched_disable_ok:
  assumes "sys_inv K"
  shows "sys_inv (fst (krhino_sched_disable K))" and "runs_next K \<Longrightarrow> runs_next (fst (krhino_sched_disable K))"
proof -
  have ovf: "g_sched_lock K + 1 \<noteq> 0" if "g_sched_lock K < 200"
    using that by (metis add_eq_0_iff2 linorder_not_less word_n1_ge neg_eq_iff_add_eq_0)
  then show "sys_inv (fst (krhino_sched_disable K))"
    using assms by (auto simp: krhino_sched_disable_def sys_inv_def act_rdy_def word_neq_0_conv)
  show "runs_next K \<Longrightarrow> runs_next (fst (krhino_sched_disable K))"
    using ovf by (auto simp: krhino_sched_disable_def runs_next_def is_next_def)
qed

lemma sched_enable_ok:
  assumes s: "sys_inv K" and n: "g_intrpt_nested_level K = 0"
  shows "sys_inv (fst (krhino_sched_enable K))" and "runs_next K \<Longrightarrow> runs_next (fst (krhino_sched_enable K))"
proof -
  let ?K = "K\<lparr>g_sched_lock := g_sched_lock K - 1\<rparr>"
  have rdy: "tstate K (g_active_task K) = K_RDY" using sys_invD(4) [OF s n] .
  have c: "sys_inv (core_sched ?K)" "runs_next (core_sched ?K)"
    using core_sched_ok [of ?K] sys_invD(1,2) [OF s] rdy by auto
  have p: "sys_inv ?K" using s rdy by (simp add: sys_inv_def act_rdy_def)
  show "sys_inv (fst (krhino_sched_enable K))" using s c p by (simp add: krhino_sched_enable_def Let_def)
  show "runs_next K \<Longrightarrow> runs_next (fst (krhino_sched_enable K))"
    using c by (auto simp: krhino_sched_enable_def Let_def runs_next_def)
qed

lemma intrpt_enter_ok:
  assumes s: "sys_inv K" and n: "g_intrpt_nested_level K \<noteq> - 1"
  shows "sys_inv (fst (krhino_intrpt_enter K))" and "runs_next (fst (krhino_intrpt_enter K))"
proof -
  have "g_intrpt_nested_level K + 1 \<noteq> 0" using n by (metis add_eq_0_iff2)
  then show "sys_inv (fst (krhino_intrpt_enter K))" "runs_next (fst (krhino_intrpt_enter K))"
    using s by (auto simp: krhino_intrpt_enter_def sys_inv_def act_rdy_def runs_next_def)
qed

text \<open>The exit of the outermost handler switches exactly as \<open>core_sched\<close> does.\<close>

lemma intrpt_exit_eq:
  "krhino_intrpt_exit K = core_sched (K\<lparr>g_intrpt_nested_level := g_intrpt_nested_level K - 1\<rparr>)"
  by (simp add: krhino_intrpt_exit_def core_sched_def Let_def)

lemma intrpt_exit_ok:
  assumes s: "sys_inv K" and n: "g_intrpt_nested_level K > 0"
  shows "sys_inv (krhino_intrpt_exit K)" and "runs_next (krhino_intrpt_exit K)"
  unfolding intrpt_exit_eq using sys_invD [OF s] by (intro core_sched_ok; simp)+

lemma yield_ok:
  assumes s: "sys_inv K" and n: "g_intrpt_nested_level K = 0"
  shows "sys_inv (fst (krhino_task_yield K))" and "runs_next (fst (krhino_task_yield K))"
proof -
  let ?t = "g_active_task K"
  have r: "tstate K ?t = K_RDY" using sys_invD(4) [OF s n] .
  then have ne: "rqueue K (tprio K ?t) \<noteq> []"
    using kinv_ready_iff [OF sys_invD(1) [OF s], of ?t "tprio K ?t"] by auto
  show "sys_inv (fst (krhino_task_yield K))" "runs_next (fst (krhino_task_yield K))"
    unfolding krhino_task_yield_def Let_def fst_conv
    using ne by (intro finish_sched [OF s]; simp add: kinv_head_to_tail [OF sys_invD(1) [OF s]] mode_frame_sched)+
qed

lemma tick_proc_ok:
  assumes s: "sys_inv K" and n: "g_intrpt_nested_level K > 0"
  shows "sys_inv (krhino_tick_proc K)" and "runs_next (krhino_tick_proc K)"
proof -
  note k = sys_invD(1) [OF s]
  note u = tick_update_ok [OF k]
  note t = time_slice_update_ok [OF u(1)]
  have fr: "sched_frame (K\<lparr>g_tick_count := g_tick_count K + 1\<rparr>) (krhino_tick_proc K)"
    unfolding krhino_tick_proc_def by (rule sched_frame_trans [OF u(3) t(3)])
  then have m: "mode_frame K (krhino_tick_proc K)" by (simp add: mode_frame_def sched_frame_def)
  have "tstate (krhino_tick_proc K) (g_active_task K) = K_RDY" if "tstate K (g_active_task K) = K_RDY"
    using that u(5) [of "g_active_task K"] t(4) by (simp add: krhino_tick_proc_def split: if_splits)
  then show "sys_inv (krhino_tick_proc K)" "runs_next (krhino_tick_proc K)"
    using t u s n m
    by (auto simp: sys_inv_def act_rdy_def mode_frame_def krhino_tick_proc_def runs_next_def)
qed

end
