(* ===== verification/KWait.thy ===== *)
theory KWait
  imports KTick
begin

text \<open>
  What the blocking objects share: ending the wait of every blocked task, updating object data the
  scheduler does not look at, and the second half of a blocking call. The interface \<open>wait_end\<close>
  describes an operation that ends one wait; \<^verbatim>\<open>pend_task_wakeup\<close> and \<^verbatim>\<open>pend_task_rm\<close> provide it.
\<close>

section \<open>Draining a blocked list\<close>

text \<open>\<^verbatim>\<open>while (!is_klist_empty(blk_list)) f(first task)\<close>. The fuel is the length of the list; a
  round that removes nothing would loop for ever, hence the fault.\<close>

fun blk_drain :: "(tid \<Rightarrow> kernel \<Rightarrow> kernel) \<Rightarrow> nat \<Rightarrow> oid \<Rightarrow> kernel \<Rightarrow> kernel" where
  "blk_drain f 0 b K = (if blist K b = [] then K else fault K)"
| "blk_drain f (Suc n) b K =
     (case blist K b of [] \<Rightarrow> K | t # _ \<Rightarrow> blk_drain f n b (f t K))"

definition pend_rm_all :: "oid \<Rightarrow> kernel \<Rightarrow> kernel" where
  "pend_rm_all b K = blk_drain pend_task_rm (length (blist K b)) b K"

definition pend_wakeup_all :: "oid \<Rightarrow> kernel \<Rightarrow> kernel" where
  "pend_wakeup_all b K = blk_drain pend_task_wakeup (length (blist K b)) b K"

locale wait_end =
  fixes end_op :: "tid \<Rightarrow> kernel \<Rightarrow> kernel" and reason :: blk_state_t and mark :: "ktask \<Rightarrow> ktask"
  assumes end_kinv: "kinvd d K \<Longrightarrow> is_pend (tstate K t) \<Longrightarrow> kinvd d (end_op t K)"
    and end_task: "is_pend (tstate K t) \<Longrightarrow> tasks (end_op t K) =
      (tasks K)(t := mark ((tasks K t)\<lparr>task_state := woken (tstate K t), blk_state := reason, blk_ptr := None\<rparr>))"
    and end_rq: "is_pend (tstate K t) \<Longrightarrow> rqueue (end_op t K) p =
      (if tstate K t = K_PEND \<and> p = tprio K t then rqueue K p @ [t] else rqueue K p)"
    and end_blk: "is_pend (tstate K t) \<Longrightarrow>
      blk_objs (end_op t K) = (\<lambda>b. (blk_objs K b)\<lparr>blk_list := removeAll t (blist K b)\<rparr>)"
    and end_fault: "is_pend (tstate K t) \<Longrightarrow> g_fault (end_op t K) = g_fault K"
    and end_mutexes: "is_pend (tstate K t) \<Longrightarrow> mutexes (end_op t K) = mutexes K"
    and end_frame: "sched_frame K (end_op t K)"
    and end_tick: "is_pend (tstate K t) \<Longrightarrow> g_tick_head (end_op t K) = removeAll t (g_tick_head K)"
begin

text \<open>One wait: only that task changes.\<close>

lemma end_one:
  assumes k: "kinvd d K" and t: "t \<in> set (blist K b)"
  shows "kinvd d (end_op t K)" "is_pend (tstate K t)" "t \<notin> set (blist (end_op t K) c)"
    "tstate K u = K_RDY \<Longrightarrow> tstate (end_op t K) u = K_RDY" "g_fault (end_op t K) = g_fault K"
proof -
  show p: "is_pend (tstate K t)" using kinv_blist_iff [OF k] t by blast
  show "kinvd d (end_op t K)" by (rule end_kinv [OF k p])
  show "t \<notin> set (blist (end_op t K) c)" by (simp add: end_blk [OF p])
  show "tstate K u = K_RDY \<Longrightarrow> tstate (end_op t K) u = K_RDY" using p by (auto simp: end_task [OF p])
  show "g_fault (end_op t K) = g_fault K" by (rule end_fault [OF p])
qed

lemma drain_gen:
  assumes "kinvd d K" "blist K b = ts"
  shows "let K' = blk_drain end_op (length ts) b K in
    kinvd d K' \<and> g_fault K' = g_fault K \<and> sched_frame K K' \<and> mutexes K' = mutexes K \<and>
    blist K' b = [] \<and>
    (\<forall>c. c \<noteq> b \<longrightarrow> blk_objs K' c = blk_objs K c) \<and>
    blk_objs K' b = (blk_objs K b)\<lparr>blk_list := []\<rparr> \<and>
    (\<forall>u. tasks K' u = (if u \<in> set ts
       then mark ((tasks K u)\<lparr>task_state := woken (tstate K u), blk_state := reason, blk_ptr := None\<rparr>)
       else tasks K u)) \<and>
    (\<forall>p. rqueue K' p = rqueue K p @ filter (\<lambda>t. tstate K t = K_PEND \<and> tprio K t = p) ts)"
  using assms
proof (induction ts arbitrary: K)
  case Nil
  have "blk_objs K b = (blk_objs K b)\<lparr>blk_list := []\<rparr>" using Nil.prems(2) by simp
  with Nil show ?case by (simp add: Let_def)
next
  case (Cons t ts)
  note k = Cons.prems(1)
  have tin: "t \<in> set (blist K b)" using Cons.prems by simp
  note one = end_one [OF k tin]
  note p = one(2)
  have d: "t \<notin> set ts" using kinvD(4) [OF k] Cons.prems(2) by (auto simp: blk_inv_def dest: spec [of _ b])
  have bt: "blist (end_op t K) b = ts" using Cons.prems(2) d by (simp add: end_blk [OF p])
  have other: "blk_objs (end_op t K) c = blk_objs K c" if "c \<noteq> b" for c
  proof -
    have "t \<notin> set (blist K c)" using kinv_blist_iff [OF k] tin that by auto
    then show ?thesis by (simp add: end_blk [OF p])
  qed
  have tk: "tasks (end_op t K) u = tasks K u" if "u \<noteq> t" for u using that by (simp add: end_task [OF p])
  have flt: "filter (\<lambda>u. tstate (end_op t K) u = K_PEND \<and> tprio (end_op t K) u = q) ts =
      filter (\<lambda>u. tstate K u = K_PEND \<and> tprio K u = q) ts" for q
    by (rule filter_cong [OF refl]) (metis d tk)
  have step: "blk_drain end_op (length (t # ts)) b K = blk_drain end_op (length ts) b (end_op t K)"
    using Cons.prems(2) by simp
  note IH = Cons.IH [OF one(1) bt, unfolded Let_def]
  show ?case
    unfolding Let_def step
  proof (intro conjI allI impI)
    fix u
    show "tasks (blk_drain end_op (length ts) b (end_op t K)) u = (if u \<in> set (t # ts)
        then mark ((tasks K u)\<lparr>task_state := woken (tstate K u), blk_state := reason, blk_ptr := None\<rparr>)
        else tasks K u)"
      using IH d tk [of u] by (cases "u = t") (simp_all add: end_task [OF p])
  next
    fix q
    show "rqueue (blk_drain end_op (length ts) b (end_op t K)) q =
        rqueue K q @ filter (\<lambda>t. tstate K t = K_PEND \<and> tprio K t = q) (t # ts)"
      using IH by (simp add: flt end_rq [OF p])
  next
    show "blk_objs (blk_drain end_op (length ts) b (end_op t K)) b = (blk_objs K b)\<lparr>blk_list := []\<rparr>"
      using IH by (simp add: end_blk [OF p])
  qed (use IH other one(5) sched_frame_trans [OF end_frame] end_mutexes [OF p] in auto)
qed

lemma drain_ok:
  assumes k: "kinvd d K"
  shows "kinvd d (blk_drain end_op (length (blist K b)) b K)"
    "g_fault (blk_drain end_op (length (blist K b)) b K) = g_fault K"
    "sched_frame K (blk_drain end_op (length (blist K b)) b K)"
    "mutexes (blk_drain end_op (length (blist K b)) b K) = mutexes K"
    "c \<noteq> b \<Longrightarrow> blk_objs (blk_drain end_op (length (blist K b)) b K) c = blk_objs K c"
    "blk_objs (blk_drain end_op (length (blist K b)) b K) b = (blk_objs K b)\<lparr>blk_list := []\<rparr>"
    "tasks (blk_drain end_op (length (blist K b)) b K) u = (if u \<in> set (blist K b)
       then mark ((tasks K u)\<lparr>task_state := woken (tstate K u), blk_state := reason, blk_ptr := None\<rparr>)
       else tasks K u)"
    "rqueue (blk_drain end_op (length (blist K b)) b K) p =
      rqueue K p @ filter (\<lambda>t. tstate K t = K_PEND \<and> tprio K t = p) (blist K b)"
  using drain_gen [OF k refl, of b] by (simp_all add: Let_def)

lemma drain_ready:
  assumes "kinvd d K" "tstate K u = K_RDY"
  shows "tstate (blk_drain end_op (length (blist K b)) b K) u = K_RDY"
proof -
  have "u \<notin> set (blist K b)" using kinv_blist_iff [OF assms(1)] assms(2) by auto
  with assms show ?thesis by (simp add: drain_ok(7))
qed

end

interpretation wakeup: wait_end pend_task_wakeup BLK_FINISH "\<lambda>r. r"
  by unfold_locales (simp_all only: kinv_wakeup wakeup_view sched_frame_pend)

interpretation waitdel: wait_end pend_task_rm BLK_DEL "\<lambda>r. r"
  by unfold_locales (simp_all only: kinv_task_rm task_rm_view sched_frame_pend)

section \<open>Object data\<close>

text \<open>Updates the invariant does not see.\<close>

lemma kinv_objs [simp]:
  "kinvd d (K\<lparr>sems := a\<rparr>) \<longleftrightarrow> kinvd d K" "kinvd d (K\<lparr>events := b\<rparr>) \<longleftrightarrow> kinvd d K"
  "kinvd d (K\<lparr>queues := c\<rparr>) \<longleftrightarrow> kinvd d K" "kinvd d (K\<lparr>u32_mem := e\<rparr>) \<longleftrightarrow> kinvd d K"
  "kinvd d (K\<lparr>buf_queues := bq\<rparr>) \<longleftrightarrow> kinvd d K" "kinvd d (K\<lparr>u8_mem := um\<rparr>) \<longleftrightarrow> kinvd d K"
  "kinvd d (K\<lparr>mm_freed := f\<rparr>) \<longleftrightarrow> kinvd d K" "kinvd d (K\<lparr>g_res_list := g\<rparr>) \<longleftrightarrow> kinvd d K"
  "kinvd d (K\<lparr>g_task_id := h\<rparr>) \<longleftrightarrow> kinvd d K" "kinvd d (K\<lparr>g_idle_task_spawned := i\<rparr>) \<longleftrightarrow> kinvd d K"
  "kinvd d (K\<lparr>g_sys_stat := j\<rparr>) \<longleftrightarrow> kinvd d K"
  by (simp_all add: kinvd_def blk_inv_def tick_inv_def placed_def idle_ok_def reg_inv_def
      mutex_inv_def tick_left_def [abs_def])

lemma kinv_kobj:
  assumes "kinvd d K" "task_head (f (g_kobj_list K)) = task_head (g_kobj_list K)"
  shows "kinvd d (upd_kobj f K)"
  using assms by (simp add: upd_kobj_def kinvd_def blk_inv_def tick_inv_def placed_def idle_ok_def
      reg_inv_def mutex_inv_def tick_left_def [abs_def])

lemma upd_kobj_sel [simp]:
  "tasks (upd_kobj f K) = tasks K" "blk_objs (upd_kobj f K) = blk_objs K"
  "g_fault (upd_kobj f K) = g_fault K" "g_ready_queue (upd_kobj f K) = g_ready_queue K"
  "sems (upd_kobj f K) = sems K" "mutexes (upd_kobj f K) = mutexes K" "events (upd_kobj f K) = events K"
  "buf_queues (upd_kobj f K) = buf_queues K" "u8_mem (upd_kobj f K) = u8_mem K"
  "queues (upd_kobj f K) = queues K" "g_kobj_list (upd_kobj f K) = f (g_kobj_list K)"
  "g_tick_head (upd_kobj f K) = g_tick_head K" "g_active_task (upd_kobj f K) = g_active_task K"
  "g_sched_lock (upd_kobj f K) = g_sched_lock K" "g_idle_task (upd_kobj f K) = g_idle_task K"
  "g_intrpt_nested_level (upd_kobj f K) = g_intrpt_nested_level K"
  "cfg_mutex_inherit (upd_kobj f K) = cfg_mutex_inherit K"
  by (simp_all add: upd_kobj_def)

lemma mode_frame_objs [simp]:
  "mode_frame A (K\<lparr>sems := a\<rparr>) \<longleftrightarrow> mode_frame A K" "mode_frame A (K\<lparr>events := b\<rparr>) \<longleftrightarrow> mode_frame A K"
  "mode_frame A (K\<lparr>queues := c\<rparr>) \<longleftrightarrow> mode_frame A K" "mode_frame A (K\<lparr>u32_mem := e\<rparr>) \<longleftrightarrow> mode_frame A K"
  "mode_frame A (K\<lparr>buf_queues := bq\<rparr>) \<longleftrightarrow> mode_frame A K" "mode_frame A (K\<lparr>u8_mem := um\<rparr>) \<longleftrightarrow> mode_frame A K"
  "mode_frame A (K\<lparr>mm_freed := f\<rparr>) \<longleftrightarrow> mode_frame A K" "mode_frame A (upd_kobj g K) \<longleftrightarrow> mode_frame A K"
  "mode_frame A (upd_blk bb h K) \<longleftrightarrow> mode_frame A K" "mode_frame A (upd_task t i K) \<longleftrightarrow> mode_frame A K"
  "mode_frame A (upd_mutex m j K) \<longleftrightarrow> mode_frame A K" "mode_frame A (K\<lparr>g_res_list := l\<rparr>) \<longleftrightarrow> mode_frame A K"
  by (simp_all add: mode_frame_def upd_mutex_def)

text \<open>Updates of an object's blocking part: the list stays, and so does the policy unless the
  list is empty.\<close>

lemma kinv_upd_blk:
  assumes k: "kinvd d K" and l: "blk_list (f (blk_objs K b)) = blist K b"
    and p: "blk_policy (f (blk_objs K b)) = blk_policy (blk_objs K b) \<or> blist K b = []"
    and m: "obj_type (f (blk_objs K b)) = RHINO_MUTEX_OBJ_TYPE \<Longrightarrow>
      obj_type (blk_objs K b) = RHINO_MUTEX_OBJ_TYPE \<or> blist K b = []"
  shows "kinvd d (upd_blk b f K)"
proof (rule kinv_moveI [OF k, where t = "g_idle_task K"])
  show "blk_inv (upd_blk b f K)" using kinvD(4) [OF k] l p by (auto simp: blk_inv_def)
  show "mutex_inv (upd_blk b f K)" using kinvD(9) [OF k] l m by (auto simp: mutex_inv_def)
  show "placed (upd_blk b f K) (g_idle_task K)"
    by (rule placed_other [OF kinvD(6) [OF k]]) (use l in auto)
qed (use kinvD(3,5,7) [OF k] l in \<open>auto simp: idle_ok_def\<close>)

lemma kinv_del_type:
  "kinvd d K \<Longrightarrow> kinvd d (upd_blk b (\<lambda>o'. o'\<lparr>obj_type := RHINO_OBJ_TYPE_NONE\<rparr>) K)"
  by (rule kinv_upd_blk) auto

section \<open>The end of a blocking call\<close>

lemma pend_state_end_proc_kinv:
  assumes "sys_inv K" shows "sys_inv (fst (pend_state_end_proc t bo K))"
    and "runs_next K \<Longrightarrow> runs_next (fst (pend_state_end_proc t bo K))"
proof -
  have k: "fst (pend_state_end_proc t bo K) \<in> {K, k_err_proc RHINO_BLK_INV_STATE K}"
    by (auto simp: pend_state_end_proc_def split: blk_state_t.split option.split)
  have "kinv (k_err_proc e K)" for e
    using sys_invD(1) [OF assms] by (simp add: kinvd_def placed_def idle_ok_def reg_inv_def mutex_inv_def)
  with assms have "sys_inv (k_err_proc e K)" for e by (simp add: sys_inv_def act_rdy_def)
  with k assms show "sys_inv (fst (pend_state_end_proc t bo K))" by auto
  show "runs_next (fst (pend_state_end_proc t bo K))" if "runs_next K"
  proof (rule runs_next_same [OF that])
    show "mode_frame K (fst (pend_state_end_proc t bo K))" using mode_frame_sched by simp
    show "rqueue (fst (pend_state_end_proc t bo K)) p = rqueue K p" for p using k by auto
  qed
qed

text \<open>The status a blocking call returns for the reason its wait ended.\<close>

fun wait_status :: "blk_state_t \<Rightarrow> kstat_t" where
  "wait_status BLK_FINISH = RHINO_SUCCESS"
| "wait_status BLK_ABORT = RHINO_BLK_ABORT"
| "wait_status BLK_TIMEOUT = RHINO_BLK_TIMEOUT"
| "wait_status BLK_DEL = RHINO_BLK_DEL"
| "wait_status BLK_INVALID = RHINO_BLK_INV_STATE"

lemma pend_state_end_status:
  "snd (pend_state_end_proc t bo K) =
    (if cancel (tasks K t) \<and> (case bo of None \<Rightarrow> True | Some b \<Rightarrow> obj_cancel (blk_objs K b))
     then RHINO_TASK_CANCELED else wait_status (blk_state (tasks K t)))"
  by (auto simp: pend_state_end_proc_def split: blk_state_t.split option.split)

text \<open>Blocking the active task: the shared first half of every blocking call.\<close>

lemma block_active:
  assumes s: "sys_inv K" and i: "g_active_task K \<noteq> g_idle_task K" and n: "g_intrpt_nested_level K = 0"
    and l: "g_sched_lock K = 0" and t: "ticks \<noteq> 0"
    and m: "obj_type (blk_objs K b) = RHINO_MUTEX_OBJ_TYPE \<Longrightarrow> mutex_task (mutexes K b) \<noteq> None"
  shows "sys_inv (core_sched (pend_to_blk_obj b (g_active_task K) ticks K))"
    and "runs_next (core_sched (pend_to_blk_obj b (g_active_task K) ticks K))"
proof -
  have r: "tstate K (g_active_task K) = K_RDY" using sys_invD(4) [OF s n] .
  note k = sys_invD(1) [OF s]
  have "kinv (pend_to_blk_obj b (g_active_task K) ticks K)"
    by (rule kinv_pend_to_blk [OF k r i _ m]) (simp add: word_one_le t)
  moreover have "g_fault (pend_to_blk_obj b (g_active_task K) ticks K) = g_fault K"
    by (rule pend_to_blk_view(5) [OF k r i])
  ultimately show "sys_inv (core_sched (pend_to_blk_obj b (g_active_task K) ticks K))"
    "runs_next (core_sched (pend_to_blk_obj b (g_active_task K) ticks K))"
    using l by (auto intro!: finish_sched [OF s] mode_frame_sched)
qed

section \<open>Object updates and the system invariant\<close>

lemma sys_objs [simp]:
  "sys_inv (K\<lparr>sems := a\<rparr>) \<longleftrightarrow> sys_inv K" "sys_inv (K\<lparr>events := b\<rparr>) \<longleftrightarrow> sys_inv K"
  "sys_inv (K\<lparr>queues := c\<rparr>) \<longleftrightarrow> sys_inv K" "sys_inv (K\<lparr>u32_mem := e\<rparr>) \<longleftrightarrow> sys_inv K"
  "sys_inv (K\<lparr>buf_queues := bq\<rparr>) \<longleftrightarrow> sys_inv K" "sys_inv (K\<lparr>u8_mem := um\<rparr>) \<longleftrightarrow> sys_inv K"
  "sys_inv (K\<lparr>mm_freed := f\<rparr>) \<longleftrightarrow> sys_inv K" "sys_inv (K\<lparr>g_res_list := g\<rparr>) \<longleftrightarrow> sys_inv K"
  by (simp_all add: sys_inv_def act_rdy_def)

lemma runs_objs [simp]:
  "runs_next (K\<lparr>sems := a\<rparr>) \<longleftrightarrow> runs_next K" "runs_next (K\<lparr>events := b\<rparr>) \<longleftrightarrow> runs_next K"
  "runs_next (K\<lparr>queues := c\<rparr>) \<longleftrightarrow> runs_next K" "runs_next (K\<lparr>u32_mem := e\<rparr>) \<longleftrightarrow> runs_next K"
  "runs_next (K\<lparr>buf_queues := bq\<rparr>) \<longleftrightarrow> runs_next K" "runs_next (K\<lparr>u8_mem := um\<rparr>) \<longleftrightarrow> runs_next K"
  "runs_next (K\<lparr>mm_freed := f\<rparr>) \<longleftrightarrow> runs_next K" "runs_next (K\<lparr>g_res_list := g\<rparr>) \<longleftrightarrow> runs_next K"
  "runs_next (upd_kobj h K) \<longleftrightarrow> runs_next K" "runs_next (upd_blk bb i K) \<longleftrightarrow> runs_next K"
  "runs_next (upd_task t j K) \<longleftrightarrow> runs_next K" "runs_next (upd_mutex m l K) \<longleftrightarrow> runs_next K"
  by (simp_all add: runs_next_def is_next_def upd_kobj_def upd_blk_def upd_task_def upd_mutex_def)

lemma sys_kobj:
  "sys_inv K \<Longrightarrow> task_head (f (g_kobj_list K)) = task_head (g_kobj_list K) \<Longrightarrow> sys_inv (upd_kobj f K)"
  by (simp add: sys_inv_def act_rdy_def kinv_kobj)

lemma sys_upd_task:
  assumes "sys_inv K"
    and "\<And>r. task_state (f r) = task_state r" "\<And>r. prio (f r) = prio r" "\<And>r. b_prio (f r) = b_prio r"
      "\<And>r. tick_match (f r) = tick_match r" "\<And>r. blk_ptr (f r) = blk_ptr r"
      "\<And>r. sched_policy (f r) = sched_policy r" "\<And>r. suspend_count (f r) = suspend_count r"
  shows "sys_inv (upd_task t f K)"
  using kinv_upd_aux [of 1 K f t] assms by (auto simp: sys_inv_def act_rdy_def)

lemma sys_upd_blk:
  assumes "sys_inv K" and "blk_list (f (blk_objs K b)) = blist K b"
    and "blk_policy (f (blk_objs K b)) = blk_policy (blk_objs K b) \<or> blist K b = []"
    and "obj_type (f (blk_objs K b)) = RHINO_MUTEX_OBJ_TYPE \<Longrightarrow>
      obj_type (blk_objs K b) = RHINO_MUTEX_OBJ_TYPE \<or> blist K b = []"
  shows "sys_inv (upd_blk b f K)"
  using assms kinv_upd_blk [of 1 K f b] by (simp add: sys_inv_def act_rdy_def)

text \<open>Deleting an object: its type is cleared, every waiter leaves with \<open>BLK_DEL\<close>, and the object
  is taken off its list of objects.\<close>

definition blk_del :: "oid \<Rightarrow> (kobj_list_t \<Rightarrow> kobj_list_t) \<Rightarrow> kernel \<Rightarrow> kernel" where
  "blk_del b unlink K =
     (let K = upd_blk b (\<lambda>o'. o'\<lparr>obj_type := RHINO_OBJ_TYPE_NONE\<rparr>) K;
          K = pend_rm_all b K;
          K = upd_kobj unlink K
      in core_sched K)"

lemma blk_del_ok:
  assumes s: "sys_inv K" and u: "\<And>l. task_head (unlink l) = task_head l"
  shows "sys_inv (blk_del b unlink K)" and "runs_next (blk_del b unlink K)"
proof -
  let ?T = "upd_blk b (\<lambda>o'. o'\<lparr>obj_type := RHINO_OBJ_TYPE_NONE\<rparr>) K"
  have kT: "kinv ?T" by (rule kinv_del_type [OF sys_invD(1) [OF s]])
  note d = waitdel.drain_ok [OF kT, of b, folded pend_rm_all_def]
  have k: "kinv (upd_kobj unlink (pend_rm_all b ?T))" by (rule kinv_kobj [OF d(1)]) (rule u)
  have f: "g_fault (upd_kobj unlink (pend_rm_all b ?T)) = g_fault K" using d(2) by simp
  have m: "mode_frame K (upd_kobj unlink (pend_rm_all b ?T))"
    using mode_frame_trans [OF _ mode_frame_sched [OF d(3)], of K] by simp
  have r: "tstate (upd_kobj unlink (pend_rm_all b ?T)) t = K_RDY" if "tstate K t = K_RDY" for t
    using waitdel.drain_ready [OF kT, of t b] that by (simp add: pend_rm_all_def)
  show "sys_inv (blk_del b unlink K)" "runs_next (blk_del b unlink K)"
    unfolding blk_del_def Let_def using r by (auto intro!: finish_sched [OF s k f m])
qed

text \<open>Waking the first waiter, or all of them.\<close>

lemma wake_first_ok:
  assumes s: "sys_inv K" and t: "t \<in> set (blist K b)"
  shows "sys_inv (core_sched (pend_task_wakeup t K))" and "runs_next (core_sched (pend_task_wakeup t K))"
proof -
  note one = wakeup.end_one [OF sys_invD(1) [OF s] t]
  show "sys_inv (core_sched (pend_task_wakeup t K))" "runs_next (core_sched (pend_task_wakeup t K))"
    using one by (auto intro!: finish_sched [OF s] mode_frame_sched)
qed

lemma wake_all_ok:
  assumes s: "sys_inv K"
  shows "sys_inv (core_sched (pend_wakeup_all b K))" and "runs_next (core_sched (pend_wakeup_all b K))"
proof -
  note d = wakeup.drain_ok [OF sys_invD(1) [OF s], of b, folded pend_wakeup_all_def]
  have r: "tstate (pend_wakeup_all b K) t = K_RDY" if "tstate K t = K_RDY" for t
    using wakeup.drain_ready [OF sys_invD(1) [OF s] that] by (simp add: pend_wakeup_all_def)
  show "sys_inv (core_sched (pend_wakeup_all b K))" "runs_next (core_sched (pend_wakeup_all b K))"
    using d r by (auto intro!: finish_sched [OF s] mode_frame_sched)
qed

end
