(* ===== verification/KDemo.thy ===== *)
theory KDemo
  imports KWait
begin

text \<open>
  A concrete running system, on which the witnesses of the development are evaluated: the idle
  task 0, the active task 1 (priority 10), a ready task 2, task 3 waiting for semaphore 5 with a
  time limit, task 4 waiting for mutex 6 (owned by task 1) without one, task 5 asleep and task 6
  suspended; semaphore 7 has two units, event 8, queue 9 and buffer queue 10 have
  no waiters.
\<close>

definition mk_task :: "task_stat_t \<Rightarrow> nat \<Rightarrow> oid option \<Rightarrow> tick_t \<Rightarrow> u8 \<Rightarrow> ktask" where
  "mk_task s p b m c = ktask_zero\<lparr>task_state := s, prio := p, b_prio := p, blk_ptr := b, tick_match := m,
     suspend_count := c, sched_policy := KSCHED_RR, rr_slice := 50, time_total := 50,
     task_alloc_flag := K_OBJ_STATIC_ALLOC\<rparr>"

fun demo_task :: "tid \<Rightarrow> ktask" where
  "demo_task t =
     (if t = 0 then mk_task K_RDY 61 None 0 0
      else if t = 1 then mk_task K_RDY 10 None 0 0
      else if t = 2 then mk_task K_RDY 20 None 0 0
      else if t = 3 then mk_task K_PEND 12 (Some 5) 107 0
      else if t = 4 then mk_task K_PEND 15 (Some 6) 0 0
      else if t = 5 then mk_task K_SLEEP 30 None 103 0
      else if t = 6 then mk_task K_SUSPENDED 25 None 0 1
      else ktask_zero)"

definition mk_blk :: "kobj_type_t \<Rightarrow> bool \<Rightarrow> tid list \<Rightarrow> blk_obj_t" where
  "mk_blk ty c ts = \<lparr>blk_list = ts, blk_policy = BLK_POLICY_PRI, obj_type = ty, obj_cancel = c, obj_name = ''obj''\<rparr>"

fun demo_blk :: "oid \<Rightarrow> blk_obj_t" where
  "demo_blk b =
     (if b = 5 then mk_blk RHINO_SEM_OBJ_TYPE True [3]
      else if b = 6 then mk_blk RHINO_MUTEX_OBJ_TYPE False [4]
      else if b = 7 then mk_blk RHINO_SEM_OBJ_TYPE True []
      else if b = 8 then mk_blk RHINO_EVENT_OBJ_TYPE True []
      else if b = 9 then mk_blk RHINO_QUEUE_OBJ_TYPE True []
      else if b = 10 then mk_blk RHINO_BUF_QUEUE_OBJ_TYPE True []
      else blk_obj_zero)"

definition demo_rq :: runqueue_t where
  "demo_rq = \<lparr>cur_list_item = (\<lambda>p. if p = 10 then [1] else if p = 20 then [2] else if p = 61 then [0] else []),
     task_bit_map = krhino_bitmap_set (krhino_bitmap_set (krhino_bitmap_set [0, 0] 10) 20) 61,
     highest_pri = 10\<rparr>"

definition demo :: kernel where
  "demo = \<lparr>g_sys_stat = RHINO_RUNNING, g_sched_lock = 0, g_intrpt_nested_level = 0,
     g_preferred_ready_task = 1, g_active_task = 1, g_idle_task = 0, g_idle_task_spawned = True,
     g_task_id = 7, g_ready_queue = demo_rq, g_tick_count = 100, g_tick_head = [5, 3],
     tasks = demo_task, blk_objs = demo_blk,
     sems = (\<lambda>s. \<lparr>sem_count = (if s = 7 then 2 else 0), peak_count = 2, sem_alloc_flag = K_OBJ_STATIC_ALLOC\<rparr>),
     mutexes = (\<lambda>m. \<lparr>mutex_task = (if m = 6 then Some 1 else None), mutex_next = None,
       owner_nested = (if m = 6 then 1 else 0), mutex_alloc_flag = K_OBJ_STATIC_ALLOC\<rparr>),
     events = (\<lambda>_. \<lparr>ev_flags = 0, ev_alloc_flag = K_OBJ_STATIC_ALLOC\<rparr>),
     queues = (\<lambda>_. \<lparr>q_ring = [0, 0], q_size = 2, q_cur_num = 0, q_peak_num = 0, q_write = 0, q_read = 0,
       q_start = 1000, q_alloc_flag = K_OBJ_STATIC_ALLOC\<rparr>),
     buf_queues = (\<lambda>_. \<lparr>bq_buf = 2000, bq_ring = ringbuf_init (replicate 16 0) RINGBUF_TYPE_DYN 4, max_msg_size = 4,
       bq_cur_num = 0, bq_peak_num = 0, min_free_buf_size = 16, bq_alloc_flag = K_OBJ_STATIC_ALLOC\<rparr>),
     g_kobj_list = \<lparr>task_head = [0, 1, 2, 3, 4, 5, 6], mutex_head = [6], sem_head = [5, 7],
       queue_head = [9], event_head = [8], buf_queue_head = [10]\<rparr>,
     g_res_sem = 4, g_res_list = [], u32_mem = (\<lambda>_. 0), u8_mem = of_nat, mm_freed = [], g_err = [], g_fault = False,
     cfg_mutex_inherit = False\<rparr>"

lemmas demo_defs = demo_def demo_rq_def mk_task_def mk_blk_def blk_obj_zero_def ktask_zero_def

lemma demo_sel [simp]:
  "tasks demo = demo_task" "blk_objs demo = demo_blk" "g_active_task demo = 1" "g_idle_task demo = 0"
  "g_sched_lock demo = 0" "g_intrpt_nested_level demo = 0" "g_tick_head demo = [5, 3]"
  "g_tick_count demo = 100" "g_fault demo = False" "cfg_mutex_inherit demo = False"
  "g_sys_stat demo = RHINO_RUNNING"
  by (simp_all add: demo_def)

lemma demo_rq_wf: "rq_wf demo_rq"
  by (auto simp: rq_wf_def demo_rq_def in_bitmap_Cons)

lemma demo_sys_inv: "sys_inv demo"
proof -
  have "rq_inv (g_ready_queue demo)"
    using demo_rq_wf by (simp add: rq_inv_def demo_def) (simp add: demo_rq_def)
  moreover have "blk_inv demo" by (auto simp: blk_inv_def mk_blk_def blk_obj_zero_def)
  moreover have "tick_inv 1 demo" by (simp add: tick_inv_def tick_left_def mk_task_def)
  moreover have "placed demo t" for t
    by (auto simp: placed_def demo_defs)
  moreover have "idle_ok demo" "reg_inv demo" "mutex_inv demo"
    by (auto simp: idle_ok_def reg_inv_def mutex_inv_def demo_defs)
  ultimately have "kinv demo" by (simp add: kinvd_def)
  then show ?thesis by (simp add: sys_inv_def act_rdy_def mk_task_def)
qed

lemma demo_runs_next: "runs_next demo"
  by (auto simp: runs_next_def is_next_def demo_def demo_rq_def intro!: exI [of _ 10])

text \<open>The same system at other moments: another ready task runs, or other values of fields that the
  invariant does not read.\<close>

lemma sys_inv_running:
  assumes "sys_inv K" "tstate K t = K_RDY"
  shows "sys_inv (K\<lparr>g_active_task := t\<rparr>)"
proof -
  have "tick_left (K\<lparr>g_active_task := t\<rparr>) = tick_left K" by (simp add: tick_left_def fun_eq_iff)
  with assms show ?thesis
    by (simp add: sys_inv_def act_rdy_def kinvd_def blk_inv_def tick_inv_def placed_def idle_ok_def
        reg_inv_def mutex_inv_def)
qed

lemma sys_inv_inherit:
  assumes "sys_inv K" shows "sys_inv (K\<lparr>cfg_mutex_inherit := c\<rparr>)"
proof -
  have "tick_left (K\<lparr>cfg_mutex_inherit := c\<rparr>) = tick_left K" by (simp add: tick_left_def fun_eq_iff)
  with assms show ?thesis
    by (simp add: sys_inv_def act_rdy_def kinvd_def blk_inv_def tick_inv_def placed_def idle_ok_def
        reg_inv_def mutex_inv_def)
qed

end
