(* ===== verification/KSem.thy ===== *)
theory KSem
  imports KDemo
begin

text \<open>
  Counting semaphores (\<^verbatim>\<open>k_sem.c\<close>) and the per-task semaphore (\<^verbatim>\<open>k_task_sem.c\<close>). A call that may
  block is split: the first half either returns or leaves the task blocked (\<open>Block\<close>), the second
  half (\<open>krhino_sem_take_resume\<close>) runs when the task is scheduled again. Arguments that may be
  \<open>NULL\<close> are options; the answer of the allocator is an argument of the dynamic variants.
\<close>

section \<open>Operations\<close>

definition upd_sem :: "oid \<Rightarrow> (ksem_t \<Rightarrow> ksem_t) \<Rightarrow> kernel \<Rightarrow> kernel" where
  "upd_sem s f K = K\<lparr>sems := (sems K)(s := f (sems K s))\<rparr>"

definition sem_create :: "oid option \<Rightarrow> string option \<Rightarrow> u32 \<Rightarrow> alloc_flag_t \<Rightarrow> kernel \<Rightarrow> kernel \<times> kstat_t" where
  "sem_create sem name count mm_alloc_flag K =
     (case (sem, name) of
        (Some s, Some nm) \<Rightarrow>
          let K = upd_blk s (\<lambda>_. blk_obj_zero) K;
              K = upd_sem s (\<lambda>_. \<lparr>sem_count = count, peak_count = count, sem_alloc_flag = mm_alloc_flag\<rparr>) K;
              K = upd_blk s (\<lambda>b. b\<lparr>obj_name := nm, blk_policy := BLK_POLICY_PRI, obj_cancel := True\<rparr>) K;
              K = upd_kobj (\<lambda>l. l\<lparr>sem_head := sem_head l @ [s]\<rparr>) K;
              K = upd_blk s (\<lambda>b. b\<lparr>obj_type := RHINO_SEM_OBJ_TYPE\<rparr>) K
          in (K, RHINO_SUCCESS)
      | _ \<Rightarrow> (K, RHINO_NULL_PTR))"

definition krhino_sem_create :: "oid option \<Rightarrow> string option \<Rightarrow> u32 \<Rightarrow> kernel \<Rightarrow> kernel \<times> kstat_t" where
  "krhino_sem_create sem name count K = sem_create sem name count K_OBJ_STATIC_ALLOC K"

definition krhino_sem_del :: "oid option \<Rightarrow> kernel \<Rightarrow> kernel \<times> kstat_t" where
  "krhino_sem_del sem K =
     (case sem of
        None \<Rightarrow> (K, RHINO_NULL_PTR)
      | Some s \<Rightarrow>
          if g_intrpt_nested_level K > 0 then (K, RHINO_NOT_CALLED_BY_INTRPT)
          else if obj_type (blk_objs K s) \<noteq> RHINO_SEM_OBJ_TYPE then (K, RHINO_KOBJ_TYPE_ERR)
          else if sem_alloc_flag (sems K s) \<noteq> K_OBJ_STATIC_ALLOC then (K, RHINO_KOBJ_DEL_ERR)
          else
            let K = upd_blk s (\<lambda>b. b\<lparr>obj_type := RHINO_OBJ_TYPE_NONE\<rparr>) K;
                K = pend_rm_all s K;
                K = upd_kobj (\<lambda>l. l\<lparr>sem_head := removeAll s (sem_head l)\<rparr>) K
            in (core_sched K, RHINO_SUCCESS))"

text \<open>\<open>sem_out\<close> is the caller's \<^verbatim>\<open>ksem_t **\<close>, \<open>sem_obj\<close> the answer of \<^verbatim>\<open>krhino_mm_alloc\<close>; the last
  component is what is stored through \<open>sem_out\<close>.\<close>

definition krhino_sem_dyn_create ::
  "nat option \<Rightarrow> string option \<Rightarrow> u32 \<Rightarrow> oid option \<Rightarrow> kernel \<Rightarrow> kernel \<times> kstat_t \<times> oid option" where
  "krhino_sem_dyn_create sem_out name count sem_obj K =
     (case sem_out of
        None \<Rightarrow> (K, RHINO_NULL_PTR, None)
      | Some _ \<Rightarrow>
          case sem_obj of
            None \<Rightarrow> (K, RHINO_NO_MEM, None)
          | Some s \<Rightarrow>
              let (K, stat) = sem_create (Some s) name count K_OBJ_DYN_ALLOC K
              in if stat \<noteq> RHINO_SUCCESS then (K\<lparr>mm_freed := mm_freed K @ [s]\<rparr>, stat, None)
                 else (K, stat, Some s))"

definition krhino_sem_dyn_del :: "oid option \<Rightarrow> kernel \<Rightarrow> kernel \<times> kstat_t" where
  "krhino_sem_dyn_del sem K =
     (case sem of
        None \<Rightarrow> (K, RHINO_NULL_PTR)
      | Some s \<Rightarrow>
          if g_intrpt_nested_level K > 0 then (K, RHINO_NOT_CALLED_BY_INTRPT)
          else if obj_type (blk_objs K s) \<noteq> RHINO_SEM_OBJ_TYPE then (K, RHINO_KOBJ_TYPE_ERR)
          else if sem_alloc_flag (sems K s) \<noteq> K_OBJ_DYN_ALLOC then (K, RHINO_KOBJ_DEL_ERR)
          else
            let K = upd_blk s (\<lambda>b. b\<lparr>obj_type := RHINO_OBJ_TYPE_NONE\<rparr>) K;
                K = pend_rm_all s K;
                K = upd_kobj (\<lambda>l. l\<lparr>sem_head := removeAll s (sem_head l)\<rparr>) K;
                K = core_sched K
            in (K\<lparr>mm_freed := mm_freed K @ [s]\<rparr>, RHINO_SUCCESS))"

definition sem_give :: "oid \<Rightarrow> bool \<Rightarrow> kernel \<Rightarrow> kernel \<times> kstat_t" where
  "sem_give s opt_wake_all K =
     (if obj_type (blk_objs K s) \<noteq> RHINO_SEM_OBJ_TYPE then (K, RHINO_KOBJ_TYPE_ERR)
      else case blist K s of
        [] \<Rightarrow>
          if sem_count (sems K s) = - 1 then (K, RHINO_SEM_OVF)
          else
            let K = upd_sem s (\<lambda>r. r\<lparr>sem_count := sem_count r + 1\<rparr>) K;
                K = (if sem_count (sems K s) > peak_count (sems K s)
                     then upd_sem s (\<lambda>r. r\<lparr>peak_count := sem_count r\<rparr>) K else K)
            in (K, RHINO_SUCCESS)
      | t # _ \<Rightarrow>
          let K = (if opt_wake_all then pend_wakeup_all s K else pend_task_wakeup t K)
          in (core_sched K, RHINO_SUCCESS))"

definition krhino_sem_give :: "oid option \<Rightarrow> kernel \<Rightarrow> kernel \<times> kstat_t" where
  "krhino_sem_give sem K = (case sem of None \<Rightarrow> (K, RHINO_NULL_PTR) | Some s \<Rightarrow> sem_give s False K)"

definition krhino_sem_give_all :: "oid option \<Rightarrow> kernel \<Rightarrow> kernel \<times> kstat_t" where
  "krhino_sem_give_all sem K = (case sem of None \<Rightarrow> (K, RHINO_NULL_PTR) | Some s \<Rightarrow> sem_give s True K)"

definition krhino_sem_take :: "oid option \<Rightarrow> tick_t \<Rightarrow> kernel \<Rightarrow> kernel \<times> outcome" where
  "krhino_sem_take sem ticks K =
     (case sem of
        None \<Rightarrow> (K, Ret RHINO_NULL_PTR)
      | Some s \<Rightarrow>
          if cancel (tasks K (g_active_task K)) \<and> obj_cancel (blk_objs K s) then (K, Ret RHINO_TASK_CANCELED)
          else if g_intrpt_nested_level K > 0 then (K, Ret RHINO_NOT_CALLED_BY_INTRPT)
          else if obj_type (blk_objs K s) \<noteq> RHINO_SEM_OBJ_TYPE then (K, Ret RHINO_KOBJ_TYPE_ERR)
          else if sem_count (sems K s) > 0 then
            (upd_sem s (\<lambda>r. r\<lparr>sem_count := sem_count r - 1\<rparr>) K, Ret RHINO_SUCCESS)
          else if ticks = RHINO_NO_WAIT then (K, Ret RHINO_NO_PEND_WAIT)
          else if g_sched_lock K > 0 then (K, Ret RHINO_SCHED_DISABLE)
          else (core_sched (pend_to_blk_obj s (g_active_task K) ticks K), Block))"

definition krhino_sem_take_resume :: "oid \<Rightarrow> kernel \<Rightarrow> kernel \<times> kstat_t" where
  "krhino_sem_take_resume s K = pend_state_end_proc (g_active_task K) (Some s) K"

definition krhino_sem_count_set :: "oid option \<Rightarrow> u32 \<Rightarrow> kernel \<Rightarrow> kernel \<times> kstat_t" where
  "krhino_sem_count_set sem count K =
     (case sem of
        None \<Rightarrow> (K, RHINO_NULL_PTR)
      | Some s \<Rightarrow>
          if g_intrpt_nested_level K > 0 then (K, RHINO_NOT_CALLED_BY_INTRPT)
          else if obj_type (blk_objs K s) \<noteq> RHINO_SEM_OBJ_TYPE then (K, RHINO_KOBJ_TYPE_ERR)
          else if \<not> sem_count (sems K s) > 0 \<and> blist K s \<noteq> [] then (K, RHINO_SEM_TASK_WAITING)
          else
            let K = upd_sem s (\<lambda>r. r\<lparr>sem_count := count\<rparr>) K;
                K = (if sem_count (sems K s) > peak_count (sems K s)
                     then upd_sem s (\<lambda>r. r\<lparr>peak_count := sem_count r\<rparr>) K else K)
            in (K, RHINO_SUCCESS))"

definition krhino_sem_count_get :: "oid option \<Rightarrow> nat option \<Rightarrow> kernel \<Rightarrow> kstat_t \<times> u32 option" where
  "krhino_sem_count_get sem count K =
     (case (sem, count) of
        (Some s, Some _) \<Rightarrow> (RHINO_SUCCESS, Some (sem_count (sems K s)))
      | _ \<Rightarrow> (RHINO_NULL_PTR, None))"

section \<open>The semaphore of a task\<close>

definition krhino_task_sem_create ::
  "tid option \<Rightarrow> oid option \<Rightarrow> string option \<Rightarrow> u32 \<Rightarrow> kernel \<Rightarrow> kernel \<times> kstat_t" where
  "krhino_task_sem_create t sem name count K =
     (case t of
        None \<Rightarrow> (K, RHINO_NULL_PTR)
      | Some u \<Rightarrow>
          let (K, ret) = krhino_sem_create sem name count K
          in if ret = RHINO_SUCCESS then (upd_task u (\<lambda>r. r\<lparr>task_sem_obj := sem\<rparr>) K, ret)
             else (upd_task u (\<lambda>r. r\<lparr>task_sem_obj := None\<rparr>) K, ret))"

definition krhino_task_sem_del :: "tid option \<Rightarrow> kernel \<Rightarrow> kernel \<times> kstat_t" where
  "krhino_task_sem_del t K =
     (case t of None \<Rightarrow> (K, RHINO_NULL_PTR) | Some u \<Rightarrow> krhino_sem_del (task_sem_obj (tasks K u)) K)"

definition krhino_task_sem_give :: "tid option \<Rightarrow> kernel \<Rightarrow> kernel \<times> kstat_t" where
  "krhino_task_sem_give t K =
     (case t of None \<Rightarrow> (K, RHINO_NULL_PTR) | Some u \<Rightarrow> krhino_sem_give (task_sem_obj (tasks K u)) K)"

definition krhino_task_sem_take :: "tick_t \<Rightarrow> kernel \<Rightarrow> kernel \<times> outcome" where
  "krhino_task_sem_take ticks K =
     krhino_sem_take (task_sem_obj (tasks K (g_active_task K))) ticks K"

definition krhino_task_sem_count_set :: "tid option \<Rightarrow> u32 \<Rightarrow> kernel \<Rightarrow> kernel \<times> kstat_t" where
  "krhino_task_sem_count_set t count K =
     (case t of
        None \<Rightarrow> (K, RHINO_NULL_PTR)
      | Some u \<Rightarrow> krhino_sem_count_set (task_sem_obj (tasks K u)) count K)"

definition krhino_task_sem_count_get :: "tid option \<Rightarrow> nat option \<Rightarrow> kernel \<Rightarrow> kstat_t \<times> u32 option" where
  "krhino_task_sem_count_get t count K =
     (case t of
        None \<Rightarrow> (RHINO_NULL_PTR, None)
      | Some u \<Rightarrow> krhino_sem_count_get (task_sem_obj (tasks K u)) count K)"

section \<open>The invariant is kept\<close>

lemma upd_sem_sel [simp]:
  "sems (upd_sem s f K) = (sems K)(s := f (sems K s))" "tasks (upd_sem s f K) = tasks K"
  "blk_objs (upd_sem s f K) = blk_objs K" "g_ready_queue (upd_sem s f K) = g_ready_queue K"
  "g_active_task (upd_sem s f K) = g_active_task K" "g_sched_lock (upd_sem s f K) = g_sched_lock K"
  "g_intrpt_nested_level (upd_sem s f K) = g_intrpt_nested_level K"
  "sys_inv (upd_sem s f K) \<longleftrightarrow> sys_inv K" "runs_next (upd_sem s f K) \<longleftrightarrow> runs_next K"
  by (simp_all add: upd_sem_def)

lemma sem_create_ok:
  assumes "sys_inv K" and "\<And>s. sem = Some s \<Longrightarrow> blist K s = []"
  shows "sys_inv (fst (sem_create sem name n fl K))"
    and "runs_next K \<Longrightarrow> runs_next (fst (sem_create sem name n fl K))"
  using assms
  by (auto simp: sem_create_def Let_def blk_obj_zero_def split: option.split intro!: sys_upd_blk sys_kobj)

lemma blk_del_eq:
  "core_sched (upd_kobj f (pend_rm_all s (upd_blk s (\<lambda>b. b\<lparr>obj_type := RHINO_OBJ_TYPE_NONE\<rparr>) K))) =
   blk_del s f K"
  by (simp add: blk_del_def)

lemma sem_del_ok:
  assumes s: "sys_inv K"
  shows "sys_inv (fst (krhino_sem_del sem K))" "runs_next K \<Longrightarrow> runs_next (fst (krhino_sem_del sem K))"
    "sys_inv (fst (krhino_sem_dyn_del sem K))" "runs_next K \<Longrightarrow> runs_next (fst (krhino_sem_dyn_del sem K))"
  using s blk_del_ok [OF s]
  by (auto simp: krhino_sem_del_def krhino_sem_dyn_del_def Let_def blk_del_eq split: option.split)

lemma sem_give_ok:
  assumes s: "sys_inv K"
  shows "sys_inv (fst (sem_give m all K))" and "runs_next K \<Longrightarrow> runs_next (fst (sem_give m all K))"
  using s wake_all_ok [OF s, of m] wake_first_ok [OF s, of _ m]
  by (auto simp: sem_give_def Let_def split: list.split)

lemma sem_take_ok:
  assumes s: "sys_inv K" and i: "g_active_task K \<noteq> g_idle_task K"
  shows "sys_inv (fst (krhino_sem_take sem ticks K))"
    and "runs_next K \<Longrightarrow> runs_next (fst (krhino_sem_take sem ticks K))"
  using s by (auto simp: krhino_sem_take_def RHINO_NO_WAIT_def word_neq_0_conv [symmetric]
      split: option.split intro!: block_active [OF s i])

lemma sem_count_set_ok:
  assumes "sys_inv K"
  shows "sys_inv (fst (krhino_sem_count_set sem n K))"
    and "runs_next K \<Longrightarrow> runs_next (fst (krhino_sem_count_set sem n K))"
  using assms by (auto simp: krhino_sem_count_set_def Let_def split: option.split)

section \<open>No waiter while there is something to take\<close>

definition sem_ok :: "kernel \<Rightarrow> oid \<Rightarrow> bool" where
  "sem_ok K s \<longleftrightarrow> (blist K s \<noteq> [] \<longrightarrow> sem_count (sems K s) = 0)"

section \<open>The abstract semaphore\<close>

text \<open>A number of units and a queue of waiters. A unit handed to a waiter never shows up in the
  count.\<close>

record asem =
  units :: nat
  waiting :: "tid list"

definition sem_abs :: "kernel \<Rightarrow> oid \<Rightarrow> asem" where
  "sem_abs K s = \<lparr>units = unat (sem_count (sems K s)), waiting = blist K s\<rparr>"

fun asem_give :: "asem \<Rightarrow> asem" where
  "asem_give a = (case waiting a of [] \<Rightarrow> a\<lparr>units := units a + 1\<rparr> | t # ts \<Rightarrow> a\<lparr>waiting := ts\<rparr>)"

fun asem_give_all :: "asem \<Rightarrow> asem" where
  "asem_give_all a = (case waiting a of [] \<Rightarrow> a\<lparr>units := units a + 1\<rparr> | _ \<Rightarrow> a\<lparr>waiting := []\<rparr>)"

lemma core_sched_sel [simp]:
  "tasks (core_sched K) = tasks K" "blk_objs (core_sched K) = blk_objs K" "sems (core_sched K) = sems K"
  "g_tick_head (core_sched K) = g_tick_head K" "mutexes (core_sched K) = mutexes K"
  "events (core_sched K) = events K" "queues (core_sched K) = queues K"
  "buf_queues (core_sched K) = buf_queues K" "u8_mem (core_sched K) = u8_mem K"
  "g_kobj_list (core_sched K) = g_kobj_list K" "g_sched_lock (core_sched K) = g_sched_lock K"
  "g_intrpt_nested_level (core_sched K) = g_intrpt_nested_level K"
  "g_ready_queue (core_sched K) = g_ready_queue K" "g_idle_task (core_sched K) = g_idle_task K"
  "mm_freed (core_sched K) = mm_freed K" "u32_mem (core_sched K) = u32_mem K"
  "g_sys_stat (core_sched K) = g_sys_stat K" "cfg_mutex_inherit (core_sched K) = cfg_mutex_inherit K"
  by (auto simp: core_sched_def cpu_task_switch_def fault_def split: option.split)

lemma removeAll_hd: "distinct xs \<Longrightarrow> xs = t # ts \<Longrightarrow> removeAll t xs = ts"
  by auto

lemma kinv_distinct_blist: "kinvd d K \<Longrightarrow> distinct (blist K b)"
  using kinvD(4) by (auto simp: blk_inv_def)

lemma pend_to_blk_sel [simp]:
  "sems (pend_to_blk_obj b t n K) = sems K" "sems (pend_task_wakeup t K) = sems K"
  "sems (pend_task_rm t K) = sems K"
  using sched_frameD(7) [OF sched_frame_pend(3)] sched_frameD(7) [OF sched_frame_pend(1)]
    sched_frameD(7) [OF sched_frame_pend(2)] by auto

section \<open>Properties\<close>

text \<open>C9. Giving a semaphore refines the abstract operation: a successful give hands the unit to the
  first waiter, who leaves the queue, and only without waiters raises the count, by exactly one.\<close>

theorem sem_give_refines:
  assumes k: "kinv K" and t: "obj_type (blk_objs K s) = RHINO_SEM_OBJ_TYPE"
    and r: "snd (krhino_sem_give (Some s) K) = RHINO_SUCCESS"
  shows "sem_abs (fst (krhino_sem_give (Some s) K)) s = asem_give (sem_abs K s)"
proof (cases "blist K s")
  case Nil
  then have "sem_count (sems K s) \<noteq> - 1" using r t by (auto simp: krhino_sem_give_def sem_give_def split: if_splits)
  then have "unat (sem_count (sems K s) + 1) = unat (sem_count (sems K s)) + 1"
    by (metis Suc_eq_plus1 add.commute add_eq_0_iff unatSuc)
  with Nil t show ?thesis
    by (auto simp: krhino_sem_give_def sem_give_def Let_def sem_abs_def)
next
  case (Cons u us)
  then have p: "is_pend (tstate K u)" using kinv_blist_iff [OF k, of u s] by simp
  have "removeAll u (blist K s) = us" using kinv_distinct_blist [OF k, of s] Cons by (rule removeAll_hd)
  with Cons t show ?thesis
    by (simp add: krhino_sem_give_def sem_give_def sem_abs_def wakeup_view [OF p])
qed

lemma sem_give_refines_witness:
  "snd (krhino_sem_give (Some 5) demo) = RHINO_SUCCESS \<and>
   sem_abs (fst (krhino_sem_give (Some 5) demo)) 5 = asem_give (sem_abs demo 5)"
proof -
  have r: "snd (krhino_sem_give (Some 5) demo) = RHINO_SUCCESS"
    by (simp add: krhino_sem_give_def sem_give_def mk_blk_def)
  from sem_give_refines [OF sys_invD(1) [OF demo_sys_inv] _ r] r show ?thesis
    by (simp add: mk_blk_def)
qed

text \<open>C10. Giving to a semaphore with waiters readies the one with the highest priority, ahead of every
  other waiter of the same priority, with a wait that ended normally; the count is untouched and
  the other waiters keep waiting, in the same order.\<close>

theorem sem_give_wakes_best:
  assumes k: "kinv K" and t: "obj_type (blk_objs K s) = RHINO_SEM_OBJ_TYPE"
    and pol: "blk_policy (blk_objs K s) = BLK_POLICY_PRI" and w: "blist K s = t # ts"
  shows "let K' = fst (krhino_sem_give (Some s) K) in
    (\<forall>u\<in>set ts. tprio K t \<le> tprio K u) \<and> sems K' = sems K \<and> blist K' s = ts \<and>
    tstate K' t = woken (tstate K t) \<and> blk_state (tasks K' t) = BLK_FINISH \<and>
    t \<notin> set (g_tick_head K') \<and> (\<forall>u. u \<noteq> t \<longrightarrow> tasks K' u = tasks K u)"
proof -
  have p: "is_pend (tstate K t)" using kinv_blist_iff [OF k, of t s] w by simp
  have "sorted_by (\<lambda>t. tprio K t) (blist K s)" using kinvD(4) [OF k] pol by (auto simp: blk_inv_def)
  moreover have "removeAll t (blist K s) = ts" using kinv_distinct_blist [OF k, of s] w by (rule removeAll_hd)
  ultimately show ?thesis using t w
    by (simp add: Let_def krhino_sem_give_def sem_give_def wakeup_view [OF p])
qed

lemma sem_give_wakes_best_witness:
  "blist demo 5 = [3] \<and> tstate (fst (krhino_sem_give (Some 5) demo)) 3 = K_RDY"
  using sem_give_wakes_best [OF sys_invD(1) [OF demo_sys_inv], of 5 3 "[]"]
  by (simp add: mk_blk_def mk_task_def Let_def)

lemma sem_ok_ops:
  assumes s: "sys_inv K" and o: "sem_ok K s"
    and t: "obj_type (blk_objs K s) = RHINO_SEM_OBJ_TYPE"
  shows "sem_ok (fst (krhino_sem_give (Some s) K)) s \<and> sem_ok (fst (krhino_sem_give_all (Some s) K)) s \<and>
    sem_ok (fst (krhino_sem_take (Some s) ticks K)) s \<and> sem_ok (fst (krhino_sem_count_set (Some s) n K)) s \<and>
    sem_ok (fst (krhino_sem_del (Some s) K)) s"
proof -
  note k = sys_invD(1) [OF s]
  let ?T = "upd_blk s (\<lambda>o'. o'\<lparr>obj_type := RHINO_OBJ_TYPE_NONE\<rparr>) K"
  have "sem_ok (fst (sem_give s all K)) s" for all
  proof (cases "blist K s")
    case (Cons u us)
    then have p: "is_pend (tstate K u)" using kinv_blist_iff [OF k, of u s] by simp
    note w = wakeup.drain_ok(6) [OF k, of s, folded pend_wakeup_all_def]
    show ?thesis using Cons o t by (auto simp: sem_give_def sem_ok_def wakeup_view [OF p] w)
  qed (use t in \<open>auto simp: sem_give_def sem_ok_def Let_def\<close>)
  moreover have "sem_ok (fst (krhino_sem_take (Some s) ticks K)) s"
    using o by (auto simp: krhino_sem_take_def sem_ok_def word_gt_0)
  moreover have "sem_ok (fst (krhino_sem_count_set (Some s) n K)) s"
    using o by (auto simp: krhino_sem_count_set_def sem_ok_def Let_def word_gt_0)
  moreover have "blk_objs (pend_rm_all s ?T) s = (blk_objs ?T s)\<lparr>blk_list := []\<rparr>"
    using waitdel.drain_ok(6) [OF kinv_del_type [OF k], of s s] by (simp add: pend_rm_all_def)
  then have "sem_ok (fst (krhino_sem_del (Some s) K)) s"
    using o by (auto simp: krhino_sem_del_def sem_ok_def Let_def)
  ultimately show ?thesis by (simp add: krhino_sem_give_def krhino_sem_give_all_def)
qed

text \<open>While a semaphore has waiters its count is zero: no operation on it leaves a task waiting
  next to a unit it could take.\<close>

theorem sem_ok_preserved:
  assumes s: "sys_inv K" and o: "sem_ok K s"
    and t: "obj_type (blk_objs K s) = RHINO_SEM_OBJ_TYPE"
  shows "sem_ok (fst (krhino_sem_give (Some s) K)) s \<and> sem_ok (fst (krhino_sem_give_all (Some s) K)) s \<and>
    sem_ok (fst (krhino_sem_take (Some s) ticks K)) s \<and> sem_ok (fst (krhino_sem_count_set (Some s) n K)) s \<and>
    sem_ok (fst (krhino_sem_del (Some s) K)) s"
  by (rule sem_ok_ops [OF assms])

lemma sem_ok_preserved_witness:
  "sem_ok demo 5 \<and> sem_ok (fst (krhino_sem_take (Some 5) 3 demo)) 5"
  using sem_ok_preserved [OF demo_sys_inv, of 5 3 0] by (simp add: sem_ok_def mk_blk_def demo_def)

end
