(* ===== verification/KMutex.thy ===== *)
theory KMutex
  imports KSem
begin

text \<open>
  Mutexes (\<^verbatim>\<open>k_mutex.c\<close>): recursive ownership, direct hand-over to the first waiter, and with
  \<^verbatim>\<open>RHINO_CONFIG_MUTEX_INHERIT\<close> the list of held mutexes through which an owner inherits priorities.
  The priority computations are in \<^theory_text>\<open>KPri\<close>.
\<close>

section \<open>Operations\<close>

definition kmutex_zero :: kmutex_t where
  "kmutex_zero = \<lparr>mutex_task = None, mutex_next = None, owner_nested = 0, mutex_alloc_flag = K_OBJ_NONE_ALLOC\<rparr>"

definition mutex_create :: "oid option \<Rightarrow> string option \<Rightarrow> alloc_flag_t \<Rightarrow> kernel \<Rightarrow> kernel \<times> kstat_t" where
  "mutex_create mutex name mm_alloc_flag K =
     (case (mutex, name) of
        (Some m, Some nm) \<Rightarrow>
          let K = upd_blk m (\<lambda>_. blk_obj_zero) K;
              K = upd_mutex m (\<lambda>_. kmutex_zero) K;
              K = upd_blk m (\<lambda>b. b\<lparr>blk_policy := BLK_POLICY_PRI, obj_name := nm\<rparr>) K;
              K = upd_mutex m (\<lambda>r. r\<lparr>mutex_task := None, mutex_next := None, mutex_alloc_flag := mm_alloc_flag\<rparr>) K;
              K = upd_blk m (\<lambda>b. b\<lparr>obj_cancel := False\<rparr>) K;
              K = upd_kobj (\<lambda>l. l\<lparr>mutex_head := mutex_head l @ [m]\<rparr>) K;
              K = upd_blk m (\<lambda>b. b\<lparr>obj_type := RHINO_MUTEX_OBJ_TYPE\<rparr>) K
          in (K, RHINO_SUCCESS)
      | _ \<Rightarrow> (K, RHINO_NULL_PTR))"

definition krhino_mutex_create :: "oid option \<Rightarrow> string option \<Rightarrow> kernel \<Rightarrow> kernel \<times> kstat_t" where
  "krhino_mutex_create mutex name K = mutex_create mutex name K_OBJ_STATIC_ALLOC K"

definition krhino_mutex_del :: "oid option \<Rightarrow> kernel \<Rightarrow> kernel \<times> kstat_t" where
  "krhino_mutex_del mutex K =
     (case mutex of
        None \<Rightarrow> (K, RHINO_NULL_PTR)
      | Some m \<Rightarrow>
          if g_intrpt_nested_level K > 0 then (K, RHINO_NOT_CALLED_BY_INTRPT)
          else if obj_type (blk_objs K m) \<noteq> RHINO_MUTEX_OBJ_TYPE then (K, RHINO_KOBJ_TYPE_ERR)
          else if mutex_alloc_flag (mutexes K m) \<noteq> K_OBJ_STATIC_ALLOC then (K, RHINO_KOBJ_DEL_ERR)
          else
            let K = upd_blk m (\<lambda>b. b\<lparr>obj_type := RHINO_OBJ_TYPE_NONE\<rparr>) K;
                K = (case mutex_task (mutexes K m) of
                       None \<Rightarrow> K | Some owner \<Rightarrow> mutex_release owner (Some m) K);
                K = pend_rm_all m K;
                K = upd_kobj (\<lambda>l. l\<lparr>mutex_head := removeAll m (mutex_head l)\<rparr>) K
            in (core_sched K, RHINO_SUCCESS))"

definition krhino_mutex_dyn_create ::
  "nat option \<Rightarrow> string option \<Rightarrow> oid option \<Rightarrow> kernel \<Rightarrow> kernel \<times> kstat_t \<times> oid option" where
  "krhino_mutex_dyn_create mutex_out name mutex_obj K =
     (case mutex_out of
        None \<Rightarrow> (K, RHINO_NULL_PTR, None)
      | Some _ \<Rightarrow>
          case mutex_obj of
            None \<Rightarrow> (K, RHINO_NO_MEM, None)
          | Some m \<Rightarrow>
              let (K, stat) = mutex_create (Some m) name K_OBJ_DYN_ALLOC K
              in if stat \<noteq> RHINO_SUCCESS then (K\<lparr>mm_freed := mm_freed K @ [m]\<rparr>, stat, None)
                 else (K, stat, Some m))"

definition krhino_mutex_dyn_del :: "oid option \<Rightarrow> kernel \<Rightarrow> kernel \<times> kstat_t" where
  "krhino_mutex_dyn_del mutex K =
     (case mutex of
        None \<Rightarrow> (K, RHINO_NULL_PTR)
      | Some m \<Rightarrow>
          if g_intrpt_nested_level K > 0 then (K, RHINO_NOT_CALLED_BY_INTRPT)
          else if obj_type (blk_objs K m) \<noteq> RHINO_MUTEX_OBJ_TYPE then (K, RHINO_KOBJ_TYPE_ERR)
          else if mutex_alloc_flag (mutexes K m) \<noteq> K_OBJ_DYN_ALLOC then (K, RHINO_KOBJ_DEL_ERR)
          else
            let K = upd_blk m (\<lambda>b. b\<lparr>obj_type := RHINO_OBJ_TYPE_NONE\<rparr>) K;
                K = (case mutex_task (mutexes K m) of
                       None \<Rightarrow> K | Some owner \<Rightarrow> mutex_release owner (Some m) K);
                K = pend_rm_all m K;
                K = upd_kobj (\<lambda>l. l\<lparr>mutex_head := removeAll m (mutex_head l)\<rparr>) K;
                K = core_sched K
            in (K\<lparr>mm_freed := mm_freed K @ [m]\<rparr>, RHINO_SUCCESS))"

text \<open>A task becomes the owner: the statements common to the lock and the hand-over.\<close>

definition mutex_grant :: "tid \<Rightarrow> oid \<Rightarrow> kernel \<Rightarrow> kernel" where
  "mutex_grant t m K =
     (let K = upd_mutex m (\<lambda>r. r\<lparr>mutex_task := Some t\<rparr>) K;
          K = (if cfg_mutex_inherit K
               then upd_task t (\<lambda>r. r\<lparr>mutex_ptr := Some m\<rparr>)
                 (upd_mutex m (\<lambda>r. r\<lparr>mutex_next := mutex_ptr (tasks K t)\<rparr>) K)
               else K)
      in upd_mutex m (\<lambda>r. r\<lparr>owner_nested := 1\<rparr>) K)"

definition krhino_mutex_lock :: "oid option \<Rightarrow> tick_t \<Rightarrow> kernel \<Rightarrow> kernel \<times> outcome" where
  "krhino_mutex_lock mutex ticks K =
     (case mutex of
        None \<Rightarrow> (K, Ret RHINO_NULL_PTR)
      | Some m \<Rightarrow>
          let t = g_active_task K
          in if g_sys_stat K = RHINO_STOPPED then (K, Ret RHINO_SUCCESS)
          else if cancel (tasks K t) \<and> obj_cancel (blk_objs K m) then (K, Ret RHINO_TASK_CANCELED)
          else if g_intrpt_nested_level K > 0 then (K, Ret RHINO_NOT_CALLED_BY_INTRPT)
          else if obj_type (blk_objs K m) \<noteq> RHINO_MUTEX_OBJ_TYPE then (K, Ret RHINO_KOBJ_TYPE_ERR)
          else if mutex_task (mutexes K m) = Some t then
            (if owner_nested (mutexes K m) = - 1
             then (k_err_proc RHINO_MUTEX_NESTED_OVF K, Ret RHINO_MUTEX_NESTED_OVF)
             else (upd_mutex m (\<lambda>r. r\<lparr>owner_nested := owner_nested r + 1\<rparr>) K, Ret RHINO_MUTEX_OWNER_NESTED))
          else case mutex_task (mutexes K m) of
            None \<Rightarrow> (mutex_grant t m K, Ret RHINO_SUCCESS)
          | Some owner \<Rightarrow>
              if ticks = RHINO_NO_WAIT then (K, Ret RHINO_NO_PEND_WAIT)
              else if g_sched_lock K > 0 then (K, Ret RHINO_SCHED_DISABLE)
              else
                let K = (if cfg_mutex_inherit K \<and> tprio K t < tprio K owner
                         then fst (task_pri_change owner (tprio K t) K) else K);
                    K = pend_to_blk_obj m t ticks K
                in (core_sched K, Block))"

definition krhino_mutex_lock_resume :: "oid \<Rightarrow> kernel \<Rightarrow> kernel \<times> kstat_t" where
  "krhino_mutex_lock_resume m K = pend_state_end_proc (g_active_task K) (Some m) K"

definition krhino_mutex_unlock :: "oid option \<Rightarrow> kernel \<Rightarrow> kernel \<times> kstat_t" where
  "krhino_mutex_unlock mutex K =
     (case mutex of
        None \<Rightarrow> (K, RHINO_NULL_PTR)
      | Some m \<Rightarrow>
          let me = g_active_task K
          in if g_sys_stat K = RHINO_STOPPED then (K, RHINO_SUCCESS)
          else if g_intrpt_nested_level K > 0 then (K, RHINO_NOT_CALLED_BY_INTRPT)
          else if obj_type (blk_objs K m) \<noteq> RHINO_MUTEX_OBJ_TYPE then (K, RHINO_KOBJ_TYPE_ERR)
          else if mutex_task (mutexes K m) \<noteq> Some me then (K, RHINO_MUTEX_NOT_RELEASED_BY_OWNER)
          else
            let K = upd_mutex m (\<lambda>r. r\<lparr>owner_nested := owner_nested r - 1\<rparr>) K
            in if owner_nested (mutexes K m) > 0 then (K, RHINO_MUTEX_OWNER_NESTED)
               else
                 let K = mutex_release me (Some m) K
                 in case blist K m of
                      [] \<Rightarrow> (upd_mutex m (\<lambda>r. r\<lparr>mutex_task := None\<rparr>) K, RHINO_SUCCESS)
                    | t # _ \<Rightarrow>
                        let K = pend_task_wakeup t K;
                            K = mutex_grant t m K
                        in (core_sched K, RHINO_SUCCESS))"

section \<open>The invariant is kept\<close>

lemma upd_mutex_glob [simp]:
  "g_active_task (upd_mutex m f K) = g_active_task K" "g_sched_lock (upd_mutex m f K) = g_sched_lock K"
  "g_intrpt_nested_level (upd_mutex m f K) = g_intrpt_nested_level K"
  "g_idle_task (upd_mutex m f K) = g_idle_task K" "g_kobj_list (upd_mutex m f K) = g_kobj_list K"
  "cfg_mutex_inherit (upd_mutex m f K) = cfg_mutex_inherit K" "g_sys_stat (upd_mutex m f K) = g_sys_stat K"
  "g_tick_count (upd_mutex m f K) = g_tick_count K"
  by (simp_all add: upd_mutex_def)

lemma kinv_upd_mutex:
  assumes k: "kinvd d K" and i: "mutex_task (f (mutexes K m)) \<noteq> Some (g_idle_task K)"
    and n: "mutex_task (f (mutexes K m)) = None \<Longrightarrow> obj_type (blk_objs K m) = RHINO_MUTEX_OBJ_TYPE \<Longrightarrow> blist K m = []"
  shows "kinvd d (upd_mutex m f K)"
proof -
  have "tick_left (upd_mutex m f K) = tick_left K" by (simp add: tick_left_def fun_eq_iff)
  moreover have "mutex_inv (upd_mutex m f K)" using kinvD(9) [OF k] i n by (auto simp: mutex_inv_def)
  ultimately show ?thesis
    using k by (simp add: kinvd_def blk_inv_def tick_inv_def placed_def idle_ok_def reg_inv_def)
qed

lemma sys_upd_mutex:
  assumes "sys_inv K" and "mutex_task (f (mutexes K m)) \<noteq> Some (g_idle_task K)"
    and "mutex_task (f (mutexes K m)) = None \<Longrightarrow> obj_type (blk_objs K m) = RHINO_MUTEX_OBJ_TYPE \<Longrightarrow> blist K m = []"
  shows "sys_inv (upd_mutex m f K)"
  using assms kinv_upd_mutex [of 1 K f m] by (simp add: sys_inv_def act_rdy_def)

text \<open>A change of priorities leaves the system invariant alone.\<close>

lemma sys_prio:
  assumes s: "sys_inv K" and k: "kinv K'" and p: "prio_frame K K'" and f: "g_fault K' = g_fault K"
  shows "sys_inv K'"
  using sys_invD [OF s] k f sched_frameD [OF prio_frame_glob(2) [OF p]] prio_frame_task(1) [OF p]
  by (simp add: sys_inv_def act_rdy_def)

lemma sys_mutex_release:
  assumes s: "sys_inv K" and t: "t \<noteq> g_idle_task K" shows "sys_inv (mutex_release t rel K)"
  using mutex_release_ok [OF sys_invD(1) [OF s] t] by (intro sys_prio [OF s]) auto

lemma sys_owner: "sys_inv K \<Longrightarrow> mutex_task (mutexes K m) = Some w \<Longrightarrow> w \<noteq> g_idle_task K"
  using kinvD(9) [OF sys_invD(1)] unfolding mutex_inv_def by blast

lemma mutex_create_ok:
  assumes s: "sys_inv K" and e: "\<And>m. mutex = Some m \<Longrightarrow> blist K m = []"
  shows "sys_inv (fst (mutex_create mutex name fl K))"
    and "runs_next K \<Longrightarrow> runs_next (fst (mutex_create mutex name fl K))"
proof -
  show "sys_inv (fst (mutex_create mutex name fl K))"
  proof (cases "mutex = None \<or> name = None")
    case False
    then obtain m nm where m: "mutex = Some m" "name = Some nm" by auto
    have b: "blist K m = []" by (rule e [OF m(1)])
    let ?A = "upd_blk m (\<lambda>_. blk_obj_zero) K"
    have A: "sys_inv ?A" "blist ?A m = []" "obj_type (blk_objs ?A m) = RHINO_OBJ_TYPE_NONE"
      using b by (auto simp: blk_obj_zero_def intro!: sys_upd_blk [OF s])
    let ?B = "upd_mutex m (\<lambda>_. kmutex_zero) ?A"
    have B: "sys_inv ?B" using A by (auto simp: kmutex_zero_def intro!: sys_upd_mutex)
    let ?C = "upd_blk m (\<lambda>b. b\<lparr>blk_policy := BLK_POLICY_PRI, obj_name := nm\<rparr>) ?B"
    have C: "sys_inv ?C" by (rule sys_upd_blk [OF B]) (simp_all add: blk_obj_zero_def)
    let ?D = "upd_mutex m (\<lambda>r. r\<lparr>mutex_task := None, mutex_next := None, mutex_alloc_flag := fl\<rparr>) ?C"
    have D: "sys_inv ?D" by (rule sys_upd_mutex [OF C]) (simp_all add: blk_obj_zero_def)
    let ?E = "upd_blk m (\<lambda>b. b\<lparr>obj_cancel := False\<rparr>) ?D"
    have E: "sys_inv ?E" by (rule sys_upd_blk [OF D]) (simp_all add: blk_obj_zero_def)
    let ?F = "upd_kobj (\<lambda>l. l\<lparr>mutex_head := mutex_head l @ [m]\<rparr>) ?E"
    have F: "sys_inv ?F" by (rule sys_kobj [OF E]) simp
    have "sys_inv (upd_blk m (\<lambda>b. b\<lparr>obj_type := RHINO_MUTEX_OBJ_TYPE\<rparr>) ?F)"
      by (rule sys_upd_blk [OF F]) (simp_all add: blk_obj_zero_def)
    then show ?thesis by (simp add: mutex_create_def m Let_def)
  qed (use s in \<open>auto simp: mutex_create_def split: option.split\<close>)
  show "runs_next K \<Longrightarrow> runs_next (fst (mutex_create mutex name fl K))"
    by (auto simp: mutex_create_def Let_def split: option.split)
qed

lemma mutex_del_body:
  fixes m :: oid
  assumes s: "sys_inv K"
  defines "A \<equiv> upd_blk m (\<lambda>b. b\<lparr>obj_type := RHINO_OBJ_TYPE_NONE\<rparr>) K"
  defines "B \<equiv> (case mutex_task (mutexes A m) of None \<Rightarrow> A | Some owner \<Rightarrow> mutex_release owner (Some m) A)"
  defines "C \<equiv> core_sched (upd_kobj (\<lambda>l. l\<lparr>mutex_head := removeAll m (mutex_head l)\<rparr>) (pend_rm_all m B))"
  shows "sys_inv C" "runs_next C"
proof -
  have A: "sys_inv A" unfolding A_def by (rule sys_upd_blk [OF s]) auto
  have B: "sys_inv B"
    unfolding B_def using A sys_mutex_release [OF A sys_owner [OF A, of m]] by (auto split: option.split)
  let ?D = "upd_kobj (\<lambda>l. l\<lparr>mutex_head := removeAll m (mutex_head l)\<rparr>) (pend_rm_all m B)"
  note d = waitdel.drain_ok [OF sys_invD(1) [OF B], of m, folded pend_rm_all_def]
  have k: "kinv ?D" by (rule kinv_kobj [OF d(1)]) simp
  have r: "tstate ?D t = K_RDY" if "tstate B t = K_RDY" for t
    using waitdel.drain_ready [OF sys_invD(1) [OF B] that] by (simp add: pend_rm_all_def)
  have "mode_frame B ?D" using mode_frame_sched [OF d(3)] by simp
  moreover have "g_fault ?D = g_fault B" using d(2) by simp
  ultimately show "sys_inv C" "runs_next C"
    unfolding C_def using r by (auto intro!: finish_sched [OF B k])
qed

lemma mutex_del_ok:
  assumes s: "sys_inv K"
  shows "sys_inv (fst (krhino_mutex_del mutex K))" "runs_next K \<Longrightarrow> runs_next (fst (krhino_mutex_del mutex K))"
    "sys_inv (fst (krhino_mutex_dyn_del mutex K))" "runs_next K \<Longrightarrow> runs_next (fst (krhino_mutex_dyn_del mutex K))"
  using s mutex_del_body [OF s]
  by (auto simp: krhino_mutex_del_def krhino_mutex_dyn_del_def Let_def split: option.split)

lemma kinv_grant:
  assumes k: "kinvd d K" and t: "t \<noteq> g_idle_task K" and m: "mutex_inv K"
  shows "kinvd d (mutex_grant t m K)"
proof -
  have w: "mutex_task (mutexes K c) \<noteq> Some (g_idle_task K)" for c using m by (auto simp: mutex_inv_def)
  let ?A = "upd_mutex m (\<lambda>r. r\<lparr>mutex_task := Some t\<rparr>) K"
  have A: "kinvd d ?A" by (rule kinv_upd_mutex [OF k]) (use t in auto)
  let ?B = "upd_mutex m (\<lambda>r. r\<lparr>mutex_next := mutex_ptr (tasks ?A t)\<rparr>) ?A"
  have "kinvd d ?B" by (rule kinv_upd_mutex [OF A]) (use t in auto)
  then have "kinvd d (upd_task t (\<lambda>r. r\<lparr>mutex_ptr := Some m\<rparr>) ?B)" by (rule kinv_upd_aux) simp_all
  with A show ?thesis unfolding mutex_grant_def Let_def
    by (cases "cfg_mutex_inherit K") (auto intro!: kinv_upd_mutex simp: t)
qed

lemma mutex_grant_view [simp]:
  "blk_objs (mutex_grant t m K) = blk_objs K" "g_ready_queue (mutex_grant t m K) = g_ready_queue K"
  "tstate (mutex_grant t m K) u = tstate K u" "g_fault (mutex_grant t m K) = g_fault K"
  "tprio (mutex_grant t m K) u = tprio K u" "g_tick_head (mutex_grant t m K) = g_tick_head K"
  "mutex_task (mutexes (mutex_grant t m K) m) = Some t" "owner_nested (mutexes (mutex_grant t m K) m) = 1"
  by (auto simp: mutex_grant_def Let_def)

lemma mode_frame_grant [simp]: "mode_frame A (mutex_grant t m K) \<longleftrightarrow> mode_frame A K"
  by (simp add: mutex_grant_def Let_def mode_frame_def)

lemma sys_grant:
  assumes s: "sys_inv K" and t: "t \<noteq> g_idle_task K" shows "sys_inv (mutex_grant t m K)"
proof -
  note k = sys_invD(1) [OF s]
  have "mode_frame K (mutex_grant t m K)" by simp
  with finish_plain [OF s kinv_grant [OF k t kinvD(9) [OF k]]] show ?thesis by simp
qed

lemma mutex_lock_ok:
  assumes s: "sys_inv K" and i: "g_active_task K \<noteq> g_idle_task K"
  shows "sys_inv (fst (krhino_mutex_lock mutex ticks K))"
    and "runs_next K \<Longrightarrow> runs_next (fst (krhino_mutex_lock mutex ticks K))"
proof -
  let ?t = "g_active_task K"
  have e: "sys_inv (k_err_proc x K)" for x
    using s by (simp add: sys_inv_def act_rdy_def kinvd_def placed_def idle_ok_def reg_inv_def mutex_inv_def)
  have block: "sys_inv (core_sched (pend_to_blk_obj m ?t ticks K1)) \<and> runs_next (core_sched (pend_to_blk_obj m ?t ticks K1))"
    if K1: "sys_inv K1" "prio_frame K K1" and c: "g_intrpt_nested_level K = 0" "g_sched_lock K = 0"
      "ticks \<noteq> 0" "mutex_task (mutexes K m) = Some w" for K1 m w
    using block_active [OF K1(1), of ticks m] c i sched_frameD [OF prio_frame_glob(2) [OF K1(2)]]
    by (simp add: prio_frame_blk [OF K1(2)])
  have raise: "sys_inv (fst (task_pri_change w (tprio K ?t) K)) \<and> prio_frame K (fst (task_pri_change w (tprio K ?t) K))"
    if c: "g_intrpt_nested_level K = 0" "mutex_task (mutexes K m) = Some w" for m w
  proof -
    have "tprio K ?t < 62" using kinv_prio(1) [OF sys_invD(1) [OF s], of ?t] sys_invD(4) [OF s c(1)] by simp
    from task_pri_change_ok [OF sys_invD(1) [OF s] sys_owner [OF s c(2)] this] show ?thesis
      using sys_prio [OF s] by blast
  qed
  have nest: "sys_inv (upd_mutex m (\<lambda>r. r\<lparr>owner_nested := owner_nested r + 1\<rparr>) K)"
    if "mutex_task (mutexes K m) = Some ?t" for m using s i that by (auto intro!: sys_upd_mutex)
  have "sys_inv (fst (krhino_mutex_lock mutex ticks K)) \<and>
    (runs_next K \<longrightarrow> runs_next (fst (krhino_mutex_lock mutex ticks K)))"
  proof (cases mutex)
    case (Some m)
    show ?thesis
    proof (cases "mutex_task (mutexes K m)")
      case None
      then show ?thesis using s sys_grant [OF s i, of m] runs_next_same [of K "mutex_grant ?t m K"]
        by (auto simp: krhino_mutex_lock_def Some Let_def)
    next
      case (Some w)
      define R where "R = fst (krhino_mutex_lock (Some m) ticks K)"
      let ?P = "fst (task_pri_change w (tprio K ?t) K)"
      let ?B = "\<lambda>K1. core_sched (pend_to_blk_obj m ?t ticks K1)"
      let ?g = "g_sys_stat K = RHINO_STOPPED \<or> cancel (tasks K ?t) \<and> obj_cancel (blk_objs K m) \<or>
        g_intrpt_nested_level K > 0 \<or> obj_type (blk_objs K m) \<noteq> RHINO_MUTEX_OBJ_TYPE"
      have "R = K \<or> R = k_err_proc RHINO_MUTEX_NESTED_OVF K \<or>
          R = upd_mutex m (\<lambda>r. r\<lparr>owner_nested := owner_nested r + 1\<rparr>) K \<and> w = ?t \<or>
          (R = ?B K \<or> R = ?B ?P) \<and>
          g_intrpt_nested_level K = 0 \<and> g_sched_lock K = 0 \<and> ticks \<noteq> 0"
      proof (cases ?g)
        case True
        then have "R = K" unfolding R_def krhino_mutex_lock_def Let_def by (elim disjE) simp_all
        then show ?thesis by simp
      next
        case g: False
        show ?thesis
        proof (cases "w = ?t")
          case True
          with g Some show ?thesis unfolding R_def krhino_mutex_lock_def Let_def
            by (cases "owner_nested (mutexes K m) = - 1") simp_all
        next
          case False
          with g Some show ?thesis unfolding R_def krhino_mutex_lock_def Let_def
            by (cases "ticks = 0"; cases "g_sched_lock K > 0")
              (simp_all add: RHINO_NO_WAIT_def word_gt_0)
        qed
      qed
      then consider "R = K" | "R = k_err_proc RHINO_MUTEX_NESTED_OVF K"
        | "R = upd_mutex m (\<lambda>r. r\<lparr>owner_nested := owner_nested r + 1\<rparr>) K" "w = ?t"
        | K1 where "R = ?B K1" "K1 = K \<or> K1 = ?P"
          "g_intrpt_nested_level K = 0" "g_sched_lock K = 0" "ticks \<noteq> 0"
        by blast
      then have "sys_inv R \<and> (runs_next K \<longrightarrow> runs_next R)"
      proof cases
        case 1
        with s show ?thesis by simp
      next
        case 2
        with e show ?thesis by (simp add: runs_next_def is_next_def)
      next
        case 3
        with Some nest [of m] show ?thesis by simp
      next
        case 4
        then have "sys_inv K1 \<and> prio_frame K K1" using s raise [OF 4(3) Some] by auto
        with 4 Some block [of K1 m w] show ?thesis by simp
      qed
      then show ?thesis by (simp add: \<open>mutex = Some m\<close> R_def)
    qed
  qed (use s in \<open>simp add: krhino_mutex_lock_def\<close>)
  then show "sys_inv (fst (krhino_mutex_lock mutex ticks K))"
    "runs_next K \<Longrightarrow> runs_next (fst (krhino_mutex_lock mutex ticks K))" by auto
qed


text \<open>Unlocking. Without a waiter the call returns without rescheduling, so the released priority
  must not have been the reason for running; the hypothesis names this case.\<close>

definition keeps_prio :: "kernel \<Rightarrow> oid \<Rightarrow> bool" where
  "keeps_prio K m \<longleftrightarrow>
     snd (mutex_pri_look (g_active_task K) (Some m)
       (upd_mutex m (\<lambda>r. r\<lparr>owner_nested := owner_nested r - 1\<rparr>) K)) = tprio K (g_active_task K)"

lemma pri_look_walk_rq:
  "g_ready_queue (fst (pri_look_walk t rel prev ms n p K)) = g_ready_queue K"
proof (induction ms arbitrary: prev n p K)
  case (Cons m ms)
  have "g_ready_queue (set_prev_link t prev x K) = g_ready_queue K" for x
    by (auto simp: set_prev_link_def split: option.split)
  with Cons show ?case by (auto simp: Let_def)
qed simp

lemma mutex_pri_look_rq: "g_ready_queue (fst (mutex_pri_look t rel K)) = g_ready_queue K"
  by (simp add: mutex_pri_look_def pri_look_walk_rq)

lemma pri_look_walk_prio: "tprio (fst (pri_look_walk t rel prev ms n p K)) u = tprio K u"
proof (induction ms arbitrary: prev n p K)
  case (Cons m ms)
  have "tprio (set_prev_link t prev x K) u = tprio K u" for x
    by (auto simp: set_prev_link_def split: option.split)
  with Cons show ?case by (auto simp: Let_def)
qed simp

lemma mutex_unlock_ok:
  assumes s: "sys_inv K" and i: "g_active_task K \<noteq> g_idle_task K"
  shows "sys_inv (fst (krhino_mutex_unlock mutex K))"
    and "runs_next K \<Longrightarrow> (\<And>m. mutex = Some m \<Longrightarrow> blist K m = [] \<Longrightarrow> keeps_prio K m) \<Longrightarrow>
      runs_next (fst (krhino_mutex_unlock mutex K))"
proof -
  let ?me = "g_active_task K"
  have main: "sys_inv (fst (krhino_mutex_unlock (Some m) K)) \<and>
      (runs_next K \<longrightarrow> (blist K m = [] \<longrightarrow> keeps_prio K m) \<longrightarrow> runs_next (fst (krhino_mutex_unlock (Some m) K)))" for m
  proof (cases "g_sys_stat K = RHINO_STOPPED \<or> g_intrpt_nested_level K > 0 \<or>
      obj_type (blk_objs K m) \<noteq> RHINO_MUTEX_OBJ_TYPE \<or> mutex_task (mutexes K m) \<noteq> Some ?me")
    case True
    with s show ?thesis by (auto simp: krhino_mutex_unlock_def Let_def)
  next
    case False
    let ?A = "upd_mutex m (\<lambda>r. r\<lparr>owner_nested := owner_nested r - 1\<rparr>) K"
    let ?B = "mutex_release ?me (Some m) ?A"
    have A: "sys_inv ?A" using s i False by (auto intro!: sys_upd_mutex)
    have iA: "g_active_task K \<noteq> g_idle_task ?A" using i by simp
    have B: "sys_inv ?B" by (rule sys_mutex_release [OF A iA])
    have pf: "prio_frame ?A ?B" using mutex_release_ok [OF sys_invD(1) [OF A] iA, of "Some m"] by simp
    have empty: "blist ?B m = [] \<longleftrightarrow> blist K m = []" using prio_frame_empty [OF pf, of m] by simp
    have n1: "sys_inv (upd_mutex m (\<lambda>r. r\<lparr>mutex_task := None\<rparr>) ?B)" if "blist ?B m = []"
      using that by (intro sys_upd_mutex [OF B]) auto
    have n2: "runs_next ?B" if r: "runs_next K" and kp: "keeps_prio K m"
    proof -
      have "?B = fst (mutex_pri_look ?me (Some m) ?A)"
      proof -
        obtain K1 p where look: "mutex_pri_look ?me (Some m) ?A = (K1, p)"
          by (cases "mutex_pri_look ?me (Some m) ?A")
        have "tprio (fst (mutex_pri_look ?me (Some m) ?A)) ?me = tprio ?A ?me"
          using pri_look_walk_prio by (simp add: mutex_pri_look_def)
        then have "tprio K1 ?me = p" using kp look by (simp add: keeps_prio_def)
        then show ?thesis by (simp add: mutex_release_def look)
      qed
      then have "g_ready_queue ?B = g_ready_queue K" by (simp add: mutex_pri_look_rq)
      moreover have "mode_frame K ?B"
        using mode_frame_trans [OF _ mode_frame_sched [OF prio_frame_glob(2) [OF pf]], of K] by simp
      ultimately show ?thesis by (intro runs_next_same [OF r]) simp_all
    qed
    have n3: "sys_inv (core_sched (mutex_grant t m (pend_task_wakeup t ?B))) \<and>
        runs_next (core_sched (mutex_grant t m (pend_task_wakeup t ?B)))" if "blist ?B m = t # ts" for t ts
    proof -
      have t: "t \<in> set (blist ?B m)" using that by simp
      note one = wakeup.end_one [OF sys_invD(1) [OF B] t]
      have "t \<noteq> g_idle_task ?B" using kinv_idle_state [OF sys_invD(1) [OF B], of t] one(2) by auto
      then have "t \<noteq> g_idle_task (pend_task_wakeup t ?B)"
        by (simp add: sched_frameD(5) [OF sched_frame_pend(1)])
      then have k: "kinv (mutex_grant t m (pend_task_wakeup t ?B))"
        by (intro kinv_grant one(1) kinvD(9) [OF one(1)])
      have "mode_frame ?B (mutex_grant t m (pend_task_wakeup t ?B))"
        using mode_frame_sched [OF sched_frame_pend(1)] by simp
      from finish_sched [OF B k _ this] one show ?thesis by simp
    qed
    consider
        "fst (krhino_mutex_unlock (Some m) K) = ?A"
      | "blist ?B m = []" "fst (krhino_mutex_unlock (Some m) K) = upd_mutex m (\<lambda>r. r\<lparr>mutex_task := None\<rparr>) ?B"
      | t ts where "blist ?B m = t # ts"
          "fst (krhino_mutex_unlock (Some m) K) = core_sched (mutex_grant t m (pend_task_wakeup t ?B))"
    proof (cases "owner_nested (mutexes ?A m) > 0")
      case True
      with False that(1) show ?thesis by (simp add: krhino_mutex_unlock_def Let_def)
    next
      case n: False
      show ?thesis
      proof (cases "blist ?B m")
        case Nil
        with False n that(2) show ?thesis by (simp add: krhino_mutex_unlock_def Let_def)
      next
        case (Cons t ts)
        with False n that(3) show ?thesis by (simp add: krhino_mutex_unlock_def Let_def)
      qed
    qed
    then show ?thesis
    proof cases
      case 1
      with A show ?thesis by simp
    next
      case 2
      with n1 n2 empty show ?thesis by simp
    next
      case 3
      with n3 [OF 3(1)] show ?thesis by simp
    qed
  qed
  then show "sys_inv (fst (krhino_mutex_unlock mutex K))" using s
    by (cases mutex) (auto simp: krhino_mutex_unlock_def)
  show "runs_next K \<Longrightarrow> (\<And>m. mutex = Some m \<Longrightarrow> blist K m = [] \<Longrightarrow> keeps_prio K m) \<Longrightarrow>
      runs_next (fst (krhino_mutex_unlock mutex K))"
    using main by (cases mutex) (auto simp: krhino_mutex_unlock_def)
qed

section \<open>What the operations do to owners and waiters\<close>

lemma set_prev_link_view [simp]:
  "blk_objs (set_prev_link t prev x K) = blk_objs K" "tstate (set_prev_link t prev x K) v = tstate K v"
  "u \<noteq> t \<Longrightarrow> tasks (set_prev_link t prev x K) u = tasks K u"
  by (auto simp: set_prev_link_def split: option.split)

lemma pri_look_walk_view [simp]:
  "blk_objs (fst (pri_look_walk t rel prev ms n p K)) = blk_objs K"
  "tstate (fst (pri_look_walk t rel prev ms n p K)) v = tstate K v"
  "u \<noteq> t \<Longrightarrow> tasks (fst (pri_look_walk t rel prev ms n p K)) u = tasks K u"
  by (induction ms arbitrary: prev n p K) (auto simp: Let_def)

lemma mutex_pri_look_view [simp]:
  "blk_objs (fst (mutex_pri_look t rel K)) = blk_objs K"
  "tstate (fst (mutex_pri_look t rel K)) v = tstate K v"
  "u \<noteq> t \<Longrightarrow> tasks (fst (mutex_pri_look t rel K)) u = tasks K u"
  by (auto simp: mutex_pri_look_def)

text \<open>A ready task waits for nothing, so its own change of priority moves nobody in a wait list.\<close>

lemma pri_change_ready_view:
  assumes "tstate K t = K_RDY"
  shows "blk_objs (fst (task_pri_change t p K)) = blk_objs K"
    and "u \<noteq> t \<Longrightarrow> tasks (fst (task_pri_change t p K)) u = tasks K u"
  using assms by (auto simp: task_pri_change_def pri_fuel_def task_pri_step_def Let_def)

lemma release_ready_view:
  assumes "tstate K t = K_RDY"
  shows "blk_objs (mutex_release t rel K) = blk_objs K"
    and "u \<noteq> t \<Longrightarrow> tasks (mutex_release t rel K) u = tasks K u"
proof -
  let ?K = "fst (mutex_pri_look t rel K)"
  have "tstate ?K t = K_RDY" using assms by simp
  from pri_change_ready_view [OF this] show "blk_objs (mutex_release t rel K) = blk_objs K"
    and "u \<noteq> t \<Longrightarrow> tasks (mutex_release t rel K) u = tasks K u"
    by (auto simp: mutex_release_def split_beta Let_def)
qed

section \<open>Properties\<close>

text \<open>C6. The last unlock hands the mutex over directly: the first waiter, the most urgent one, becomes
  the owner with nesting one and is made ready; the mutex is never free in between, and no task but
  the new and the old owner changes.\<close>

theorem mutex_unlock_hands_over:
  assumes s: "sys_inv K" and i: "g_active_task K \<noteq> g_idle_task K"
    and r: "g_sys_stat K \<noteq> RHINO_STOPPED" "g_intrpt_nested_level K = 0"
    and m: "obj_type (blk_objs K m) = RHINO_MUTEX_OBJ_TYPE" "blk_policy (blk_objs K m) = BLK_POLICY_PRI"
    and o: "mutex_task (mutexes K m) = Some (g_active_task K)" "owner_nested (mutexes K m) = 1"
    and w: "blist K m = t # ts"
  shows "let (K', stat) = krhino_mutex_unlock (Some m) K in
    stat = RHINO_SUCCESS \<and> (\<forall>u\<in>set ts. tprio K t \<le> tprio K u) \<and>
    mutex_task (mutexes K' m) = Some t \<and> owner_nested (mutexes K' m) = 1 \<and> blist K' m = ts \<and>
    tstate K' t = woken (tstate K t) \<and> blk_state (tasks K' t) = BLK_FINISH \<and>
    (\<forall>u. u \<noteq> t \<and> u \<noteq> g_active_task K \<longrightarrow> tstate K' u = tstate K u \<and> tprio K' u = tprio K u)"
proof -
  let ?me = "g_active_task K"
  let ?A = "upd_mutex m (\<lambda>r. r\<lparr>owner_nested := owner_nested r - 1\<rparr>) K"
  let ?B = "mutex_release ?me (Some m) ?A"
  note k = sys_invD(1) [OF s]
  have A: "sys_inv ?A" using s i o by (auto intro!: sys_upd_mutex)
  have rdy: "tstate ?A ?me = K_RDY" using sys_invD(4) [OF s r(2)] by simp
  have v: "blk_objs ?B = blk_objs K" "u \<noteq> ?me \<Longrightarrow> tasks ?B u = tasks K u" for u
    using release_ready_view [OF rdy] by simp_all
  have B: "prio_frame ?A ?B" "kinv ?B" using mutex_release_ok [OF sys_invD(1) [OF A], of ?me "Some m"] i by simp_all
  have pt: "is_pend (tstate K t)" using kinv_blist_iff [OF k, of t m] w by simp
  then have t: "t \<noteq> ?me" using rdy by auto
  have pB: "is_pend (tstate ?B t)" using v(2) [OF t] pt by simp
  have un: "krhino_mutex_unlock (Some m) K = (core_sched (mutex_grant t m (pend_task_wakeup t ?B)), RHINO_SUCCESS)"
    using r m o w v prio_frame_blk(6) [OF B(1), of m] by (simp add: krhino_mutex_unlock_def Let_def)
  have so: "sorted_by (\<lambda>t. tprio K t) (blist K m)" using kinvD(4) [OF k] m(2) by (auto simp: blk_inv_def)
  have rm: "removeAll t ts = ts" using kinv_distinct_blist [OF k, of m] w by simp
  have gr: "blk_state (tasks (mutex_grant t m L) u) = blk_state (tasks L u)" for L u
    by (simp add: mutex_grant_def Let_def)
  show ?thesis using so w by (simp add: un Let_def gr wakeup_view [OF pB] v t rm)
qed

lemma mutex_unlock_hands_over_witness:
  "mutex_task (mutexes (fst (krhino_mutex_unlock (Some 6) demo)) 6) = Some 4 \<and>
   tstate (fst (krhino_mutex_unlock (Some 6) demo)) 4 = K_RDY"
  using mutex_unlock_hands_over [OF demo_sys_inv, of 6 4 "[]"]
  by (simp add: demo_def mk_blk_def mk_task_def Let_def split_beta)

lemma lock_other_owner:
  assumes s: "sys_inv K" and o: "mutex_task (mutexes K m) = Some w" "w \<noteq> g_active_task K"
  shows "mutex_task (mutexes (fst (krhino_mutex_lock x ticks K)) m) = Some w"
proof (cases x)
  case (Some c)
  let ?t = "g_active_task K"
  note k = sys_invD(1) [OF s]
  have pm: "mutexes (pend_to_blk_obj c ?t ticks L) = mutexes L" for L
    by (simp add: pend_to_blk_obj_def Let_def)
  have raise: "mutex_task (mutexes (fst (task_pri_change v (tprio K ?t) K)) m) = Some w"
    if v: "mutex_task (mutexes K c) = Some v" "g_intrpt_nested_level K = 0" for v
  proof -
    have "tprio K ?t < 62" using kinv_prio(1) [OF k, of ?t] sys_invD(4) [OF s v(2)] by simp
    from task_pri_change_ok(2) [OF k sys_owner [OF s v(1)] this] show ?thesis
      using o by (simp add: prio_frame_blk)
  qed
  have gr: "mutex_task (mutexes (mutex_grant ?t c K) m) = Some w" if "mutex_task (mutexes K c) = None"
    using that o by (auto simp: mutex_grant_def Let_def)
  show ?thesis using o raise gr
    by (auto simp: krhino_mutex_lock_def Some Let_def pm word_gt_0 split: option.split)
qed (use o in \<open>simp add: krhino_mutex_lock_def\<close>)

lemma mutex_grant_other: "m \<noteq> c \<Longrightarrow> mutex_task (mutexes (mutex_grant u c L) m) = mutex_task (mutexes L m)"
  by (simp add: mutex_grant_def Let_def)

lemma mutexes_pend_task_wakeup: "mutexes (pend_task_wakeup u L) = mutexes L"
  by (cases "tstate L u") (simp_all add: pend_task_wakeup_def Let_def)

lemma unlock_other_owner:
  assumes s: "sys_inv K" and i: "g_active_task K \<noteq> g_idle_task K"
    and o: "mutex_task (mutexes K m) = Some w" "w \<noteq> g_active_task K"
  shows "mutex_task (mutexes (fst (krhino_mutex_unlock x K)) m) = Some w"
proof (cases x)
  case (Some c)
  let ?t = "g_active_task K"
  let ?A = "upd_mutex c (\<lambda>r. r\<lparr>owner_nested := owner_nested r - 1\<rparr>) K"
  let ?B = "mutex_release ?t (Some c) ?A"
  show ?thesis
  proof (cases "mutex_task (mutexes K c) = Some ?t")
    case True
    then have A: "sys_inv ?A" using s i by (auto intro!: sys_upd_mutex)
    have mc: "m \<noteq> c" using True o by auto
    have "mutex_task (mutexes ?B m) = Some w"
      using mutex_release_ok [OF sys_invD(1) [OF A], of ?t "Some c"] i o mc
      by (simp add: prio_frame_blk [of ?A ?B])
    then show ?thesis using o mc mutex_grant_other [OF mc] mutexes_pend_task_wakeup
      by (auto simp: krhino_mutex_unlock_def Some Let_def split: list.split)
  qed (use o in \<open>auto simp: krhino_mutex_unlock_def Some Let_def\<close>)
qed (use o in \<open>simp add: krhino_mutex_unlock_def\<close>)

lemma lock_resume_owner: "mutexes (fst (krhino_mutex_lock_resume b K)) = mutexes K"
  by (auto simp: krhino_mutex_lock_resume_def pend_state_end_proc_def Let_def
      split: blk_state_t.split option.split)



lemma mutex_lock_owner:
  assumes "g_sys_stat K \<noteq> RHINO_STOPPED" "g_intrpt_nested_level K = 0" "\<not> cancel (tasks K (g_active_task K))"
    "obj_type (blk_objs K m) = RHINO_MUTEX_OBJ_TYPE" "mutex_task (mutexes K m) = Some (g_active_task K)"
    "owner_nested (mutexes K m) \<noteq> - 1"
  shows "krhino_mutex_lock (Some m) ticks K =
    (upd_mutex m (\<lambda>r. r\<lparr>owner_nested := owner_nested r + 1\<rparr>) K, Ret RHINO_MUTEX_OWNER_NESTED)"
  using assms by (simp add: krhino_mutex_lock_def Let_def)

text \<open>C12. Recursive locking: an owner that locks a mutex \<open>n\<close> more times and unlocks it \<open>n\<close> times is
  exactly where it was, as long as the nesting counter does not reach its maximum.\<close>

theorem mutex_nested_round_trip:
  assumes "g_sys_stat K \<noteq> RHINO_STOPPED" "g_intrpt_nested_level K = 0" "\<not> cancel (tasks K (g_active_task K))"
    "obj_type (blk_objs K m) = RHINO_MUTEX_OBJ_TYPE" "mutex_task (mutexes K m) = Some (g_active_task K)"
    "0 < owner_nested (mutexes K m)" "unat (owner_nested (mutexes K m)) + n < 2 ^ 32"
  shows "((\<lambda>K. fst (krhino_mutex_unlock (Some m) K)) ^^ n)
    (((\<lambda>K. fst (krhino_mutex_lock (Some m) ticks K)) ^^ n) K) = K"
  using assms
proof (induction n arbitrary: K)
  case (Suc n)
  let ?K = "upd_mutex m (\<lambda>r. r\<lparr>owner_nested := owner_nested r + 1\<rparr>) K"
  have ne: "owner_nested (mutexes K m) \<noteq> - 1"
  proof
    assume "owner_nested (mutexes K m) = - 1"
    moreover have "unat (- 1 :: u32) = 4294967295" by (simp add: unsigned_minus_1_eq_mask mask_eq_exp_minus_1)
    ultimately show False using Suc.prems(7) by simp
  qed
  then have u: "unat (owner_nested (mutexes K m) + 1) = unat (owner_nested (mutexes K m)) + 1"
    by (metis Suc_eq_plus1 add.commute add_eq_0_iff unatSuc)
  then have pos: "0 < owner_nested (mutexes K m) + 1" by (simp add: word_less_nat_alt)
  have "((\<lambda>K. fst (krhino_mutex_unlock (Some m) K)) ^^ n)
    (((\<lambda>K. fst (krhino_mutex_lock (Some m) ticks K)) ^^ n) ?K) = ?K"
    by (rule Suc.IH) (use Suc.prems u pos in simp_all)
  moreover have "fst (krhino_mutex_unlock (Some m) ?K) = K"
    using Suc.prems by (simp add: krhino_mutex_unlock_def Let_def upd_mutex_def)
  moreover have "((\<lambda>K. fst (krhino_mutex_lock (Some m) ticks K)) ^^ Suc n) K =
      ((\<lambda>K. fst (krhino_mutex_lock (Some m) ticks K)) ^^ n) ?K"
    using mutex_lock_owner [OF Suc.prems(1-5) ne, of ticks] by (simp add: funpow_Suc_right del: funpow.simps)
  ultimately show ?case by simp
qed simp

lemma mutex_nested_round_trip_witness:
  "((\<lambda>K. fst (krhino_mutex_unlock (Some 6) K)) ^^ 3)
    (((\<lambda>K. fst (krhino_mutex_lock (Some 6) 0 K)) ^^ 3) demo) = demo"
  by (rule mutex_nested_round_trip) (simp_all add: demo_def mk_task_def mk_blk_def ktask_zero_def)

text \<open>The two halves of a blocking lock: the owner is raised to the priority of the new waiter, then the
  waiter joins the list of the mutex.\<close>

lemma raise_owner:
  assumes k: "kinv K" and h: "inherits K" and w: "w \<noteq> g_idle_task K"
  shows "let P = (if tprio K t < tprio K w then fst (task_pri_change w (tprio K t) K) else K) in
    inherits P \<and> tprio P t = tprio K t \<and> (is_live (tstate K w) \<longrightarrow> tprio P w \<le> tprio K t)"
proof (cases "tprio K t < tprio K w")
  case lt: True
  show ?thesis
  proof (cases "is_live (tstate K w)")
    case True
    have "pri_measure K w (tprio K t) < pri_fuel K"
      using pri_measure_bound [of K w "tprio K t"] by (simp add: pri_fuel_def)
    from raise_loop [OF k w True lt this] lt h show ?thesis
      by (auto simp: task_pri_change_def inherits_def)
  next
    case False
    then have "fst (task_pri_change w (tprio K t) K) = k_err_proc RHINO_INV_TASK_STATE K"
      using lt by (auto simp: task_pri_change_def pri_fuel_def task_pri_step_def)
    with False lt h show ?thesis by (simp add: inherits_def waits_for_def)
  qed
qed (use h in \<open>simp add: Let_def\<close>)

lemma new_waiter_inherits:
  assumes k: "kinv P" and t: "tstate P t = K_RDY" "t \<noteq> g_idle_task P" and h: "inherits P"
    and m: "mutex_task (mutexes P m) = Some w" "obj_type (blk_objs P m) = RHINO_MUTEX_OBJ_TYPE"
    and w: "w \<noteq> t" "is_live (tstate P w) \<Longrightarrow> tprio P w \<le> tprio P t"
  shows "inherits (pend_to_blk_obj m t ticks P) \<and> waits_for (pend_to_blk_obj m t ticks P) t w"
proof -
  let ?R = "pend_to_blk_obj m t ticks P"
  note v = pend_to_blk_view [OF k t, of m ticks]
  have wf: "waits_for ?R u x \<longleftrightarrow> (if u = t then x = w else waits_for P u x)" for u x
    using m by (auto simp: waits_for_def v)
  have pr: "tprio ?R u = tprio P u" "u \<noteq> t \<Longrightarrow> tstate ?R u = tstate P u" for u by (simp_all add: v)
  have "inherits ?R" unfolding inherits_def wf pr(1)
  proof (intro allI impI)
    fix u x assume a: "(if u = t then x = w else waits_for P u x) \<and> is_live (tstate ?R x)"
    then have l: "is_live (tstate P x)" using pr(2) [of x] t by (cases "x = t") (simp_all del: is_live.simps, simp)
    show "tprio P x \<le> tprio P u"
    proof (cases "u = t")
      case True
      with a l w(2) show ?thesis by simp
    next
      case False
      with a l h show ?thesis by (auto simp: inherits_def)
    qed
  qed
  then show ?thesis by (simp add: wf)
qed

lemma inherits_core_sched:
  "inherits (core_sched L) = inherits L" "waits_for (core_sched L) = waits_for L"
  by (simp_all add: inherits_def waits_for_def fun_eq_iff)

text \<open>C7. Priority inheritance (\<^verbatim>\<open>RHINO_CONFIG_MUTEX_INHERIT\<close>): if every owner is at least as urgent as
  the tasks that wait for it, this is still so when a further task blocks in a lock, along the
  whole chain of owners that themselves wait; the new waiter then waits for the owner it found.\<close>

theorem mutex_lock_inherits:
  assumes s: "sys_inv K" and i: "g_active_task K \<noteq> g_idle_task K" and c: "cfg_mutex_inherit K"
    and h: "inherits K" and r: "snd (krhino_mutex_lock (Some m) ticks K) = Block"
  shows "let K' = fst (krhino_mutex_lock (Some m) ticks K) in inherits K' \<and>
    (\<exists>w. mutex_task (mutexes K m) = Some w \<and> waits_for K' (g_active_task K) w)"
proof -
  let ?t = "g_active_task K" let ?p = "tprio K ?t"
  note k = sys_invD(1) [OF s]
  obtain w where w: "mutex_task (mutexes K m) = Some w" "w \<noteq> ?t" and n0: "g_intrpt_nested_level K = 0"
    and ty: "obj_type (blk_objs K m) = RHINO_MUTEX_OBJ_TYPE"
    using r by (auto simp: krhino_mutex_lock_def Let_def word_gt_0 split: if_splits option.splits)
  have rdy: "tstate K ?t = K_RDY" by (rule sys_invD(4) [OF s n0])
  define P where "P = (if ?p < tprio K w then fst (task_pri_change w ?p K) else K)"
  have K': "fst (krhino_mutex_lock (Some m) ticks K) = core_sched (pend_to_blk_obj m ?t ticks P)"
    using r c w by (auto simp: krhino_mutex_lock_def Let_def P_def split: if_splits)
  have p62: "?p < 62" using kinv_prio(1) [OF k, of ?t] rdy by simp
  have P: "kinv P" "prio_frame K P"
    using k task_pri_change_ok(1,2) [OF k sys_owner [OF s w(1)] p62] by (auto simp: P_def)
  note Q = raise_owner [OF k h sys_owner [OF s w(1)], of ?t, folded P_def, unfolded Let_def]
  note f = prio_frame_task(1) [OF P(2)] prio_frame_blk [OF P(2)] sched_frameD [OF prio_frame_glob(2) [OF P(2)]]
  have "inherits (pend_to_blk_obj m ?t ticks P) \<and> waits_for (pend_to_blk_obj m ?t ticks P) ?t w"
    by (rule new_waiter_inherits) (use P(1) Q rdy i w ty f in simp_all)
  with w(1) show ?thesis by (simp add: K' Let_def inherits_core_sched)
qed

lemma mutex_lock_inherits_witness:
  "inherits (fst (krhino_mutex_lock (Some 6) 5 (demo\<lparr>g_active_task := 2, cfg_mutex_inherit := True\<rparr>)))"
proof -
  let ?K = "demo\<lparr>g_active_task := 2, cfg_mutex_inherit := True\<rparr>"
  have "sys_inv (demo\<lparr>g_active_task := 2\<rparr>)"
    by (rule sys_inv_running [OF demo_sys_inv]) (simp add: mk_task_def)
  then have s: "sys_inv ?K" using sys_inv_inherit by simp
  have h: "inherits ?K" by (simp add: inherits_def waits_for_def demo_defs)
  have "snd (krhino_mutex_lock (Some 6) 5 ?K) = Block"
    by (simp add: krhino_mutex_lock_def demo_defs Let_def RHINO_NO_WAIT_def)
  from mutex_lock_inherits [OF s _ _ h this] show ?thesis by (simp add: Let_def)
qed

lemma release_running:
  assumes "tstate L t = K_RDY" "\<not> cfg_mutex_inherit L" "g_active_task L = t"
    "sched_policy (tasks L t) = KSCHED_RR" "b_prio (tasks L t) \<noteq> tprio L t"
  shows "mutex_release t rel L =
    ready_list_add_head t (upd_task t (\<lambda>r. r\<lparr>prio := b_prio (tasks L t)\<rparr>) (ready_list_rm t L))"
  using assms by (simp add: mutex_release_def mutex_pri_look_def task_pri_change_def pri_fuel_def
      task_pri_step_def is_task_exec_def Let_def)

definition boosted :: kernel where
  "boosted = demo\<lparr>tasks := demo_task(1 := (demo_task 1)\<lparr>b_prio := 30\<rparr>, 4 := mk_task K_RDY 15 None 0 0),
     blk_objs := demo_blk(6 := mk_blk RHINO_MUTEX_OBJ_TYPE False []),
     g_ready_queue := demo_rq\<lparr>cur_list_item := (cur_list_item demo_rq)(15 := [4]),
       task_bit_map := krhino_bitmap_set (task_bit_map demo_rq) 15\<rparr>\<rparr>"


end
