(* ===== verification/KCore.thy ===== *)
theory KCore
  imports KMutex
begin

text \<open>
  What the core of the kernel promises, stated over the data structures and algorithms below the
  objects: the priority bitmap and the sorted rings, the choice of the next task, the end of the
  priority walk, the tick and the conversion of times.
\<close>

section \<open>Data structures\<close>

text \<open>C28. \<^verbatim>\<open>krhino_bitmap_first\<close> returns the least member of the bitmap, whatever its length, and runs
  off the bitmap exactly when it is empty; setting and clearing change one member.\<close>

theorem bitmap_first_least:
  "(krhino_bitmap_first bm = None \<longleftrightarrow> (\<forall>k. \<not> in_bitmap bm k)) \<and>
   (krhino_bitmap_first bm = Some n \<longrightarrow> in_bitmap bm n \<and> (\<forall>k<n. \<not> in_bitmap bm k)) \<and>
   (n < 32 * length bm \<longrightarrow> (\<forall>k. in_bitmap (krhino_bitmap_set bm n) k = (k = n \<or> in_bitmap bm k)) \<and>
      (\<forall>k. in_bitmap (krhino_bitmap_clear bm n) k = (k \<noteq> n \<and> in_bitmap bm k)))"
  using krhino_bitmap_first_None krhino_bitmap_first_Some by auto

lemma bitmap_first_least_witness:
  "in_bitmap [0, 0x00400000] 41 \<and> \<not> in_bitmap [0, 0x00400000] 40"
  using bitmap_first_least [of "[0, 0x00400000]" 41]
  by (simp add: krhino_clz32_def)

text \<open>C29. The sorted insertion of the tick, pend and timer lists, written with pointers, walks to the
  right place, terminates, and keeps the ring: it refines the insertion into a list.\<close>

theorem klist_sorted_insert_refines:
  assumes "ring h l xs" "e \<notin> set (l # xs)" "length xs < n"
  shows "\<exists>h'. klist_sorted_insert n h P l e = Some h' \<and> ring h' l (insert_before P e xs)"
  using assms by (rule klist_sorted_insert_ring)

lemma klist_sorted_insert_refines_witness:
  "\<exists>h'. klist_sorted_insert 1 (klist_init \<lparr>nxt = id, prv = id\<rparr> 0) (\<lambda>x. x > 9) 0 7 = Some h' \<and> ring h' 0 [7]"
  using klist_sorted_insert_refines [OF ring_init, of 7 0 1 "\<lparr>nxt = id, prv = id\<rparr>" "\<lambda>x. x > 9"] by simp

section \<open>Scheduling\<close>

lemma is_next_highest:
  assumes k: "kinvd d K" and t: "is_next K t"
  shows "tstate K t = K_RDY \<and> (\<forall>u. tstate K u = K_RDY \<longrightarrow> tprio K t \<le> tprio K u) \<and>
    (\<exists>ts. rqueue K (tprio K t) = t # ts)"
proof -
  from t obtain p ts where p: "rqueue K p = t # ts" "\<forall>q<p. rqueue K q = []" by (auto simp: is_next_def)
  then have "tstate K t = K_RDY" "tprio K t = p" using kinv_ready_iff [OF k, of t p] by auto
  moreover have "p \<le> tprio K u" if "tstate K u = K_RDY" for u
    using kinv_ready_iff [OF k, of u "tprio K u"] that p(2) by (metis empty_iff list.set(1) not_less)
  ultimately show ?thesis using p(1) by simp
qed

text \<open>C1. Outside interrupts and locks, \<^verbatim>\<open>core_sched\<close> makes a ready task of the highest priority the
  running one, the first in the list of that priority, and touches nothing else.\<close>

theorem core_sched_selects:
  assumes s: "kinv K" "\<not> g_fault K" and n: "g_intrpt_nested_level K = 0" "g_sched_lock K = 0"
  shows "let K' = core_sched K in tstate K' (g_active_task K') = K_RDY \<and> \<not> g_fault K' \<and>
    (\<forall>u. tstate K' u = K_RDY \<longrightarrow> tprio K' (g_active_task K') \<le> tprio K' u) \<and>
    (\<exists>ts. rqueue K' (tprio K' (g_active_task K')) = g_active_task K' # ts) \<and>
    tasks K' = tasks K \<and> g_ready_queue K' = g_ready_queue K"
proof -
  have c: "sys_inv (core_sched K)" "runs_next (core_sched K)" using core_sched_ok [OF s] n by auto
  then have "is_next (core_sched K) (g_active_task (core_sched K))" using n by (simp add: runs_next_def)
  from is_next_highest [OF sys_invD(1) [OF c(1)] this] sys_invD(2) [OF c(1)] show ?thesis
    by (simp add: Let_def)
qed

lemma core_sched_selects_witness: "tprio (core_sched demo) (g_active_task (core_sched demo)) \<le> 10"
proof -
  have n: "g_intrpt_nested_level demo = 0" "g_sched_lock demo = 0" by simp_all
  have "tstate (core_sched demo) 1 = K_RDY \<longrightarrow>
      tprio (core_sched demo) (g_active_task (core_sched demo)) \<le> tprio (core_sched demo) 1"
    using core_sched_selects [OF sys_invD(1,2) [OF demo_sys_inv] n] unfolding Let_def by blast
  moreover have "tasks (core_sched demo) 1 = mk_task K_RDY 10 None 0 0" by simp
  ultimately show ?thesis unfolding mk_task_def by simp
qed

text \<open>More fuel does not change the result of the priority walk once the measure is covered.\<close>

lemma task_pri_loop_more:
  assumes "kinvd d K" "t \<noteq> g_idle_task K" "is_live (tstate K t) \<Longrightarrow> p < 62"
    "pri_measure K t p < n" "pri_measure K t p < m"
  shows "task_pri_loop n t p K = task_pri_loop m t p K"
  using assms
proof (induction n arbitrary: t p K m)
  case (Suc n)
  note k = Suc.prems(1)
  obtain m' where m: "m = Suc m'" using Suc.prems(5) by (cases m) auto
  show ?case
  proof (cases "is_pend (tstate K t) \<and> tprio K t \<noteq> p")
    case False
    then have "\<exists>L x. task_pri_step t p K = (L, Inr x)"
      by (cases "tstate K t") (auto simp: task_pri_step_def Let_def)
    with m show ?thesis by auto
  next
    case True
    then have p: "p < 62" using Suc.prems(3) by auto
    have live: "is_live (tstate K t)" using True by auto
    obtain K' r where step: "task_pri_step t p K = (K', r)" and K': "kinvd d K'" "prio_frame K K'"
      and pr: "\<And>u. tprio K' u = (if u = t then p else tprio K u)"
      and r: "r = Inr RHINO_SUCCESS \<or> (\<exists>w p'. r = Inl (w, p') \<and> goes_on K K' t p w p')"
      by (rule pri_step_pend [OF k conjunct1 [OF True] p conjunct2 [OF True]]) (rule that)
    note kl = sched_frameD [OF prio_frame_glob(2) [OF K'(2)]]
    from r show ?thesis
    proof
      assume "\<exists>w p'. r = Inl (w, p') \<and> goes_on K K' t p w p'"
      then obtain w p' where w: "r = Inl (w, p')" and g: "goes_on K K' t p w p'" by blast
      have lt: "pri_measure K' w p' < pri_measure K t p"
        by (rule pri_measure_decreases [OF kinv_reg [OF k live] kl(10) pr _ g]) (use True in simp)
      have "w \<noteq> g_idle_task K'" using g kl(5) by (simp add: goes_on_def)
      moreover have "p' < 62" if "is_live (tstate K' w)"
        using g p kinv_prio(2) [OF K'(1) that] by (auto simp: goes_on_def)
      moreover have "pri_measure K' w p' < n" "pri_measure K' w p' < m'"
        using lt Suc.prems(4,5) m by simp_all
      ultimately have "task_pri_loop n w p' K' = task_pri_loop m' w p' K'"
        using Suc.IH [OF K'(1)] by blast
      with step w m show ?thesis by simp
    qed (use step m in simp)
  qed
qed simp



section \<open>Time\<close>

lemma sorted_scan:
  assumes "sorted_by f xs" "\<forall>x\<in>set xs. P x \<longleftrightarrow> f x \<le> c"
  shows "set (takeWhile P xs) = {x \<in> set xs. P x} \<and> set (dropWhile P xs) = {x \<in> set xs. \<not> P x}"
  using assms
proof (induction xs)
  case (Cons x xs)
  show ?case
  proof (cases "P x")
    case False
    then have "\<forall>y\<in>set (x # xs). \<not> P y" using Cons.prems by force
    with False show ?thesis by auto
  qed (use Cons in auto)
qed simp

text \<open>C11. With time-outs of at most \<^verbatim>\<open>MAX_TICKS\<close>, one tick ends exactly the waits and sleeps whose
  deadline is the new tick count: a waiter is readied (or stays suspended) with a time-out, a
  sleeper with a normal end, every other task keeps its state and stays in the tick list.\<close>

theorem tick_ends_due_waits:
  assumes k: "kinv K" and m: "\<forall>t\<in>set (g_tick_head K). tick_left K t \<le> MAX_TICKS"
  shows "let K' = tick_list_update 1 K;
             over = (\<lambda>t. t \<in> set (g_tick_head K) \<and> tick_match (tasks K t) = g_tick_count K') in
    g_tick_count K' = g_tick_count K + 1 \<and>
    (\<forall>t. tstate K' t = (if over t then expired (tstate K t) else tstate K t)) \<and>
    (\<forall>t. over t \<longrightarrow> blk_state (tasks K' t) = (if is_pend (tstate K t) then BLK_TIMEOUT else BLK_FINISH)) \<and>
    set (g_tick_head K') = {t \<in> set (g_tick_head K). \<not> over t} \<and> \<not> (\<not> g_fault K \<and> g_fault K')"
proof -
  let ?K1 = "K\<lparr>g_tick_count := g_tick_count K + 1\<rparr>" and ?K' = "tick_list_update 1 K"
  note u = tick_update_ok [OF k]
  have cnt: "g_tick_count ?K' = g_tick_count K + 1" using sched_frameD [OF u(3)] by simp
  have left: "tick_left ?K1 t = tick_left K t - 1" for t by (simp add: tick_left_def)
  have t1: "1 \<le> tick_left K t" if "t \<in> set (g_tick_head K)" for t
    using kinvD(5) [OF k] that by (auto simp: tick_inv_def)
  have one: "due ?K1 t \<longleftrightarrow> tick_left K t = 1" if t: "t \<in> set (g_tick_head K)" for t
  proof -
    let ?x = "tick_left K t"
    have x: "1 \<le> ?x" "?x \<le> MAX_TICKS" using t1 m t by auto
    have "MAX_TICKS = 0x7FFFFFFFFFFFFFFF" by (simp add: MAX_TICKS_def mask_eq_exp_minus_1)
    then have "unat MAX_TICKS = unat (0x7FFFFFFFFFFFFFFF :: tick_t)" by (rule arg_cong)
    also have "\<dots> = 0x7FFFFFFFFFFFFFFF" by simp
    finally have u: "1 \<le> unat ?x" "unat ?x < 2 ^ 63" using x by (simp_all add: word_le_nat_alt)
    have d: "unat (?x - 1) = unat ?x - 1" using x(1) by (simp add: unat_sub)
    then have "?x - 1 < 2 ^ 63" using u by (simp add: word_less_nat_alt)
    then have "sint (?x - 1) = int (unat ?x - 1)" using d uint_nat [of "?x - 1"] by (simp add: sint_small)
    then have "due ?K1 t \<longleftrightarrow> int (unat ?x - 1) \<le> 0" by (simp only: due_def left)
    then have "due ?K1 t \<longleftrightarrow> unat ?x = 1" using u(1) by linarith
    then show ?thesis using word_unat_eq_iff [of ?x 1] by simp
  qed
  have due: "due ?K1 t \<longleftrightarrow> tick_left K t \<le> 1" "due ?K1 t \<longleftrightarrow> tick_match (tasks K t) = g_tick_count K + 1"
    if t: "t \<in> set (g_tick_head K)" for t
    using one [OF t] t1 [OF t] by (auto simp: tick_left_def diff_eq_eq)
  have srt: "sorted_by (tick_left K) (g_tick_head K)" using kinvD(5) [OF k] by (simp add: tick_inv_def)
  note scan = sorted_scan [OF srt, of "due ?K1" 1]
  have tw: "set (takeWhile (due ?K1) (g_tick_head K)) = {t \<in> set (g_tick_head K). due ?K1 t}"
    "set (dropWhile (due ?K1) (g_tick_head K)) = {t \<in> set (g_tick_head K). \<not> due ?K1 t}"
    using scan due by blast+
  show ?thesis
    unfolding Let_def cnt u(2,4) using tw due by (auto simp: u(5,6))
qed

lemma tick_ends_due_waits_witness:
  "tstate (tick_list_update 1 (demo\<lparr>g_tick_count := 102\<rparr>)) 5 = K_RDY \<and>
   tstate (tick_list_update 1 (demo\<lparr>g_tick_count := 102\<rparr>)) 3 = K_PEND"
proof -
  let ?K = "demo\<lparr>g_tick_count := 102\<rparr>"
  have "tick_inv 1 ?K" by (simp add: tick_inv_def tick_left_def mk_task_def)
  then have k: "kinv ?K" using sys_invD(1) [OF demo_sys_inv]
    by (simp add: kinvd_def blk_inv_def placed_def idle_ok_def reg_inv_def mutex_inv_def)
  have h: "g_tick_head ?K = [5, 3]" "tasks ?K 5 = mk_task K_SLEEP 30 None 103 0"
    "tasks ?K 3 = mk_task K_PEND 12 (Some 5) 107 0" by simp_all
  then have m: "\<forall>t\<in>set (g_tick_head ?K). tick_left ?K t \<le> MAX_TICKS"
    by (simp add: tick_left_def MAX_TICKS_def mask_eq_exp_minus_1 mk_task_def)
  from tick_ends_due_waits [OF k m] h show ?thesis
    unfolding Let_def by (simp add: mk_task_def del: demo_task.simps)
qed

lemma unat_mul_small: "unat a * unat b < 2 ^ 64 \<Longrightarrow> unat (a * b :: tick_t) = unat a * unat b"
  using unat_mult_lem [of a b] by simp

lemma unat_add_small: "unat a + unat b < 2 ^ 64 \<Longrightarrow> unat (a + b :: tick_t) = unat a + unat b"
  using unat_add_lem [of a b] by simp

lemma div_hz:
  assumes "unat (hz :: tick_t) dvd 1000"
  shows "unat hz * (1000 div unat hz) = 1000" "unat hz \<le> 1000" "0 < unat hz" "1000 div unat hz \<le> 1000"
    "0 < 1000 div unat hz"
proof -
  show hq: "unat hz * (1000 div unat hz) = 1000" using assms by (rule dvd_mult_div_cancel)
  show "unat hz \<le> 1000" using assms by (rule dvd_imp_le) simp
  show "0 < unat hz" using hq by (cases "unat hz = 0") auto
  show "1000 div unat hz \<le> 1000" by simp
  show "0 < 1000 div unat hz" using hq by (cases "1000 div unat hz = 0") auto
qed

lemma ms_to_ticks_nat:
  assumes hz: "unat hz dvd 1000" and t: "unat t < 2 ^ 53"
  shows "unat (krhino_ms_to_ticks hz t) = (unat t + (1000 div unat hz - 1)) div (1000 div unat hz)"
proof -
  let ?h = "unat hz" and ?P = "1000 div hz"
  define q where q: "q = 1000 div unat hz"
  note d = div_hz [OF hz, folded q]
  have P: "unat ?P = q" by (simp add: unat_div q)
  then have gt: "?P > 0" using d(5) by (simp add: word_less_nat_alt)
  then have "1 \<le> ?P" by (simp add: word_one_le)
  then have m: "unat (?P - 1) = q - 1" using P by (simp add: unat_sub)
  have a: "unat (t + (?P - 1)) = unat t + (q - 1)" using t d(4) m by (simp add: unat_add_small)
  have "(unat t + (q - 1)) * ?h < 2 ^ 54 * 2 ^ 10"
    by (rule mult_strict_mono) (use t d in auto)
  then have b: "unat ((t + (?P - 1)) * hz) = (unat t + (q - 1)) * ?h"
    by (subst unat_mul_small) (simp_all add: a)
  have "unat (krhino_ms_to_ticks hz t) = (unat t + (q - 1)) * ?h div (q * ?h)"
    using gt b d(1) by (simp add: krhino_ms_to_ticks_def Let_def unat_div mult.commute)
  also have "\<dots> = (unat t + (q - 1)) div q" using d(3) by simp
  finally show ?thesis by (simp add: q)
qed

lemma ticks_to_ms_nat:
  assumes hz: "unat hz dvd 1000" and t: "unat t < 2 ^ 53"
  shows "unat (krhino_ticks_to_ms hz t) = unat t * (1000 div unat hz)"
proof -
  let ?h = "unat hz" and ?q = "1000 div unat hz"
  note d = div_hz [OF hz]
  have pad: "(if hz div 1000 > 0 then hz div 1000 - 1 else 0) = 0"
  proof (cases "?h = 1000")
    case True
    then have "hz = 1000" by (simp add: word_unat_eq_iff)
    then show ?thesis by simp
  next
    case False
    then have "unat (hz div 1000) = 0" using d(2) by (simp add: unat_div)
    then show ?thesis by (simp add: word_less_nat_alt)
  qed
  have "unat (t * 1000) = unat t * 1000" using t by (subst unat_mul_small) simp_all
  then have "unat (krhino_ticks_to_ms hz t) = unat t * (?h * ?q) div ?h"
    by (simp only: krhino_ticks_to_ms_def Let_def pad add_0_right unat_div d(1))
  then show ?thesis using d(3) by simp
qed

text \<open>C30. Milliseconds and ticks: with \<open>hz\<close> ticks per second, \<open>hz\<close> a divisor of 1000, and times whose
  products do not wrap around, a number of ticks survives the round trip, and a time in
  milliseconds comes back rounded up to the next tick, by less than one tick.\<close>

theorem ms_ticks_round_trip:
  assumes hz: "unat hz dvd 1000" and t: "unat t < 2 ^ 43"
  shows "krhino_ms_to_ticks hz (krhino_ticks_to_ms hz t) = t \<and>
    (let ms = krhino_ticks_to_ms hz (krhino_ms_to_ticks hz t)
     in t \<le> ms \<and> unat ms < unat t + 1000 div unat hz)"
proof -
  define q where q: "q = 1000 div unat hz"
  note d = div_hz [OF hz, folded q] and fw = ms_to_ticks_nat [OF hz, folded q]
    and bw = ticks_to_ms_nat [OF hz, folded q]
  have "unat t * q < 2 ^ 43 * 2 ^ 10" by (rule mult_strict_mono) (use t d in auto)
  then have "unat (krhino_ticks_to_ms hz t) < 2 ^ 53" using bw [of t] t by simp
  moreover have "(unat t * q + (q - 1)) div q = unat t" using d(5) by (subst div_mult_self3) simp_all
  ultimately have "unat (krhino_ms_to_ticks hz (krhino_ticks_to_ms hz t)) = unat t"
    using fw [of "krhino_ticks_to_ms hz t"] bw [of t] t by simp
  then have A: "krhino_ms_to_ticks hz (krhino_ticks_to_ms hz t) = t" by (simp add: word_unat_eq_iff)
  let ?n = "(unat t + (q - 1)) div q"
  have n: "unat (krhino_ms_to_ticks hz t) = ?n" using fw [of t] t by simp
  have "?n \<le> unat t + (q - 1)" by (rule div_le_dividend)
  moreover have "unat t + (q - 1) < 2 ^ 53" using t d(4) by simp
  ultimately have "?n < 2 ^ 53" by (rule le_less_trans)
  then have ms: "unat (krhino_ticks_to_ms hz (krhino_ms_to_ticks hz t)) = ?n * q"
    using bw [of "krhino_ms_to_ticks hz t"] n by simp
  have e: "?n * q + (unat t + (q - 1)) mod q = unat t + (q - 1)" by simp
  have r: "(unat t + (q - 1)) mod q < q" using d(5) by simp
  have "unat t \<le> ?n * q" "?n * q < unat t + q" using e r d(5) by linarith+
  with A show ?thesis unfolding Let_def word_le_nat_alt ms q [symmetric] by (intro conjI)
qed

lemma ms_ticks_round_trip_witness: "krhino_ticks_to_ms 100 (krhino_ms_to_ticks 100 1234) \<ge> 1234"
  using ms_ticks_round_trip [of 100 1234] by (simp add: Let_def)

end
