(* ===== verification/KTask.thy ===== *)
theory KTask
  imports KMutex
begin

text \<open>
  Tasks (\<^verbatim>\<open>k_task.c\<close>): creation, sleeping, suspension, priority change, abortion of a wait, deletion,
  cancellation and the attributes of a task. The contents of stacks are not part of the state; the
  stack memory is an argument where the code reads it (\<open>krhino_task_stack_min_free\<close>).
\<close>

section \<open>Creation\<close>

text \<open>\<open>entry\<close> is the entry function's address; \<^verbatim>\<open>cpu_task_stack_init\<close> fills the stack.\<close>

definition task_init :: "string \<Rightarrow> nat \<Rightarrow> tick_t \<Rightarrow> nat \<Rightarrow> nat \<Rightarrow> bool \<Rightarrow> alloc_flag_t \<Rightarrow>
    sched_policy_t \<Rightarrow> u32 \<Rightarrow> ktask" where
  "task_init name pri ticks stack_buf stack_sz autorun mm_alloc_flag policy new_id =
     (let total = (if ticks > 0 then ucast ticks else RHINO_CONFIG_TIME_SLICE_DEFAULT)
      in ktask_zero\<lparr>time_total := total, rr_slice := total, sched_policy := policy,
           task_state := (if autorun then K_RDY else K_SUSPENDED),
           suspend_count := (if autorun then 0 else 1),
           stack_base := stack_buf, task_name := name, prio := pri, b_prio := pri,
           stack_size := stack_sz, task_alloc_flag := mm_alloc_flag, task_id := new_id\<rparr>)"

definition task_create ::
  "tid option \<Rightarrow> string option \<Rightarrow> nat \<Rightarrow> tick_t \<Rightarrow> nat option \<Rightarrow> nat \<Rightarrow> nat option \<Rightarrow> bool \<Rightarrow>
   alloc_flag_t \<Rightarrow> sched_policy_t \<Rightarrow> kernel \<Rightarrow> kernel \<times> kstat_t" where
  "task_create tsk name pri ticks stack_buf stack_sz entry autorun mm_alloc_flag policy K =
     (case (tsk, name, entry, stack_buf) of
        (Some t, Some nm, Some _, Some sb) \<Rightarrow>
          if stack_sz = 0 then (K, RHINO_TASK_INV_STACK_SIZE)
          else if pri \<ge> RHINO_CONFIG_PRI_MAX then (K, RHINO_BEYOND_MAX_PRI)
          else if g_intrpt_nested_level K > 0 then (K, RHINO_NOT_CALLED_BY_INTRPT)
          else if pri = RHINO_IDLE_PRI \<and> g_idle_task_spawned K then (K, RHINO_IDLE_TASK_EXIST)
          else
            let K = (if pri = RHINO_IDLE_PRI then K\<lparr>g_idle_task_spawned := True\<rparr> else K);
                K = K\<lparr>g_task_id := g_task_id K + 1\<rparr>;
                K = upd_task t (\<lambda>_. task_init nm pri ticks sb stack_sz autorun mm_alloc_flag policy (g_task_id K)) K;
                K = upd_kobj (\<lambda>l. l\<lparr>task_head := task_head l @ [t]\<rparr>) K
            in if autorun then
                 let K = ready_list_add_tail t K
                 in if g_sys_stat K = RHINO_RUNNING then (core_sched K, RHINO_SUCCESS) else (K, RHINO_SUCCESS)
               else (K, RHINO_SUCCESS)
      | _ \<Rightarrow> (K, RHINO_NULL_PTR))"

definition krhino_task_create ::
  "tid option \<Rightarrow> string option \<Rightarrow> nat \<Rightarrow> tick_t \<Rightarrow> nat option \<Rightarrow> nat \<Rightarrow> nat option \<Rightarrow> bool \<Rightarrow>
   kernel \<Rightarrow> kernel \<times> kstat_t" where
  "krhino_task_create tsk name pri ticks stack_buf stack_sz entry autorun K =
     task_create tsk name pri ticks stack_buf stack_sz entry autorun K_OBJ_STATIC_ALLOC KSCHED_RR K"

text \<open>\<open>stack_mem\<close> and \<open>task_mem\<close> are the answers of the allocator; the last component is what is
  stored through \<open>task_out\<close>, if anything is.\<close>

definition task_dyn_create ::
  "nat option \<Rightarrow> string option \<Rightarrow> nat \<Rightarrow> tick_t \<Rightarrow> nat \<Rightarrow> nat option \<Rightarrow> bool \<Rightarrow> sched_policy_t \<Rightarrow>
   nat option \<Rightarrow> tid option \<Rightarrow> kernel \<Rightarrow> kernel \<times> kstat_t \<times> tid option option" where
  "task_dyn_create task_out name pri ticks stack entry autorun policy stack_mem task_mem K =
     (case task_out of
        None \<Rightarrow> (K, RHINO_NULL_PTR, None)
      | Some _ \<Rightarrow>
          if stack = 0 then (K, RHINO_INV_PARAM, None)
          else case stack_mem of
            None \<Rightarrow> (K, RHINO_NO_MEM, None)
          | Some task_stack \<Rightarrow>
              case task_mem of
                None \<Rightarrow> (K\<lparr>mm_freed := mm_freed K @ [task_stack]\<rparr>, RHINO_NO_MEM, None)
              | Some task_obj \<Rightarrow>
                  let (K, ret) = task_create (Some task_obj) name pri ticks (Some task_stack) stack entry
                        autorun K_OBJ_DYN_ALLOC policy K
                  in if ret \<noteq> RHINO_SUCCESS \<and> ret \<noteq> RHINO_STOPPED then
                       (K\<lparr>mm_freed := mm_freed K @ [task_stack, task_obj]\<rparr>, ret, Some None)
                     else (K, ret, Some (Some task_obj)))"

definition krhino_task_dyn_create ::
  "nat option \<Rightarrow> string option \<Rightarrow> nat \<Rightarrow> tick_t \<Rightarrow> nat \<Rightarrow> nat option \<Rightarrow> bool \<Rightarrow>
   nat option \<Rightarrow> tid option \<Rightarrow> kernel \<Rightarrow> kernel \<times> kstat_t \<times> tid option option" where
  "krhino_task_dyn_create task_out name pri ticks stack entry autorun stack_mem task_mem K =
     task_dyn_create task_out name pri ticks stack entry autorun KSCHED_RR stack_mem task_mem K"

section \<open>Sleeping, suspending, resuming\<close>

definition krhino_task_sleep :: "tick_t \<Rightarrow> kernel \<Rightarrow> kernel \<times> outcome" where
  "krhino_task_sleep ticks K =
     (if ticks = 0 then (K, Ret RHINO_INV_PARAM)
      else if g_intrpt_nested_level K > 0 then (K, Ret RHINO_NOT_CALLED_BY_INTRPT)
      else if g_sched_lock K > 0 then (K, Ret RHINO_SCHED_DISABLE)
      else
        let t = g_active_task K;
            K = upd_task t (\<lambda>r. r\<lparr>task_state := K_SLEEP\<rparr>) K;
            K = tick_list_insert t ticks K;
            K = ready_list_rm t K
        in (core_sched K, Block))"

definition krhino_task_sleep_resume :: "kernel \<Rightarrow> kernel \<times> kstat_t" where
  "krhino_task_sleep_resume K = pend_state_end_proc (g_active_task K) None K"

definition krhino_cur_task_get :: "kernel \<Rightarrow> tid" where
  "krhino_cur_task_get K = g_active_task K"

definition task_suspend :: "tid \<Rightarrow> kernel \<Rightarrow> kernel \<times> kstat_t" where
  "task_suspend t K =
     (if t = g_active_task K \<and> g_sched_lock K > 0 then (K, RHINO_SCHED_DISABLE)
      else case tstate K t of
        K_RDY \<Rightarrow>
          (core_sched (ready_list_rm t
             (upd_task t (\<lambda>r. r\<lparr>suspend_count := 1, task_state := K_SUSPENDED\<rparr>) K)), RHINO_SUCCESS)
      | K_SLEEP \<Rightarrow>
          (core_sched (upd_task t (\<lambda>r. r\<lparr>suspend_count := 1, task_state := K_SLEEP_SUSPENDED\<rparr>) K), RHINO_SUCCESS)
      | K_PEND \<Rightarrow>
          (core_sched (upd_task t (\<lambda>r. r\<lparr>suspend_count := 1, task_state := K_PEND_SUSPENDED\<rparr>) K), RHINO_SUCCESS)
      | K_SEED \<Rightarrow> (K, RHINO_INV_TASK_STATE)
      | K_DELETED \<Rightarrow> (K, RHINO_INV_TASK_STATE)
      | _ \<Rightarrow>
          if suspend_count (tasks K t) = - 1 then (K, RHINO_SUSPENDED_COUNT_OVF)
          else (core_sched (upd_task t (\<lambda>r. r\<lparr>suspend_count := suspend_count r + 1\<rparr>) K), RHINO_SUCCESS))"

definition krhino_task_suspend :: "tid option \<Rightarrow> kernel \<Rightarrow> kernel \<times> kstat_t" where
  "krhino_task_suspend tsk K =
     (case tsk of
        None \<Rightarrow> (K, RHINO_NULL_PTR)
      | Some t \<Rightarrow>
          if tprio K t = RHINO_IDLE_PRI then (K, RHINO_TASK_SUSPEND_NOT_ALLOWED) else task_suspend t K)"

definition task_resume :: "tid \<Rightarrow> kernel \<Rightarrow> kernel \<times> kstat_t" where
  "task_resume t K =
     (let K1 = upd_task t (\<lambda>r. r\<lparr>suspend_count := suspend_count r - 1\<rparr>) K
      in case tstate K t of
        K_RDY \<Rightarrow> (K, RHINO_TASK_NOT_SUSPENDED)
      | K_SLEEP \<Rightarrow> (K, RHINO_TASK_NOT_SUSPENDED)
      | K_PEND \<Rightarrow> (K, RHINO_TASK_NOT_SUSPENDED)
      | K_SUSPENDED \<Rightarrow>
          (core_sched (if suspend_count (tasks K1 t) = 0
             then ready_list_add t (upd_task t (\<lambda>r. r\<lparr>task_state := K_RDY\<rparr>) K1) else K1), RHINO_SUCCESS)
      | K_SLEEP_SUSPENDED \<Rightarrow>
          (core_sched (if suspend_count (tasks K1 t) = 0
             then upd_task t (\<lambda>r. r\<lparr>task_state := K_SLEEP\<rparr>) K1 else K1), RHINO_SUCCESS)
      | K_PEND_SUSPENDED \<Rightarrow>
          (core_sched (if suspend_count (tasks K1 t) = 0
             then upd_task t (\<lambda>r. r\<lparr>task_state := K_PEND\<rparr>) K1 else K1), RHINO_SUCCESS)
      | _ \<Rightarrow> (K, RHINO_INV_TASK_STATE))"

definition krhino_task_resume :: "tid option \<Rightarrow> kernel \<Rightarrow> kernel \<times> kstat_t" where
  "krhino_task_resume tsk K =
     (case tsk of None \<Rightarrow> (K, RHINO_NULL_PTR) | Some t \<Rightarrow> task_resume t K)"

text \<open>The words above the check words of a stack that grows down; \<open>None\<close> when all of them are zero
  and the loop of the code would run past the stack.\<close>

definition RHINO_CONFIG_STK_CHK_WORDS :: nat where
  [simp]: "RHINO_CONFIG_STK_CHK_WORDS = 1"

fun count_zero :: "u32 list \<Rightarrow> nat option" where
  "count_zero [] = None"
| "count_zero (w # ws) = (if w = 0 then map_option Suc (count_zero ws) else Some 0)"

definition krhino_task_stack_min_free ::
  "tid option \<Rightarrow> nat option \<Rightarrow> u32 list \<Rightarrow> kernel \<Rightarrow> kernel \<times> kstat_t \<times> nat option" where
  "krhino_task_stack_min_free tsk free_out stack K =
     (case (tsk, free_out) of
        (Some t, Some _) \<Rightarrow>
          if tstate K t = K_DELETED then (K, RHINO_INV_TASK_STATE, None)
          else (case count_zero (drop RHINO_CONFIG_STK_CHK_WORDS stack) of
                  None \<Rightarrow> (fault K, RHINO_SUCCESS, None)
                | Some free_stk \<Rightarrow> (K, RHINO_SUCCESS, Some free_stk))
      | _ \<Rightarrow> (K, RHINO_NULL_PTR, None))"

section \<open>Priority, abortion of a wait\<close>

text \<open>The last component is what is stored through \<open>old_pri\<close>.\<close>

definition krhino_task_pri_change ::
  "tid option \<Rightarrow> nat \<Rightarrow> nat option \<Rightarrow> kernel \<Rightarrow> kernel \<times> kstat_t \<times> nat option" where
  "krhino_task_pri_change tsk pri old_pri K =
     (case (tsk, old_pri) of
        (Some t, Some _) \<Rightarrow>
          if tprio K t \<ge> RHINO_IDLE_PRI then (K, RHINO_PRI_CHG_NOT_ALLOWED, None)
          else if pri \<ge> RHINO_IDLE_PRI then (K, RHINO_PRI_CHG_NOT_ALLOWED, None)
          else if tstate K t = K_DELETED then (K, RHINO_INV_TASK_STATE, None)
          else if g_intrpt_nested_level K > 0 then (K, RHINO_NOT_CALLED_BY_INTRPT, None)
          else
            let pri_limit = mutex_pri_limit K t pri;
                K = upd_task t (\<lambda>r. r\<lparr>b_prio := pri\<rparr>) K;
                old = tprio K t;
                (K, error) = task_pri_change t pri_limit K
            in if error \<noteq> RHINO_SUCCESS then (K, error, Some old)
               else (core_sched K, RHINO_SUCCESS, Some old)
      | _ \<Rightarrow> (K, RHINO_NULL_PTR, None))"

definition krhino_task_wait_abort :: "tid option \<Rightarrow> kernel \<Rightarrow> kernel \<times> kstat_t" where
  "krhino_task_wait_abort tsk K =
     (case tsk of
        None \<Rightarrow> (K, RHINO_NULL_PTR)
      | Some t \<Rightarrow>
          if g_intrpt_nested_level K > 0 then (K, RHINO_NOT_CALLED_BY_INTRPT)
          else case tstate K t of
            K_RDY \<Rightarrow> (core_sched K, RHINO_SUCCESS)
          | K_SUSPENDED \<Rightarrow>
              (core_sched (ready_list_add t (upd_task t (\<lambda>r. r\<lparr>task_state := K_RDY\<rparr>) K)), RHINO_SUCCESS)
          | K_SEED \<Rightarrow> (K, RHINO_INV_TASK_STATE)
          | K_DELETED \<Rightarrow> (K, RHINO_INV_TASK_STATE)
          | s \<Rightarrow>
              let K = tick_list_rm t K
              in if s = K_SLEEP \<or> s = K_SLEEP_SUSPENDED then
                   let K = ready_list_add t K;
                       K = upd_task t (\<lambda>r. r\<lparr>task_state := K_RDY, blk_state := BLK_ABORT\<rparr>) K
                   in (core_sched K, RHINO_SUCCESS)
                 else
                   let K = blk_list_rm t K;
                       K = ready_list_add t K;
                       K = upd_task t (\<lambda>r. r\<lparr>task_state := K_RDY, blk_state := BLK_ABORT\<rparr>) K;
                       K = mutex_task_pri_reset t K;
                       K = upd_task t (\<lambda>r. r\<lparr>blk_ptr := None\<rparr>) K
                   in (core_sched K, RHINO_SUCCESS))"

section \<open>Deletion\<close>

text \<open>The walk over \<^verbatim>\<open>task->mutex_list\<close>; the link to the next mutex is read before the current mutex
  changes hands.\<close>

fun mutex_free_walk :: "oid list \<Rightarrow> kernel \<Rightarrow> kernel" where
  "mutex_free_walk [] K = K"
| "mutex_free_walk (m # ms) K =
     mutex_free_walk ms
       (case blist K m of
          [] \<Rightarrow> upd_mutex m (\<lambda>r. r\<lparr>mutex_task := None\<rparr>) K
        | next_task # _ \<Rightarrow>
            let K = pend_task_wakeup next_task K;
                K = upd_mutex m (\<lambda>r. r\<lparr>mutex_task := Some next_task,
                      mutex_next := mutex_ptr (tasks K next_task)\<rparr>) K
            in upd_task next_task (\<lambda>r. r\<lparr>mutex_ptr := Some m\<rparr>) K)"

definition task_mutex_free :: "tid \<Rightarrow> kernel \<Rightarrow> kernel" where
  "task_mutex_free t K = mutex_free_walk (held_mutexes K t) K"

text \<open>The reentrancy block of the C library is released with the scheduler locked; \<open>NULL\<close> stands for
  the calling task. The lock is given back by \<^verbatim>\<open>krhino_sched_enable\<close> whether or not
  \<^verbatim>\<open>krhino_sched_disable\<close> obtained it.\<close>

definition reent_reclaim :: "tid option \<Rightarrow> kernel \<Rightarrow> kernel \<times> tid" where
  "reent_reclaim tsk K =
     (let K = fst (krhino_sched_disable K);
          t = (case tsk of None \<Rightarrow> g_active_task K | Some t \<Rightarrow> t);
          K = (case newlibc_reent (tasks K t) of
                 None \<Rightarrow> K
               | Some r \<Rightarrow>
                   upd_task t (\<lambda>r. r\<lparr>newlibc_reent := None\<rparr>) (K\<lparr>mm_freed := mm_freed K @ [r]\<rparr>));
          K = fst (krhino_sched_enable K)
      in (K, t))"

text \<open>The board's deletion hook (\<^verbatim>\<open>hardware/board/haas100/config/k_config.c\<close>); \<open>in_heap\<close> is
  \<^verbatim>\<open>mem_in_heap\<close>.\<close>

definition krhino_task_del_hook :: "(oid \<Rightarrow> bool) \<Rightarrow> tid \<Rightarrow> kernel \<Rightarrow> kernel" where
  "krhino_task_del_hook in_heap t K =
     (let task_sem = task_sem_obj (tasks K t);
          K = K\<lparr>g_sched_lock := g_sched_lock K + 1\<rparr>;
          K = (case task_sem of
                 None \<Rightarrow> K
               | Some s \<Rightarrow>
                   let K = fst (krhino_task_sem_del (Some t) K);
                       K = (if in_heap s then K\<lparr>mm_freed := mm_freed K @ [s]\<rparr> else K)
                   in upd_task t (\<lambda>r. r\<lparr>task_sem_obj := None\<rparr>) K)
      in K\<lparr>g_sched_lock := g_sched_lock K - 1\<rparr>)"

text \<open>The \<^verbatim>\<open>switch\<close> of both deletions; \<open>None\<close> is its \<^verbatim>\<open>default\<close> branch.\<close>

definition task_unlink :: "tid \<Rightarrow> kernel \<Rightarrow> kernel option" where
  "task_unlink t K =
     (let del = (\<lambda>r. r\<lparr>task_state := K_DELETED\<rparr>)
      in case tstate K t of
        K_RDY \<Rightarrow> Some (upd_task t del (ready_list_rm t K))
      | K_SUSPENDED \<Rightarrow> Some (upd_task t del K)
      | K_SLEEP \<Rightarrow> Some (upd_task t del (tick_list_rm t K))
      | K_SLEEP_SUSPENDED \<Rightarrow> Some (upd_task t del (tick_list_rm t K))
      | K_PEND \<Rightarrow> Some (mutex_task_pri_reset t (upd_task t del (blk_list_rm t (tick_list_rm t K))))
      | K_PEND_SUSPENDED \<Rightarrow>
          Some (mutex_task_pri_reset t (upd_task t del (blk_list_rm t (tick_list_rm t K))))
      | _ \<Rightarrow> None)"

definition krhino_task_del :: "(oid \<Rightarrow> bool) \<Rightarrow> tid option \<Rightarrow> kernel \<Rightarrow> kernel \<times> kstat_t" where
  "krhino_task_del in_heap tsk K =
     (let (K, t) = reent_reclaim tsk K
      in if g_intrpt_nested_level K > 0 then (K, RHINO_NOT_CALLED_BY_INTRPT)
         else if tprio K t = RHINO_IDLE_PRI then (K, RHINO_TASK_DEL_NOT_ALLOWED)
         else if task_alloc_flag (tasks K t) \<noteq> K_OBJ_STATIC_ALLOC then (K, RHINO_KOBJ_DEL_ERR)
         else if t = g_active_task K \<and> g_sched_lock K > 0 then (K, RHINO_SCHED_DISABLE)
         else
           let K = task_mutex_free t K
           in case task_unlink t K of
                None \<Rightarrow> (K, RHINO_INV_TASK_STATE)
              | Some K \<Rightarrow>
                  let K = upd_kobj (\<lambda>l. l\<lparr>task_head := removeAll t (task_head l)\<rparr>) K;
                      K = krhino_task_del_hook in_heap t K
                  in (core_sched K, RHINO_SUCCESS))"

text \<open>A dynamic task is queued on \<^verbatim>\<open>g_res_list\<close> for the task that frees its stack and its control
  block.\<close>

definition krhino_task_dyn_del :: "(oid \<Rightarrow> bool) \<Rightarrow> tid option \<Rightarrow> kernel \<Rightarrow> kernel \<times> kstat_t" where
  "krhino_task_dyn_del in_heap tsk K =
     (let (K, t) = reent_reclaim tsk K
      in if g_intrpt_nested_level K > 0 then (K, RHINO_NOT_CALLED_BY_INTRPT)
         else if tprio K t = RHINO_IDLE_PRI then (K, RHINO_TASK_DEL_NOT_ALLOWED)
         else if task_alloc_flag (tasks K t) \<noteq> K_OBJ_DYN_ALLOC then (K, RHINO_KOBJ_DEL_ERR)
         else if t = g_active_task K \<and> g_sched_lock K > 0 then (K, RHINO_SCHED_DISABLE)
         else if tstate K t = K_DELETED then (K, RHINO_INV_TASK_STATE)
         else
           let K = K\<lparr>g_sched_lock := g_sched_lock K + 1\<rparr>;
               K = K\<lparr>g_res_list := g_res_list K @ [[stack_base (tasks K t), t]]\<rparr>;
               (K, ret) = krhino_sem_give (Some (g_res_sem K)) K;
               K = K\<lparr>g_sched_lock := g_sched_lock K - 1\<rparr>
           in if ret \<noteq> RHINO_SUCCESS then (k_err_proc RHINO_SYS_SP_ERR K, ret)
              else
                let K = task_mutex_free t K;
                    K = (case task_unlink t K of None \<Rightarrow> K | Some K \<Rightarrow> K);
                    K = upd_kobj (\<lambda>l. l\<lparr>task_head := removeAll t (task_head l)\<rparr>) K;
                    K = krhino_task_del_hook in_heap t K
                in (core_sched K, RHINO_SUCCESS))"

definition krhino_task_cancel :: "tid option \<Rightarrow> kernel \<Rightarrow> kernel \<times> kstat_t" where
  "krhino_task_cancel tsk K =
     (case tsk of
        None \<Rightarrow> (K, RHINO_NULL_PTR)
      | Some t \<Rightarrow> krhino_task_wait_abort (Some t) (upd_task t (\<lambda>r. r\<lparr>cancel := True\<rparr>) K))"

definition krhino_task_cancel_chk :: "kernel \<Rightarrow> bool" where
  "krhino_task_cancel_chk K = cancel (tasks K (krhino_cur_task_get K))"

definition krhino_task_deathbed :: "(oid \<Rightarrow> bool) \<Rightarrow> kernel \<Rightarrow> kernel" where
  "krhino_task_deathbed in_heap K =
     (if task_alloc_flag (tasks K (krhino_cur_task_get K)) = K_OBJ_DYN_ALLOC
      then fst (krhino_task_dyn_del in_heap None K) else fst (krhino_task_del in_heap None K))"

section \<open>Attributes\<close>

definition krhino_task_time_slice_set :: "tid option \<Rightarrow> u32 \<Rightarrow> kernel \<Rightarrow> kernel \<times> kstat_t" where
  "krhino_task_time_slice_set tsk slice_len K =
     (case tsk of
        None \<Rightarrow> (K, RHINO_NULL_PTR)
      | Some t \<Rightarrow>
          if g_intrpt_nested_level K > 0 then (K, RHINO_NOT_CALLED_BY_INTRPT)
          else
            let K = (if slice_len > 0 then upd_task t (\<lambda>r. r\<lparr>time_total := slice_len\<rparr>) K
                     else upd_task t (\<lambda>r. r\<lparr>time_total := RHINO_CONFIG_TIME_SLICE_DEFAULT\<rparr>) K)
            in (upd_task t (\<lambda>r. r\<lparr>rr_slice := time_total r\<rparr>) K, RHINO_SUCCESS))"

text \<open>\<open>None\<close> is a policy value that is none of the three.\<close>

definition krhino_sched_param_set :: "tid option \<Rightarrow> sched_policy_t option \<Rightarrow> nat \<Rightarrow> kernel \<Rightarrow> kernel \<times> kstat_t" where
  "krhino_sched_param_set tsk policy pri K =
     (case tsk of
        None \<Rightarrow> (K, RHINO_NULL_PTR)
      | Some t \<Rightarrow>
          case policy of
            None \<Rightarrow> (K, RHINO_INV_SCHED_WAY)
          | Some pol \<Rightarrow>
              let K = fst (krhino_sched_disable K);
                  K = fst (krhino_task_pri_change (Some t) pri (Some 0) K);
                  K = upd_task t (\<lambda>r. r\<lparr>sched_policy := pol\<rparr>) K;
                  K = fst (krhino_sched_enable K)
              in (K, RHINO_SUCCESS))"

definition krhino_sched_policy_set :: "tid option \<Rightarrow> sched_policy_t option \<Rightarrow> kernel \<Rightarrow> kernel \<times> kstat_t" where
  "krhino_sched_policy_set tsk policy K =
     (case tsk of
        None \<Rightarrow> (K, RHINO_NULL_PTR)
      | Some t \<Rightarrow> krhino_sched_param_set (Some t) policy (tprio K t) K)"

definition krhino_sched_policy_get ::
  "tid option \<Rightarrow> nat option \<Rightarrow> kernel \<Rightarrow> kstat_t \<times> sched_policy_t option" where
  "krhino_sched_policy_get tsk policy K =
     (case (tsk, policy) of
        (Some t, Some _) \<Rightarrow>
          if g_intrpt_nested_level K > 0 then (RHINO_NOT_CALLED_BY_INTRPT, None)
          else (RHINO_SUCCESS, Some (sched_policy (tasks K t)))
      | _ \<Rightarrow> (RHINO_NULL_PTR, None))"

definition krhino_task_info_set :: "tid option \<Rightarrow> nat \<Rightarrow> nat \<Rightarrow> kernel \<Rightarrow> kernel \<times> kstat_t" where
  "krhino_task_info_set tsk idx info K =
     (case tsk of
        None \<Rightarrow> (K, RHINO_NULL_PTR)
      | Some t \<Rightarrow>
          if idx \<ge> RHINO_CONFIG_TASK_INFO_NUM then (K, RHINO_INV_PARAM)
          else (upd_task t (\<lambda>r. r\<lparr>user_info := (user_info r)[idx := info]\<rparr>) K, RHINO_SUCCESS))"

definition krhino_task_info_get ::
  "tid option \<Rightarrow> nat \<Rightarrow> nat option \<Rightarrow> kernel \<Rightarrow> kstat_t \<times> nat option" where
  "krhino_task_info_get tsk idx info K =
     (case (tsk, info) of
        (Some t, Some _) \<Rightarrow>
          if idx \<ge> RHINO_CONFIG_TASK_INFO_NUM then (RHINO_INV_PARAM, None)
          else (RHINO_SUCCESS, Some (user_info (tasks K t) ! idx))
      | _ \<Rightarrow> (RHINO_NULL_PTR, None))"

definition krhino_task_find :: "string \<Rightarrow> kernel \<Rightarrow> tid option" where
  "krhino_task_find name K = find (\<lambda>t. task_name (tasks K t) = name) (task_head (g_kobj_list K))"

section \<open>Creation keeps the invariant\<close>

lemma upd_kobj_glob [simp]:
  "g_sys_stat (upd_kobj f K) = g_sys_stat K" "g_res_sem (upd_kobj f K) = g_res_sem K"
  "g_res_list (upd_kobj f K) = g_res_list K" "mm_freed (upd_kobj f K) = mm_freed K"
  "g_tick_count (upd_kobj f K) = g_tick_count K"
  by (simp_all add: upd_kobj_def)

lemma kinv_register:
  assumes "kinvd d K" shows "kinvd d (upd_kobj (\<lambda>l. l\<lparr>task_head := task_head l @ [t]\<rparr>) K)"
  using assms by (simp add: upd_kobj_def kinvd_def blk_inv_def tick_inv_def placed_def idle_ok_def
      reg_inv_def mutex_inv_def tick_left_def [abs_def])

lemma kinv_unregister:
  assumes "kinvd d K" "\<not> is_live (tstate K t)"
  shows "kinvd d (upd_kobj (\<lambda>l. l\<lparr>task_head := removeAll t (task_head l)\<rparr>) K)"
proof -
  have "reg_inv (upd_kobj (\<lambda>l. l\<lparr>task_head := removeAll t (task_head l)\<rparr>) K)"
    using kinvD(8) [OF assms(1)] assms(2) unfolding reg_inv_def by (auto simp del: is_live.simps)
  with assms(1) show ?thesis by (simp add: upd_kobj_def kinvd_def blk_inv_def tick_inv_def placed_def
      idle_ok_def mutex_inv_def tick_left_def [abs_def])
qed

lemma tick_inv_other:
  assumes "tick_inv d K" "t \<notin> set (g_tick_head K)" shows "tick_inv d (upd_task t f K)"
proof -
  have "sorted_by (tick_left (upd_task t f K)) (g_tick_head K) = sorted_by (tick_left K) (g_tick_head K)"
    by (rule sorted_by_cong) (use assms(2) in \<open>auto simp: tick_left_def\<close>)
  moreover have "\<forall>u\<in>set (g_tick_head K). tick_left (upd_task t f K) u = tick_left K u"
    using assms(2) by (auto simp: tick_left_def)
  ultimately show ?thesis using assms(1) by (simp add: tick_inv_def)
qed

text \<open>A task that does not exist is in no list.\<close>

lemma kinv_dead:
  assumes k: "kinvd d K" and t: "\<not> is_live (tstate K t)"
  shows "t \<notin> set (rqueue K p)" "t \<notin> set (blist K b)" "t \<notin> set (g_tick_head K)" "t \<noteq> g_idle_task K"
  using kinv_ready_iff [OF k, of t p] kinv_blist_iff [OF k, of t b] kinv_tick_state [OF k, of t]
    kinv_idle_state [OF k, of t] t by auto

lemma kinv_new_task:
  assumes k: "kinvd d K" and t: "\<not> is_live (tstate K t)" "t \<in> set (task_head (g_kobj_list K))"
    and r: "prio r < 62" "b_prio r < 62" "sched_policy r \<noteq> KSCHED_CFS"
  shows "task_state r = K_RDY \<Longrightarrow> kinvd d (ready_list_add_tail t (upd_task t (\<lambda>_. r) K))"
    and "task_state r = K_SUSPENDED \<Longrightarrow> suspend_count r \<noteq> 0 \<Longrightarrow> kinvd d (upd_task t (\<lambda>_. r) K)"
proof -
  note dead = kinv_dead [OF k t(1)]
  let ?U = "upd_task t (\<lambda>_. r) K"
  have parts: "blk_inv ?U" "tick_inv d ?U"
    using blk_inv_upd_prio [OF kinvD(4) [OF k]] tick_inv_other [OF kinvD(5) [OF k]] dead by auto
  have m: "mutex_inv ?U" by (rule mutex_inv_shrink [OF k]) auto
  show "kinvd d ?U" if "task_state r = K_SUSPENDED" "suspend_count r \<noteq> 0"
    by (rule kinv_moveI_reg [OF k, where t = t])
      (use dead parts m that r t kinvD(3) [OF k] in \<open>auto simp: placed_def\<close>)
  show "kinvd d (ready_list_add_tail t ?U)" if "task_state r = K_RDY"
  proof (rule kinv_moveI_reg [OF k, where t = t])
    show "rq_inv (g_ready_queue (ready_list_add_tail t ?U))"
      using kinvD(3) [OF k] dead r by (intro rq_inv_add) auto
    show fr: "sched_frame K (ready_list_add_tail t ?U)" by (intro sched_frame_steps) simp
    show "mutex_inv (ready_list_add_tail t ?U)" by (rule mutex_inv_shrink [OF k fr]) auto
    show "placed (ready_list_add_tail t ?U) t" using dead that r by (auto simp: placed_def)
  qed (use dead parts that t in auto)
qed

lemma task_create_ok:
  assumes s: "sys_inv K" and sp: "g_idle_task_spawned K" and pol: "policy \<noteq> KSCHED_CFS"
    and fresh: "\<And>t. tsk = Some t \<Longrightarrow> \<not> is_live (tstate K t)"
    and run: "g_sys_stat K = RHINO_RUNNING"
  shows "sys_inv (fst (task_create tsk name pri ticks sb sz entry autorun fl policy K))"
    and "runs_next K \<Longrightarrow> runs_next (fst (task_create tsk name pri ticks sb sz entry autorun fl policy K))"
proof -
  let ?R = "fst (task_create tsk name pri ticks sb sz entry autorun fl policy K)"
  have main: "sys_inv ?R \<and> (runs_next K \<longrightarrow> runs_next ?R)"
  proof (cases "tsk = None \<or> name = None \<or> entry = None \<or> sb = None \<or> sz = 0 \<or> pri \<ge> 61 \<or>
      g_intrpt_nested_level K > 0")
    case True
    then have "?R = K" using sp by (auto simp: task_create_def split: option.split)
    with s show ?thesis by simp
  next
    case False
    then obtain t nm e b where a: "tsk = Some t" "name = Some nm" "entry = Some e" "sb = Some b" by auto
    have g: "sz \<noteq> 0" "pri < 61" "g_intrpt_nested_level K = 0" using False by (auto simp: word_gt_0)
    let ?K = "upd_kobj (\<lambda>l. l\<lparr>task_head := task_head l @ [t]\<rparr>) (K\<lparr>g_task_id := g_task_id K + 1\<rparr>)"
    let ?r = "task_init nm pri ticks b sz autorun fl policy (g_task_id K + 1)"
    let ?A = "ready_list_add_tail t (upd_task t (\<lambda>_. ?r) ?K)"
    have swap: "upd_kobj f (upd_task t h L) = upd_task t h (upd_kobj f L)" for f h L
      by (simp add: upd_kobj_def upd_task_def)
    have k: "kinv ?K" using sys_invD(1) [OF s] by (intro kinv_register) simp
    have dead: "\<not> is_live (tstate ?K t)" using fresh [OF a(1)] by simp
    have other: "u \<noteq> t" if "tstate K u = K_RDY" for u using fresh [OF a(1)] that by auto
    have r: "prio ?r < 62" "b_prio ?r < 62" "sched_policy ?r \<noteq> KSCHED_CFS"
      "task_state ?r = (if autorun then K_RDY else K_SUSPENDED)" "suspend_count ?r = (if autorun then 0 else 1)"
      using g pol by (simp_all add: task_init_def Let_def)
    note new = kinv_new_task [OF k dead _ r(1-3)]
    show ?thesis
    proof (cases autorun)
      case True
      have eq: "?R = core_sched ?A" using a g run True by (simp add: task_create_def Let_def swap)
      have "kinv ?A" using new(1) r(4) True by simp
      moreover have "mode_frame K ?A" using mode_frame_sched by (simp add: mode_frame_def)
      ultimately show ?thesis
        unfolding eq using finish_sched [OF s, of ?A] other [of "g_active_task K"] by simp
    next
      case False
      have eq: "?R = upd_task t (\<lambda>_. ?r) ?K" using a g False by (simp add: task_create_def Let_def swap)
      have "kinv (upd_task t (\<lambda>_. ?r) ?K)" using new(2) r(4,5) False by simp
      then have "sys_inv (upd_task t (\<lambda>_. ?r) ?K)"
        using s other [of "g_active_task K"] by (auto simp: sys_inv_def act_rdy_def)
      moreover have "runs_next (upd_task t (\<lambda>_. ?r) ?K) = runs_next K"
        by (simp add: runs_next_def is_next_def)
      ultimately show ?thesis by (simp add: eq)
    qed
  qed
  then show "sys_inv ?R" "runs_next K \<Longrightarrow> runs_next ?R" by auto
qed

section \<open>Sleeping, suspending and resuming keep the invariant\<close>

lemma sleep_ok:
  assumes s: "sys_inv K" and i: "g_active_task K \<noteq> g_idle_task K"
  shows "sys_inv (fst (krhino_task_sleep ticks K))"
    and "runs_next K \<Longrightarrow> runs_next (fst (krhino_task_sleep ticks K))"
proof -
  let ?t = "g_active_task K"
  let ?S = "ready_list_rm ?t (tick_list_insert ?t ticks (upd_task ?t (\<lambda>r. r\<lparr>task_state := K_SLEEP\<rparr>) K))"
  have "sys_inv (core_sched ?S) \<and> runs_next (core_sched ?S)"
    if c: "ticks \<noteq> 0" "g_intrpt_nested_level K = 0" "g_sched_lock K = 0"
  proof -
    have "1 \<le> ticks" using c(1) by (simp add: word_one_le)
    note z = kinv_sleep [OF sys_invD(1) [OF s] sys_invD(4) [OF s c(2)] i this]
    have "sched_frame K ?S" by (intro sched_frame_steps) simp
    from finish_sched [OF s z mode_frame_sched [OF this]] c(3) show ?thesis by simp
  qed
  then show "sys_inv (fst (krhino_task_sleep ticks K))"
    "runs_next K \<Longrightarrow> runs_next (fst (krhino_task_sleep ticks K))"
    using s by (auto simp: krhino_task_sleep_def Let_def word_gt_0)
qed

lemma task_suspend_ok:
  assumes s: "sys_inv K" and i: "t \<noteq> g_idle_task K"
  shows "sys_inv (fst (task_suspend t K)) \<and> (runs_next K \<longrightarrow> runs_next (fst (task_suspend t K)))"
proof -
  note k = sys_invD(1) [OF s]
  have fin: "sys_inv (core_sched L) \<and> (runs_next K \<longrightarrow> runs_next (core_sched L))"
    if "kinv L" "g_fault L = g_fault K" "mode_frame K L"
      "g_active_task K = t \<longrightarrow> g_sched_lock K = 0 \<or> tstate L t = tstate K t"
      "\<And>u. u \<noteq> t \<Longrightarrow> tstate L u = tstate K u" for L
    using finish_sched [OF s that(1-3)] that(4) that(5) [of "g_active_task K"]
    by (cases "g_active_task K = t") auto
  have upd: "kinv (upd_task t f K)" if "prio (f (tasks K t)) = tprio K t" "tick_match (f (tasks K t)) = tick_match (tasks K t)"
      "blk_ptr (f (tasks K t)) = blk_ptr (tasks K t)" "b_prio (f (tasks K t)) = b_prio (tasks K t)"
      "sched_policy (f (tasks K t)) = sched_policy (tasks K t)" "suspend_count (f (tasks K t)) \<noteq> 0"
      "tstate K t = K_SLEEP \<and> task_state (f (tasks K t)) = K_SLEEP_SUSPENDED \<or>
       tstate K t = K_PEND \<and> task_state (f (tasks K t)) = K_PEND_SUSPENDED \<or>
       is_susp (tstate K t) \<and> task_state (f (tasks K t)) = tstate K t" for f
    by (rule kinv_upd_task [OF k]) (use that kinv_prio(2,3) [OF k, of t] in auto)
  show ?thesis
  proof (cases "t = g_active_task K \<and> g_sched_lock K > 0")
    case True
    with s show ?thesis by (simp add: task_suspend_def)
  next
    case False
    then have l: "g_active_task K = t \<longrightarrow> g_sched_lock K = 0" by (auto simp: word_gt_0)
    have inc: "c + 1 \<noteq> 0" if "c \<noteq> - 1" for c :: u8 using that by (metis add_eq_0_iff2)
    show ?thesis
    proof (cases "tstate K t")
      case K_RDY
      let ?L = "ready_list_rm t (upd_task t (\<lambda>r. r\<lparr>suspend_count := 1, task_state := K_SUSPENDED\<rparr>) K)"
      have "mode_frame K ?L" by (intro mode_frame_sched sched_frame_steps) simp
      with kinv_suspend_ready [OF k K_RDY i, of 1] fin [of ?L] l False K_RDY s show ?thesis
        by (simp add: task_suspend_def)
    next
      case K_SLEEP
      with upd [of "\<lambda>r. r\<lparr>suspend_count := 1, task_state := K_SLEEP_SUSPENDED\<rparr>"] l False s show ?thesis
        by (simp add: task_suspend_def fin)
    next
      case K_PEND
      with upd [of "\<lambda>r. r\<lparr>suspend_count := 1, task_state := K_PEND_SUSPENDED\<rparr>"] l False s show ?thesis
        by (simp add: task_suspend_def fin)
    qed (use s l False inc upd [of "\<lambda>r. r\<lparr>suspend_count := suspend_count r + 1\<rparr>"] in
        \<open>simp_all add: task_suspend_def fin\<close>)
  qed
qed

lemma task_resume_ok:
  assumes s: "sys_inv K"
  shows "sys_inv (fst (task_resume t K)) \<and> (runs_next K \<longrightarrow> runs_next (fst (task_resume t K)))"
proof -
  note k = sys_invD(1) [OF s]
  let ?d = "\<lambda>r. r\<lparr>suspend_count := suspend_count r - 1\<rparr>"
  have fin: "sys_inv (core_sched L) \<and> (runs_next K \<longrightarrow> runs_next (core_sched L))"
    if "kinv L" "g_fault L = g_fault K" "mode_frame K L" "\<And>u. tstate K u = K_RDY \<Longrightarrow> tstate L u = K_RDY" for L
    using finish_sched [OF s that(1-3)] that(4) [of "g_active_task K"] by auto
  have upd: "kinv (upd_task t f K)" if "prio (f (tasks K t)) = tprio K t" "tick_match (f (tasks K t)) = tick_match (tasks K t)"
      "blk_ptr (f (tasks K t)) = blk_ptr (tasks K t)" "b_prio (f (tasks K t)) = b_prio (tasks K t)"
      "sched_policy (f (tasks K t)) = sched_policy (tasks K t)"
      "tstate K t = K_SLEEP_SUSPENDED \<and> task_state (f (tasks K t)) = K_SLEEP \<or>
       tstate K t = K_PEND_SUSPENDED \<and> task_state (f (tasks K t)) = K_PEND \<or>
       is_susp (tstate K t) \<and> task_state (f (tasks K t)) = tstate K t \<and> suspend_count (f (tasks K t)) \<noteq> 0" for f
    by (rule kinv_upd_task [OF k]) (use that kinv_prio(2,3) [OF k, of t] in auto)
  have two: "upd_task t f (upd_task t g K) = upd_task t (f \<circ> g) K" for f g by (simp add: upd_task_def)
  show ?thesis
  proof (cases "is_susp (tstate K t)")
    case False
    with s show ?thesis by (cases "tstate K t") (simp_all add: task_resume_def Let_def)
  next
    case True
    define L where "L = (if suspend_count (tasks K t) - 1 = 0 then
        (if tstate K t = K_SUSPENDED then ready_list_add t (upd_task t ((\<lambda>r. r\<lparr>task_state := K_RDY\<rparr>) \<circ> ?d) K)
         else if tstate K t = K_SLEEP_SUSPENDED then upd_task t ((\<lambda>r. r\<lparr>task_state := K_SLEEP\<rparr>) \<circ> ?d) K
         else upd_task t ((\<lambda>r. r\<lparr>task_state := K_PEND\<rparr>) \<circ> ?d) K)
      else upd_task t ?d K)"
    have eq: "fst (task_resume t K) = core_sched L"
      using True by (cases "tstate K t") (simp_all add: task_resume_def Let_def L_def two)
    have "kinv L"
      using True upd [of ?d] upd [of "(\<lambda>r. r\<lparr>task_state := K_SLEEP\<rparr>) \<circ> ?d"]
        upd [of "(\<lambda>r. r\<lparr>task_state := K_PEND\<rparr>) \<circ> ?d"]
        kinv_make_ready [OF k, of t "(\<lambda>r. r\<lparr>task_state := K_RDY\<rparr>) \<circ> ?d"]
      by (auto simp: L_def)
    moreover have "g_fault L = g_fault K" by (simp add: L_def)
    moreover have "mode_frame K L"
      by (auto simp: L_def intro!: mode_frame_sched sched_frame_steps)
    moreover have "tstate K u = K_RDY \<Longrightarrow> tstate L u = K_RDY" for u using True by (auto simp: L_def)
    ultimately show ?thesis unfolding eq by (rule fin)
  qed
qed

lemma suspend_resume_ok:
  assumes s: "sys_inv K"
  shows "sys_inv (fst (krhino_task_suspend tsk K))" "runs_next K \<Longrightarrow> runs_next (fst (krhino_task_suspend tsk K))"
    "sys_inv (fst (krhino_task_resume tsk K))" "runs_next K \<Longrightarrow> runs_next (fst (krhino_task_resume tsk K))"
proof -
  have "t \<noteq> g_idle_task K" if "tprio K t \<noteq> 61" for t
    using kinvD(7) [OF sys_invD(1) [OF s]] that by (auto simp: idle_ok_def)
  then show "sys_inv (fst (krhino_task_suspend tsk K))" "runs_next K \<Longrightarrow> runs_next (fst (krhino_task_suspend tsk K))"
    using s task_suspend_ok [OF s] by (auto simp: krhino_task_suspend_def split: option.split)
  show "sys_inv (fst (krhino_task_resume tsk K))" "runs_next K \<Longrightarrow> runs_next (fst (krhino_task_resume tsk K))"
    using s task_resume_ok [OF s] by (auto simp: krhino_task_resume_def split: option.split)
qed

section \<open>Ending a wait, deleting a task\<close>

text \<open>A sleeping or blocked task is taken off its lists and made ready, suspended or not.\<close>

lemma kinv_abort_lists:
  assumes k: "kinvd d K" and t: "is_pend (tstate K t) \<or> is_sleep (tstate K t)"
    and K': "K' = upd_task t (\<lambda>r. r\<lparr>task_state := K_RDY, blk_state := BLK_ABORT\<rparr>)
      (ready_list_add t (blk_list_rm t (tick_list_rm t K)))"
  shows "kinvd d K'" "sched_frame K K'"
proof -
  have nr: "t \<notin> set (rqueue K q)" for q using kinv_ready_iff [OF k, of t q] t by auto
  have pr: "tprio K t < 62" "b_prio (tasks K t) < 62" "sched_policy (tasks K t) \<noteq> KSCHED_CFS"
    using kinv_prio [OF k, of t] t by auto
  show fr: "sched_frame K K'" unfolding K' by (intro sched_frame_steps sched_frame_refl)
  show "kinvd d K'"
  proof (rule kinv_moveI [OF k, where t = t])
    show "placed K' t" using nr pr by (auto simp: placed_def K')
    have "rq_inv (g_ready_queue (ready_list_add t (blk_list_rm t (tick_list_rm t K))))"
      using kinvD(3) [OF k] nr pr by (intro rq_inv_add) auto
    then show "rq_inv (g_ready_queue K')" by (simp add: K')
    show "blk_inv K'" using kinvD(4) [OF k] by (simp add: K' blk_inv_blk_list_rm)
    show "tick_inv d K'" using kinvD(5) [OF k] by (simp add: K' tick_inv_rm)
    show "mutex_inv K'" by (rule mutex_inv_shrink [OF k fr]) (auto simp: K')
    show "t \<noteq> g_idle_task K \<or> tstate K' t = K_RDY \<and> tprio K' t = tprio K t" by (simp add: K')
  qed (use fr t in \<open>auto simp: K'\<close>)
qed

lemma wait_abort_ok:
  assumes s: "sys_inv K"
  shows "sys_inv (fst (krhino_task_wait_abort tsk K))"
    and "runs_next K \<Longrightarrow> runs_next (fst (krhino_task_wait_abort tsk K))"
proof -
  note k = sys_invD(1) [OF s]
  have fin: "sys_inv (core_sched L) \<and> runs_next (core_sched L)"
    if "kinv L" "g_fault L = g_fault K" "sched_frame K L" "\<And>u. tstate K u = K_RDY \<Longrightarrow> tstate L u = K_RDY" for L
    using finish_sched [OF s that(1,2) mode_frame_sched [OF that(3)]] that(4) [of "g_active_task K"] by auto
  have main: "fst (krhino_task_wait_abort (Some t) K) = K \<or>
      sys_inv (fst (krhino_task_wait_abort (Some t) K)) \<and> runs_next (fst (krhino_task_wait_abort (Some t) K))" for t
  proof (cases "g_intrpt_nested_level K > 0")
    case False
    let ?A = "upd_task t (\<lambda>r. r\<lparr>task_state := K_RDY, blk_state := BLK_ABORT\<rparr>)
      (ready_list_add t (blk_list_rm t (tick_list_rm t K)))"
    consider (rdy) "tstate K t = K_RDY" | (susp) "tstate K t = K_SUSPENDED" | (slp) "is_sleep (tstate K t)"
      | (pnd) "is_pend (tstate K t)" | (dead) "\<not> is_live (tstate K t)"
      by (cases "tstate K t") auto
    then show ?thesis
    proof cases
      case rdy
      with False fin [of K] k show ?thesis by (simp add: krhino_task_wait_abort_def)
    next
      case susp
      let ?L = "ready_list_add t (upd_task t (\<lambda>r. r\<lparr>task_state := K_RDY\<rparr>) K)"
      have "kinv ?L" by (rule kinv_make_ready [OF k susp]) simp_all
      moreover have "sched_frame K ?L" by (intro sched_frame_steps) simp
      ultimately show ?thesis using False susp fin [of ?L] by (simp add: krhino_task_wait_abort_def)
    next
      case slp
      note a = kinv_abort_lists [OF k disjI2 [OF slp] refl]
      have "t \<notin> set (blist K b)" for b using kinv_blist_iff [OF k, of t b] slp by auto
      then have "blk_list_rm t (tick_list_rm t K) = tick_list_rm t K"
        by (simp add: blk_list_rm_def fun_eq_iff)
      with False slp have eq: "fst (krhino_task_wait_abort (Some t) K) = core_sched ?A"
        by (auto simp: krhino_task_wait_abort_def Let_def)
      show ?thesis unfolding eq by (rule disjI2, rule fin [OF a(1) _ a(2)]) (use slp in auto)
    next
      case pnd
      note a = kinv_abort_lists [OF k disjI1 [OF pnd] refl]
      have r: "kinv (mutex_task_pri_reset t ?A)" "prio_frame ?A (mutex_task_pri_reset t ?A)"
        "g_fault (mutex_task_pri_reset t ?A) = g_fault ?A"
        "kinv (upd_task t (\<lambda>r. r\<lparr>blk_ptr := None\<rparr>) (mutex_task_pri_reset t ?A))"
        by (rule end_wait_reset [OF k pnd a(1)]; simp)+
      let ?L = "upd_task t (\<lambda>r. r\<lparr>blk_ptr := None\<rparr>) (mutex_task_pri_reset t ?A)"
      have eq: "fst (krhino_task_wait_abort (Some t) K) = core_sched ?L"
        using False pnd by (auto simp: krhino_task_wait_abort_def Let_def)
      show ?thesis
        unfolding eq
      proof (rule disjI2, rule fin [OF r(4)])
        show "g_fault ?L = g_fault K" using r(3) by simp
        show "sched_frame K ?L"
          by (intro sched_frame_steps sched_frame_trans [OF a(2) prio_frame_glob(2) [OF r(2)]])
        show "tstate ?L u = K_RDY" if "tstate K u = K_RDY" for u
          using that by (simp add: prio_frame_task(1) [OF r(2)])
      qed
    qed (cases "tstate K t"; simp add: krhino_task_wait_abort_def)
  qed (simp add: krhino_task_wait_abort_def)
  have none: "fst (krhino_task_wait_abort None K) = K" by (simp add: krhino_task_wait_abort_def)
  show "sys_inv (fst (krhino_task_wait_abort tsk K))"
    using s none main by (cases tsk) (simp, metis)
  show "runs_next K \<Longrightarrow> runs_next (fst (krhino_task_wait_abort tsk K))"
    using none main by (cases tsk) (simp, metis)
qed

lemma cancel_ok:
  assumes s: "sys_inv K"
  shows "sys_inv (fst (krhino_task_cancel tsk K))"
    and "runs_next K \<Longrightarrow> runs_next (fst (krhino_task_cancel tsk K))"
proof -
  have "sys_inv (upd_task t (\<lambda>r. r\<lparr>cancel := True\<rparr>) K)" for t by (rule sys_upd_task [OF s]) simp_all
  then show "sys_inv (fst (krhino_task_cancel tsk K))"
    "runs_next K \<Longrightarrow> runs_next (fst (krhino_task_cancel tsk K))"
    using s wait_abort_ok by (auto simp: krhino_task_cancel_def split: option.split)
qed

lemma task_unlink_ok:
  assumes k: "kinvd d K" and i: "t \<noteq> g_idle_task K" and u: "task_unlink t K = Some K'"
  shows "kinvd d K'" "g_fault K' = g_fault K" "sched_frame K K'"
    "tstate K' v = (if v = t then K_DELETED else tstate K v)"
proof -
  let ?del = "\<lambda>r. r\<lparr>task_state := K_DELETED\<rparr>"
  let ?P = "upd_task t ?del (blk_list_rm t (tick_list_rm t K))"
  let ?R = "upd_task t ?del (ready_list_rm t K)"
  have lists: "kinvd d ?P \<and> sched_frame K ?P" if t: "tstate K t \<noteq> K_RDY"
  proof -
    have nr: "t \<notin> set (rqueue K q)" for q using kinv_ready_iff [OF k, of t q] t by auto
    have fr: "sched_frame K ?P" by (intro sched_frame_steps sched_frame_refl)
    have "kinvd d ?P"
    proof (rule kinv_moveI [OF k, where t = t])
      show "placed ?P t" using nr by (auto simp: placed_def)
      show "blk_inv ?P" using kinvD(4) [OF k] by (simp add: blk_inv_blk_list_rm)
      show "tick_inv d ?P" using kinvD(5) [OF k] by (simp add: tick_inv_rm)
      show "mutex_inv ?P" by (rule mutex_inv_shrink [OF k fr]) auto
    qed (use fr kinvD(3) [OF k] i in auto)
    with fr show ?thesis by simp
  qed
  have off: "blk_list_rm t (tick_list_rm t K) = tick_list_rm t K" if "\<not> is_pend (tstate K t)"
    using that kinv_blist_iff [OF k, of t] by (simp add: blk_list_rm_def fun_eq_iff del: is_pend.simps)
  have off2: "tick_list_rm t K = K" if "tstate K t = K_SUSPENDED"
    using that kinv_tick_state [OF k, of t] by (cases "t \<in> set (g_tick_head K)") (auto simp: tick_list_rm_def)
  have rdy: "kinvd d ?R \<and> sched_frame K ?R \<and> g_fault ?R = g_fault K" if t: "tstate K t = K_RDY"
  proof -
    note v = rq_inv_rm_ready [OF k t i, of K]
    have nb: "t \<notin> set (blist K b)" "t \<notin> set (g_tick_head K)" for b
      using kinv_blist_iff [OF k, of t b] kinv_tick_state [OF k, of t] t by auto
    have fr: "sched_frame K ?R" by (intro sched_frame_steps sched_frame_refl)
    have "kinvd d ?R"
    proof (rule kinv_moveI [OF k, where t = t])
      show "placed ?R t" using nb v(3) kinv_ready_iff [OF k, of t] by (auto simp: placed_def)
      show "rq_inv (g_ready_queue ?R)" using v(1) by simp
      show "mutex_inv ?R" by (rule mutex_inv_shrink [OF k fr]) auto
    qed (use fr kinvD(4,5) [OF k] i v(3) in auto)
    with fr v(2) show ?thesis by simp
  qed
  have pnd: "kinvd d K' \<and> g_fault K' = g_fault K \<and> sched_frame K K' \<and>
      tstate K' v = (if v = t then K_DELETED else tstate K v)" if p: "is_pend (tstate K t)"
  proof -
    have t: "tstate K t \<noteq> K_RDY" using p by auto
    have eq: "K' = mutex_task_pri_reset t ?P" using u p by (auto simp: task_unlink_def)
    have r: "kinvd d (mutex_task_pri_reset t ?P)" "prio_frame ?P (mutex_task_pri_reset t ?P)"
      "g_fault (mutex_task_pri_reset t ?P) = g_fault ?P"
      by (rule end_wait_reset [OF k p conjunct1 [OF lists [OF t]]]; simp)+
    have "sched_frame K (mutex_task_pri_reset t ?P)"
      using sched_frame_trans [OF conjunct2 [OF lists [OF t]] prio_frame_glob(2) [OF r(2)]] .
    with r prio_frame_task(1) [OF r(2)] show ?thesis by (simp add: eq)
  qed
  have "kinvd d K' \<and> g_fault K' = g_fault K \<and> sched_frame K K' \<and>
      tstate K' v = (if v = t then K_DELETED else tstate K v)"
  proof (cases "tstate K t")
    case K_RDY
    with u have "K' = ?R" by (simp add: task_unlink_def)
    with rdy [OF K_RDY] show ?thesis by simp
  next
    case K_SUSPENDED
    with u off off2 have "K' = ?P" by (simp add: task_unlink_def)
    with lists K_SUSPENDED show ?thesis by simp
  next
    case K_SLEEP
    with u off have "K' = ?P" by (simp add: task_unlink_def)
    with lists K_SLEEP show ?thesis by simp
  next
    case K_SLEEP_SUSPENDED
    with u off have "K' = ?P" by (simp add: task_unlink_def)
    with lists K_SLEEP_SUSPENDED show ?thesis by simp
  qed (use pnd u in \<open>auto simp: task_unlink_def\<close>)
  then show "kinvd d K'" "g_fault K' = g_fault K" "sched_frame K K'"
    "tstate K' v = (if v = t then K_DELETED else tstate K v)" by auto
qed

text \<open>What a step of a deletion must not disturb: the mode of the system and the ready tasks.\<close>

definition calm :: "kernel \<Rightarrow> kernel \<Rightarrow> bool" where
  "calm K K' \<longleftrightarrow> mode_frame K K' \<and> g_fault K' = g_fault K \<and> g_idle_task K' = g_idle_task K \<and>
     task_head (g_kobj_list K') = task_head (g_kobj_list K) \<and>
     (\<forall>u. tstate K u = K_RDY \<longrightarrow> tstate K' u = K_RDY) \<and>
     (\<forall>u. \<not> is_pend (tstate K u) \<longrightarrow> tstate K' u = tstate K u)"

lemma calm_trans: "calm A B \<Longrightarrow> calm B C \<Longrightarrow> calm A C"
  by (auto simp: calm_def mode_frame_def)

lemma calm_refl [simp]: "calm K K"
  by (simp add: calm_def)

lemma calm_upd_task:
  "(\<And>r. task_state (f r) = task_state r) \<Longrightarrow> calm A (upd_task t f B) \<longleftrightarrow> calm A B"
  by (auto simp: calm_def)

lemma mutex_free_walk_ok:
  "kinvd d K \<Longrightarrow> kinvd d (mutex_free_walk ms K) \<and> calm K (mutex_free_walk ms K) \<and>
     (\<forall>u. is_live (tstate (mutex_free_walk ms K) u) = is_live (tstate K u))"
proof (induction ms arbitrary: K)
  case (Cons m ms)
  note k = Cons.prems
  show ?case
  proof (cases "blist K m")
    case Nil
    let ?L = "upd_mutex m (\<lambda>r. r\<lparr>mutex_task := None\<rparr>) K"
    have "kinvd d ?L" by (rule kinv_upd_mutex [OF k]) (use Nil in auto)
    moreover have "calm K ?L" by (simp add: calm_def)
    ultimately show ?thesis using Cons.IH [of ?L] Nil calm_trans [of K ?L] by (simp del: is_live.simps)
  next
    case (Cons t ts)
    then have t: "t \<in> set (blist K m)" by simp
    note one = wakeup.end_one [OF k t]
    let ?W = "pend_task_wakeup t K"
    have fr: "sched_frame K ?W" by simp
    have ti: "t \<noteq> g_idle_task ?W"
      using kinv_idle_state [OF k, of t] one(2) sched_frameD(5) [OF fr] by auto
    let ?M = "upd_mutex m (\<lambda>r. r\<lparr>mutex_task := Some t, mutex_next := mutex_ptr (tasks ?W t)\<rparr>) ?W"
    let ?L = "upd_task t (\<lambda>r. r\<lparr>mutex_ptr := Some m\<rparr>) ?M"
    have "kinvd d ?M" by (rule kinv_upd_mutex [OF one(1)]) (use ti in auto)
    then have "kinvd d ?L" by (rule kinv_upd_aux) simp_all
    moreover have "calm K ?L"
      using mode_frame_sched [OF fr] one(2,4,5) sched_frameD(5,10) [OF fr]
      by (auto simp: calm_def wakeup_view [OF one(2)])
    moreover have "is_live (tstate ?L u) = is_live (tstate K u)" for u
      using one(2) by (auto simp: wakeup_view [OF one(2)])
    ultimately show ?thesis
      using Cons.IH [of ?L] Cons calm_trans [of K ?L] by (simp add: Let_def del: is_live.simps)
  qed
qed simp

lemma core_sched_locked: "g_sched_lock K > 0 \<Longrightarrow> core_sched K = K"
  by (simp add: core_sched_def)

lemma sem_del_locked:
  assumes k: "kinv K" and l: "g_sched_lock K > 0"
  shows "kinv (fst (krhino_sem_del sem K)) \<and> calm K (fst (krhino_sem_del sem K))"
proof (cases "fst (krhino_sem_del sem K) = K")
  case False
  then obtain s where s: "sem = Some s" by (cases sem) (auto simp: krhino_sem_del_def)
  let ?T = "upd_blk s (\<lambda>o'. o'\<lparr>obj_type := RHINO_OBJ_TYPE_NONE\<rparr>) K"
  let ?L = "upd_kobj (\<lambda>l. l\<lparr>sem_head := removeAll s (sem_head l)\<rparr>) (pend_rm_all s ?T)"
  have kT: "kinv ?T" by (rule kinv_del_type [OF k])
  note d = waitdel.drain_ok [OF kT, of s, folded pend_rm_all_def]
  have fr: "sched_frame K (pend_rm_all s ?T)" using sched_frame_trans [OF _ d(3)] by simp
  have "g_sched_lock ?L > 0" using sched_frameD(2) [OF fr] l by simp
  then have eq: "fst (krhino_sem_del sem K) = ?L"
    using False by (auto simp: krhino_sem_del_def s Let_def core_sched_locked split: if_splits)
  have kL: "kinv ?L" by (rule kinv_kobj [OF d(1)]) simp
  have "tstate ?L u = K_RDY" if "tstate K u = K_RDY" for u
    using waitdel.drain_ready [OF kT, of u s] that by (simp add: pend_rm_all_def)
  moreover have "tstate ?L u = tstate K u" if "\<not> is_pend (tstate K u)" for u
    using that d(7) [of u] kinv_blist_iff [OF kT, of u s] by (auto simp: pend_rm_all_def)
  ultimately have "calm K ?L"
    using d(2) mode_frame_sched [OF fr] sched_frameD(5,10) [OF fr] by (simp add: calm_def)
  with kL show ?thesis by (simp add: eq)
qed (use k in simp)

lemma del_hook_ok:
  assumes k: "kinv K" and l: "g_sched_lock K \<noteq> - 1"
  shows "kinv (krhino_task_del_hook in_heap t K) \<and> calm K (krhino_task_del_hook in_heap t K)"
proof -
  let ?A = "K\<lparr>g_sched_lock := g_sched_lock K + 1\<rparr>"
  have A: "kinv ?A" "g_sched_lock ?A > 0" using k l by (auto simp: word_gt_0 add_eq_0_iff2)
  define B where "B = (case task_sem_obj (tasks K t) of None \<Rightarrow> ?A | Some s \<Rightarrow>
    let K = fst (krhino_task_sem_del (Some t) ?A);
        K = (if in_heap s then K\<lparr>mm_freed := mm_freed K @ [s]\<rparr> else K)
    in upd_task t (\<lambda>r. r\<lparr>task_sem_obj := None\<rparr>) K)"
  have eq: "krhino_task_del_hook in_heap t K = B\<lparr>g_sched_lock := g_sched_lock B - 1\<rparr>"
    by (simp add: krhino_task_del_hook_def Let_def B_def)
  have "kinv B \<and> calm ?A B"
  proof (cases "task_sem_obj (tasks K t)")
    case (Some s)
    let ?S = "fst (krhino_sem_del (Some s) ?A)"
    have S: "kinv ?S" "calm ?A ?S" using sem_del_locked [OF A] by auto
    let ?F = "if in_heap s then ?S\<lparr>mm_freed := mm_freed ?S @ [s]\<rparr> else ?S"
    have F: "kinv ?F" "calm ?A ?F" using S by (auto simp: calm_def)
    then have "kinv (upd_task t (\<lambda>r. r\<lparr>task_sem_obj := None\<rparr>) ?F)" by (intro kinv_upd_aux) simp_all
    moreover have "calm ?A (upd_task t (\<lambda>r. r\<lparr>task_sem_obj := None\<rparr>) ?F)"
      using F(2) by (simp add: calm_upd_task)
    ultimately show ?thesis by (simp add: B_def Some krhino_task_sem_del_def Let_def)
  qed (use A in \<open>simp add: B_def\<close>)
  then show ?thesis by (simp add: eq calm_def mode_frame_def)
qed

lemma reent_ok:
  assumes s: "sys_inv K" and r: "reent_reclaim tsk K = (K', t)"
  shows "sys_inv K'" "runs_next K \<Longrightarrow> runs_next K'" "g_sched_lock K \<noteq> - 1 \<Longrightarrow> g_sched_lock K' \<noteq> - 1"
    "tstate K' u = tstate K u" "t = (case tsk of None \<Rightarrow> g_active_task K | Some t \<Rightarrow> t)"
    "g_intrpt_nested_level K' = g_intrpt_nested_level K"
proof -
  define A where "A = fst (krhino_sched_disable K)"
  have A: "sys_inv A" "runs_next K \<Longrightarrow> runs_next A" "tasks A = tasks K" "g_active_task A = g_active_task K"
    "g_intrpt_nested_level A = g_intrpt_nested_level K"
    using sched_disable_ok [OF s] by (auto simp: A_def krhino_sched_disable_def)
  show t: "t = (case tsk of None \<Rightarrow> g_active_task K | Some t \<Rightarrow> t)"
    using r A(4) by (cases tsk) (simp_all add: reent_reclaim_def Let_def A_def)
  define B where "B = (case newlibc_reent (tasks A t) of None \<Rightarrow> A
    | Some r \<Rightarrow> upd_task t (\<lambda>r. r\<lparr>newlibc_reent := None\<rparr>) (A\<lparr>mm_freed := mm_freed A @ [r]\<rparr>))"
  have "sys_inv (upd_task t (\<lambda>r. r\<lparr>newlibc_reent := None\<rparr>) (A\<lparr>mm_freed := x\<rparr>))" for x
    by (rule sys_upd_task) (simp_all add: A(1))
  then have B: "sys_inv B" "runs_next K \<Longrightarrow> runs_next B" "tstate B u = tstate A u"
    "g_intrpt_nested_level B = g_intrpt_nested_level A" "g_sched_lock B = g_sched_lock A" for u
    using A by (auto simp: B_def split: option.split)
  have K': "K' = fst (krhino_sched_enable B)"
    using r t A(4) by (simp add: reent_reclaim_def Let_def A_def B_def split: option.splits)
  show "tstate K' u = tstate K u" "g_intrpt_nested_level K' = g_intrpt_nested_level K"
    using B A by (auto simp: K' krhino_sched_enable_def Let_def)
  show "g_sched_lock K' \<noteq> - 1" if l: "g_sched_lock K \<noteq> - 1"
  proof -
    have "g_sched_lock K' \<in> {g_sched_lock K, g_sched_lock K - 1}"  "g_sched_lock K = 0 \<longrightarrow> g_sched_lock K' = 0"
      using B(4,5) A(5) l add_eq_0_iff2 [of "g_sched_lock K" 1]
      by (auto simp: K' krhino_sched_enable_def Let_def A_def krhino_sched_disable_def)
    moreover have "g_sched_lock K - 1 \<noteq> - 1" if "g_sched_lock K \<noteq> 0" using that by simp
    ultimately show ?thesis using l by (cases "g_sched_lock K = 0") auto
  qed
  show "sys_inv K'" "runs_next K \<Longrightarrow> runs_next K'"
  proof -
    have int: "K' = B" if "g_intrpt_nested_level K > 0"
      using that A(5) B(4) by (simp add: K' krhino_sched_enable_def)
    show "sys_inv K'" "runs_next K \<Longrightarrow> runs_next K'"
      using int B sched_enable_ok [OF B(1)] A(5)
      by (cases "g_intrpt_nested_level K > 0"; auto simp: K' word_gt_0)+
  qed
qed

text \<open>The common end of both deletions: off the lists, out of the register, the hook, reschedule.\<close>

lemma del_end:
  fixes in_heap :: "oid \<Rightarrow> bool"
  assumes k: "kinv K" and f: "\<not> g_fault K" and i: "t \<noteq> g_idle_task K" and l: "g_sched_lock K \<noteq> - 1"
    and a: "g_sched_lock K > 0 \<Longrightarrow> tstate K (g_active_task K) = K_RDY \<and> t \<noteq> g_active_task K"
    and U: "U = (case task_unlink t K of None \<Rightarrow> K | Some K \<Rightarrow> K)"
  defines "R \<equiv> core_sched (krhino_task_del_hook in_heap t
    (upd_kobj (\<lambda>l. l\<lparr>task_head := removeAll t (task_head l)\<rparr>) U))"
  shows "sys_inv R" "runs_next R" "\<not> is_live (tstate R t)" "t \<notin> set (task_head (g_kobj_list R))"
    "task_unlink t K \<noteq> None \<Longrightarrow> tstate R t = K_DELETED"
proof -
  have u: "kinv U \<and> mode_frame K U \<and> g_fault U = g_fault K \<and> \<not> is_live (tstate U t) \<and>
      (\<forall>v. v \<noteq> t \<longrightarrow> tstate U v = tstate K v) \<and> (task_unlink t K \<noteq> None \<longrightarrow> tstate U t = K_DELETED)"
  proof (cases "task_unlink t K")
    case None
    then have "\<not> is_live (tstate K t)" by (cases "tstate K t") (auto simp: task_unlink_def)
    with None k show ?thesis by (simp add: U)
  next
    case (Some K')
    from task_unlink_ok [OF k i Some] mode_frame_sched Some show ?thesis by (auto simp: U)
  qed
  let ?V = "upd_kobj (\<lambda>l. l\<lparr>task_head := removeAll t (task_head l)\<rparr>) U"
  have V: "kinv ?V" "g_sched_lock ?V \<noteq> - 1" using u l kinv_unregister by (auto simp: mode_frame_def)
  note h = del_hook_ok [OF V, of in_heap t]
  have fH: "\<not> g_fault (krhino_task_del_hook in_heap t ?V)" using h u f by (simp add: calm_def)
  have "tstate (krhino_task_del_hook in_heap t ?V) (g_active_task (krhino_task_del_hook in_heap t ?V)) = K_RDY"
    if "g_sched_lock (krhino_task_del_hook in_heap t ?V) > 0"
    using that h u a by (auto simp: calm_def mode_frame_def)
  from core_sched_ok [OF conjunct1 [OF h] fH this] show "sys_inv R" "runs_next R" by (simp_all add: R_def)
  have "\<not> is_pend (tstate U t)" using u by (cases "tstate U t") auto
  then have gone: "tstate R t = tstate U t" using h by (simp add: R_def calm_def)
  show "\<not> is_live (tstate R t)" "task_unlink t K \<noteq> None \<Longrightarrow> tstate R t = K_DELETED"
    using gone u by (simp_all del: is_live.simps)
  show "t \<notin> set (task_head (g_kobj_list R))" using h by (simp add: R_def calm_def)
qed

lemma task_del_end:
  fixes in_heap :: "oid \<Rightarrow> bool"
  assumes s: "sys_inv A" and l: "g_sched_lock A \<noteq> - 1" and i: "t \<noteq> g_idle_task A"
    and na: "\<not> (t = g_active_task A \<and> g_sched_lock A > 0)" and z: "g_intrpt_nested_level A = 0"
    and U: "task_unlink t (task_mutex_free t A) = Some U"
  defines "R \<equiv> core_sched (krhino_task_del_hook in_heap t
    (upd_kobj (\<lambda>l. l\<lparr>task_head := removeAll t (task_head l)\<rparr>) U))"
  shows "sys_inv R" "runs_next R" "tstate R t = K_DELETED" "t \<notin> set (task_head (g_kobj_list R))"
proof -
  let ?M = "task_mutex_free t A"
  have M: "kinv ?M" "calm A ?M" using mutex_free_walk_ok [OF sys_invD(1) [OF s]]
    by (simp_all add: task_mutex_free_def)
  have 1: "\<not> g_fault ?M" "t \<noteq> g_idle_task ?M" "g_sched_lock ?M \<noteq> - 1"
    using M(2) sys_invD(2) [OF s] i l by (simp_all add: calm_def mode_frame_def)
  have 2: "tstate ?M (g_active_task ?M) = K_RDY \<and> t \<noteq> g_active_task ?M" if "g_sched_lock ?M > 0"
    using that sys_invD(4) [OF s z] na M(2) by (auto simp: calm_def mode_frame_def)
  from del_end [OF M(1) 1 2, of U] U show "sys_inv R" "runs_next R" "tstate R t = K_DELETED"
    "t \<notin> set (task_head (g_kobj_list R))" by (simp_all add: R_def)
qed

lemma task_del_ok:
  assumes s: "sys_inv K" and l: "g_sched_lock K \<noteq> - 1"
  shows "sys_inv (fst (krhino_task_del in_heap tsk K))"
    and "runs_next K \<Longrightarrow> (\<And>t. tsk = Some t \<Longrightarrow> is_live (tstate K t)) \<Longrightarrow>
      runs_next (fst (krhino_task_del in_heap tsk K))"
proof -
  obtain A t where r: "reent_reclaim tsk K = (A, t)" by (cases "reent_reclaim tsk K")
  note A = reent_ok [OF s r]
  define R where "R = fst (krhino_task_del in_heap tsk K)"
  let ?M = "task_mutex_free t A"
  let ?E = "\<lambda>U. core_sched (krhino_task_del_hook in_heap t
    (upd_kobj (\<lambda>l. l\<lparr>task_head := removeAll t (task_head l)\<rparr>) U))"
  have M: "kinv ?M" "calm A ?M" using mutex_free_walk_ok [OF sys_invD(1) [OF A(1)]]
    by (simp_all add: task_mutex_free_def)
  have cases: "R = A \<or> (t \<noteq> g_idle_task A \<and> \<not> (t = g_active_task A \<and> g_sched_lock A > 0) \<and>
      g_intrpt_nested_level A = 0 \<and>
      (task_unlink t ?M = None \<and> R = ?M \<or> (\<exists>U. task_unlink t ?M = Some U \<and> R = ?E U)))"
  proof (cases "g_intrpt_nested_level A > 0 \<or> tprio A t = 61 \<or>
      task_alloc_flag (tasks A t) \<noteq> K_OBJ_STATIC_ALLOC \<or> t = g_active_task A \<and> g_sched_lock A > 0")
    case True
    then have "R = A" unfolding R_def krhino_task_del_def r Let_def prod.case by (elim disjE) simp_all
    then show ?thesis by simp
  next
    case False
    moreover have "t \<noteq> g_idle_task A"
      using kinvD(7) [OF sys_invD(1) [OF A(1)]] False by (auto simp: idle_ok_def)
    ultimately show ?thesis unfolding R_def krhino_task_del_def r Let_def prod.case
      by (cases "task_unlink t ?M") (auto simp: word_gt_0)
  qed
  have act: "tstate ?M (g_active_task ?M) = K_RDY" if "g_intrpt_nested_level A = 0"
    using M(2) sys_invD(4) [OF A(1) that] by (auto simp: calm_def mode_frame_def)
  have fin: "sys_inv (?E U) \<and> runs_next (?E U)" if "task_unlink t ?M = Some U" "t \<noteq> g_idle_task A"
    "\<not> (t = g_active_task A \<and> g_sched_lock A > 0)" "g_intrpt_nested_level A = 0" for U
    using task_del_end [OF A(1) A(3) [OF l] that(2,3,4,1)] by blast
  have sM: "sys_inv ?M" if "g_intrpt_nested_level A = 0"
    using M sys_invD [OF A(1)] act [OF that] by (simp add: sys_inv_def act_rdy_def calm_def)
  show "sys_inv (fst (krhino_task_del in_heap tsk K))"
    using cases A(1) sM fin unfolding R_def [symmetric] by blast
  show "runs_next (fst (krhino_task_del in_heap tsk K))"
    if n: "runs_next K" and live: "\<And>t. tsk = Some t \<Longrightarrow> is_live (tstate K t)"
  proof -
    have "task_unlink t ?M \<noteq> None" if z: "g_intrpt_nested_level A = 0"
    proof -
      have "is_live (tstate A t)"
        using A(4,5) live sys_invD(4) [OF s] z A(6) by (cases tsk) auto
      then have "is_live (tstate ?M t)"
        using mutex_free_walk_ok [OF sys_invD(1) [OF A(1)]] by (simp add: task_mutex_free_def del: is_live.simps)
      then show ?thesis by (cases "tstate ?M t") (auto simp: task_unlink_def)
    qed
    with cases A(2) [OF n] fin show ?thesis unfolding R_def [symmetric] by blast
  qed
qed

lemma sem_give_locked:
  assumes s: "sys_inv K" and l: "g_sched_lock K > 0"
  shows "calm K (fst (krhino_sem_give sem K))"
proof -
  have "calm K (pend_task_wakeup t K)" if "t \<in> set (blist K b)" for t b
    using wakeup.end_one [OF sys_invD(1) [OF s] that] mode_frame_sched [OF sched_frame_pend(1)]
      sched_frameD(5,10) [OF sched_frame_pend(1)]
    by (auto simp: calm_def wakeup_view(1) [OF wakeup.end_one(2) [OF sys_invD(1) [OF s] that]])
  moreover have "core_sched (pend_task_wakeup t K) = pend_task_wakeup t K" for t
    using sched_frameD(2) [OF sched_frame_pend(1)] l by (simp add: core_sched_locked)
  moreover have "calm K (upd_sem b f L) = calm K L" for b f L by (simp add: calm_def upd_sem_def)
  ultimately show ?thesis
    by (auto simp: krhino_sem_give_def sem_give_def Let_def split: option.split list.split)
      (metis list.set_intros(1))+
qed

lemma task_dyn_del_ok:
  assumes s: "sys_inv K" and l: "g_sched_lock K \<noteq> - 1"
  shows "sys_inv (fst (krhino_task_dyn_del in_heap tsk K))"
    and "runs_next K \<Longrightarrow> runs_next (fst (krhino_task_dyn_del in_heap tsk K))"
proof -
  obtain A t where r: "reent_reclaim tsk K = (A, t)" by (cases "reent_reclaim tsk K")
  note A = reent_ok [OF s r]
  define R where "R = fst (krhino_task_dyn_del in_heap tsk K)"
  define A1 where "A1 = A\<lparr>g_sched_lock := g_sched_lock A + 1\<rparr>"
  define L where "L = A1\<lparr>g_res_list := g_res_list A1 @ [[stack_base (tasks A1 t), t]]\<rparr>"
  define G where "G = fst (krhino_sem_give (Some (g_res_sem L)) L)"
  define B where "B = G\<lparr>g_sched_lock := g_sched_lock G - 1\<rparr>"
  let ?M = "task_mutex_free t B"
  define U where "U = (case task_unlink t ?M of None \<Rightarrow> ?M | Some K \<Rightarrow> K)"
  let ?E = "core_sched (krhino_task_del_hook in_heap t
    (upd_kobj (\<lambda>l. l\<lparr>task_head := removeAll t (task_head l)\<rparr>) U))"
  have cases: "R = A \<or> (t \<noteq> g_idle_task A \<and> \<not> (t = g_active_task A \<and> g_sched_lock A > 0) \<and>
      g_intrpt_nested_level A = 0 \<and> (R = k_err_proc RHINO_SYS_SP_ERR B \<and>
        snd (krhino_sem_give (Some (g_res_sem L)) L) \<noteq> RHINO_SUCCESS \<or> R = ?E))"
  proof (cases "g_intrpt_nested_level A > 0 \<or> tprio A t = 61 \<or>
      task_alloc_flag (tasks A t) \<noteq> K_OBJ_DYN_ALLOC \<or> t = g_active_task A \<and> g_sched_lock A > 0 \<or>
      tstate A t = K_DELETED")
    case True
    then have "R = A" unfolding R_def krhino_task_dyn_del_def r Let_def prod.case by (elim disjE) simp_all
    then show ?thesis by simp
  next
    case False
    moreover have "t \<noteq> g_idle_task A"
      using kinvD(7) [OF sys_invD(1) [OF A(1)]] False by (auto simp: idle_ok_def)
    moreover have f: "\<not> (g_intrpt_nested_level A > 0)" "tprio A t \<noteq> RHINO_IDLE_PRI"
      "\<not> task_alloc_flag (tasks A t) \<noteq> K_OBJ_DYN_ALLOC" "\<not> (t = g_active_task A \<and> g_sched_lock A > 0)"
      "tstate A t \<noteq> K_DELETED" using False by auto
    have "R = (if snd (krhino_sem_give (Some (g_res_sem L)) L) \<noteq> RHINO_SUCCESS
        then k_err_proc RHINO_SYS_SP_ERR B else ?E)"
      unfolding R_def krhino_task_dyn_del_def r prod.case Let_def U_def B_def G_def L_def A1_def split_beta
      by (simp only: f if_False kernel.simps fst_conv snd_conv if_distrib [of fst] simp_thms cong: if_cong)
    ultimately show ?thesis by (auto simp: word_gt_0)
  qed
  have main: "sys_inv B \<and> calm A B \<and> sys_inv ?E \<and> runs_next ?E"
    if z: "g_intrpt_nested_level A = 0" and i: "t \<noteq> g_idle_task A" and na: "\<not> (t = g_active_task A \<and> g_sched_lock A > 0)"
  proof -
    have act: "tstate A (g_active_task A) = K_RDY" using sys_invD(4) [OF A(1) z] .
    have L: "sys_inv L" "g_sched_lock L > 0"
      using A(1) act A(3) [OF l] by (auto simp: L_def A1_def sys_inv_def act_rdy_def word_gt_0 add_eq_0_iff2)
    have G: "sys_inv G" "calm L G"
      using sem_give_ok(1) [OF L(1), of "g_res_sem L" False] sem_give_locked [OF L, of "Some (g_res_sem L)"]
      by (simp_all add: G_def krhino_sem_give_def)
    have B: "sys_inv B" "calm A B"
      using G act by (auto simp: B_def sys_inv_def act_rdy_def calm_def mode_frame_def L_def A1_def)
    have M: "kinv ?M" "calm B ?M" using mutex_free_walk_ok [OF sys_invD(1) [OF B(1)]]
      by (simp_all add: task_mutex_free_def)
    have AM: "calm A ?M" by (rule calm_trans [OF B(2) M(2)])
    have 1: "\<not> g_fault ?M" "t \<noteq> g_idle_task ?M" "g_sched_lock ?M \<noteq> - 1"
      using AM sys_invD(2) [OF A(1)] i A(3) [OF l] by (simp_all add: calm_def mode_frame_def)
    have 2: "tstate ?M (g_active_task ?M) = K_RDY \<and> t \<noteq> g_active_task ?M" if "g_sched_lock ?M > 0"
      using that act na AM by (auto simp: calm_def mode_frame_def)
    from del_end(1,2) [OF M(1) 1 2 U_def] B show ?thesis by blast
  qed
  have err: "sys_inv (k_err_proc e L)" if "sys_inv L" for e L
    using that by (simp add: sys_inv_def act_rdy_def kinvd_def placed_def idle_ok_def reg_inv_def mutex_inv_def)
  show "sys_inv (fst (krhino_task_dyn_del in_heap tsk K))"
    using cases A(1) main err unfolding R_def [symmetric] by blast
  show "runs_next (fst (krhino_task_dyn_del in_heap tsk K))" if n: "runs_next K"
  proof -
    have "runs_next (k_err_proc RHINO_SYS_SP_ERR B)"
      if bad: "snd (krhino_sem_give (Some (g_res_sem L)) L) \<noteq> RHINO_SUCCESS"
    proof -
      have "G = L" using bad unfolding G_def krhino_sem_give_def sem_give_def
        by (auto simp: Let_def split: list.splits if_splits)
      then show ?thesis using A(2) [OF n] by (simp add: B_def L_def A1_def runs_next_def is_next_def)
    qed
    with cases A(2) [OF n] main show ?thesis unfolding R_def [symmetric] by blast
  qed
qed

section \<open>Changing priorities and attributes keeps the invariant\<close>

lemma pri_limit_walk_le: "pri_limit_walk K ms p h \<le> h"
proof (induction ms arbitrary: p h)
  case (Cons m ms)
  let ?p = "first_blk_prio K m p"
  have "pri_limit_walk K ms ?p (if ?p < h then ?p else h) \<le> (if ?p < h then ?p else h)" by (rule Cons.IH)
  also have "\<dots> \<le> h" by simp
  finally show ?case by (simp add: Let_def)
qed simp

lemma task_pri_step_error:
  assumes "task_pri_step t p K = (K', r)" and "r \<noteq> Inr RHINO_SUCCESS"
  shows "g_ready_queue K' = g_ready_queue K"
proof -
  have pk: "mutex_pri_look w None L = (L', n) \<Longrightarrow> L' = L" for w L L' n
    using mutex_pri_look_None [of w L] by simp
  show ?thesis
    using assms unfolding task_pri_step_def Let_def
    by (auto simp: pend_list_reorder_def Let_def split: if_splits option.splits prod.splits dest!: pk)
qed

lemma task_pri_loop_error:
  "snd (task_pri_loop n t p K) \<noteq> RHINO_SUCCESS \<Longrightarrow>
     g_ready_queue (fst (task_pri_loop n t p K)) = g_ready_queue K"
proof (induction n arbitrary: t p K)
  case (Suc n)
  show ?case
  proof (cases "task_pri_step t p K")
    case (Pair K' r)
    show ?thesis
    proof (cases r)
      case (Inl a)
      with Pair task_pri_step_error [OF Pair] Suc show ?thesis by (cases a) simp
    next
      case (Inr st)
      with Pair task_pri_step_error [OF Pair] Suc.prems show ?thesis by simp
    qed
  qed
qed simp

lemma pri_change_error:
  "snd (task_pri_change t p K) \<noteq> RHINO_SUCCESS \<Longrightarrow>
     g_ready_queue (fst (task_pri_change t p K)) = g_ready_queue K"
  by (simp add: task_pri_change_def task_pri_loop_error)
lemma mutex_pri_limit_le: "mutex_pri_limit K t p \<le> p"
  by (simp add: mutex_pri_limit_def pri_limit_walk_le)

lemma mode_frame_upd [simp]: "mode_frame (upd_task t f K) C \<longleftrightarrow> mode_frame K C"
  by (simp add: mode_frame_def)

lemma runs_next_upd [simp]: "runs_next (upd_task t f K) \<longleftrightarrow> runs_next K"
  by (simp add: runs_next_def is_next_def)

lemma pri_change_ok:
  assumes s: "sys_inv K"
  shows "sys_inv (fst (krhino_task_pri_change tsk pri old K))"
    and "runs_next K \<Longrightarrow> runs_next (fst (krhino_task_pri_change tsk pri old K))"
proof -
  note k = sys_invD(1) [OF s]
  define R where "R = fst (krhino_task_pri_change tsk pri old K)"
  let ?goal = "sys_inv R \<and> (runs_next K \<longrightarrow> runs_next R)"
  have ?goal
  proof (cases "R = K")
    case False
    then obtain t q where a: "tsk = Some t" "old = Some q" "tprio K t < 61" "pri < 61"
        "tstate K t \<noteq> K_DELETED" "\<not> g_intrpt_nested_level K > 0"
      unfolding R_def krhino_task_pri_change_def
      by (auto simp: not_le split: option.splits if_splits simp del: is_live.simps)
    define L where "L = upd_task t (\<lambda>r. r\<lparr>b_prio := pri\<rparr>) K"
    define C where "C = fst (task_pri_change t (mutex_pri_limit K t pri) L)"
    have R: "R = (if snd (task_pri_change t (mutex_pri_limit K t pri) L) \<noteq> RHINO_SUCCESS then C else core_sched C)"
      unfolding R_def krhino_task_pri_change_def C_def L_def using a by (simp add: Let_def split_beta)
    have ti: "t \<noteq> g_idle_task K" using kinvD(7) [OF k] a(3) by (auto simp: idle_ok_def)
    have kL: "kinv L" unfolding L_def
      by (rule kinv_upd_task [OF k]) (use kinv_prio [OF k, of t] kinv_susp [OF k, of t] a in auto)
    have ti': "t \<noteq> g_idle_task L" "is_live (tstate L t) \<Longrightarrow> mutex_pri_limit K t pri < 62"
      using ti mutex_pri_limit_le [of K t pri] a(4) by (simp_all add: L_def)
    note C = task_pri_change_ok [OF kL ti', folded C_def]
    have m: "mode_frame K C" using mode_frame_sched [OF prio_frame_glob(2) [OF C(2)]] by (simp add: L_def)
    have t: "tstate C u = tstate K u" for u using prio_frame_task(1) [OF C(2), of u] by (simp add: L_def)
    have f: "g_fault C = g_fault K" using C(3) by (simp add: L_def)
    show ?thesis
    proof (cases "snd (task_pri_change t (mutex_pri_limit K t pri) L) \<noteq> RHINO_SUCCESS")
      case True
      have "g_ready_queue C = g_ready_queue K" using pri_change_error [OF True] by (simp add: C_def L_def)
      then show ?thesis using R True finish_plain [OF s C(1) f m] runs_next_same [OF _ m] t by simp
    next
      case False
      then show ?thesis using R finish_sched [OF s C(1) f m] t by simp
    qed
  qed (use s in simp)
  then show "sys_inv (fst (krhino_task_pri_change tsk pri old K))"
    and "runs_next K \<Longrightarrow> runs_next (fst (krhino_task_pri_change tsk pri old K))"
    by (simp_all add: R_def)
qed

lemma sched_enable_any:
  assumes "sys_inv K"
  shows "sys_inv (fst (krhino_sched_enable K))" "runs_next K \<Longrightarrow> runs_next (fst (krhino_sched_enable K))"
  using assms sched_enable_ok [OF assms]
  by (cases "g_intrpt_nested_level K = 0"; simp add: krhino_sched_enable_def word_gt_0)+

lemma sched_param_set_ok:
  assumes s: "sys_inv K" and p: "policy \<noteq> Some KSCHED_CFS"
  shows "sys_inv (fst (krhino_sched_param_set tsk policy pri K))"
    and "runs_next K \<Longrightarrow> runs_next (fst (krhino_sched_param_set tsk policy pri K))"
proof -
  let ?B = "fst (krhino_task_pri_change tsk pri (Some 0) (fst (krhino_sched_disable K)))"
  have B: "sys_inv ?B" "runs_next K \<Longrightarrow> runs_next ?B"
    using sched_disable_ok [OF s] pri_change_ok by auto
  have L: "sys_inv (upd_task t (\<lambda>r. r\<lparr>sched_policy := pol\<rparr>) ?B)" if "pol \<noteq> KSCHED_CFS" for t pol
  proof -
    have "kinv (upd_task t (\<lambda>r. r\<lparr>sched_policy := pol\<rparr>) ?B)"
      by (rule kinv_upd_task [OF sys_invD(1) [OF B(1)]])
        (use that kinv_prio(2) [OF sys_invD(1) [OF B(1)], of t] kinv_susp [OF sys_invD(1) [OF B(1)], of t] in auto)
    then show ?thesis using B(1) by (auto simp: sys_inv_def act_rdy_def)
  qed
  show "sys_inv (fst (krhino_sched_param_set tsk policy pri K))"
    using s p L sched_enable_any(1)
    by (auto simp: krhino_sched_param_set_def Let_def split: option.split)
  show "runs_next (fst (krhino_sched_param_set tsk policy pri K))" if "runs_next K"
    using s p L B that sched_enable_any(2)
    by (auto simp: krhino_sched_param_set_def Let_def split: option.split)
qed

lemma sched_policy_set_ok:
  assumes "sys_inv K" "policy \<noteq> Some KSCHED_CFS"
  shows "sys_inv (fst (krhino_sched_policy_set tsk policy K))"
    and "runs_next K \<Longrightarrow> runs_next (fst (krhino_sched_policy_set tsk policy K))"
  using assms sched_param_set_ok [OF assms] by (simp_all add: krhino_sched_policy_set_def split: option.split)

lemma task_attr_ok:
  assumes "sys_inv K"
  shows "sys_inv (fst (krhino_task_time_slice_set tsk n K))"
    "runs_next K \<Longrightarrow> runs_next (fst (krhino_task_time_slice_set tsk n K))"
    "sys_inv (fst (krhino_task_info_set tsk i info K))"
    "runs_next K \<Longrightarrow> runs_next (fst (krhino_task_info_set tsk i info K))"
  using assms
  by (auto simp: krhino_task_time_slice_set_def krhino_task_info_set_def Let_def sys_upd_task split: option.split)

lemma deathbed_ok:
  assumes s: "sys_inv K" and l: "g_sched_lock K \<noteq> - 1"
  shows "sys_inv (krhino_task_deathbed in_heap K)"
    and "runs_next K \<Longrightarrow> runs_next (krhino_task_deathbed in_heap K)"
  using task_del_ok [OF s l, where tsk = None] task_dyn_del_ok [OF s l]
  by (auto simp: krhino_task_deathbed_def)

end
