(* ===== verification/KTaskLaws.thy ===== *)
theory KTaskLaws
  imports KTask
begin

text \<open>
  What the task operations of \<^verbatim>\<open>k_task.c\<close> promise to their callers: suspension counts its nesting and
  comes back to the state it started from, an aborted wait leaves the task ready and in no other list,
  a deleted task is in no list at all, and three things the code does that its callers would not
  expect.
\<close>

section \<open>Suspension\<close>

fun susp_of :: "task_stat_t \<Rightarrow> task_stat_t" where
  "susp_of K_RDY = K_SUSPENDED"
| "susp_of K_PEND = K_PEND_SUSPENDED"
| "susp_of K_SLEEP = K_SLEEP_SUSPENDED"
| "susp_of s = s"

definition suspend_n :: "nat \<Rightarrow> tid \<Rightarrow> kernel \<Rightarrow> kernel" where
  "suspend_n n t K = ((\<lambda>K. fst (krhino_task_suspend (Some t) K)) ^^ n) K"

definition resume_n :: "nat \<Rightarrow> tid \<Rightarrow> kernel \<Rightarrow> kernel" where
  "resume_n n t K = ((\<lambda>K. fst (krhino_task_resume (Some t) K)) ^^ n) K"

text \<open>One call leaves what the next one reads of the other fields.\<close>

definition lock_frame :: "kernel \<Rightarrow> kernel \<Rightarrow> bool" where
  "lock_frame K K' \<longleftrightarrow> g_sched_lock K' = g_sched_lock K \<and>
     g_intrpt_nested_level K' = g_intrpt_nested_level K \<and> g_tick_head K' = g_tick_head K \<and>
     blk_objs K' = blk_objs K"

lemma ktask_count_only:
  "task_state r = s \<Longrightarrow> r\<lparr>task_state := s, suspend_count := c\<rparr> = r\<lparr>suspend_count := c\<rparr>" for r :: ktask
  by (rule ktask.equality) simp_all

lemma ktask_count_state:
  "r\<lparr>suspend_count := c, task_state := s\<rparr> = r\<lparr>task_state := s, suspend_count := c\<rparr>" for r :: ktask
  by (rule ktask.equality) simp_all

lemmas step_defs = krhino_task_suspend_def krhino_task_resume_def task_suspend_def task_resume_def
  Let_def lock_frame_def ktask_count_state

lemma suspend_step:
  assumes "is_live (tstate K t)" "tprio K t \<noteq> 61" "g_sched_lock K = 0"
    and "is_susp (tstate K t) \<Longrightarrow> suspend_count (tasks K t) \<noteq> - 1"
  shows "tasks (fst (krhino_task_suspend (Some t) K)) =
      (tasks K)(t := (tasks K t)\<lparr>task_state := susp_of (tstate K t),
        suspend_count := (if is_susp (tstate K t) then suspend_count (tasks K t) + 1 else 1)\<rparr>) \<and>
    lock_frame K (fst (krhino_task_suspend (Some t) K))"
proof (cases "is_susp (tstate K t)")
  case True
  then show ?thesis using assms(4)
    by (cases "tstate K t"; simp add: step_defs assms(2,3) ktask_count_only)
next
  case False
  then show ?thesis using assms(1)
    by (cases "tstate K t"; simp add: step_defs assms(2,3))
qed

lemma resume_step:
  assumes "is_susp (tstate K t)" "suspend_count (tasks K t) \<noteq> 1"
  shows "tasks (fst (krhino_task_resume (Some t) K)) =
      (tasks K)(t := (tasks K t)\<lparr>suspend_count := suspend_count (tasks K t) - 1\<rparr>) \<and>
    lock_frame K (fst (krhino_task_resume (Some t) K))"
  using assms(1) by (cases "tstate K t"; simp add: step_defs assms(2))

lemma resume_last:
  assumes "suspend_count (tasks K t) = 1" "tstate K t = susp_of s" "s \<in> {K_RDY, K_PEND, K_SLEEP}"
  shows "tasks (fst (krhino_task_resume (Some t) K)) =
      (tasks K)(t := (tasks K t)\<lparr>task_state := s, suspend_count := 0\<rparr>) \<and>
    lock_frame K (fst (krhino_task_resume (Some t) K))"
  using assms(3,2) by (elim insertE emptyE; simp add: step_defs assms(1))

lemma word8_nonzero:
  assumes "0 < n" "n < 256" shows "(of_nat n :: u8) \<noteq> 0"
proof
  assume z: "(of_nat n :: u8) = 0"
  have "unat (of_nat n :: u8) = n" by (subst unat_of_nat) (use assms(2) in simp)
  with z assms(1) show False by (metis less_not_refl unat_0)
qed

lemma suspend_n_view:
  assumes "tstate K t \<in> {K_RDY, K_PEND, K_SLEEP}" "tprio K t \<noteq> 61" "g_sched_lock K = 0" "n < 255"
  shows "tasks (suspend_n (Suc n) t K) = (tasks K)(t := (tasks K t)\<lparr>task_state := susp_of (tstate K t),
      suspend_count := of_nat (Suc n)\<rparr>) \<and> lock_frame K (suspend_n (Suc n) t K)"
  using assms(4)
proof (induction n)
  case 0
  have "is_live (tstate K t)" "\<not> is_susp (tstate K t)" using assms(1) by auto
  with suspend_step [of K t] assms(2,3) show ?case by (simp add: suspend_n_def)
next
  case (Suc n)
  let ?S = "suspend_n (Suc n) t K"
  have IH: "tasks ?S = (tasks K)(t := (tasks K t)\<lparr>task_state := susp_of (tstate K t), suspend_count := of_nat (Suc n)\<rparr>)"
    "lock_frame K ?S" using Suc by auto
  have st: "is_susp (tstate ?S t)" "is_live (tstate ?S t)" using assms(1) IH(1) by auto
  have "(of_nat (Suc n) :: u8) + 1 \<noteq> 0" using word8_nonzero [of "Suc (Suc n)"] Suc.prems by (simp add: add.commute)
  then have "(of_nat (Suc n) :: u8) \<noteq> - 1" by (metis ab_left_minus)
  then have c: "suspend_count (tasks ?S t) \<noteq> - 1" using IH(1) by simp
  have s: "suspend_n (Suc (Suc n)) t K = fst (krhino_task_suspend (Some t) ?S)" by (simp add: suspend_n_def)
  have "susp_of (susp_of (tstate K t)) = susp_of (tstate K t)" by (cases "tstate K t") auto
  then show ?case unfolding s
    using suspend_step [of ?S t] st c IH assms(2,3) by (simp add: lock_frame_def add.commute)
qed

lemma resume_n_view:
  assumes S: "tstate S t = susp_of s" "s \<in> {K_RDY, K_PEND, K_SLEEP}" "suspend_count (tasks S t) = of_nat n" "n < 256"
  shows "k < n \<Longrightarrow> tasks (resume_n k t S) = (tasks S)(t := (tasks S t)\<lparr>suspend_count := of_nat (n - k)\<rparr>) \<and>
      lock_frame S (resume_n k t S)"
proof (induction k)
  case 0
  have "(tasks S t)\<lparr>suspend_count := of_nat n\<rparr> = tasks S t" by (rule ktask.equality) (simp_all add: S(3))
  then show ?case by (simp add: resume_n_def lock_frame_def)
next
  case (Suc k)
  let ?R = "resume_n k t S"
  have IH: "tasks ?R = (tasks S)(t := (tasks S t)\<lparr>suspend_count := of_nat (n - k)\<rparr>)" "lock_frame S ?R"
    using Suc by auto
  have st: "is_susp (tstate ?R t)" using S(1,2) IH(1) by auto
  have "n - k = Suc (n - Suc k)" using Suc.prems by simp
  then have e: "(of_nat (n - k) :: u8) = of_nat (n - Suc k) + 1" by (simp only: of_nat_Suc add.commute)
  have "(of_nat (n - Suc k) :: u8) \<noteq> 0" by (rule word8_nonzero) (use Suc.prems S(4) in auto)
  then have "suspend_count (tasks ?R t) \<noteq> 1" using IH(1) e by simp
  from resume_step [OF st this] IH e show ?case
    by (auto simp: resume_n_def lock_frame_def fun_eq_iff)
qed

lemma resume_all_view:
  assumes S: "tstate S t = susp_of s" "s \<in> {K_RDY, K_PEND, K_SLEEP}" "suspend_count (tasks S t) = of_nat (Suc n)"
    "Suc n < 256"
  shows "tasks (resume_n (Suc n) t S) = (tasks S)(t := (tasks S t)\<lparr>task_state := s, suspend_count := 0\<rparr>) \<and>
      lock_frame S (resume_n (Suc n) t S)"
proof -
  have v: "tasks (resume_n n t S) = (tasks S)(t := (tasks S t)\<lparr>suspend_count := 1\<rparr>)" "lock_frame S (resume_n n t S)"
    using resume_n_view [OF S, of n] by simp_all
  have "suspend_count (tasks (resume_n n t S) t) = 1" "tstate (resume_n n t S) t = susp_of s" using v(1) S(1) by simp_all
  from resume_last [OF this S(2)] v show ?thesis
    by (simp add: resume_n_def lock_frame_def ktask_count_state)
qed

text \<open>C15. Suspension nests: after \<open>n\<close> suspensions of a ready, sleeping or blocked task its count is \<open>n\<close>
  and it is suspended in the matching state; it stays so for fewer than \<open>n\<close> resumptions, and after
  exactly \<open>n\<close> of them its control block is what it was, and so are all control blocks, all lists of
  waiters and the list of ticking tasks.\<close>

theorem suspend_resume_nests:
  assumes st: "tstate K t \<in> {K_RDY, K_PEND, K_SLEEP}" and c: "suspend_count (tasks K t) = 0"
    and p: "tprio K t \<noteq> RHINO_IDLE_PRI" and l: "g_sched_lock K = 0" and n: "0 < n" "n < 256"
  shows "let S = suspend_n n t K in
    suspend_count (tasks S t) = of_nat n \<and> tstate S t = susp_of (tstate K t) \<and>
    (\<forall>k<n. tstate (resume_n k t S) t = susp_of (tstate K t)) \<and>
    tasks (resume_n n t S) = tasks K \<and> blk_objs (resume_n n t S) = blk_objs K \<and>
    g_tick_head (resume_n n t S) = g_tick_head K"
proof -
  obtain m where m: "n = Suc m" using n(1) by (cases n) auto
  define S where "S = suspend_n n t K"
  have v: "tasks S = (tasks K)(t := (tasks K t)\<lparr>task_state := susp_of (tstate K t), suspend_count := of_nat n\<rparr>)"
    "lock_frame K S" using suspend_n_view [OF st _ l, of m] p n(2) by (simp_all add: S_def m)
  then have S: "tstate S t = susp_of (tstate K t)" "suspend_count (tasks S t) = of_nat n" by simp_all
  note R = resume_all_view [OF S(1) st S(2) [unfolded m] n(2) [unfolded m], folded m]
  have "\<forall>k<n. tstate (resume_n k t S) t = susp_of (tstate K t)"
    using resume_n_view [OF S(1) st S(2) n(2)] S(1) by simp
  moreover have "(tasks K t)\<lparr>task_state := tstate K t, suspend_count := 0\<rparr> = tasks K t"
    by (rule ktask.equality) (simp_all add: c)
  then have "tasks (resume_n n t S) = tasks K" using R v by (auto simp: fun_eq_iff)
  ultimately show ?thesis using S R v by (simp add: Let_def S_def [symmetric] lock_frame_def)
qed

lemma suspend_resume_nests_witness:
  "tstate (resume_n 2 4 (suspend_n 3 4 demo)) 4 = K_PEND_SUSPENDED \<and> tasks (resume_n 3 4 (suspend_n 3 4 demo)) = demo_task"
  using suspend_resume_nests [of demo 4 3] by (simp add: mk_task_def ktask_zero_def Let_def del: demo_task.simps)
    (simp add: mk_task_def ktask_zero_def)

section \<open>Aborting a wait\<close>

text \<open>C16. Aborting a wait, a sleep or a suspension from task level succeeds and leaves the task ready: in
  the ready queue of its priority, in no list of waiters and not ticking, with \<open>BLK_ABORT\<close> as the
  result of its blocking call. That holds for suspended tasks too: the abort overrides a suspension,
  and the resumption that should match it is then refused.\<close>

theorem wait_abort_readies:
  assumes s: "sys_inv K" and t: "is_live (tstate K t)" "tstate K t \<noteq> K_RDY" and i: "g_intrpt_nested_level K = 0"
  shows "let (K', r) = krhino_task_wait_abort (Some t) K in
    r = RHINO_SUCCESS \<and> tstate K' t = K_RDY \<and> t \<in> set (rqueue K' (tprio K' t)) \<and>
    (\<forall>b. t \<notin> set (blist K' b)) \<and> t \<notin> set (g_tick_head K') \<and>
    (tstate K t \<noteq> K_SUSPENDED \<longrightarrow> blk_state (tasks K' t) = BLK_ABORT) \<and>
    krhino_task_resume (Some t) K' = (K', RHINO_TASK_NOT_SUSPENDED)"
proof -
  note k = sys_invD(1) [OF s]
  let ?R = "krhino_task_wait_abort (Some t) K"
  have k': "kinv (fst ?R)" using wait_abort_ok(1) [OF s, of "Some t"] sys_invD(1) by blast
  have v: "snd ?R = RHINO_SUCCESS \<and> tstate (fst ?R) t = K_RDY \<and>
      (tstate K t \<noteq> K_SUSPENDED \<longrightarrow> blk_state (tasks (fst ?R) t) = BLK_ABORT)"
  proof (cases "is_pend (tstate K t)")
    case True
    let ?A = "upd_task t (\<lambda>r. r\<lparr>task_state := K_RDY, blk_state := BLK_ABORT\<rparr>)
      (ready_list_add t (blk_list_rm t (tick_list_rm t K)))"
    have r: "prio_frame ?A (mutex_task_pri_reset t ?A)"
      by (rule end_wait_reset(2) [OF k True kinv_abort_lists(1) [OF k disjI1 [OF True] refl]]; simp)
    have eq: "?R = (core_sched (upd_task t (\<lambda>r. r\<lparr>blk_ptr := None\<rparr>) (mutex_task_pri_reset t ?A)), RHINO_SUCCESS)"
      using True i by (auto simp: krhino_task_wait_abort_def Let_def)
    then show ?thesis using prio_frame_task(1,4) [OF r, of t] by simp
  next
    case False
    with t i show ?thesis
      by (cases "tstate K t") (simp_all add: krhino_task_wait_abort_def Let_def)
  qed
  then show ?thesis
    using kinv_ready_iff [OF k', of t "tprio (fst ?R) t"] kinv_blist_iff [OF k', of t] kinv_tick_state [OF k', of t]
    by (auto simp: split_beta krhino_task_resume_def task_resume_def)
qed

lemma wait_abort_readies_witness:
  "tstate (fst (krhino_task_wait_abort (Some 4) demo)) 4 = K_RDY \<and>
   tstate (fst (krhino_task_wait_abort (Some 6) demo)) 6 = K_RDY"
  using wait_abort_readies [OF demo_sys_inv, of 4] wait_abort_readies [OF demo_sys_inv, of 6]
  by (simp add: mk_task_def split_beta)

section \<open>Deletion\<close>

lemma reent_unlocked:
  assumes "g_sched_lock K = 0" "g_intrpt_nested_level K = 0" "reent_reclaim (Some t) K = (A, u)"
  shows "g_sched_lock A = 0" "tprio A t = tprio K t" "task_alloc_flag (tasks A t) = task_alloc_flag (tasks K t)"
    "mutexes A = mutexes K" "cfg_mutex_inherit A = cfg_mutex_inherit K" "mutex_ptr (tasks A v) = mutex_ptr (tasks K v)"
    "blk_objs A = blk_objs K" "g_kobj_list A = g_kobj_list K" "task_sem_obj (tasks A v) = task_sem_obj (tasks K v)"
    "tasks A v = (tasks K v)\<lparr>newlibc_reent := newlibc_reent (tasks A v)\<rparr>"
  using assms
  by (auto simp: reent_reclaim_def krhino_sched_disable_def krhino_sched_enable_def Let_def word_gt_0
      split: option.splits)

lemma del_succeeds:
  assumes s: "sys_inv K" and z: "g_sched_lock K = 0" "g_intrpt_nested_level K = 0"
    and t: "is_live (tstate K t)" "tprio K t \<noteq> 61" "task_alloc_flag (tasks K t) = K_OBJ_STATIC_ALLOC"
    and r: "reent_reclaim (Some t) K = (A, u)"
  obtains U where "task_unlink t (task_mutex_free t A) = Some U"
    "krhino_task_del in_heap (Some t) K = (core_sched (krhino_task_del_hook in_heap t
      (upd_kobj (\<lambda>l. l\<lparr>task_head := removeAll t (task_head l)\<rparr>) U)), RHINO_SUCCESS)"
proof -
  note A = reent_ok [OF s r] and B = reent_unlocked [OF z r]
  have "is_live (tstate (task_mutex_free t A) t)"
    using mutex_free_walk_ok [OF sys_invD(1) [OF A(1)]] t(1) A(4) by (simp add: task_mutex_free_def del: is_live.simps)
  then obtain U where U: "task_unlink t (task_mutex_free t A) = Some U"
    by (cases "tstate (task_mutex_free t A) t") (auto simp: task_unlink_def)
  with z t A(5,6) B show ?thesis by (intro that [OF U]) (simp add: krhino_task_del_def r)
qed

text \<open>C14. Deleting a live static task other than the idle task, from task level with the scheduler
  unlocked, succeeds and leaves no trace of the task in the scheduler: it is marked deleted, it is not
  in the register, in no ready queue, in no list of waiters, not ticking and not running.\<close>

theorem task_del_removes:
  assumes s: "sys_inv K" and z: "g_sched_lock K = 0" "g_intrpt_nested_level K = 0"
    and t: "is_live (tstate K t)" "tprio K t \<noteq> 61" "task_alloc_flag (tasks K t) = K_OBJ_STATIC_ALLOC"
  shows "let (K', r) = krhino_task_del in_heap (Some t) K in
    r = RHINO_SUCCESS \<and> tstate K' t = K_DELETED \<and> t \<notin> set (task_head (g_kobj_list K')) \<and>
    (\<forall>p. t \<notin> set (rqueue K' p)) \<and> (\<forall>b. t \<notin> set (blist K' b)) \<and> t \<notin> set (g_tick_head K') \<and>
    (g_intrpt_nested_level K' = 0 \<longrightarrow> g_active_task K' \<noteq> t)"
proof -
  obtain A u where r: "reent_reclaim (Some t) K = (A, u)" by (cases "reent_reclaim (Some t) K")
  note A = reent_ok [OF s r] and B = reent_unlocked [OF z r]
  obtain U where U: "task_unlink t (task_mutex_free t A) = Some U"
    "krhino_task_del in_heap (Some t) K = (core_sched (krhino_task_del_hook in_heap t
      (upd_kobj (\<lambda>l. l\<lparr>task_head := removeAll t (task_head l)\<rparr>) U)), RHINO_SUCCESS)" (is "_ = (?E, _)")
    by (rule del_succeeds [OF s z t r])
  have "t \<noteq> g_idle_task A" using kinvD(7) [OF sys_invD(1) [OF A(1)]] B(2) t(2) by (auto simp: idle_ok_def)
  then have e: "sys_inv ?E" "tstate ?E t = K_DELETED" "t \<notin> set (task_head (g_kobj_list ?E))"
    using task_del_end [OF A(1) _ _ _ _ U(1), of in_heap] B(1) A(6) z(2) by simp_all
  have d: "\<not> is_live (tstate ?E t)" using e(2) by simp
  note dead = kinv_dead [OF sys_invD(1) [OF e(1)] d]
  have "g_intrpt_nested_level ?E = 0 \<Longrightarrow> g_active_task ?E \<noteq> t"
    using sys_invD(4) [OF e(1)] e(2) by auto
  with e(2,3) dead U(2) show ?thesis by simp
qed

lemma task_del_removes_witness:
  "snd (krhino_task_del (\<lambda>_. False) (Some 4) demo) = RHINO_SUCCESS \<and>
   4 \<notin> set (blist (fst (krhino_task_del (\<lambda>_. False) (Some 4) demo)) 6)"
  using task_del_removes [OF demo_sys_inv, of 4 "\<lambda>_. False"] by (simp add: mk_task_def split_beta)

text \<open>C17. Without priority inheritance (\<^verbatim>\<open>RHINO_CONFIG_MUTEX_INHERIT\<close> 0, the default of this
  repository) the list of held mutexes is never built, so the deletion of the owner of a mutex does
  not release it: the mutex stays with the deleted task, at its nesting depth, and every task that
  waited for it goes on waiting.\<close>

theorem task_del_keeps_mutex:
  assumes s: "sys_inv K" and z: "g_sched_lock K = 0" "g_intrpt_nested_level K = 0"
    and t: "is_live (tstate K t)" "tprio K t \<noteq> 61" "task_alloc_flag (tasks K t) = K_OBJ_STATIC_ALLOC"
    and h: "\<not> cfg_mutex_inherit K" "mutex_ptr (tasks K t) = None" "task_sem_obj (tasks K t) = None"
    and m: "mutex_task (mutexes K m) = Some t"
  shows "let (K', r) = krhino_task_del in_heap (Some t) K in
    r = RHINO_SUCCESS \<and> tstate K' t = K_DELETED \<and> mutexes K' m = mutexes K m \<and>
    (\<forall>u. u \<noteq> t \<and> u \<in> set (blist K m) \<longrightarrow> u \<in> set (blist K' m) \<and> tstate K' u = tstate K u)"
proof -
  obtain A u where r: "reent_reclaim (Some t) K = (A, u)" by (cases "reent_reclaim (Some t) K")
  note A = reent_ok [OF s r] and B = reent_unlocked [OF z r]
  obtain U where U: "task_unlink t (task_mutex_free t A) = Some U"
    "krhino_task_del in_heap (Some t) K = (core_sched (krhino_task_del_hook in_heap t
      (upd_kobj (\<lambda>l. l\<lparr>task_head := removeAll t (task_head l)\<rparr>) U)), RHINO_SUCCESS)"
    by (rule del_succeeds [OF s z t r])
  have "held_mutexes A t = []"
    using B(6) h(2) by (cases "length (mutex_head (g_kobj_list A))") (simp_all add: held_mutexes_def)
  then have u: "task_unlink t A = Some U" using U(1) by (simp add: task_mutex_free_def)
  have tfr: "sched_frame A (tick_list_rm t A)" by (intro sched_frame_steps sched_frame_refl)
  then have inh: "\<not> cfg_mutex_inherit (tick_list_rm t A)" using sched_frameD(11) [OF tfr] B(5) h(1) by simp
  have "mutexes U = mutexes A \<and> tstate U t = K_DELETED \<and> task_sem_obj (tasks U t) = task_sem_obj (tasks A t) \<and>
      (\<forall>v. v \<noteq> t \<longrightarrow> tasks U v = tasks A v) \<and> (\<forall>b. set (blist A b) - {t} \<subseteq> set (blist U b))"
    using u inh B(5) h(1)
    by (cases "tstate A t") (auto simp: task_unlink_def Let_def mutex_task_pri_reset_def)
  then show ?thesis
    using U(2) B(4,7) A(4) B(9) [of t] h(3) by (auto simp: krhino_task_del_hook_def Let_def)
qed

lemma task_del_keeps_mutex_witness:
  "tstate (fst (krhino_task_del (\<lambda>_. False) (Some 1) demo)) 1 = K_DELETED \<and>
   mutex_task (mutexes (fst (krhino_task_del (\<lambda>_. False) (Some 1) demo)) 6) = Some 1 \<and>
   4 \<in> set (blist (fst (krhino_task_del (\<lambda>_. False) (Some 1) demo)) 6)"
proof -
  have "mutex_task (mutexes demo 6) = Some 1" by (simp add: demo_def)
  from task_del_keeps_mutex [OF demo_sys_inv _ _ _ _ _ _ _ _ this, of "\<lambda>_. False"] this show ?thesis
    by (simp add: mk_task_def mk_blk_def ktask_zero_def split_beta del: One_nat_def)
qed

section \<open>Scheduling policies\<close>

lemma task_pri_change_one:
  "task_pri_step t p K = (K', Inr r) \<Longrightarrow> task_pri_change t p K = (K', r)"
  by (simp add: task_pri_change_def pri_fuel_def)

lemma core_sched_next:
  assumes "kinv K" "is_next K (g_active_task K)"
  shows "g_active_task (core_sched K) = g_active_task K"
proof -
  have "rqueue K 61 \<noteq> []" using kinv_idle_ready [OF assms(1)] by auto
  from core_sched_cases [OF kinvD(1) [OF assms(1)] this] obtain t pr
    where "core_sched K = K\<lparr>g_active_task := t, g_preferred_ready_task := pr\<rparr>"
      "if g_intrpt_nested_level K > 0 \<or> g_sched_lock K > 0 then t = g_active_task K else is_next K t" by blast
  with is_next_unique [OF assms(2)] show ?thesis by (auto split: if_splits)
qed

text \<open>C18. \<^verbatim>\<open>krhino_sched_policy_set\<close> accepts \<^verbatim>\<open>KSCHED_CFS\<close> in a build without that scheduler. A later
  change of the priority of the running task then skips both the removal and the insertion, so
  the task stays queued under the old priority and the ready queue no longer agrees with the
  priorities.\<close>

theorem cfs_policy_breaks_queue:
  assumes s: "sys_inv K" and n: "runs_next K" and z: "g_sched_lock K = 0" "g_intrpt_nested_level K = 0"
    and t: "t = g_active_task K" "tprio K t < 61" and p: "p < 61" "p \<noteq> tprio K t" and h: "\<not> cfg_mutex_inherit K"
  shows "let (K1, r1) = krhino_sched_policy_set (Some t) (Some KSCHED_CFS) K;
      (K2, r2, old) = krhino_task_pri_change (Some t) p (Some 0) K1
    in r1 = RHINO_SUCCESS \<and> r2 = RHINO_SUCCESS \<and> tprio K2 t = p \<and> t \<in> set (rqueue K2 (tprio K t)) \<and>
      t \<notin> set (rqueue K2 p)"
proof -
  note k = sys_invD(1) [OF s]
  have rdy: "tstate K t = K_RDY" using sys_invD(4) [OF s z(2)] t(1) by simp
  define B where "B = (upd_task t (\<lambda>r. r\<lparr>b_prio := tprio K t, sched_policy := KSCHED_CFS\<rparr>) K)\<lparr>g_sched_lock := 0\<rparr>"
  have B: "g_ready_queue B = g_ready_queue K" "g_active_task B = t" "g_sched_lock B = 0" "g_intrpt_nested_level B = 0"
    using z t(1) by (simp_all add: B_def)
  have st: "task_pri_change t (tprio L t) L = (L, RHINO_SUCCESS)" for L
    by (rule task_pri_change_one) (simp add: task_pri_step_def)
  let ?K1 = "core_sched B"
  have 1: "krhino_sched_policy_set (Some t) (Some KSCHED_CFS) K = (?K1, RHINO_SUCCESS)"
    using z t h rdy st [of "upd_task t (\<lambda>r. r\<lparr>b_prio := tprio K t\<rparr>) (K\<lparr>g_sched_lock := 1\<rparr>)"]
    by (simp add: krhino_sched_policy_set_def krhino_sched_param_set_def krhino_sched_disable_def
        krhino_task_pri_change_def mutex_pri_limit_def Let_def core_sched_def krhino_sched_enable_def B_def upd_task_def)
  have nx: "is_next B t" using n z t(1) B(1) by (simp add: runs_next_def is_next_def)
  have act: "g_active_task ?K1 = t"
  proof -
    have wf: "rq_wf (g_ready_queue B)" "rqueue B 61 \<noteq> []"
      using kinvD(1) [OF k] kinv_idle_ready [OF k] B(1) by auto
    from core_sched_cases [OF this] nx B(3,4) is_next_unique show ?thesis by auto
  qed
  let ?U = "upd_task t (\<lambda>r. r\<lparr>prio := p\<rparr>) (upd_task t (\<lambda>r. r\<lparr>b_prio := p\<rparr>) ?K1)"
  have "task_pri_change t p (upd_task t (\<lambda>r. r\<lparr>b_prio := p\<rparr>) ?K1) = (?U, RHINO_SUCCESS)"
    by (rule task_pri_change_one) (use p rdy act in \<open>simp add: task_pri_step_def is_task_exec_def B_def Let_def\<close>)
  then have 2: "krhino_task_pri_change (Some t) p (Some 0) ?K1 = (core_sched ?U, RHINO_SUCCESS, Some (tprio K t))"
    using p t(2) rdy h z by (simp add: krhino_task_pri_change_def mutex_pri_limit_def Let_def B_def)
  show ?thesis
    using p B(1) kinv_ready_iff [OF k, of t] rdy unfolding 1 Let_def prod.case 2 by simp
qed

lemma cfs_policy_breaks_queue_witness:
  "1 \<in> set (rqueue (fst (krhino_task_pri_change (Some 1) 30 (Some 0)
     (fst (krhino_sched_policy_set (Some 1) (Some KSCHED_CFS) demo)))) 10)"
  using cfs_policy_breaks_queue [OF demo_sys_inv demo_runs_next, of 1 30]
  by (simp add: mk_task_def split_beta Let_def del: One_nat_def)

end
