(* ===== verification/KEvent.thy ===== *)
theory KEvent
  imports KSem
begin

text \<open>
  Event flags (\<^verbatim>\<open>k_event.c\<close>): 32 flags; a task waits for all or for any of a set of them and may
  clear the flags it has got. Setting flags walks over the waiters and ends every wait whose
  condition the new flags meet. \<^verbatim>\<open>*actl_flags\<close> is a word of the memory \<open>u32_mem\<close>.
\<close>

section \<open>Operations\<close>

definition RHINO_FLAGS_AND_MASK :: u8 where [simp]: "RHINO_FLAGS_AND_MASK = 2"
definition RHINO_FLAGS_CLEAR_MASK :: u8 where [simp]: "RHINO_FLAGS_CLEAR_MASK = 1"
definition RHINO_AND :: u8 where [simp]: "RHINO_AND = 2"
definition RHINO_AND_CLEAR :: u8 where [simp]: "RHINO_AND_CLEAR = 3"
definition RHINO_OR :: u8 where [simp]: "RHINO_OR = 0"
definition RHINO_OR_CLEAR :: u8 where [simp]: "RHINO_OR_CLEAR = 1"

definition upd_event :: "oid \<Rightarrow> (kevent_t \<Rightarrow> kevent_t) \<Rightarrow> kernel \<Rightarrow> kernel" where
  "upd_event e f K = K\<lparr>events := (events K)(e := f (events K e))\<rparr>"

definition store_u32 :: "nat \<Rightarrow> u32 \<Rightarrow> kernel \<Rightarrow> kernel" where
  "store_u32 a v K = K\<lparr>u32_mem := (u32_mem K)(a := v)\<rparr>"

definition event_create :: "oid option \<Rightarrow> string option \<Rightarrow> u32 \<Rightarrow> alloc_flag_t \<Rightarrow> kernel \<Rightarrow> kernel \<times> kstat_t" where
  "event_create event name flags mm_alloc_flag K =
     (case (event, name) of
        (Some e, Some nm) \<Rightarrow>
          let K = upd_blk e (\<lambda>_. blk_obj_zero) K;
              K = upd_blk e (\<lambda>b. b\<lparr>blk_policy := BLK_POLICY_PRI, obj_name := nm\<rparr>) K;
              K = upd_event e (\<lambda>_. \<lparr>ev_flags = flags, ev_alloc_flag = mm_alloc_flag\<rparr>) K;
              K = upd_blk e (\<lambda>b. b\<lparr>obj_cancel := True\<rparr>) K;
              K = upd_kobj (\<lambda>l. l\<lparr>event_head := event_head l @ [e]\<rparr>) K;
              K = upd_blk e (\<lambda>b. b\<lparr>obj_type := RHINO_EVENT_OBJ_TYPE\<rparr>) K
          in (K, RHINO_SUCCESS)
      | _ \<Rightarrow> (K, RHINO_NULL_PTR))"

definition krhino_event_create :: "oid option \<Rightarrow> string option \<Rightarrow> u32 \<Rightarrow> kernel \<Rightarrow> kernel \<times> kstat_t" where
  "krhino_event_create event name flags K = event_create event name flags K_OBJ_STATIC_ALLOC K"

definition krhino_event_del :: "oid option \<Rightarrow> kernel \<Rightarrow> kernel \<times> kstat_t" where
  "krhino_event_del event K =
     (case event of
        None \<Rightarrow> (K, RHINO_NULL_PTR)
      | Some e \<Rightarrow>
          if g_intrpt_nested_level K > 0 then (K, RHINO_NOT_CALLED_BY_INTRPT)
          else if obj_type (blk_objs K e) \<noteq> RHINO_EVENT_OBJ_TYPE then (K, RHINO_KOBJ_TYPE_ERR)
          else if ev_alloc_flag (events K e) \<noteq> K_OBJ_STATIC_ALLOC then (K, RHINO_KOBJ_DEL_ERR)
          else
            let K = upd_blk e (\<lambda>b. b\<lparr>obj_type := RHINO_OBJ_TYPE_NONE\<rparr>) K;
                K = pend_rm_all e K;
                K = upd_event e (\<lambda>r. r\<lparr>ev_flags := 0\<rparr>) K;
                K = upd_kobj (\<lambda>l. l\<lparr>event_head := removeAll e (event_head l)\<rparr>) K
            in (core_sched K, RHINO_SUCCESS))"

definition krhino_event_dyn_create ::
  "nat option \<Rightarrow> string option \<Rightarrow> u32 \<Rightarrow> oid option \<Rightarrow> kernel \<Rightarrow> kernel \<times> kstat_t \<times> oid option" where
  "krhino_event_dyn_create event_out name flags event_obj K =
     (case event_out of
        None \<Rightarrow> (K, RHINO_NULL_PTR, None)
      | Some _ \<Rightarrow>
          case event_obj of
            None \<Rightarrow> (K, RHINO_NO_MEM, None)
          | Some e \<Rightarrow>
              let (K, stat) = event_create (Some e) name flags K_OBJ_DYN_ALLOC K
              in if stat \<noteq> RHINO_SUCCESS then (K\<lparr>mm_freed := mm_freed K @ [e]\<rparr>, stat, None)
                 else (K, stat, Some e))"

definition krhino_event_dyn_del :: "oid option \<Rightarrow> kernel \<Rightarrow> kernel \<times> kstat_t" where
  "krhino_event_dyn_del event K =
     (case event of
        None \<Rightarrow> (K, RHINO_NULL_PTR)
      | Some e \<Rightarrow>
          if g_intrpt_nested_level K > 0 then (K, RHINO_NOT_CALLED_BY_INTRPT)
          else if obj_type (blk_objs K e) \<noteq> RHINO_EVENT_OBJ_TYPE then (K, RHINO_KOBJ_TYPE_ERR)
          else if ev_alloc_flag (events K e) \<noteq> K_OBJ_DYN_ALLOC then (K, RHINO_KOBJ_DEL_ERR)
          else
            let K = upd_blk e (\<lambda>b. b\<lparr>obj_type := RHINO_OBJ_TYPE_NONE\<rparr>) K;
                K = pend_rm_all e K;
                K = upd_event e (\<lambda>r. r\<lparr>ev_flags := 0\<rparr>) K;
                K = upd_kobj (\<lambda>l. l\<lparr>event_head := removeAll e (event_head l)\<rparr>) K;
                K = core_sched K
            in (K\<lparr>mm_freed := mm_freed K @ [e]\<rparr>, RHINO_SUCCESS))"

text \<open>The test shared by \<^verbatim>\<open>krhino_event_get\<close> and \<^verbatim>\<open>event_set\<close>.\<close>

definition event_status :: "u32 \<Rightarrow> u8 \<Rightarrow> u32 \<Rightarrow> bool" where
  "event_status cur opt flags =
     (if opt AND RHINO_FLAGS_AND_MASK \<noteq> 0 then cur AND flags = flags else cur AND flags > 0)"

definition krhino_event_get ::
  "oid option \<Rightarrow> u32 \<Rightarrow> u8 \<Rightarrow> nat option \<Rightarrow> tick_t \<Rightarrow> kernel \<Rightarrow> kernel \<times> outcome" where
  "krhino_event_get event flags opt actl_flags ticks K =
     (case (event, actl_flags) of
        (Some e, Some a) \<Rightarrow>
          if opt \<noteq> RHINO_AND \<and> opt \<noteq> RHINO_OR \<and> opt \<noteq> RHINO_AND_CLEAR \<and> opt \<noteq> RHINO_OR_CLEAR
          then (K, Ret RHINO_NO_THIS_EVENT_OPT)
          else if cancel (tasks K (g_active_task K)) \<and> obj_cancel (blk_objs K e) then (K, Ret RHINO_TASK_CANCELED)
          else if g_intrpt_nested_level K > 0 then (K, Ret RHINO_NOT_CALLED_BY_INTRPT)
          else if obj_type (blk_objs K e) \<noteq> RHINO_EVENT_OBJ_TYPE then (K, Ret RHINO_KOBJ_TYPE_ERR)
          else if event_status (ev_flags (events K e)) opt flags then
            let K = store_u32 a (ev_flags (events K e)) K;
                K = (if opt AND RHINO_FLAGS_CLEAR_MASK \<noteq> 0
                     then upd_event e (\<lambda>r. r\<lparr>ev_flags := ev_flags r AND NOT flags\<rparr>) K else K)
            in (K, Ret RHINO_SUCCESS)
          else if ticks = RHINO_NO_WAIT then (K, Ret RHINO_NO_PEND_WAIT)
          else if g_sched_lock K > 0 then (K, Ret RHINO_SCHED_DISABLE)
          else
            let t = g_active_task K;
                K = upd_task t (\<lambda>r. r\<lparr>pend_option := opt, pend_flags := flags, pend_info := a\<rparr>) K
            in (core_sched (pend_to_blk_obj e t ticks K), Block)
      | _ \<Rightarrow> (K, Ret RHINO_NULL_PTR))"

definition krhino_event_get_resume :: "oid \<Rightarrow> kernel \<Rightarrow> kernel \<times> kstat_t" where
  "krhino_event_get_resume e K = pend_state_end_proc (g_active_task K) (Some e) K"

text \<open>One round of the walk over the waiters; the node after the current one is read before the
  current task leaves the list, so the walk visits the list as it was.\<close>

definition event_wake :: "oid \<Rightarrow> u32 \<Rightarrow> tid \<Rightarrow> kernel \<Rightarrow> kernel" where
  "event_wake e cur t K =
     (if event_status cur (pend_option (tasks K t)) (pend_flags (tasks K t)) then
        let K = store_u32 (pend_info (tasks K t)) cur K;
            K = pend_task_wakeup t K
        in if pend_option (tasks K t) AND RHINO_FLAGS_CLEAR_MASK \<noteq> 0
           then upd_event e (\<lambda>r. r\<lparr>ev_flags := ev_flags r AND NOT (pend_flags (tasks K t))\<rparr>) K else K
      else K)"

fun event_set_walk :: "oid \<Rightarrow> u32 \<Rightarrow> tid list \<Rightarrow> kernel \<Rightarrow> kernel" where
  "event_set_walk e cur [] K = K"
| "event_set_walk e cur (t # ts) K = event_set_walk e cur ts (event_wake e cur t K)"

definition event_set :: "oid \<Rightarrow> u32 \<Rightarrow> u8 \<Rightarrow> kernel \<Rightarrow> kernel \<times> kstat_t" where
  "event_set e flags opt K =
     (if obj_type (blk_objs K e) \<noteq> RHINO_EVENT_OBJ_TYPE then (K, RHINO_KOBJ_TYPE_ERR)
      else if opt AND RHINO_FLAGS_AND_MASK \<noteq> 0 then
        (upd_event e (\<lambda>r. r\<lparr>ev_flags := ev_flags r AND flags\<rparr>) K, RHINO_SUCCESS)
      else
        let K = upd_event e (\<lambda>r. r\<lparr>ev_flags := ev_flags r OR flags\<rparr>) K;
            cur_event_flags = ev_flags (events K e);
            K = event_set_walk e cur_event_flags (blist K e) K
        in (core_sched K, RHINO_SUCCESS))"

definition krhino_event_set :: "oid option \<Rightarrow> u32 \<Rightarrow> u8 \<Rightarrow> kernel \<Rightarrow> kernel \<times> kstat_t" where
  "krhino_event_set event flags opt K =
     (case event of
        None \<Rightarrow> (K, RHINO_NULL_PTR)
      | Some e \<Rightarrow>
          if opt \<noteq> RHINO_AND \<and> opt \<noteq> RHINO_OR then (K, RHINO_NO_THIS_EVENT_OPT) else event_set e flags opt K)"

section \<open>Selectors and frames\<close>

lemma upd_event_sel [simp]:
  "events (upd_event e f K) = (events K)(e := f (events K e))" "tasks (upd_event e f K) = tasks K"
  "blk_objs (upd_event e f K) = blk_objs K" "g_ready_queue (upd_event e f K) = g_ready_queue K"
  "g_active_task (upd_event e f K) = g_active_task K" "g_sched_lock (upd_event e f K) = g_sched_lock K"
  "g_intrpt_nested_level (upd_event e f K) = g_intrpt_nested_level K" "g_fault (upd_event e f K) = g_fault K"
  "u32_mem (upd_event e f K) = u32_mem K" "g_kobj_list (upd_event e f K) = g_kobj_list K"
  "sys_inv (upd_event e f K) \<longleftrightarrow> sys_inv K" "runs_next (upd_event e f K) \<longleftrightarrow> runs_next K"
  "kinvd d (upd_event e f K) \<longleftrightarrow> kinvd d K" "mode_frame A (upd_event e f K) \<longleftrightarrow> mode_frame A K"
  by (simp_all add: upd_event_def)

lemma store_u32_sel [simp]:
  "events (store_u32 a v K) = events K" "tasks (store_u32 a v K) = tasks K"
  "blk_objs (store_u32 a v K) = blk_objs K" "g_ready_queue (store_u32 a v K) = g_ready_queue K"
  "g_active_task (store_u32 a v K) = g_active_task K" "g_sched_lock (store_u32 a v K) = g_sched_lock K"
  "g_intrpt_nested_level (store_u32 a v K) = g_intrpt_nested_level K" "g_fault (store_u32 a v K) = g_fault K"
  "u32_mem (store_u32 a v K) = (u32_mem K)(a := v)" "g_kobj_list (store_u32 a v K) = g_kobj_list K"
  "sys_inv (store_u32 a v K) \<longleftrightarrow> sys_inv K" "runs_next (store_u32 a v K) \<longleftrightarrow> runs_next K"
  "kinvd d (store_u32 a v K) \<longleftrightarrow> kinvd d K" "mode_frame A (store_u32 a v K) \<longleftrightarrow> mode_frame A K"
  by (simp_all add: store_u32_def)

lemma pend_events [simp]:
  "events (pend_to_blk_obj b t n K) = events K" "events (pend_task_wakeup t K) = events K"
  "events (pend_task_rm t K) = events K"
  using sched_frameD(8) [OF sched_frame_pend(3)] sched_frameD(8) [OF sched_frame_pend(1)]
    sched_frameD(8) [OF sched_frame_pend(2)] by auto

section \<open>The walk over the waiters\<close>

abbreviation clears :: "ktask \<Rightarrow> bool" where
  "clears r \<equiv> pend_option r AND RHINO_FLAGS_CLEAR_MASK \<noteq> 0"

abbreviation met :: "u32 \<Rightarrow> ktask \<Rightarrow> bool" where
  "met cur r \<equiv> event_status cur (pend_option r) (pend_flags r)"

abbreviation ended :: "ktask \<Rightarrow> ktask" where
  "ended r \<equiv> r\<lparr>task_state := woken (task_state r), blk_state := BLK_FINISH, blk_ptr := None\<rparr>"

lemma event_wake_view:
  assumes k: "kinvd d K" and t: "t \<in> set (blist K b)"
  shows "kinvd d (event_wake e cur t K)" "g_fault (event_wake e cur t K) = g_fault K"
    "mode_frame K (event_wake e cur t K)"
    "tasks (event_wake e cur t K) = (if met cur (tasks K t) then (tasks K)(t := ended (tasks K t)) else tasks K)"
    "blk_objs (event_wake e cur t K) =
      (\<lambda>b. (blk_objs K b)\<lparr>blk_list := filter (\<lambda>u. \<not> (u = t \<and> met cur (tasks K t))) (blist K b)\<rparr>)"
    "bit (ev_flags (events (event_wake e cur t K) e)) i \<longleftrightarrow>
      bit (ev_flags (events K e)) i \<and> \<not> (met cur (tasks K t) \<and> clears (tasks K t) \<and> bit (pend_flags (tasks K t)) i)"
proof -
  let ?S = "store_u32 (pend_info (tasks K t)) cur K"
  have kS: "kinvd d ?S" "t \<in> set (blist ?S b)" using k t by simp_all
  note one = wakeup.end_one [OF kS] and v = wakeup_view [OF wakeup.end_one(2) [OF kS]]
  have m: "mode_frame K (pend_task_wakeup t ?S)"
    using mode_frame_trans [OF _ mode_frame_sched [OF sched_frame_pend(1)], of K ?S t] by simp
  show "kinvd d (event_wake e cur t K)" "g_fault (event_wake e cur t K) = g_fault K"
    "mode_frame K (event_wake e cur t K)"
    using k one(1,5) m by (simp_all add: event_wake_def Let_def)
  show "tasks (event_wake e cur t K) = (if met cur (tasks K t) then (tasks K)(t := ended (tasks K t)) else tasks K)"
    using v(1) by (simp add: event_wake_def Let_def)
  have "filter (\<lambda>u. u \<noteq> t) xs = removeAll t xs" for xs by (simp add: removeAll_filter_not_eq) (metis)
  then show "blk_objs (event_wake e cur t K) =
      (\<lambda>b. (blk_objs K b)\<lparr>blk_list := filter (\<lambda>u. \<not> (u = t \<and> met cur (tasks K t))) (blist K b)\<rparr>)"
    using v(3) by (simp add: event_wake_def Let_def)
  show "bit (ev_flags (events (event_wake e cur t K) e)) i \<longleftrightarrow>
      bit (ev_flags (events K e)) i \<and> \<not> (met cur (tasks K t) \<and> clears (tasks K t) \<and> bit (pend_flags (tasks K t)) i)"
    by (auto simp: event_wake_def Let_def v(1) bit_simps dest: bit_imp_le_length)
qed

lemma event_set_walk_view:
  assumes "kinvd d K" "distinct ts" "set ts \<subseteq> set (blist K e)"
  shows "let K' = event_set_walk e cur ts K in
    kinvd d K' \<and> g_fault K' = g_fault K \<and> mode_frame K K' \<and>
    (\<forall>u. tasks K' u = (if u \<in> set ts \<and> met cur (tasks K u) then ended (tasks K u) else tasks K u)) \<and>
    (\<forall>b. blk_objs K' b = (blk_objs K b)\<lparr>blk_list :=
       filter (\<lambda>u. \<not> (u \<in> set ts \<and> met cur (tasks K u))) (blist K b)\<rparr>) \<and>
    (\<forall>i. bit (ev_flags (events K' e)) i \<longleftrightarrow> bit (ev_flags (events K e)) i \<and>
       (\<forall>u\<in>set ts. met cur (tasks K u) \<and> clears (tasks K u) \<longrightarrow> \<not> bit (pend_flags (tasks K u)) i))"
  using assms
proof (induction ts arbitrary: K)
  case Nil
  have "blk_objs K b = (blk_objs K b)\<lparr>blk_list := blist K b\<rparr>" for b by simp
  with Nil show ?case by (simp add: Let_def)
next
  case (Cons t ts)
  have t: "t \<in> set (blist K e)" "t \<notin> set ts" "distinct ts" "set ts \<subseteq> set (blist K e)" using Cons.prems by auto
  let ?W = "event_wake e cur t K"
  note v = event_wake_view [OF Cons.prems(1) t(1), of e cur]
  have sub: "set ts \<subseteq> set (blist ?W e)" using t by (auto simp: v(5))
  have tk: "tasks ?W u = tasks K u" if "u \<in> set ts" for u using that t(2) by (auto simp: v(4))
  note IH = Cons.IH [OF v(1) t(3) sub, unfolded Let_def]
  show ?case
    unfolding Let_def event_set_walk.simps
  proof (intro conjI allI)
    fix u show "tasks (event_set_walk e cur ts ?W) u =
        (if u \<in> set (t # ts) \<and> met cur (tasks K u) then ended (tasks K u) else tasks K u)"
      using IH t(2) by (auto simp: v(4))
  next
    fix b
    have "filter (\<lambda>u. \<not> (u \<in> set ts \<and> met cur (tasks ?W u))) (blist ?W b) =
        filter (\<lambda>u. \<not> (u \<in> set (t # ts) \<and> met cur (tasks K u))) (blist K b)"
      unfolding v(5) using tk t(2) by (auto simp: filter_filter intro!: filter_cong)
    then show "blk_objs (event_set_walk e cur ts ?W) b = (blk_objs K b)\<lparr>blk_list :=
        filter (\<lambda>u. \<not> (u \<in> set (t # ts) \<and> met cur (tasks K u))) (blist K b)\<rparr>"
      using IH by (simp add: v(5))
  next
    fix i
    show "bit (ev_flags (events (event_set_walk e cur ts ?W) e)) i \<longleftrightarrow> bit (ev_flags (events K e)) i \<and>
        (\<forall>u\<in>set (t # ts). met cur (tasks K u) \<and> clears (tasks K u) \<longrightarrow> \<not> bit (pend_flags (tasks K u)) i)"
      using IH tk by (auto simp: v(6))
  qed (use IH v(2,3) mode_frame_trans [OF v(3)] in auto)
qed

lemmas event_walk = event_set_walk_view [OF _ kinv_distinct_blist order_refl, unfolded Let_def]

section \<open>The invariant is kept\<close>

lemma core_sched_event: "core_sched (upd_event e f K) = upd_event e f (core_sched K)"
  by (simp add: core_sched_def upd_event_def cpu_task_switch_def fault_def split: option.split)

lemma event_del_eq:
  "core_sched (upd_kobj f (upd_event e g (pend_rm_all e (upd_blk e (\<lambda>b. b\<lparr>obj_type := RHINO_OBJ_TYPE_NONE\<rparr>) K)))) =
   upd_event e g (blk_del e f K)"
proof -
  have "upd_kobj f (upd_event e g L) = upd_event e g (upd_kobj f L)" for L
    by (simp add: upd_kobj_def upd_event_def)
  then show ?thesis by (simp add: blk_del_def core_sched_event)
qed

lemma event_create_ok:
  assumes "sys_inv K" and "\<And>e. event = Some e \<Longrightarrow> blist K e = []"
  shows "sys_inv (fst (event_create event name n fl K))"
    and "runs_next K \<Longrightarrow> runs_next (fst (event_create event name n fl K))"
  using assms
  by (auto simp: event_create_def Let_def blk_obj_zero_def split: option.split intro!: sys_upd_blk sys_kobj)

lemma event_del_ok:
  assumes s: "sys_inv K"
  shows "sys_inv (fst (krhino_event_del event K))" "runs_next K \<Longrightarrow> runs_next (fst (krhino_event_del event K))"
    "sys_inv (fst (krhino_event_dyn_del event K))" "runs_next K \<Longrightarrow> runs_next (fst (krhino_event_dyn_del event K))"
  using s blk_del_ok [OF s]
  by (auto simp: krhino_event_del_def krhino_event_dyn_del_def Let_def event_del_eq split: option.split)

lemma event_get_ok:
  assumes s: "sys_inv K" and i: "g_active_task K \<noteq> g_idle_task K"
  shows "sys_inv (fst (krhino_event_get event flags opt a ticks K))"
    and "runs_next K \<Longrightarrow> runs_next (fst (krhino_event_get event flags opt a ticks K))"
proof -
  let ?t = "g_active_task K"
  let ?U = "\<lambda>a. upd_task ?t (\<lambda>r. r\<lparr>pend_option := opt, pend_flags := flags, pend_info := a\<rparr>) K"
  have "kinv (?U a)" for a
    by (rule kinv_upd_task [OF sys_invD(1) [OF s]])
      (use kinv_prio(2,3) [OF sys_invD(1) [OF s], of ?t] kinv_susp [OF sys_invD(1) [OF s], of ?t] in auto)
  then have U: "sys_inv (?U a)" for a using s by (auto simp: sys_inv_def act_rdy_def)
  have B: "sys_inv (core_sched (pend_to_blk_obj e ?t ticks (?U a))) \<and>
      runs_next (core_sched (pend_to_blk_obj e ?t ticks (?U a)))"
    if "g_intrpt_nested_level K = 0" "g_sched_lock K = 0" "ticks \<noteq> 0"
      "obj_type (blk_objs K e) = RHINO_EVENT_OBJ_TYPE" for e a
    using block_active [OF U, of a ticks e] i that by simp
  show "sys_inv (fst (krhino_event_get event flags opt a ticks K))"
    using s B by (auto simp: krhino_event_get_def Let_def RHINO_NO_WAIT_def word_gt_0 split: option.split)
  show "runs_next K \<Longrightarrow> runs_next (fst (krhino_event_get event flags opt a ticks K))"
    using s B by (auto simp: krhino_event_get_def Let_def RHINO_NO_WAIT_def word_gt_0 split: option.split)
qed

lemma event_set_ok:
  assumes s: "sys_inv K"
  shows "sys_inv (fst (event_set e flags opt K))"
    and "runs_next K \<Longrightarrow> runs_next (fst (event_set e flags opt K))"
proof -
  let ?U = "upd_event e (\<lambda>r. r\<lparr>ev_flags := ev_flags r OR flags\<rparr>) K"
  let ?W = "event_set_walk e (ev_flags (events ?U e)) (blist ?U e) ?U"
  have kU: "kinv ?U" using sys_invD(1) [OF s] by simp
  note w = event_walk [OF kU kU, of e "ev_flags (events ?U e)"]
  have rdy: "tstate ?W u = K_RDY" if "tstate K u = K_RDY" for u
    using w kinv_blist_iff [OF kU, of u e] that by auto
  have "sys_inv (core_sched ?W) \<and> runs_next (core_sched ?W)"
    using finish_sched [OF s, of ?W] w rdy mode_frame_trans [of K ?U ?W] by auto
  then show "sys_inv (fst (event_set e flags opt K))" "runs_next K \<Longrightarrow> runs_next (fst (event_set e flags opt K))"
    using s by (auto simp: event_set_def Let_def)
qed

section \<open>Properties\<close>

text \<open>C21. Setting flags (\<^verbatim>\<open>RHINO_OR\<close>) ends exactly the waits whose condition the flags meet: those
  tasks leave the list, ready or suspended, with a wait that ended normally; all other tasks keep
  their control block and the others on the list keep waiting in the same order. A flag is then set
  when it was set or is being set and no task that was woken clears it.\<close>

theorem event_set_wakes_met:
  assumes k: "kinv K" and t: "obj_type (blk_objs K e) = RHINO_EVENT_OBJ_TYPE"
  shows "let cur = ev_flags (events K e) OR flags;
      woke = {u \<in> set (blist K e). event_status cur (pend_option (tasks K u)) (pend_flags (tasks K u))};
      K' = fst (krhino_event_set (Some e) flags RHINO_OR K)
    in blist K' e = filter (\<lambda>u. u \<notin> woke) (blist K e) \<and>
      (\<forall>u\<in>woke. tstate K' u = woken (tstate K u) \<and> blk_state (tasks K' u) = BLK_FINISH) \<and>
      (\<forall>u. u \<notin> woke \<longrightarrow> tasks K' u = tasks K u) \<and>
      (\<forall>i. bit (ev_flags (events K' e)) i \<longleftrightarrow> bit cur i \<and>
        (\<forall>u\<in>woke. pend_option (tasks K u) AND RHINO_FLAGS_CLEAR_MASK \<noteq> 0 \<longrightarrow> \<not> bit (pend_flags (tasks K u)) i))"
proof -
  let ?U = "upd_event e (\<lambda>r. r\<lparr>ev_flags := ev_flags r OR flags\<rparr>) K"
  have kU: "kinv ?U" using k by simp
  note w = event_walk [OF kU kU, of e "ev_flags (events K e) OR flags"]
  have fl: "filter (\<lambda>u. \<not> (u \<in> set xs \<and> P u)) xs = filter (\<lambda>u. u \<in> set xs \<longrightarrow> \<not> P u) xs" for P and xs :: "tid list"
    by (rule filter_cong) auto
  show ?thesis
    using w t by (auto simp: krhino_event_set_def event_set_def Let_def fl)
qed

text \<open>Task 1 waits for the flags 0 and 2 of event 8 and will clear them.\<close>

definition demo_wait :: kernel where
  "demo_wait = fst (krhino_event_get (Some 8) 5 RHINO_AND_CLEAR (Some 0) (- 1) demo)"

lemma demo_wait_inv: "sys_inv demo_wait"
  unfolding demo_wait_def by (rule event_get_ok(1) [OF demo_sys_inv]) simp

lemma demo_wait_eq:
  "demo_wait = core_sched (pend_to_blk_obj 8 1 (- 1)
     (upd_task 1 (\<lambda>r. r\<lparr>pend_option := 3, pend_flags := 5, pend_info := 0\<rparr>) demo))"
  by (simp add: demo_wait_def krhino_event_get_def mk_blk_def mk_task_def ktask_zero_def event_status_def
      RHINO_NO_WAIT_def Let_def demo_def)

lemma demo_wait_sel:
  "blist demo_wait 8 = [1]" "ev_flags (events demo_wait 8) = 0" "obj_type (blk_objs demo_wait 8) = RHINO_EVENT_OBJ_TYPE"
  "pend_option (tasks demo_wait 1) = 3" "pend_flags (tasks demo_wait 1) = 5" "tstate demo_wait 1 = K_PEND"
  by (simp_all add: demo_wait_eq pend_to_blk_obj_def Let_def mk_blk_def RHINO_WAIT_FOREVER_def del: One_nat_def)
    (simp add: demo_def)

lemma event_set_wakes_met_witness:
  "blist (fst (krhino_event_set (Some 8) 4 RHINO_OR demo_wait)) 8 = [1] \<and>
   blist (fst (krhino_event_set (Some 8) 13 RHINO_OR demo_wait)) 8 = [] \<and>
   tstate (fst (krhino_event_set (Some 8) 13 RHINO_OR demo_wait)) 1 = K_RDY"
  using event_set_wakes_met [OF sys_invD(1) [OF demo_wait_inv] demo_wait_sel(3), of 4]
    event_set_wakes_met [OF sys_invD(1) [OF demo_wait_inv] demo_wait_sel(3), of 13]
  by (simp add: Let_def demo_wait_sel event_status_def del: One_nat_def)

lemma event_status_mono:
  assumes "\<And>i. bit cur' i \<Longrightarrow> bit cur i" "event_status cur' opt flags" shows "event_status cur opt flags"
proof (cases "opt AND RHINO_FLAGS_AND_MASK \<noteq> 0")
  case True
  then have "cur' AND flags = flags" using assms(2) by (simp add: event_status_def)
  then have "bit flags i \<Longrightarrow> bit cur i" for i using assms(1) by (metis bit_and_iff)
  then have "cur AND flags = flags" by (auto simp: bit_eq_iff bit_and_iff)
  with True show ?thesis by (simp add: event_status_def)
next
  case False
  then have "cur' AND flags \<noteq> 0" using assms(2) by (auto simp: event_status_def)
  then obtain i where "bit (cur' AND flags) i" by (auto simp: bit_eq_iff)
  then have "bit (cur AND flags) i" using assms(1) by (simp add: bit_and_iff)
  then have "cur AND flags \<noteq> 0" by auto
  with False show ?thesis by (simp add: event_status_def word_gt_0)
qed

definition event_ok :: "kernel \<Rightarrow> oid \<Rightarrow> bool" where
  "event_ok K e \<longleftrightarrow> (\<forall>u\<in>set (blist K e). \<not> met (ev_flags (events K e)) (tasks K u))"

lemma event_ok_ops:
  assumes s: "sys_inv K" and o: "event_ok K e" and t: "obj_type (blk_objs K e) = RHINO_EVENT_OBJ_TYPE"
  shows "event_ok (fst (krhino_event_set (Some e) flags opt K)) e \<and>
    event_ok (fst (krhino_event_get (Some e) want opt' a ticks K)) e \<and>
    event_ok (fst (krhino_event_del (Some e) K)) e"
proof (intro conjI)
  note k = sys_invD(1) [OF s]
  have shrink: "event_ok L e" if "blist L e = blist K e" "tasks L = tasks K"
    "\<And>i. bit (ev_flags (events L e)) i \<Longrightarrow> bit (ev_flags (events K e)) i" for L
    using o that event_status_mono [OF that(3)] by (auto simp: event_ok_def)
  show "event_ok (fst (krhino_event_set (Some e) flags opt K)) e"
  proof -
    let ?U = "upd_event e (\<lambda>r. r\<lparr>ev_flags := ev_flags r OR flags\<rparr>) K"
    let ?W = "event_set_walk e (ev_flags (events ?U e)) (blist ?U e) ?U"
    have kU: "kinv ?U" using k by simp
    note w = event_walk [OF kU kU, of e "ev_flags (events ?U e)"]
    have "event_ok (core_sched ?W) e"
      unfolding event_ok_def
    proof
      fix u assume "u \<in> set (blist (core_sched ?W) e)"
      then have u: "u \<in> set (blist ?U e)" "\<not> met (ev_flags (events ?U e)) (tasks K u)" using w by auto
      have "\<not> met (ev_flags (events ?W e)) (tasks K u)"
        using event_status_mono [of "ev_flags (events ?W e)" "ev_flags (events ?U e)"] w u(2) by blast
      moreover have "tasks ?W u = tasks K u" using w u by simp
      ultimately show "\<not> met (ev_flags (events (core_sched ?W) e)) (tasks (core_sched ?W) u)" by simp
    qed
    moreover have "event_ok (upd_event e (\<lambda>r. r\<lparr>ev_flags := ev_flags r AND flags\<rparr>) K) e"
      by (rule shrink) (simp_all add: bit_and_iff)
    ultimately show ?thesis using o by (auto simp: krhino_event_set_def event_set_def Let_def)
  qed
  show "event_ok (fst (krhino_event_get (Some e) want opt' a ticks K)) e"
  proof -
    let ?t = "g_active_task K"
    have "event_ok (upd_event e (\<lambda>r. r\<lparr>ev_flags := ev_flags r AND NOT want\<rparr>) (store_u32 x v K)) e"
      "event_ok (store_u32 x v K) e" for x v
      by (rule shrink; simp add: bit_and_iff)+
    moreover have "event_ok (core_sched (pend_to_blk_obj e ?t ticks (upd_task ?t f K))) e"
      if f: "f = (\<lambda>r. r\<lparr>pend_option := opt', pend_flags := want, pend_info := x\<rparr>)"
        and n: "\<not> event_status (ev_flags (events K e)) opt' want" for f x
    proof -
      have "set (blist (pend_to_blk_obj e ?t ticks (upd_task ?t f K)) e) = insert ?t (set (blist K e))"
        by (simp add: pend_to_blk_obj_def Let_def pendins.ins_set)
      moreover have "met c (tasks (pend_to_blk_obj e ?t ticks (upd_task ?t f K)) u) =
          met c (if u = ?t then f (tasks K u) else tasks K u)" for c u
        by (simp add: pend_to_blk_obj_def Let_def)
      ultimately show ?thesis using o n f by (simp add: event_ok_def)
    qed
    ultimately show ?thesis using o by (auto simp: krhino_event_get_def Let_def split: option.split)
  qed
  let ?T = "upd_blk e (\<lambda>o'. o'\<lparr>obj_type := RHINO_OBJ_TYPE_NONE\<rparr>) K"
  have "blist (pend_rm_all e ?T) e = []"
    using waitdel.drain_ok(6) [OF kinv_del_type [OF k], of e e] by (simp add: pend_rm_all_def)
  then show "event_ok (fst (krhino_event_del (Some e) K)) e"
    using o by (auto simp: krhino_event_del_def event_ok_def Let_def)
qed

text \<open>C22. No task waits on an event whose flags already meet its condition: setting and clearing flags,
  getting them and deletion all keep it so.\<close>

theorem event_ok_preserved:
  assumes s: "sys_inv K" and o: "event_ok K e" and t: "obj_type (blk_objs K e) = RHINO_EVENT_OBJ_TYPE"
  shows "event_ok (fst (krhino_event_set (Some e) flags opt K)) e \<and>
    event_ok (fst (krhino_event_get (Some e) want opt' a ticks K)) e \<and>
    event_ok (fst (krhino_event_del (Some e) K)) e"
  by (rule event_ok_ops [OF assms])

lemma event_ok_preserved_witness:
  "event_ok demo_wait 8 \<and> event_ok (fst (krhino_event_set (Some 8) 4 RHINO_OR demo_wait)) 8 \<and>
   blist (fst (krhino_event_set (Some 8) 4 RHINO_OR demo_wait)) 8 = [1]"
proof -
  have "event_ok demo_wait 8" by (simp add: event_ok_def demo_wait_sel event_status_def del: One_nat_def)
  with event_ok_preserved [OF demo_wait_inv this demo_wait_sel(3), of 4 RHINO_OR]
    event_set_wakes_met [OF sys_invD(1) [OF demo_wait_inv] demo_wait_sel(3), of 4]
  show ?thesis by (simp add: Let_def demo_wait_sel event_status_def del: One_nat_def)
qed

end
