(* ===== verification/KQueue.thy ===== *)
theory KQueue
  imports KEvent
begin

text \<open>
  Queues of pointers (\<^verbatim>\<open>k_queue.c\<close>): a message sent while a task waits is handed to that task,
  otherwise it is stored in a ring of \<^verbatim>\<open>size\<close> slots. The ring is a list of pointers, and the
  positions count slots; \<open>words\<close> is what the memory of the slots holds when the queue is created.
\<close>

section \<open>Operations\<close>

definition upd_queue :: "oid \<Rightarrow> (kqueue_t \<Rightarrow> kqueue_t) \<Rightarrow> kernel \<Rightarrow> kernel" where
  "upd_queue q f K = K\<lparr>queues := (queues K)(q := f (queues K q))\<rparr>"

text \<open>\<^verbatim>\<open>ringbuf_queue_push\<close> and \<^verbatim>\<open>ringbuf_queue_pop\<close>, for blocks of one pointer; \<open>None\<close> is an access
  outside the ring.\<close>

definition ringbuf_queue_push :: "nat \<Rightarrow> kqueue_t \<Rightarrow> kqueue_t option" where
  "ringbuf_queue_push data r =
     (let r = (if q_write r = length (q_ring r) then r\<lparr>q_write := 0\<rparr> else r)
      in if q_write r < length (q_ring r)
         then Some (r\<lparr>q_ring := (q_ring r)[q_write r := data], q_write := q_write r + 1\<rparr>) else None)"

definition ringbuf_queue_pop :: "kqueue_t \<Rightarrow> (kqueue_t \<times> nat) option" where
  "ringbuf_queue_pop r =
     (let r = (if q_read r = length (q_ring r) then r\<lparr>q_read := 0\<rparr> else r)
      in if q_read r < length (q_ring r)
         then Some (r\<lparr>q_read := q_read r + 1\<rparr>, q_ring r ! q_read r) else None)"

definition queue_reset :: "kqueue_t \<Rightarrow> kqueue_t" where
  "queue_reset r = r\<lparr>q_read := 0, q_write := 0\<rparr>"

definition task_msg_recv :: "nat \<Rightarrow> tid \<Rightarrow> kernel \<Rightarrow> kernel" where
  "task_msg_recv m t K = pend_task_wakeup t (upd_task t (\<lambda>r. r\<lparr>msg := m\<rparr>) K)"

definition queue_create ::
  "oid option \<Rightarrow> string option \<Rightarrow> nat option \<Rightarrow> nat \<Rightarrow> alloc_flag_t \<Rightarrow> (nat \<Rightarrow> nat) \<Rightarrow> kernel \<Rightarrow> kernel \<times> kstat_t" where
  "queue_create queue name start msg_num mm_alloc_flag words K =
     (case (queue, start, name) of
        (Some q, Some st, Some nm) \<Rightarrow>
          if msg_num = 0 then (K, RHINO_INV_PARAM)
          else
            let K = upd_blk q (\<lambda>_. blk_obj_zero) K;
                K = upd_blk q (\<lambda>b. b\<lparr>obj_name := nm, blk_policy := BLK_POLICY_PRI\<rparr>) K;
                K = upd_queue q (\<lambda>_. \<lparr>q_ring = map words [0..<msg_num * 4 mod 2 ^ 32 div 4], q_size = msg_num,
                  q_cur_num = 0, q_peak_num = 0, q_write = 0, q_read = 0, q_start = st,
                  q_alloc_flag = mm_alloc_flag\<rparr>) K;
                K = upd_blk q (\<lambda>b. b\<lparr>obj_cancel := True\<rparr>) K;
                K = upd_kobj (\<lambda>l. l\<lparr>queue_head := queue_head l @ [q]\<rparr>) K;
                K = upd_blk q (\<lambda>b. b\<lparr>obj_type := RHINO_QUEUE_OBJ_TYPE\<rparr>) K
            in (K, RHINO_SUCCESS)
      | _ \<Rightarrow> (K, RHINO_NULL_PTR))"

definition krhino_queue_create ::
  "oid option \<Rightarrow> string option \<Rightarrow> nat option \<Rightarrow> nat \<Rightarrow> (nat \<Rightarrow> nat) \<Rightarrow> kernel \<Rightarrow> kernel \<times> kstat_t" where
  "krhino_queue_create queue name start msg_num words K =
     queue_create queue name start msg_num K_OBJ_STATIC_ALLOC words K"

definition krhino_queue_del :: "oid option \<Rightarrow> kernel \<Rightarrow> kernel \<times> kstat_t" where
  "krhino_queue_del queue K =
     (case queue of
        None \<Rightarrow> (K, RHINO_NULL_PTR)
      | Some q \<Rightarrow>
          if g_intrpt_nested_level K > 0 then (K, RHINO_NOT_CALLED_BY_INTRPT)
          else if obj_type (blk_objs K q) \<noteq> RHINO_QUEUE_OBJ_TYPE then (K, RHINO_KOBJ_TYPE_ERR)
          else if q_alloc_flag (queues K q) \<noteq> K_OBJ_STATIC_ALLOC then (K, RHINO_KOBJ_DEL_ERR)
          else
            let K = upd_blk q (\<lambda>b. b\<lparr>obj_type := RHINO_OBJ_TYPE_NONE\<rparr>) K;
                K = pend_rm_all q K;
                K = upd_kobj (\<lambda>l. l\<lparr>queue_head := removeAll q (queue_head l)\<rparr>) K;
                K = upd_queue q queue_reset K
            in (core_sched K, RHINO_SUCCESS))"

text \<open>\<open>queue_obj\<close> and \<open>msg_start\<close> are the answers of the allocator.\<close>

definition krhino_queue_dyn_create ::
  "nat option \<Rightarrow> string option \<Rightarrow> nat \<Rightarrow> oid option \<Rightarrow> nat option \<Rightarrow> (nat \<Rightarrow> nat) \<Rightarrow> kernel \<Rightarrow>
   kernel \<times> kstat_t \<times> oid option" where
  "krhino_queue_dyn_create queue_out name msg_num queue_obj msg_start words K =
     (case queue_out of
        None \<Rightarrow> (K, RHINO_NULL_PTR, None)
      | Some _ \<Rightarrow>
          case queue_obj of
            None \<Rightarrow> (K, RHINO_NO_MEM, None)
          | Some q \<Rightarrow>
              case msg_start of
                None \<Rightarrow> (K\<lparr>mm_freed := mm_freed K @ [q]\<rparr>, RHINO_NO_MEM, None)
              | Some st \<Rightarrow>
                  let (K, stat) = queue_create (Some q) name (Some st) msg_num K_OBJ_DYN_ALLOC words K
                  in if stat \<noteq> RHINO_SUCCESS then (K\<lparr>mm_freed := mm_freed K @ [st, q]\<rparr>, stat, None)
                     else (K, stat, Some q))"

definition krhino_queue_dyn_del :: "oid option \<Rightarrow> kernel \<Rightarrow> kernel \<times> kstat_t" where
  "krhino_queue_dyn_del queue K =
     (case queue of
        None \<Rightarrow> (K, RHINO_NULL_PTR)
      | Some q \<Rightarrow>
          if g_intrpt_nested_level K > 0 then (K, RHINO_NOT_CALLED_BY_INTRPT)
          else if obj_type (blk_objs K q) \<noteq> RHINO_QUEUE_OBJ_TYPE then (K, RHINO_KOBJ_TYPE_ERR)
          else if q_alloc_flag (queues K q) \<noteq> K_OBJ_DYN_ALLOC then (K, RHINO_KOBJ_DEL_ERR)
          else
            let K = upd_blk q (\<lambda>b. b\<lparr>obj_type := RHINO_OBJ_TYPE_NONE\<rparr>) K;
                K = pend_rm_all q K;
                K = upd_kobj (\<lambda>l. l\<lparr>queue_head := removeAll q (queue_head l)\<rparr>) K;
                K = upd_queue q queue_reset K;
                K = core_sched K
            in (K\<lparr>mm_freed := mm_freed K @ [q_start (queues K q), q]\<rparr>, RHINO_SUCCESS))"

definition msg_send :: "oid option \<Rightarrow> nat \<Rightarrow> bool \<Rightarrow> kernel \<Rightarrow> kernel \<times> kstat_t" where
  "msg_send p_q p_void opt_wake_all K =
     (case p_q of
        None \<Rightarrow> (K, RHINO_NULL_PTR)
      | Some q \<Rightarrow>
          if obj_type (blk_objs K q) \<noteq> RHINO_QUEUE_OBJ_TYPE then (K, RHINO_KOBJ_TYPE_ERR)
          else if q_cur_num (queues K q) \<ge> q_size (queues K q) then (K, RHINO_QUEUE_FULL)
          else case blist K q of
            [] \<Rightarrow>
              let K = upd_queue q (\<lambda>r. r\<lparr>q_cur_num := q_cur_num r + 1\<rparr>) K;
                  K = (if q_cur_num (queues K q) > q_peak_num (queues K q)
                       then upd_queue q (\<lambda>r. r\<lparr>q_peak_num := q_cur_num r\<rparr>) K else K)
              in (case ringbuf_queue_push p_void (queues K q) of
                    None \<Rightarrow> fault K | Some r \<Rightarrow> upd_queue q (\<lambda>_. r) K, RHINO_SUCCESS)
          | t # _ \<Rightarrow>
              let K = (if opt_wake_all then blk_drain (task_msg_recv p_void) (length (blist K q)) q K
                       else task_msg_recv p_void t K)
              in (core_sched K, RHINO_SUCCESS))"

definition krhino_queue_back_send :: "oid option \<Rightarrow> nat \<Rightarrow> kernel \<Rightarrow> kernel \<times> kstat_t" where
  "krhino_queue_back_send queue m K = msg_send queue m False K"

definition krhino_queue_all_send :: "oid option \<Rightarrow> nat \<Rightarrow> kernel \<Rightarrow> kernel \<times> kstat_t" where
  "krhino_queue_all_send queue m K = msg_send queue m True K"

text \<open>\<open>msg_out\<close> is the caller's \<^verbatim>\<open>void **\<close>; the last component is what is stored there, \<open>0\<close> for \<open>NULL\<close>.\<close>

definition krhino_queue_recv ::
  "oid option \<Rightarrow> tick_t \<Rightarrow> nat option \<Rightarrow> kernel \<Rightarrow> kernel \<times> outcome \<times> nat option" where
  "krhino_queue_recv queue ticks msg_out K =
     (case (queue, msg_out) of
        (Some q, Some _) \<Rightarrow>
          if cancel (tasks K (g_active_task K)) \<and> obj_cancel (blk_objs K q)
          then (K, Ret RHINO_TASK_CANCELED, None)
          else if g_intrpt_nested_level K > 0 \<and> ticks \<noteq> RHINO_NO_WAIT
          then (K, Ret RHINO_NOT_CALLED_BY_INTRPT, None)
          else if obj_type (blk_objs K q) \<noteq> RHINO_QUEUE_OBJ_TYPE then (K, Ret RHINO_KOBJ_TYPE_ERR, None)
          else if q_cur_num (queues K q) > 0 then
            (case ringbuf_queue_pop (queues K q) of
               None \<Rightarrow> (fault K, Ret RHINO_SUCCESS, None)
             | Some (r, m) \<Rightarrow>
                 (upd_queue q (\<lambda>_. r\<lparr>q_cur_num := q_cur_num r - 1\<rparr>) K, Ret RHINO_SUCCESS, Some m))
          else if ticks = RHINO_NO_WAIT then (K, Ret RHINO_NO_PEND_WAIT, Some 0)
          else if g_sched_lock K > 0 then (K, Ret RHINO_SCHED_DISABLE, Some 0)
          else (core_sched (pend_to_blk_obj q (g_active_task K) ticks K), Block, None)
      | _ \<Rightarrow> (K, Ret RHINO_NULL_PTR, None))"

definition krhino_queue_recv_resume :: "oid \<Rightarrow> kernel \<Rightarrow> kernel \<times> kstat_t \<times> nat" where
  "krhino_queue_recv_resume q K =
     (let (K, ret) = pend_state_end_proc (g_active_task K) (Some q) K
      in (K, ret, if ret = RHINO_SUCCESS then msg (tasks K (g_active_task K)) else 0))"

definition krhino_queue_is_full :: "oid option \<Rightarrow> kernel \<Rightarrow> kstat_t" where
  "krhino_queue_is_full queue K =
     (case queue of
        None \<Rightarrow> RHINO_NULL_PTR
      | Some q \<Rightarrow>
          if obj_type (blk_objs K q) \<noteq> RHINO_QUEUE_OBJ_TYPE then RHINO_KOBJ_TYPE_ERR
          else if q_cur_num (queues K q) \<ge> q_size (queues K q) then RHINO_QUEUE_FULL
          else RHINO_QUEUE_NOT_FULL)"

definition krhino_queue_flush :: "oid option \<Rightarrow> kernel \<Rightarrow> kernel \<times> kstat_t" where
  "krhino_queue_flush queue K =
     (case queue of
        None \<Rightarrow> (K, RHINO_NULL_PTR)
      | Some q \<Rightarrow>
          if g_intrpt_nested_level K > 0 then (K, RHINO_NOT_CALLED_BY_INTRPT)
          else if obj_type (blk_objs K q) \<noteq> RHINO_QUEUE_OBJ_TYPE then (K, RHINO_KOBJ_TYPE_ERR)
          else (upd_queue q (\<lambda>r. queue_reset (r\<lparr>q_cur_num := 0\<rparr>)) K, RHINO_SUCCESS))"

text \<open>The fields of \<^verbatim>\<open>msg_info_t\<close>: peak, current number, start, size and the first waiter, if any.\<close>

definition krhino_queue_info_get ::
  "oid option \<Rightarrow> nat option \<Rightarrow> kernel \<Rightarrow> kstat_t \<times> (nat \<times> nat \<times> nat \<times> nat \<times> tid option) option" where
  "krhino_queue_info_get queue info K =
     (case (queue, info) of
        (Some q, Some _) \<Rightarrow>
          if obj_type (blk_objs K q) \<noteq> RHINO_QUEUE_OBJ_TYPE then (RHINO_KOBJ_TYPE_ERR, None)
          else (RHINO_SUCCESS, Some (q_peak_num (queues K q), q_cur_num (queues K q), q_start (queues K q),
                  q_size (queues K q), case blist K q of [] \<Rightarrow> None | t # _ \<Rightarrow> Some t))
      | _ \<Rightarrow> (RHINO_NULL_PTR, None))"

section \<open>Frames and the hand-over of a message\<close>

lemma upd_queue_sel [simp]:
  "queues (upd_queue q f K) = (queues K)(q := f (queues K q))" "tasks (upd_queue q f K) = tasks K"
  "blk_objs (upd_queue q f K) = blk_objs K" "g_ready_queue (upd_queue q f K) = g_ready_queue K"
  "g_active_task (upd_queue q f K) = g_active_task K" "g_sched_lock (upd_queue q f K) = g_sched_lock K"
  "g_intrpt_nested_level (upd_queue q f K) = g_intrpt_nested_level K" "g_fault (upd_queue q f K) = g_fault K"
  "sys_inv (upd_queue q f K) \<longleftrightarrow> sys_inv K" "runs_next (upd_queue q f K) \<longleftrightarrow> runs_next K"
  "kinvd d (upd_queue q f K) \<longleftrightarrow> kinvd d K" "mode_frame A (upd_queue q f K) \<longleftrightarrow> mode_frame A K"
  by (simp_all add: upd_queue_def)

lemma pend_queues [simp]:
  "queues (pend_to_blk_obj b t n K) = queues K" "queues (pend_task_wakeup t K) = queues K"
  "queues (pend_task_rm t K) = queues K" "queues (task_msg_recv m t K) = queues K"
  using sched_frameD(9) [OF sched_frame_pend(3)] sched_frameD(9) [OF sched_frame_pend(1)]
    sched_frameD(9) [OF sched_frame_pend(2)] by (auto simp: task_msg_recv_def)

lemma kinv_upd_msg: "kinvd d (upd_task t (\<lambda>r. r\<lparr>msg := m\<rparr>) K) \<longleftrightarrow> kinvd d K"
proof
  assume "kinvd d K"
  then show "kinvd d (upd_task t (\<lambda>r. r\<lparr>msg := m\<rparr>) K)" by (rule kinv_upd_aux) simp_all
next
  assume k: "kinvd d (upd_task t (\<lambda>r. r\<lparr>msg := m\<rparr>) K)"
  have "kinvd d (upd_task t (\<lambda>r. r\<lparr>msg := msg (tasks K t)\<rparr>) (upd_task t (\<lambda>r. r\<lparr>msg := m\<rparr>) K))"
    by (rule kinv_upd_aux [OF k]) simp_all
  moreover have "upd_task t (\<lambda>r. r\<lparr>msg := msg (tasks K t)\<rparr>) (upd_task t (\<lambda>r. r\<lparr>msg := m\<rparr>) K) = K"
    by (simp add: upd_task_def)
  ultimately show "kinvd d K" by simp
qed

lemma task_msg_recv_view:
  assumes "is_pend (tstate K t)"
  shows "tasks (task_msg_recv m t K) = (tasks K)(t := (tasks K t)\<lparr>task_state := woken (tstate K t),
      blk_state := BLK_FINISH, blk_ptr := None\<rparr>\<lparr>msg := m\<rparr>)"
    "rqueue (task_msg_recv m t K) p = (if tstate K t = K_PEND \<and> p = tprio K t then rqueue K p @ [t] else rqueue K p)"
    "blk_objs (task_msg_recv m t K) = (\<lambda>b. (blk_objs K b)\<lparr>blk_list := removeAll t (blist K b)\<rparr>)"
    "g_fault (task_msg_recv m t K) = g_fault K" "mutexes (task_msg_recv m t K) = mutexes K"
    "g_tick_head (task_msg_recv m t K) = removeAll t (g_tick_head K)"
proof -
  let ?U = "upd_task t (\<lambda>r. r\<lparr>msg := m\<rparr>) K"
  have p: "is_pend (tstate ?U t)" using assms by simp
  have swap: "r\<lparr>msg := m, task_state := a, blk_state := b, blk_ptr := c\<rparr> =
      r\<lparr>task_state := a, blk_state := b, blk_ptr := c\<rparr>\<lparr>msg := m\<rparr>" for r :: ktask and a b c
    by (rule ktask.equality) simp_all
  show "tasks (task_msg_recv m t K) = (tasks K)(t := (tasks K t)\<lparr>task_state := woken (tstate K t),
      blk_state := BLK_FINISH, blk_ptr := None\<rparr>\<lparr>msg := m\<rparr>)"
    unfolding task_msg_recv_def wakeup_view(1) [OF p] by (simp add: swap del: is_pend.simps)
  show "rqueue (task_msg_recv m t K) p = (if tstate K t = K_PEND \<and> p = tprio K t then rqueue K p @ [t] else rqueue K p)"
    "blk_objs (task_msg_recv m t K) = (\<lambda>b. (blk_objs K b)\<lparr>blk_list := removeAll t (blist K b)\<rparr>)"
    "g_fault (task_msg_recv m t K) = g_fault K" "mutexes (task_msg_recv m t K) = mutexes K"
    "g_tick_head (task_msg_recv m t K) = removeAll t (g_tick_head K)"
    unfolding task_msg_recv_def wakeup_view(2-) [OF p] by simp_all
qed

interpretation msgrecv: wait_end "task_msg_recv m" BLK_FINISH "\<lambda>r. r\<lparr>msg := m\<rparr>" for m
proof
  show "kinvd d (task_msg_recv m t K)" if "kinvd d K" "is_pend (tstate K t)" for d K t
    unfolding task_msg_recv_def by (rule kinv_wakeup) (use that in \<open>simp_all add: kinv_upd_msg\<close>)
  show "sched_frame K (task_msg_recv m t K)" for K t
    unfolding task_msg_recv_def by (rule sched_frame_trans [OF _ sched_frame_pend(1)]) simp
qed (fact task_msg_recv_view)+

section \<open>The invariant is kept\<close>

lemma core_sched_queue: "core_sched (upd_queue q f K) = upd_queue q f (core_sched K)"
  by (simp add: core_sched_def upd_queue_def cpu_task_switch_def fault_def split: option.split)

lemma queue_del_eq:
  "core_sched (upd_queue q g (upd_kobj f (pend_rm_all q (upd_blk q (\<lambda>b. b\<lparr>obj_type := RHINO_OBJ_TYPE_NONE\<rparr>) K)))) =
   upd_queue q g (blk_del q f K)"
  by (simp add: blk_del_def core_sched_queue)

lemma queue_create_ok:
  assumes "sys_inv K" and "\<And>q. queue = Some q \<Longrightarrow> blist K q = []"
  shows "sys_inv (fst (queue_create queue name start n fl w K))"
    and "runs_next K \<Longrightarrow> runs_next (fst (queue_create queue name start n fl w K))"
  using assms
  by (auto simp: queue_create_def Let_def blk_obj_zero_def split: option.split intro!: sys_upd_blk sys_kobj)

lemma queue_del_ok:
  assumes s: "sys_inv K"
  shows "sys_inv (fst (krhino_queue_del queue K))" "runs_next K \<Longrightarrow> runs_next (fst (krhino_queue_del queue K))"
    "sys_inv (fst (krhino_queue_dyn_del queue K))" "runs_next K \<Longrightarrow> runs_next (fst (krhino_queue_dyn_del queue K))"
  using s blk_del_ok [OF s]
  by (auto simp: krhino_queue_del_def krhino_queue_dyn_del_def Let_def queue_del_eq split: option.split)

lemma msg_wake_ok:
  assumes s: "sys_inv K"
  shows "t \<in> set (blist K q) \<Longrightarrow> sys_inv (core_sched (task_msg_recv m t K)) \<and> runs_next (core_sched (task_msg_recv m t K))"
    "sys_inv (core_sched (blk_drain (task_msg_recv m) (length (blist K q)) q K)) \<and>
     runs_next (core_sched (blk_drain (task_msg_recv m) (length (blist K q)) q K))"
proof -
  note k = sys_invD(1) [OF s]
  show "sys_inv (core_sched (task_msg_recv m t K)) \<and> runs_next (core_sched (task_msg_recv m t K))"
    if t: "t \<in> set (blist K q)"
    using msgrecv.end_one(1,4,5) [OF k t] finish_sched [OF s, of "task_msg_recv m t K"]
      mode_frame_sched [OF msgrecv.end_frame, of K m t] by blast
  note d = msgrecv.drain_ok(1-3) [OF k, of m q]
  show "sys_inv (core_sched (blk_drain (task_msg_recv m) (length (blist K q)) q K)) \<and>
     runs_next (core_sched (blk_drain (task_msg_recv m) (length (blist K q)) q K))"
    using finish_sched [OF s d(1,2) mode_frame_sched [OF d(3)]] msgrecv.drain_ready [OF k] by blast
qed

section \<open>The ring of slots\<close>

definition slots_hold :: "kqueue_t \<Rightarrow> nat list \<Rightarrow> bool" where
  "slots_hold r ms \<longleftrightarrow> 0 < q_size r \<and> length (q_ring r) = q_size r \<and> q_read r \<le> q_size r \<and> q_write r \<le> q_size r \<and>
     q_cur_num r = length ms \<and> length ms \<le> q_size r \<and>
     (q_read r + length ms) mod q_size r = q_write r mod q_size r \<and>
     (\<forall>i<length ms. q_ring r ! ((q_read r + i) mod q_size r) = ms ! i)"

lemma slots_new: "0 < n \<Longrightarrow> slots_hold \<lparr>q_ring = map w [0..<n], q_size = n, q_cur_num = 0, q_peak_num = 0,
    q_write = 0, q_read = 0, q_start = st, q_alloc_flag = fl\<rparr> []"
  by (simp add: slots_hold_def)

lemma slots_peak [simp]: "slots_hold (r\<lparr>q_peak_num := n\<rparr>) ms \<longleftrightarrow> slots_hold r ms"
  by (simp add: slots_hold_def)

lemma push_slot:
  assumes h: "slots_hold r ms" and l: "length ms < q_size r"
  shows "\<exists>r'. ringbuf_queue_push m (r\<lparr>q_cur_num := q_cur_num r + 1\<rparr>) = Some r' \<and> slots_hold r' (ms @ [m]) \<and>
    q_size r' = q_size r"
proof -
  let ?n = "q_size r"
  define w where "w = (if q_write r = ?n then 0 else q_write r)"
  have n: "0 < ?n" "length (q_ring r) = ?n" "q_write r \<le> ?n" using h by (auto simp: slots_hold_def)
  have w: "w < ?n" "(q_read r + length ms) mod ?n = w"
    using h n by (auto simp: w_def slots_hold_def)
  define r' where "r' = r\<lparr>q_cur_num := q_cur_num r + 1, q_ring := (q_ring r)[w := m], q_write := w + 1\<rparr>"
  have push: "ringbuf_queue_push m (r\<lparr>q_cur_num := q_cur_num r + 1\<rparr>) = Some r'"
    using n w(1) by (auto simp: ringbuf_queue_push_def Let_def r'_def w_def intro!: kqueue_t.equality)
  have old: "(q_read r + i) mod ?n \<noteq> w" if "i < length ms" for i
  proof
    assume "(q_read r + i) mod ?n = w"
    then have "(q_read r + i) mod ?n = (q_read r + length ms) mod ?n" using w(2) by simp
    then have "q_read r + i = q_read r + length ms" by (rule mod_inj) (use that l in auto)
    with that show False by simp
  qed
  have "slots_hold r' (ms @ [m])"
    unfolding slots_hold_def
  proof (intro conjI allI impI)
    show "(q_read r' + length (ms @ [m])) mod q_size r' = q_write r' mod q_size r'"
      using w(2) by (simp add: r'_def) (metis mod_Suc_eq)
    fix i assume i: "i < length (ms @ [m])"
    show "q_ring r' ! ((q_read r' + i) mod q_size r') = (ms @ [m]) ! i"
    proof (cases "i < length ms")
      case True
      with old [of i] h n show ?thesis by (simp add: r'_def nth_append slots_hold_def nth_list_update)
    next
      case False
      with i w n show ?thesis by (simp add: r'_def less_Suc_eq)
    qed
  next
    show "q_write r' \<le> q_size r'" using w(1) by (simp add: r'_def)
  qed (use h l in \<open>auto simp: r'_def slots_hold_def\<close>)
  with push show ?thesis by (auto simp: r'_def)
qed

lemma pop_slot:
  assumes h: "slots_hold r (m # ms)"
  shows "\<exists>r'. ringbuf_queue_pop r = Some (r', m) \<and> slots_hold (r'\<lparr>q_cur_num := q_cur_num r' - 1\<rparr>) ms \<and>
    q_size r' = q_size r \<and> q_cur_num r' = q_cur_num r"
proof -
  let ?n = "q_size r"
  define p where "p = (if q_read r = ?n then 0 else q_read r)"
  have n: "0 < ?n" "length (q_ring r) = ?n" "q_read r \<le> ?n" using h by (auto simp: slots_hold_def)
  have p: "p < ?n" "(q_read r + i) mod ?n = (p + i) mod ?n" for i
    using n by (auto simp: p_def)
  have nth: "q_ring r ! ((p + i) mod ?n) = (m # ms) ! i" if "i < Suc (length ms)" for i
    using h that unfolding p(2) [symmetric] slots_hold_def by simp
  define r' where "r' = r\<lparr>q_read := p + 1\<rparr>"
  have "ringbuf_queue_pop r = Some (r', m)"
    using n p(1) nth [of 0] by (auto simp: ringbuf_queue_pop_def Let_def r'_def p_def)
  moreover have "slots_hold (r'\<lparr>q_cur_num := q_cur_num r' - 1\<rparr>) ms"
    unfolding slots_hold_def
  proof (intro conjI allI impI)
    fix i assume "i < length ms"
    then show "q_ring (r'\<lparr>q_cur_num := q_cur_num r' - 1\<rparr>) !
        ((q_read (r'\<lparr>q_cur_num := q_cur_num r' - 1\<rparr>) + i) mod q_size (r'\<lparr>q_cur_num := q_cur_num r' - 1\<rparr>)) = ms ! i"
      using nth [of "Suc i"] by (simp add: r'_def)
  next
    have "(p + Suc (length ms)) mod ?n = q_write r mod ?n"
      using h p(2) [of "Suc (length ms)"] by (simp add: slots_hold_def)
    then show "(q_read (r'\<lparr>q_cur_num := q_cur_num r' - 1\<rparr>) + length ms) mod
        q_size (r'\<lparr>q_cur_num := q_cur_num r' - 1\<rparr>) =
        q_write (r'\<lparr>q_cur_num := q_cur_num r' - 1\<rparr>) mod q_size (r'\<lparr>q_cur_num := q_cur_num r' - 1\<rparr>)"
      by (simp add: r'_def)
  qed (use h p in \<open>auto simp: r'_def slots_hold_def\<close>)
  ultimately show ?thesis by (auto simp: r'_def)
qed

lemma slots_reset: "slots_hold r ms \<Longrightarrow> slots_hold (queue_reset (r\<lparr>q_cur_num := 0\<rparr>)) []"
  by (simp add: slots_hold_def queue_reset_def)

text \<open>The third instance of the queue interface: the put and the get that \<^verbatim>\<open>msg_send\<close> and
  \<^verbatim>\<open>krhino_queue_recv\<close> make of the ring and its counter.\<close>

definition slot_put :: "nat \<Rightarrow> kqueue_t \<Rightarrow> (kqueue_t \<times> kstat_t) option" where
  "slot_put m r =
     (if q_cur_num r \<ge> q_size r then Some (r, RHINO_QUEUE_FULL)
      else map_option (\<lambda>r. (r, RHINO_SUCCESS)) (ringbuf_queue_push m (r\<lparr>q_cur_num := q_cur_num r + 1\<rparr>)))"

definition slot_get :: "kqueue_t \<Rightarrow> (kqueue_t \<times> nat) option" where
  "slot_get r = map_option (\<lambda>(r, m). (r\<lparr>q_cur_num := q_cur_num r - 1\<rparr>, m)) (ringbuf_queue_pop r)"

interpretation slots: fifo slot_put slot_get slots_hold "\<lambda>_. True" "\<lambda>_ r. q_cur_num r < q_size r"
proof
  show "\<exists>s'. slot_put m s = Some (s', RHINO_SUCCESS) \<and> slots_hold s' (ms @ [m])"
    if "slots_hold s ms" "q_cur_num s < q_size s" for s ms m
    using push_slot [of s ms m] that by (auto simp: slot_put_def slots_hold_def)
  show "\<exists>e. e \<noteq> RHINO_SUCCESS \<and> slot_put m s = Some (s, e)" if "\<not> q_cur_num s < q_size s" for s m
    using that by (simp add: slot_put_def)
  show "\<exists>s'. slot_get s = Some (s', m) \<and> slots_hold s' ms" if "slots_hold s (m # ms)" for s m ms
    using pop_slot [OF that] by (auto simp: slot_get_def)
qed

section \<open>The abstract queue\<close>

record aqueue =
  stored :: "nat list"
  capacity :: nat
  receivers :: "tid list"

text \<open>The last component is the list of the receivers the message is handed to.\<close>

definition aq_send :: "nat \<Rightarrow> bool \<Rightarrow> aqueue \<Rightarrow> aqueue \<times> kstat_t \<times> tid list" where
  "aq_send m to_all a =
     (if length (stored a) \<ge> capacity a then (a, RHINO_QUEUE_FULL, [])
      else case receivers a of
        [] \<Rightarrow> (a\<lparr>stored := stored a @ [m]\<rparr>, RHINO_SUCCESS, [])
      | t # ts \<Rightarrow> if to_all then (a\<lparr>receivers := []\<rparr>, RHINO_SUCCESS, t # ts)
                  else (a\<lparr>receivers := ts\<rparr>, RHINO_SUCCESS, [t]))"

definition queue_rep :: "kernel \<Rightarrow> oid \<Rightarrow> aqueue \<Rightarrow> bool" where
  "queue_rep K q a \<longleftrightarrow> slots_hold (queues K q) (stored a) \<and> q_size (queues K q) = capacity a \<and>
     receivers a = blist K q \<and> (receivers a \<noteq> [] \<longrightarrow> stored a = [])"

lemma msg_send_store:
  assumes "slots_hold (queues K q) ms" "q_cur_num (queues K q) < q_size (queues K q)" "blist K q = []"
    "obj_type (blk_objs K q) = RHINO_QUEUE_OBJ_TYPE"
  shows "\<exists>r. msg_send (Some q) m all K = (upd_queue q (\<lambda>_. r) K, RHINO_SUCCESS) \<and> slots_hold r (ms @ [m]) \<and>
    q_size r = q_size (queues K q)"
proof -
  let ?r = "queues K q"
  have upd2: "upd_queue q f (upd_queue q g L) = upd_queue q (\<lambda>r. f (g r)) L" for f g L
    by (simp add: upd_queue_def)
  show ?thesis
  proof (cases "q_cur_num ?r + 1 > q_peak_num ?r")
    case False
    from push_slot [OF assms(1), of m] assms show ?thesis
      using False by (auto simp: msg_send_def Let_def slots_hold_def upd2)
  next
    case True
    let ?p = "?r\<lparr>q_peak_num := q_cur_num ?r + 1\<rparr>"
    have h: "slots_hold ?p ms" using assms(1) by simp
    have l: "length ms < q_size ?p" using assms(1,2) by (simp add: slots_hold_def)
    have e: "?p\<lparr>q_cur_num := q_cur_num ?p + 1\<rparr> = ?r\<lparr>q_cur_num := q_cur_num ?r + 1, q_peak_num := q_cur_num ?r + 1\<rparr>"
      by (rule kqueue_t.equality) simp_all
    from push_slot [OF h l, of m] assms show ?thesis
      unfolding e using True by (auto simp: msg_send_def Let_def upd2)
  qed
qed

lemma msg_send_ok:
  assumes s: "sys_inv K" and h: "\<And>q. queue = Some q \<Longrightarrow> obj_type (blk_objs K q) = RHINO_QUEUE_OBJ_TYPE \<Longrightarrow>
      \<exists>ms. slots_hold (queues K q) ms"
  shows "sys_inv (fst (msg_send queue m all K))" and "runs_next K \<Longrightarrow> runs_next (fst (msg_send queue m all K))"
proof -
  have "sys_inv (fst (msg_send queue m all K)) \<and> (runs_next K \<longrightarrow> runs_next (fst (msg_send queue m all K)))"
  proof (cases "fst (msg_send queue m all K) = K")
    case False
    then obtain q where q: "queue = Some q" "obj_type (blk_objs K q) = RHINO_QUEUE_OBJ_TYPE"
        "q_cur_num (queues K q) < q_size (queues K q)"
      by (auto simp: msg_send_def split: option.splits if_splits)
    obtain ms where ms: "slots_hold (queues K q) ms" using h q by blast
    show ?thesis
    proof (cases "blist K q")
      case Nil
      from msg_send_store [OF ms q(3) Nil q(2), of m all] s q(1) show ?thesis by auto
    next
      case (Cons t ts)
      have "sys_inv (core_sched (task_msg_recv m t K)) \<and> runs_next (core_sched (task_msg_recv m t K))"
        by (rule msg_wake_ok(1) [OF s, of _ q]) (simp add: Cons)
      with Cons q msg_wake_ok(2) [OF s, of m q] show ?thesis by (simp add: msg_send_def Let_def)
    qed
  qed (use s in simp)
  then show "sys_inv (fst (msg_send queue m all K))" "runs_next K \<Longrightarrow> runs_next (fst (msg_send queue m all K))"
    by auto
qed

lemma queue_recv_ok:
  assumes s: "sys_inv K" and i: "g_active_task K \<noteq> g_idle_task K"
    and h: "\<And>q. queue = Some q \<Longrightarrow> obj_type (blk_objs K q) = RHINO_QUEUE_OBJ_TYPE \<Longrightarrow>
      \<exists>ms. slots_hold (queues K q) ms"
  shows "sys_inv (fst (krhino_queue_recv queue ticks out K))"
    and "runs_next K \<Longrightarrow> runs_next (fst (krhino_queue_recv queue ticks out K))"
proof -
  have pop: "\<exists>r' m. ringbuf_queue_pop (queues K q) = Some (r', m)"
    if q: "queue = Some q" "obj_type (blk_objs K q) = RHINO_QUEUE_OBJ_TYPE" "0 < q_cur_num (queues K q)" for q
  proof -
    obtain ms where ms: "slots_hold (queues K q) ms" using h [OF q(1,2)] by blast
    with q(3) obtain m ms' where "ms = m # ms'" by (cases ms) (auto simp: slots_hold_def)
    with pop_slot ms show ?thesis by blast
  qed
  have blk: "sys_inv (core_sched (pend_to_blk_obj q (g_active_task K) ticks K)) \<and>
      runs_next (core_sched (pend_to_blk_obj q (g_active_task K) ticks K))"
    if "obj_type (blk_objs K q) = RHINO_QUEUE_OBJ_TYPE" "ticks \<noteq> 0" "g_intrpt_nested_level K = 0" "g_sched_lock K = 0" for q
    using block_active [OF s i that(3,4,2), of q] that(1) by simp
  have "sys_inv (fst (krhino_queue_recv queue ticks out K)) \<and>
      (runs_next K \<longrightarrow> runs_next (fst (krhino_queue_recv queue ticks out K)))"
  proof (cases "fst (krhino_queue_recv queue ticks out K) = K")
    case False
    then obtain q where q: "queue = Some q" "obj_type (blk_objs K q) = RHINO_QUEUE_OBJ_TYPE"
      by (auto simp: krhino_queue_recv_def split: option.splits if_splits)
    show ?thesis
    proof (cases "0 < q_cur_num (queues K q)")
      case True
      with pop [OF q True] q s show ?thesis
        by (auto simp: krhino_queue_recv_def split: option.split)
    next
      case F: False
      with q s blk [OF q(2)] show ?thesis
        by (auto simp: krhino_queue_recv_def RHINO_NO_WAIT_def word_gt_0 split: option.split)
    qed
  qed (use s in simp)
  then show "sys_inv (fst (krhino_queue_recv queue ticks out K))"
    "runs_next K \<Longrightarrow> runs_next (fst (krhino_queue_recv queue ticks out K))" by auto
qed

section \<open>Properties\<close>

lemma queue_send_sim:
  assumes k: "kinv K" and t: "obj_type (blk_objs K q) = RHINO_QUEUE_OBJ_TYPE" and r: "queue_rep K q a"
  shows "let (a', st, to) = aq_send m all a; (K', st') = msg_send (Some q) m all K in
    st' = st \<and> queue_rep K' q a' \<and>
    (\<forall>u\<in>set to. tstate K' u = woken (tstate K u) \<and>
       (\<not> cancel (tasks K u) \<longrightarrow>
        snd (krhino_queue_recv_resume q (K'\<lparr>g_active_task := u\<rparr>)) = (RHINO_SUCCESS, m))) \<and>
    (\<forall>u. u \<notin> set to \<longrightarrow> tasks K' u = tasks K u)"
proof -
  let ?R = "queues K q"
  have rep: "slots_hold ?R (stored a)" "q_size ?R = capacity a" "receivers a = blist K q"
    "receivers a \<noteq> [] \<Longrightarrow> stored a = []" using r by (auto simp: queue_rep_def)
  have n: "q_cur_num ?R = length (stored a)" using rep(1) by (simp add: slots_hold_def)
  have resume: "snd (krhino_queue_recv_resume q (L\<lparr>g_active_task := u\<rparr>)) = (RHINO_SUCCESS, m)"
    if "blk_state (tasks L u) = BLK_FINISH" "msg (tasks L u) = m" "\<not> cancel (tasks L u)" for L u
    using that by (simp add: krhino_queue_recv_resume_def pend_state_end_proc_def Let_def)
  show ?thesis
  proof (cases "length (stored a) \<ge> capacity a")
    case True
    with n rep r t show ?thesis by (simp add: aq_send_def msg_send_def)
  next
    case False
    then have lt: "q_cur_num ?R < q_size ?R" using n rep(2) by simp
    show ?thesis
    proof (cases "blist K q")
      case Nil
      from msg_send_store [OF rep(1) lt Nil t, of m all] False rep Nil show ?thesis
        by (auto simp: aq_send_def queue_rep_def)
    next
      case (Cons u us)
      then have z: "stored a = []" using rep(3,4) by simp
      show ?thesis
      proof (cases all)
        case True
        let ?D = "blk_drain (task_msg_recv m) (length (blist K q)) q K"
        note d = msgrecv.drain_ok [OF k, of m q]
        have D: "queues ?D = queues K" using sched_frameD(9) [OF d(3)] by simp
        have "\<forall>v\<in>set (blist K q). \<not> cancel (tasks K v) \<longrightarrow>
            snd (krhino_queue_recv_resume q ((core_sched ?D)\<lparr>g_active_task := v\<rparr>)) = (RHINO_SUCCESS, m)"
          using resume [of "core_sched ?D"] d(7) by simp
        with True False Cons t lt rep z D d(6,7) show ?thesis
          by (simp add: aq_send_def msg_send_def Let_def queue_rep_def)
      next
        case one: False
        have p: "is_pend (tstate K u)" using kinv_blist_iff [OF k, of u q] Cons by simp
        note v = task_msg_recv_view [OF p, of m]
        have "removeAll u (blist K q) = us" using kinv_distinct_blist [OF k, of q] Cons by (rule removeAll_hd)
        moreover have "\<not> cancel (tasks K u) \<longrightarrow>
            snd (krhino_queue_recv_resume q ((core_sched (task_msg_recv m u K))\<lparr>g_active_task := u\<rparr>)) = (RHINO_SUCCESS, m)"
          using resume [of "core_sched (task_msg_recv m u K)" u] v(1) by simp
        ultimately show ?thesis using one False Cons t lt rep z v
          by (simp add: aq_send_def msg_send_def Let_def queue_rep_def)
      qed
    qed
  qed
qed

text \<open>C23. Sending to a queue, to one receiver or to all, refines the abstract queue: a full queue refuses
  the message and changes nothing; without a waiting task the message is stored behind the others;
  otherwise it is handed to the first waiting task, or to all of them, which become runnable and
  get exactly this message when their call goes on. Tasks never wait while messages are stored.\<close>

theorem queue_send_refines:
  assumes k: "kinv K" and t: "obj_type (blk_objs K q) = RHINO_QUEUE_OBJ_TYPE" and r: "queue_rep K q a"
  shows "let (a', st, to) = aq_send m all a; (K', st') = msg_send (Some q) m all K in
    st' = st \<and> queue_rep K' q a' \<and>
    (\<forall>u\<in>set to. tstate K' u = woken (tstate K u) \<and>
       (\<not> cancel (tasks K u) \<longrightarrow>
        snd (krhino_queue_recv_resume q (K'\<lparr>g_active_task := u\<rparr>)) = (RHINO_SUCCESS, m))) \<and>
    (\<forall>u. u \<notin> set to \<longrightarrow> tasks K' u = tasks K u)"
  by (rule queue_send_sim [OF assms])

lemma demo_queue_rep: "queue_rep demo 9 \<lparr>stored = [], capacity = 2, receivers = []\<rparr>"
  by (simp add: queue_rep_def slots_hold_def mk_blk_def) (simp add: demo_def)

lemma queue_send_refines_witness:
  "snd (msg_send (Some 9) 42 False demo) = RHINO_SUCCESS \<and>
   queue_rep (fst (msg_send (Some 9) 42 False demo)) 9 \<lparr>stored = [42], capacity = 2, receivers = []\<rparr>"
  using queue_send_refines [OF sys_invD(1) [OF demo_sys_inv] _ demo_queue_rep, of 42 False]
  by (simp add: mk_blk_def aq_send_def split_beta)

lemma queue_recv_sim:
  assumes t: "obj_type (blk_objs K q) = RHINO_QUEUE_OBJ_TYPE" and r: "queue_rep K q a"
    and c: "\<not> cancel (tasks K (g_active_task K))" and i: "g_intrpt_nested_level K = 0"
  shows "case stored a of
      m # ms \<Rightarrow> \<exists>K'. krhino_queue_recv (Some q) ticks (Some out) K = (K', Ret RHINO_SUCCESS, Some m) \<and>
        queue_rep K' q (a\<lparr>stored := ms\<rparr>) \<and> tasks K' = tasks K
    | [] \<Rightarrow> if ticks = RHINO_NO_WAIT then krhino_queue_recv (Some q) ticks (Some out) K = (K, Ret RHINO_NO_PEND_WAIT, Some 0)
        else if g_sched_lock K > 0 then krhino_queue_recv (Some q) ticks (Some out) K = (K, Ret RHINO_SCHED_DISABLE, Some 0)
        else \<exists>K' rs. krhino_queue_recv (Some q) ticks (Some out) K = (K', Block, None) \<and>
          queue_rep K' q (a\<lparr>receivers := rs\<rparr>) \<and> set rs = insert (g_active_task K) (set (receivers a))"
proof (cases "stored a")
  case Nil
  then have z: "q_cur_num (queues K q) = 0" using r by (simp add: queue_rep_def slots_hold_def)
  have "set (blist (pend_to_blk_obj q (g_active_task K) ticks K) q) = insert (g_active_task K) (set (blist K q))"
    by (simp add: pend_to_blk_obj_def Let_def pendins.ins_set)
  with Nil z t c i r show ?thesis by (auto simp: krhino_queue_recv_def queue_rep_def word_gt_0)
next
  case (Cons m ms)
  then have h: "slots_hold (queues K q) (m # ms)" using r by (simp add: queue_rep_def)
  from pop_slot [OF h] obtain r' where p: "ringbuf_queue_pop (queues K q) = Some (r', m)"
    "slots_hold (r'\<lparr>q_cur_num := q_cur_num r' - 1\<rparr>) ms" "q_size r' = q_size (queues K q)" by blast
  have "q_cur_num (queues K q) > 0" using h by (simp add: slots_hold_def)
  with Cons p t c i r show ?thesis
    by (auto simp: krhino_queue_recv_def queue_rep_def)
qed

text \<open>C24. Receiving takes the oldest message of a queue that has one; from an empty queue it returns
  \<open>NULL\<close> when the caller will not or cannot wait, and otherwise makes the caller a receiver.\<close>

theorem queue_recv_refines:
  assumes t: "obj_type (blk_objs K q) = RHINO_QUEUE_OBJ_TYPE" and r: "queue_rep K q a"
    and c: "\<not> cancel (tasks K (g_active_task K))" and i: "g_intrpt_nested_level K = 0"
  shows "case stored a of
      m # ms \<Rightarrow> \<exists>K'. krhino_queue_recv (Some q) ticks (Some out) K = (K', Ret RHINO_SUCCESS, Some m) \<and>
        queue_rep K' q (a\<lparr>stored := ms\<rparr>) \<and> tasks K' = tasks K
    | [] \<Rightarrow> if ticks = RHINO_NO_WAIT then krhino_queue_recv (Some q) ticks (Some out) K = (K, Ret RHINO_NO_PEND_WAIT, Some 0)
        else if g_sched_lock K > 0 then krhino_queue_recv (Some q) ticks (Some out) K = (K, Ret RHINO_SCHED_DISABLE, Some 0)
        else \<exists>K' rs. krhino_queue_recv (Some q) ticks (Some out) K = (K', Block, None) \<and>
          queue_rep K' q (a\<lparr>receivers := rs\<rparr>) \<and> set rs = insert (g_active_task K) (set (receivers a))"
  by (rule queue_recv_sim [OF assms])

text \<open>The demo system with one message in queue 9.\<close>

definition demo_msg :: kernel where
  "demo_msg = upd_queue 9 (\<lambda>r. r\<lparr>q_ring := [42, 0], q_cur_num := 1, q_write := 1\<rparr>) demo"

lemma queue_recv_refines_witness:
  "\<exists>K'. krhino_queue_recv (Some 9) 5 (Some 0) demo_msg = (K', Ret RHINO_SUCCESS, Some 42) \<and>
    queue_rep K' 9 \<lparr>stored = [], capacity = 2, receivers = []\<rparr>"
proof -
  have "queue_rep demo_msg 9 \<lparr>stored = [42], capacity = 2, receivers = []\<rparr>"
    by (simp add: demo_msg_def queue_rep_def slots_hold_def mk_blk_def) (simp add: demo_def)
  from queue_recv_refines [OF _ this, of 5 0] show ?thesis
    by (simp add: demo_msg_def mk_blk_def mk_task_def ktask_zero_def) blast
qed

end
