(* ===== verification/KBufQueue.thy ===== *)
theory KBufQueue
  imports KQueue
begin

text \<open>
  Buffer queues (\<^verbatim>\<open>k_buf_queue.c\<close>): messages of bytes, copied into a ring buffer of records
  (\<^verbatim>\<open>RINGBUF_TYPE_DYN\<close>) or of fixed blocks (\<^verbatim>\<open>RINGBUF_TYPE_FIX\<close>), or straight into the buffer of a
  waiting receiver. Message buffers lie in the byte memory \<open>u8_mem\<close>, apart from the memory of the
  rings.
\<close>

section \<open>Operations\<close>

definition upd_bq :: "oid \<Rightarrow> (kbuf_queue_t \<Rightarrow> kbuf_queue_t) \<Rightarrow> kernel \<Rightarrow> kernel" where
  "upd_bq q f K = K\<lparr>buf_queues := (buf_queues K)(q := f (buf_queues K q))\<rparr>"

definition load_bytes :: "nat \<Rightarrow> nat \<Rightarrow> kernel \<Rightarrow> u8 list" where
  "load_bytes a n K = map (\<lambda>i. u8_mem K (a + i)) [0..<n]"

definition store_bytes :: "nat \<Rightarrow> u8 list \<Rightarrow> kernel \<Rightarrow> kernel" where
  "store_bytes a xs K = K\<lparr>u8_mem := (\<lambda>p. if a \<le> p \<and> p < a + length xs then xs ! (p - a) else u8_mem K p)\<rparr>"

definition buf_queue_create :: "oid option \<Rightarrow> string option \<Rightarrow> nat option \<Rightarrow> nat \<Rightarrow> nat \<Rightarrow> alloc_flag_t \<Rightarrow> nat \<Rightarrow>
    kernel \<Rightarrow> kernel \<times> kstat_t" where
  "buf_queue_create queue name buf sz max_msg mm_alloc_flag type K =
     (case (queue, buf, name) of
        (Some q, Some bf, Some nm) \<Rightarrow>
          if max_msg = 0 then (K, RHINO_INV_PARAM)
          else if sz = 0 then (K, RHINO_BUF_QUEUE_SIZE_ZERO)
          else
            let K = upd_blk q (\<lambda>_. blk_obj_zero) K;
                K = upd_blk q (\<lambda>b. b\<lparr>obj_name := nm, blk_policy := BLK_POLICY_PRI, obj_cancel := True\<rparr>) K;
                K = upd_kobj (\<lambda>l. l\<lparr>buf_queue_head := buf_queue_head l @ [q]\<rparr>) K;
                K = upd_blk q (\<lambda>b. b\<lparr>obj_type := RHINO_BUF_QUEUE_OBJ_TYPE\<rparr>) K;
                rg = ringbuf_init (load_bytes bf sz K) type max_msg;
                K = upd_bq q (\<lambda>_. \<lparr>bq_buf = bf, bq_ring = rg, max_msg_size = max_msg, bq_cur_num = 0,
                      bq_peak_num = 0, min_free_buf_size = freesize rg, bq_alloc_flag = mm_alloc_flag\<rparr>) K
            in (K, RHINO_SUCCESS)
      | _ \<Rightarrow> (K, RHINO_NULL_PTR))"

definition krhino_buf_queue_create ::
  "oid option \<Rightarrow> string option \<Rightarrow> nat option \<Rightarrow> nat \<Rightarrow> nat \<Rightarrow> kernel \<Rightarrow> kernel \<times> kstat_t" where
  "krhino_buf_queue_create queue name buf sz max_msg K =
     buf_queue_create queue name buf sz max_msg K_OBJ_STATIC_ALLOC RINGBUF_TYPE_DYN K"

definition krhino_fix_buf_queue_create ::
  "oid option \<Rightarrow> string option \<Rightarrow> nat option \<Rightarrow> nat \<Rightarrow> nat \<Rightarrow> kernel \<Rightarrow> kernel \<times> kstat_t" where
  "krhino_fix_buf_queue_create queue name buf msg_size msg_num K =
     buf_queue_create queue name buf (msg_size * msg_num mod 2 ^ 32) msg_size K_OBJ_STATIC_ALLOC RINGBUF_TYPE_FIX K"

definition krhino_buf_queue_del :: "oid option \<Rightarrow> kernel \<Rightarrow> kernel \<times> kstat_t" where
  "krhino_buf_queue_del queue K =
     (case queue of
        None \<Rightarrow> (K, RHINO_NULL_PTR)
      | Some q \<Rightarrow>
          if g_intrpt_nested_level K > 0 then (K, RHINO_NOT_CALLED_BY_INTRPT)
          else if obj_type (blk_objs K q) \<noteq> RHINO_BUF_QUEUE_OBJ_TYPE then (K, RHINO_KOBJ_TYPE_ERR)
          else if bq_alloc_flag (buf_queues K q) \<noteq> K_OBJ_STATIC_ALLOC then (K, RHINO_KOBJ_DEL_ERR)
          else
            let K = upd_blk q (\<lambda>b. b\<lparr>obj_type := RHINO_OBJ_TYPE_NONE\<rparr>) K;
                K = pend_rm_all q K;
                K = upd_kobj (\<lambda>l. l\<lparr>buf_queue_head := removeAll q (buf_queue_head l)\<rparr>) K;
                K = upd_bq q (\<lambda>r. r\<lparr>bq_ring := ringbuf_reset (bq_ring r)\<rparr>) K
            in (core_sched K, RHINO_SUCCESS))"

text \<open>\<open>queue_obj\<close> and \<open>buf\<close> are the answers of the allocator.\<close>

definition buf_queue_dyn_create :: "nat option \<Rightarrow> string option \<Rightarrow> nat \<Rightarrow> nat \<Rightarrow> nat \<Rightarrow> oid option \<Rightarrow> nat option \<Rightarrow>
    kernel \<Rightarrow> kernel \<times> kstat_t \<times> oid option" where
  "buf_queue_dyn_create queue_out name sz max_msg type queue_obj buf K =
     (case queue_out of
        None \<Rightarrow> (K, RHINO_NULL_PTR, None)
      | Some _ \<Rightarrow>
          if sz = 0 then (K, RHINO_BUF_QUEUE_SIZE_ZERO, None)
          else case queue_obj of
            None \<Rightarrow> (K, RHINO_NO_MEM, None)
          | Some q \<Rightarrow>
              case buf of
                None \<Rightarrow> (K\<lparr>mm_freed := mm_freed K @ [q]\<rparr>, RHINO_NO_MEM, None)
              | Some bf \<Rightarrow>
                  let (K, stat) = buf_queue_create (Some q) name (Some bf) sz max_msg K_OBJ_DYN_ALLOC type K
                  in if stat \<noteq> RHINO_SUCCESS then (K\<lparr>mm_freed := mm_freed K @ [bf, q]\<rparr>, stat, None)
                     else (K, RHINO_SUCCESS, Some q))"

definition krhino_buf_queue_dyn_create :: "nat option \<Rightarrow> string option \<Rightarrow> nat \<Rightarrow> nat \<Rightarrow> oid option \<Rightarrow> nat option \<Rightarrow>
    kernel \<Rightarrow> kernel \<times> kstat_t \<times> oid option" where
  "krhino_buf_queue_dyn_create queue_out name sz max_msg queue_obj buf K =
     buf_queue_dyn_create queue_out name sz max_msg RINGBUF_TYPE_DYN queue_obj buf K"

definition krhino_fix_buf_queue_dyn_create :: "nat option \<Rightarrow> string option \<Rightarrow> nat \<Rightarrow> nat \<Rightarrow> oid option \<Rightarrow> nat option \<Rightarrow>
    kernel \<Rightarrow> kernel \<times> kstat_t \<times> oid option" where
  "krhino_fix_buf_queue_dyn_create queue_out name msg_size msg_num queue_obj buf K =
     buf_queue_dyn_create queue_out name (msg_size * msg_num mod 2 ^ 32) msg_size RINGBUF_TYPE_FIX queue_obj buf K"

definition krhino_buf_queue_dyn_del :: "oid option \<Rightarrow> kernel \<Rightarrow> kernel \<times> kstat_t" where
  "krhino_buf_queue_dyn_del queue K =
     (case queue of
        None \<Rightarrow> (K, RHINO_NULL_PTR)
      | Some q \<Rightarrow>
          if g_intrpt_nested_level K > 0 then (K, RHINO_NOT_CALLED_BY_INTRPT)
          else if obj_type (blk_objs K q) \<noteq> RHINO_BUF_QUEUE_OBJ_TYPE then (K, RHINO_KOBJ_TYPE_ERR)
          else if bq_alloc_flag (buf_queues K q) \<noteq> K_OBJ_DYN_ALLOC then (K, RHINO_KOBJ_DEL_ERR)
          else
            let K = upd_blk q (\<lambda>b. b\<lparr>obj_type := RHINO_OBJ_TYPE_NONE\<rparr>) K;
                K = pend_rm_all q K;
                K = upd_kobj (\<lambda>l. l\<lparr>buf_queue_head := removeAll q (buf_queue_head l)\<rparr>) K;
                K = upd_bq q (\<lambda>r. r\<lparr>bq_ring := ringbuf_reset (bq_ring r)\<rparr>) K;
                K = core_sched K
            in (K\<lparr>mm_freed := mm_freed K @ [bq_buf (buf_queues K q), q]\<rparr>, RHINO_SUCCESS))"

definition buf_queue_send :: "oid \<Rightarrow> nat \<Rightarrow> nat \<Rightarrow> kernel \<Rightarrow> kernel \<times> kstat_t" where
  "buf_queue_send q m msg_size K =
     (if obj_type (blk_objs K q) \<noteq> RHINO_BUF_QUEUE_OBJ_TYPE then (K, RHINO_KOBJ_TYPE_ERR)
      else if msg_size > max_msg_size (buf_queues K q) then (K, RHINO_BUF_QUEUE_MSG_SIZE_OVERFLOW)
      else if msg_size = 0 then (K, RHINO_INV_PARAM)
      else case blist K q of
        [] \<Rightarrow>
          (case ringbuf_push (bq_ring (buf_queues K q)) (\<lambda>i. u8_mem K (m + i)) msg_size of
             None \<Rightarrow> (fault K, RHINO_SUCCESS)
           | Some (rg, err) \<Rightarrow>
               let K = upd_bq q (\<lambda>r. r\<lparr>bq_ring := rg\<rparr>) K
               in if err \<noteq> RHINO_SUCCESS
                  then (K, if err = RHINO_RINGBUF_FULL then RHINO_BUF_QUEUE_FULL else err)
                  else
                    let K = upd_bq q (\<lambda>r. r\<lparr>bq_cur_num := bq_cur_num r + 1\<rparr>) K;
                        K = upd_bq q (\<lambda>r. if bq_peak_num r < bq_cur_num r then r\<lparr>bq_peak_num := bq_cur_num r\<rparr> else r) K;
                        K = upd_bq q (\<lambda>r. if min_free_buf_size r > freesize (bq_ring r)
                              then r\<lparr>min_free_buf_size := freesize (bq_ring r)\<rparr> else r) K
                    in (K, RHINO_SUCCESS))
      | t # _ \<Rightarrow>
          let K = store_bytes (msg (tasks K t)) (load_bytes m msg_size K) K;
              K = upd_task t (\<lambda>r. r\<lparr>bq_msg_size := msg_size\<rparr>) K;
              K = pend_task_wakeup t K
          in (core_sched K, RHINO_SUCCESS))"

definition krhino_buf_queue_send :: "oid option \<Rightarrow> nat option \<Rightarrow> nat \<Rightarrow> kernel \<Rightarrow> kernel \<times> kstat_t" where
  "krhino_buf_queue_send queue m sz K =
     (case (queue, m) of (Some q, Some a) \<Rightarrow> buf_queue_send q a sz K | _ \<Rightarrow> (K, RHINO_NULL_PTR))"

text \<open>The last component is what is stored through \<open>sz\<close>.\<close>

definition krhino_buf_queue_recv ::
  "oid option \<Rightarrow> tick_t \<Rightarrow> nat option \<Rightarrow> nat option \<Rightarrow> kernel \<Rightarrow> kernel \<times> outcome \<times> nat option" where
  "krhino_buf_queue_recv queue ticks m sz K =
     (case (queue, m, sz) of
        (Some q, Some a, Some _) \<Rightarrow>
          if cancel (tasks K (g_active_task K)) \<and> obj_cancel (blk_objs K q)
          then (K, Ret RHINO_TASK_CANCELED, None)
          else if g_intrpt_nested_level K > 0 \<and> ticks \<noteq> RHINO_NO_WAIT
          then (K, Ret RHINO_NOT_CALLED_BY_INTRPT, None)
          else if obj_type (blk_objs K q) \<noteq> RHINO_BUF_QUEUE_OBJ_TYPE then (K, Ret RHINO_KOBJ_TYPE_ERR, None)
          else if bq_cur_num (buf_queues K q) > 0 then
            (case ringbuf_pop (bq_ring (buf_queues K q)) of
               None \<Rightarrow> (fault K, Ret RHINO_SUCCESS, None)
             | Some (rg, xs, len) \<Rightarrow>
                 let K = store_bytes a xs K;
                     K = upd_bq q (\<lambda>r. r\<lparr>bq_ring := rg, bq_cur_num := bq_cur_num r - 1\<rparr>) K
                 in (K, Ret RHINO_SUCCESS, Some len))
          else if ticks = RHINO_NO_WAIT then (K, Ret RHINO_NO_PEND_WAIT, Some 0)
          else if g_sched_lock K > 0 then (K, Ret RHINO_SCHED_DISABLE, Some 0)
          else
            let t = g_active_task K;
                K = upd_task t (\<lambda>r. r\<lparr>msg := a\<rparr>) K
            in (core_sched (pend_to_blk_obj q t ticks K), Block, None)
      | _ \<Rightarrow> (K, Ret RHINO_NULL_PTR, None))"

definition krhino_buf_queue_recv_resume :: "oid \<Rightarrow> kernel \<Rightarrow> kernel \<times> kstat_t \<times> nat" where
  "krhino_buf_queue_recv_resume q K =
     (let (K, ret) = pend_state_end_proc (g_active_task K) (Some q) K
      in (K, ret, if ret = RHINO_SUCCESS then bq_msg_size (tasks K (g_active_task K)) else 0))"

definition krhino_buf_queue_flush :: "oid option \<Rightarrow> kernel \<Rightarrow> kernel \<times> kstat_t" where
  "krhino_buf_queue_flush queue K =
     (case queue of
        None \<Rightarrow> (K, RHINO_NULL_PTR)
      | Some q \<Rightarrow>
          if g_intrpt_nested_level K > 0 then (K, RHINO_NOT_CALLED_BY_INTRPT)
          else if obj_type (blk_objs K q) \<noteq> RHINO_BUF_QUEUE_OBJ_TYPE then (K, RHINO_KOBJ_TYPE_ERR)
          else
            (upd_bq q (\<lambda>r. let rg = ringbuf_reset (bq_ring r)
               in r\<lparr>bq_ring := rg, bq_cur_num := 0, bq_peak_num := 0, min_free_buf_size := freesize rg\<rparr>) K,
             RHINO_SUCCESS))"

text \<open>The fields of \<^verbatim>\<open>kbuf_queue_info_t\<close>: free and least free bytes, size of the buffer, largest
  message, number of messages and its peak.\<close>

definition krhino_buf_queue_info_get ::
  "oid option \<Rightarrow> nat option \<Rightarrow> kernel \<Rightarrow> kstat_t \<times> (nat \<times> nat \<times> nat \<times> nat \<times> nat \<times> nat) option" where
  "krhino_buf_queue_info_get queue info K =
     (case (queue, info) of
        (Some q, Some _) \<Rightarrow>
          if obj_type (blk_objs K q) \<noteq> RHINO_BUF_QUEUE_OBJ_TYPE then (RHINO_KOBJ_TYPE_ERR, None)
          else let r = buf_queues K q
               in (RHINO_SUCCESS, Some (freesize (bq_ring r), min_free_buf_size r, rb_end (bq_ring r),
                     max_msg_size r, bq_cur_num r, bq_peak_num r))
      | _ \<Rightarrow> (RHINO_NULL_PTR, None))"

section \<open>Frames\<close>

lemma upd_bq_sel [simp]:
  "buf_queues (upd_bq q f K) = (buf_queues K)(q := f (buf_queues K q))" "tasks (upd_bq q f K) = tasks K"
  "blk_objs (upd_bq q f K) = blk_objs K" "g_ready_queue (upd_bq q f K) = g_ready_queue K"
  "g_active_task (upd_bq q f K) = g_active_task K" "g_sched_lock (upd_bq q f K) = g_sched_lock K"
  "g_intrpt_nested_level (upd_bq q f K) = g_intrpt_nested_level K" "g_fault (upd_bq q f K) = g_fault K"
  "u8_mem (upd_bq q f K) = u8_mem K"
  "sys_inv (upd_bq q f K) \<longleftrightarrow> sys_inv K" "runs_next (upd_bq q f K) \<longleftrightarrow> runs_next K"
  "kinvd d (upd_bq q f K) \<longleftrightarrow> kinvd d K" "mode_frame A (upd_bq q f K) \<longleftrightarrow> mode_frame A K"
  by (simp_all add: upd_bq_def)

lemma store_bytes_sel [simp]:
  "buf_queues (store_bytes a xs K) = buf_queues K" "tasks (store_bytes a xs K) = tasks K"
  "blk_objs (store_bytes a xs K) = blk_objs K" "g_ready_queue (store_bytes a xs K) = g_ready_queue K"
  "g_active_task (store_bytes a xs K) = g_active_task K" "g_sched_lock (store_bytes a xs K) = g_sched_lock K"
  "g_intrpt_nested_level (store_bytes a xs K) = g_intrpt_nested_level K" "g_fault (store_bytes a xs K) = g_fault K"
  "sys_inv (store_bytes a xs K) \<longleftrightarrow> sys_inv K" "runs_next (store_bytes a xs K) \<longleftrightarrow> runs_next K"
  "kinvd d (store_bytes a xs K) \<longleftrightarrow> kinvd d K" "mode_frame A (store_bytes a xs K) \<longleftrightarrow> mode_frame A K"
  by (simp_all add: store_bytes_def)

lemma load_store [simp]: "load_bytes a (length xs) (store_bytes a xs K) = xs"
  by (rule nth_equalityI) (simp_all add: load_bytes_def store_bytes_def)

lemma load_bytes_cong: "u8_mem K = u8_mem L \<Longrightarrow> load_bytes a n K = load_bytes a n L"
  by (simp add: load_bytes_def)

lemma load_frames [simp]:
  "load_bytes a n (upd_bq q f K) = load_bytes a n K" "load_bytes a n (core_sched K) = load_bytes a n K"
  "load_bytes a n (upd_task t g K) = load_bytes a n K" "load_bytes a n (pend_task_wakeup t K) = load_bytes a n K"
  "buf_queues (pend_task_wakeup t K) = buf_queues K"
  using sched_frameD(19,20) [OF sched_frame_pend(1)] by (simp_all add: load_bytes_def)

lemma length_load_bytes [simp]: "length (load_bytes a n K) = n"
  by (simp add: load_bytes_def)

lemma bytes_at_load: "bytes_at (\<lambda>i. u8_mem K (a + i)) n = load_bytes a n K"
  by (simp add: bytes_at_def load_bytes_def)

section \<open>The messages in the ring\<close>

definition bq_holds :: "kbuf_queue_t \<Rightarrow> u8 list list \<Rightarrow> bool" where
  "bq_holds r ms \<longleftrightarrow> bq_cur_num r = length ms \<and>
     (dyn_holds (bq_ring r) ms \<or> fix_holds (max_msg_size r) (rb_end (bq_ring r)) (bq_ring r) ms)"

text \<open>What a message of \<open>n\<close> bytes at \<open>a\<close> puts into the ring, and the room it needs.\<close>

definition bq_payload :: "kbuf_queue_t \<Rightarrow> nat \<Rightarrow> nat \<Rightarrow> kernel \<Rightarrow> u8 list" where
  "bq_payload r a n K = load_bytes a (if rb_type (bq_ring r) = RINGBUF_TYPE_FIX then max_msg_size r else n) K"

definition bq_need :: "kbuf_queue_t \<Rightarrow> nat \<Rightarrow> nat" where
  "bq_need r n = (if rb_type (bq_ring r) = RINGBUF_TYPE_FIX then max_msg_size r else 4 + n)"

lemma bytes_at_bytes_at [simp]: "bytes_at (nth (bytes_at d n)) n = bytes_at d n"
  by (simp add: bytes_at_def)

lemma push_as_put:
  "rb_type r = RINGBUF_TYPE_FIX \<Longrightarrow> ringbuf_push r d n = ring_put (bytes_at d (rb_blk_size r)) r"
  "rb_type r \<noteq> RINGBUF_TYPE_FIX \<Longrightarrow> ringbuf_push r d n = ring_put (bytes_at d n) r"
  by (simp_all add: ring_put_def ringbuf_push_def Let_def)

lemma bq_push:
  assumes h: "bq_holds r ms" and n: "0 < n" "n < 2 ^ 32 - 4"
  shows "\<exists>rg. ringbuf_push (bq_ring r) (\<lambda>i. u8_mem K (a + i)) n =
      Some (rg, if freesize (bq_ring r) < bq_need r n then RHINO_RINGBUF_FULL else RHINO_SUCCESS) \<and>
    (if freesize (bq_ring r) < bq_need r n then rg = bq_ring r
     else \<forall>r'. bq_ring r' = rg \<and> max_msg_size r' = max_msg_size r \<and> bq_cur_num r' = bq_cur_num r + 1 \<longrightarrow>
       bq_holds r' (ms @ [bq_payload r a n K]))"
proof (cases "rb_type (bq_ring r) = RINGBUF_TYPE_FIX")
  case True
  let ?B = "max_msg_size r" and ?n = "rb_end (bq_ring r)"
  have f: "fix_holds ?B ?n (bq_ring r) ms" using h True by (auto simp: bq_holds_def dyn_holds_def)
  then have b: "rb_blk_size (bq_ring r) = ?B" by (simp add: fix_holds_def)
  show ?thesis
  proof (cases "?B \<le> freesize (bq_ring r)")
    case True
    let ?m = "load_bytes a ?B K"
    obtain rg where rg: "ring_put ?m (bq_ring r) = Some (rg, RHINO_SUCCESS)" "fix_holds ?B ?n rg (ms @ [?m])"
      using fixed.put_room [OF f, of ?m] True by auto
    moreover have "rb_end rg = ?n" using rg(2) by (simp add: fix_holds_def)
    ultimately show ?thesis
      using True b h \<open>rb_type (bq_ring r) = RINGBUF_TYPE_FIX\<close> push_as_put(1) [of "bq_ring r"]
      by (auto simp: bq_need_def bq_payload_def bq_holds_def bytes_at_load)
  next
    case False
    with \<open>rb_type (bq_ring r) = RINGBUF_TYPE_FIX\<close> b show ?thesis by (simp add: bq_need_def ringbuf_push_def)
  qed
next
  case False
  have d: "dyn_holds (bq_ring r) ms" using h False by (auto simp: bq_holds_def fix_holds_def)
  show ?thesis
  proof (cases "4 + n \<le> freesize (bq_ring r)")
    case True
    let ?m = "load_bytes a n K"
    obtain rg where "ring_put ?m (bq_ring r) = Some (rg, RHINO_SUCCESS)" "dyn_holds rg (ms @ [?m])"
      using dyn.put_room [OF d, of ?m] True n by auto
    with True False h push_as_put(2) [OF False] show ?thesis
      by (auto simp: bq_need_def bq_payload_def bq_holds_def bytes_at_load)
  next
    case F: False
    have "sz_add RING_BUF_LEN n = 4 + n" using n by (simp add: sz_add_def)
    with F False n show ?thesis by (simp add: bq_need_def ringbuf_push_def)
  qed
qed

lemma bq_pop:
  assumes h: "bq_holds r (m # ms)"
  shows "\<exists>rg. ringbuf_pop (bq_ring r) = Some (rg, m, length m) \<and> bq_holds (r\<lparr>bq_ring := rg, bq_cur_num := bq_cur_num r - 1\<rparr>) ms"
proof (cases "rb_type (bq_ring r) = RINGBUF_TYPE_FIX")
  case True
  let ?B = "max_msg_size r" and ?n = "rb_end (bq_ring r)"
  have f: "fix_holds ?B ?n (bq_ring r) (m # ms)" using h True by (auto simp: bq_holds_def dyn_holds_def)
  then have b: "rb_blk_size (bq_ring r) = ?B" "length m = ?B" by (simp_all add: fix_holds_def)
  obtain rg where rg: "ring_get (bq_ring r) = Some (rg, m)" "fix_holds ?B ?n rg ms" using fixed.get_first [OF f] by auto
  have "ringbuf_pop (bq_ring r) = Some (rg, m, ?B)"
    using rg(1) True b
    by (auto simp: ring_get_def ringbuf_pop_def Let_def ring_load_def split: bind_splits if_splits)
  moreover have "rb_end rg = ?n" using rg(2) by (simp add: fix_holds_def)
  ultimately show ?thesis using h rg b by (auto simp: bq_holds_def)
next
  case False
  have d: "dyn_holds (bq_ring r) (m # ms)" using h False by (auto simp: bq_holds_def fix_holds_def)
  have "rb_content (bq_ring r) = size_bytes (length m) @ m @ encode ms" using d by (simp add: dyn_holds_def encode_def)
  from pop_dyn [OF _ _ this] d obtain rg where
    "ringbuf_pop (bq_ring r) = Some (rg, m, length m)" "dyn_holds rg ms" by (auto simp: dyn_holds_def)
  with h show ?thesis by (auto simp: bq_holds_def)
qed

section \<open>The invariant is kept\<close>

lemma core_sched_bq: "core_sched (upd_bq q f K) = upd_bq q f (core_sched K)"
  by (simp add: core_sched_def upd_bq_def cpu_task_switch_def fault_def split: option.split)

lemma bq_del_eq:
  "core_sched (upd_bq q g (upd_kobj f (pend_rm_all q (upd_blk q (\<lambda>b. b\<lparr>obj_type := RHINO_OBJ_TYPE_NONE\<rparr>) K)))) =
   upd_bq q g (blk_del q f K)"
  by (simp add: blk_del_def core_sched_bq)

lemma buf_queue_create_ok:
  assumes "sys_inv K" and "\<And>q. queue = Some q \<Longrightarrow> blist K q = []"
  shows "sys_inv (fst (buf_queue_create queue name buf n mx fl ty K))"
    and "runs_next K \<Longrightarrow> runs_next (fst (buf_queue_create queue name buf n mx fl ty K))"
  using assms
  by (auto simp: buf_queue_create_def Let_def blk_obj_zero_def split: option.split intro!: sys_upd_blk sys_kobj)

lemma buf_queue_del_ok:
  assumes s: "sys_inv K"
  shows "sys_inv (fst (krhino_buf_queue_del queue K))" "runs_next K \<Longrightarrow> runs_next (fst (krhino_buf_queue_del queue K))"
    "sys_inv (fst (krhino_buf_queue_dyn_del queue K))" "runs_next K \<Longrightarrow> runs_next (fst (krhino_buf_queue_dyn_del queue K))"
  using s blk_del_ok [OF s]
  by (auto simp: krhino_buf_queue_del_def krhino_buf_queue_dyn_del_def Let_def bq_del_eq split: option.split)

text \<open>What a sender leaves when nobody waits.\<close>

lemma bq_send_store:
  assumes h: "bq_holds (buf_queues K q) ms" and t: "obj_type (blk_objs K q) = RHINO_BUF_QUEUE_OBJ_TYPE"
    and n: "0 < n" "n \<le> max_msg_size (buf_queues K q)" "max_msg_size (buf_queues K q) < 2 ^ 32 - 4" and w: "blist K q = []"
  shows "\<exists>r. buf_queue_send q a n K = (upd_bq q (\<lambda>_. r) K,
      if freesize (bq_ring (buf_queues K q)) < bq_need (buf_queues K q) n then RHINO_BUF_QUEUE_FULL else RHINO_SUCCESS) \<and>
    (if freesize (bq_ring (buf_queues K q)) < bq_need (buf_queues K q) n then r = buf_queues K q
     else bq_holds r (ms @ [bq_payload (buf_queues K q) a n K])) \<and> max_msg_size r = max_msg_size (buf_queues K q)"
proof -
  let ?r = "buf_queues K q"
  have n': "n < 2 ^ 32 - 4" using n by simp
  have upd2: "upd_bq q f (upd_bq q g L) = upd_bq q (\<lambda>r. f (g r)) L" for f g L
    by (simp add: upd_bq_def)
  have const: "upd_bq q f K = upd_bq q (\<lambda>_. f ?r) K" for f by (simp add: upd_bq_def)
  from bq_push [OF h n(1) n', of K a] obtain rg where rg:
    "ringbuf_push (bq_ring ?r) (\<lambda>i. u8_mem K (a + i)) n =
      Some (rg, if freesize (bq_ring ?r) < bq_need ?r n then RHINO_RINGBUF_FULL else RHINO_SUCCESS)"
    "if freesize (bq_ring ?r) < bq_need ?r n then rg = bq_ring ?r
     else \<forall>r'. bq_ring r' = rg \<and> max_msg_size r' = max_msg_size ?r \<and> bq_cur_num r' = bq_cur_num ?r + 1 \<longrightarrow>
       bq_holds r' (ms @ [bq_payload ?r a n K])" by blast
  show ?thesis
  proof (cases "freesize (bq_ring ?r) < bq_need ?r n")
    case True
    have "?r\<lparr>bq_ring := bq_ring ?r\<rparr> = ?r" by simp
    with True rg t n w const [of "\<lambda>r. r\<lparr>bq_ring := bq_ring ?r\<rparr>"] show ?thesis
      by (intro exI [of _ ?r]) (simp add: buf_queue_send_def)
  next
    case False
    define g where "g = (\<lambda>r :: kbuf_queue_t. let r = r\<lparr>bq_ring := rg, bq_cur_num := bq_cur_num r + 1\<rparr>;
        r = (if bq_peak_num r < bq_cur_num r then r\<lparr>bq_peak_num := bq_cur_num r\<rparr> else r)
      in if min_free_buf_size r > freesize (bq_ring r) then r\<lparr>min_free_buf_size := freesize (bq_ring r)\<rparr> else r)"
    have g: "bq_ring (g ?r) = rg" "max_msg_size (g ?r) = max_msg_size ?r" "bq_cur_num (g ?r) = bq_cur_num ?r + 1"
      by (simp_all add: g_def Let_def)
    have "buf_queue_send q a n K = (upd_bq q g K, RHINO_SUCCESS)"
      using False rg(1) t n w by (simp add: buf_queue_send_def Let_def upd2 g_def)
    also have "upd_bq q g K = upd_bq q (\<lambda>_. g ?r) K" by (rule const)
    finally show ?thesis using False g rg(2) by (intro exI [of _ "g ?r"]) simp
  qed
qed

text \<open>What a sender leaves when a task waits for the message.\<close>

lemma bq_send_wake:
  assumes k: "kinv K" and t: "obj_type (blk_objs K q) = RHINO_BUF_QUEUE_OBJ_TYPE"
    and n: "0 < n" "n \<le> max_msg_size (buf_queues K q)" and w: "blist K q = u # us"
  shows "\<exists>L. buf_queue_send q a n K = (core_sched L, RHINO_SUCCESS) \<and> kinv L \<and> g_fault L = g_fault K \<and> mode_frame K L \<and>
    load_bytes (msg (tasks K u)) n L = load_bytes a n K \<and> buf_queues L = buf_queues K \<and> blist L q = us \<and>
    tasks L = (tasks K)(u := (tasks K u)\<lparr>bq_msg_size := n, task_state := woken (tstate K u), blk_state := BLK_FINISH, blk_ptr := None\<rparr>) \<and>
    is_pend (tstate K u)"
proof -
  let ?S = "store_bytes (msg (tasks K u)) (load_bytes a n K) K"
  let ?U = "upd_task u (\<lambda>r. r\<lparr>bq_msg_size := n\<rparr>) ?S"
  have kU: "kinv ?U" by (rule kinv_upd_aux) (use k in simp_all)
  have uin: "u \<in> set (blist ?U q)" using w by simp
  note one = wakeup.end_one [OF kU uin]
  have p: "is_pend (tstate ?U u)" by (rule one(2))
  have "removeAll u (blist K q) = us" using kinv_distinct_blist [OF k, of q] w by (rule removeAll_hd)
  moreover have "load_bytes (msg (tasks K u)) n ?S = load_bytes a n K"
    using load_store [of "msg (tasks K u)" "load_bytes a n K" K] by simp
  moreover have "mode_frame K (pend_task_wakeup u ?U)"
    by (rule mode_frame_trans [OF _ mode_frame_sched [OF sched_frame_pend(1)]]) simp
  ultimately show ?thesis
    using one(1,5) t n w wakeup_view(1,3) [OF p] p
    by (intro exI [of _ "pend_task_wakeup u ?U"]) (simp add: buf_queue_send_def Let_def)
qed

lemma buf_queue_send_ok:
  assumes s: "sys_inv K" and h: "\<And>q. queue = Some q \<Longrightarrow> obj_type (blk_objs K q) = RHINO_BUF_QUEUE_OBJ_TYPE \<Longrightarrow>
      max_msg_size (buf_queues K q) < 2 ^ 32 - 4 \<and> (\<exists>ms. bq_holds (buf_queues K q) ms)"
  shows "sys_inv (fst (krhino_buf_queue_send queue m n K))"
    and "runs_next K \<Longrightarrow> runs_next (fst (krhino_buf_queue_send queue m n K))"
proof -
  have main: "sys_inv (fst (buf_queue_send q a n K)) \<and> (runs_next K \<longrightarrow> runs_next (fst (buf_queue_send q a n K)))"
    if q: "queue = Some q" for q a
  proof (cases "obj_type (blk_objs K q) = RHINO_BUF_QUEUE_OBJ_TYPE \<and> 0 < n \<and> n \<le> max_msg_size (buf_queues K q)")
    case True
    then have c: "obj_type (blk_objs K q) = RHINO_BUF_QUEUE_OBJ_TYPE" "0 < n" "n \<le> max_msg_size (buf_queues K q)" by auto
    obtain ms where ms: "max_msg_size (buf_queues K q) < 2 ^ 32 - 4" "bq_holds (buf_queues K q) ms"
      using h [OF q c(1)] by blast
    show ?thesis
    proof (cases "blist K q")
      case Nil
      from bq_send_store [OF ms(2) c ms(1) Nil, of a] s show ?thesis by auto
    next
      case (Cons u us)
      from bq_send_wake [OF sys_invD(1) [OF s] c Cons, of a] obtain L where L:
        "fst (buf_queue_send q a n K) = core_sched L" "kinv L" "g_fault L = g_fault K" "mode_frame K L"
        "tasks L = (tasks K)(u := (tasks K u)\<lparr>bq_msg_size := n, task_state := woken (tstate K u), blk_state := BLK_FINISH, blk_ptr := None\<rparr>)"
        "is_pend (tstate K u)" by auto
      have "tstate L v = K_RDY" if "tstate K v = K_RDY" for v using that L(5,6) by auto
      then show ?thesis unfolding L(1) using finish_sched [OF s L(2-4)] by blast
    qed
  next
    case False
    then have "fst (buf_queue_send q a n K) = K" by (auto simp: buf_queue_send_def)
    with s show ?thesis by simp
  qed
  show "sys_inv (fst (krhino_buf_queue_send queue m n K))"
    "runs_next K \<Longrightarrow> runs_next (fst (krhino_buf_queue_send queue m n K))"
    using main s by (auto simp: krhino_buf_queue_send_def split: option.split)
qed

lemma buf_queue_recv_ok:
  assumes s: "sys_inv K" and i: "g_active_task K \<noteq> g_idle_task K"
    and h: "\<And>q. queue = Some q \<Longrightarrow> obj_type (blk_objs K q) = RHINO_BUF_QUEUE_OBJ_TYPE \<Longrightarrow>
      \<exists>ms. bq_holds (buf_queues K q) ms"
  shows "sys_inv (fst (krhino_buf_queue_recv queue ticks m sz K))"
    and "runs_next K \<Longrightarrow> runs_next (fst (krhino_buf_queue_recv queue ticks m sz K))"
proof -
  have pop: "\<exists>x y z. ringbuf_pop (bq_ring (buf_queues K q)) = Some (x, y, z)"
    if q: "queue = Some q" "obj_type (blk_objs K q) = RHINO_BUF_QUEUE_OBJ_TYPE" "0 < bq_cur_num (buf_queues K q)" for q
  proof -
    obtain ms where ms: "bq_holds (buf_queues K q) ms" using h [OF q(1,2)] by blast
    with q(3) obtain m' ms' where "ms = m' # ms'" by (cases ms) (auto simp: bq_holds_def)
    with bq_pop ms show ?thesis by blast
  qed
  have blk: "sys_inv (core_sched (pend_to_blk_obj q t ticks (upd_task t (\<lambda>r. r\<lparr>msg := a\<rparr>) K))) \<and>
      runs_next (core_sched (pend_to_blk_obj q t ticks (upd_task t (\<lambda>r. r\<lparr>msg := a\<rparr>) K)))"
    if "obj_type (blk_objs K q) = RHINO_BUF_QUEUE_OBJ_TYPE" "ticks \<noteq> 0" "g_intrpt_nested_level K = 0" "g_sched_lock K = 0"
      "t = g_active_task K" for q a t
  proof -
    have "sys_inv (upd_task t (\<lambda>r. r\<lparr>msg := a\<rparr>) K)" by (rule sys_upd_task [OF s]) simp_all
    from block_active [OF this, of ticks q] that i show ?thesis by simp
  qed
  have "sys_inv (fst (krhino_buf_queue_recv queue ticks m sz K)) \<and>
      (runs_next K \<longrightarrow> runs_next (fst (krhino_buf_queue_recv queue ticks m sz K)))"
  proof (cases "fst (krhino_buf_queue_recv queue ticks m sz K) = K")
    case False
    then obtain q where q: "queue = Some q" "obj_type (blk_objs K q) = RHINO_BUF_QUEUE_OBJ_TYPE"
      by (auto simp: krhino_buf_queue_recv_def split: option.splits if_splits)
    show ?thesis
    proof (cases "0 < bq_cur_num (buf_queues K q)")
      case True
      with pop [OF q True] q s show ?thesis
        by (auto simp: krhino_buf_queue_recv_def Let_def split: option.split)
    next
      case F: False
      with q s blk [OF q(2)] show ?thesis
        by (auto simp: krhino_buf_queue_recv_def Let_def RHINO_NO_WAIT_def word_gt_0 split: option.split)
    qed
  qed (use s in simp)
  then show "sys_inv (fst (krhino_buf_queue_recv queue ticks m sz K))"
    "runs_next K \<Longrightarrow> runs_next (fst (krhino_buf_queue_recv queue ticks m sz K))" by auto
qed

section \<open>The queue as a queue of byte strings\<close>

text \<open>The demo system with other moments of buffer queue 10: a message stored, a task waiting, and a
  ring of two fixed blocks.\<close>

definition demo_bq :: kernel where
  "demo_bq = fst (krhino_buf_queue_send (Some 10) (Some 65) 3 demo)"

definition demo_fixq :: kernel where
  "demo_fixq = upd_bq 10 (\<lambda>r. r\<lparr>bq_ring := ringbuf_init (replicate 8 0) RINGBUF_TYPE_FIX 4, min_free_buf_size := 8\<rparr>) demo"

lemma demo_bq_type: "obj_type (blk_objs demo 10) = RHINO_BUF_QUEUE_OBJ_TYPE" "blist demo 10 = []"
  by (simp_all add: mk_blk_def)

lemma demo_bq_rec: "buf_queues demo 10 = \<lparr>bq_buf = 2000, bq_ring = ringbuf_init (replicate 16 0) RINGBUF_TYPE_DYN 4,
    max_msg_size = 4, bq_cur_num = 0, bq_peak_num = 0, min_free_buf_size = 16, bq_alloc_flag = K_OBJ_STATIC_ALLOC\<rparr>"
  by (simp add: demo_def)

lemma demo_bq_holds: "bq_holds (buf_queues demo 10) []"
  unfolding demo_bq_rec using dyn_init [of "replicate 16 0" 4] by (simp add: bq_holds_def)

lemma buf_queue_send_sim:
  assumes k: "kinv K" and t: "obj_type (blk_objs K q) = RHINO_BUF_QUEUE_OBJ_TYPE" and h: "bq_holds (buf_queues K q) ms"
    and n: "0 < n" "n \<le> max_msg_size (buf_queues K q)" "max_msg_size (buf_queues K q) < 2 ^ 32 - 4"
  shows "case krhino_buf_queue_send (Some q) (Some a) n K of (K', st) \<Rightarrow> case blist K q of
      [] \<Rightarrow> if freesize (bq_ring (buf_queues K q)) < bq_need (buf_queues K q) n
        then st = RHINO_BUF_QUEUE_FULL \<and> K' = K
        else st = RHINO_SUCCESS \<and> bq_holds (buf_queues K' q) (ms @ [bq_payload (buf_queues K q) a n K]) \<and> tasks K' = tasks K
    | u # us \<Rightarrow> st = RHINO_SUCCESS \<and> load_bytes (msg (tasks K u)) n K' = load_bytes a n K \<and>
        bq_msg_size (tasks K' u) = n \<and> blk_state (tasks K' u) = BLK_FINISH \<and> tstate K' u = woken (tstate K u) \<and>
        blist K' q = us \<and> buf_queues K' = buf_queues K"
proof (cases "blist K q")
  case Nil
  have "upd_bq q (\<lambda>_. buf_queues K q) K = K" by (simp add: upd_bq_def)
  with bq_send_store [OF h t n Nil, of a] Nil show ?thesis by (auto simp: krhino_buf_queue_send_def)
next
  case (Cons u us)
  from bq_send_wake [OF k t n(1,2) Cons, of a] Cons show ?thesis by (auto simp: krhino_buf_queue_send_def)
qed

text \<open>C25. A message sent to a buffer queue that no task waits for is appended to the messages it holds
  when the ring has room for it, and leaves the queue unchanged with \<open>RHINO_BUF_QUEUE_FULL\<close> when it
  has none; when tasks wait, the first of them gets exactly the bytes of the message in its own
  buffer together with their number, it leaves the wait, and the ring is not touched.\<close>

theorem buf_queue_send_refines:
  assumes k: "kinv K" and t: "obj_type (blk_objs K q) = RHINO_BUF_QUEUE_OBJ_TYPE" and h: "bq_holds (buf_queues K q) ms"
    and n: "0 < n" "n \<le> max_msg_size (buf_queues K q)" "max_msg_size (buf_queues K q) < 2 ^ 32 - 4"
  shows "case krhino_buf_queue_send (Some q) (Some a) n K of (K', st) \<Rightarrow> case blist K q of
      [] \<Rightarrow> if freesize (bq_ring (buf_queues K q)) < bq_need (buf_queues K q) n
        then st = RHINO_BUF_QUEUE_FULL \<and> K' = K
        else st = RHINO_SUCCESS \<and> bq_holds (buf_queues K' q) (ms @ [bq_payload (buf_queues K q) a n K]) \<and> tasks K' = tasks K
    | u # us \<Rightarrow> st = RHINO_SUCCESS \<and> load_bytes (msg (tasks K u)) n K' = load_bytes a n K \<and>
        bq_msg_size (tasks K' u) = n \<and> blk_state (tasks K' u) = BLK_FINISH \<and> tstate K' u = woken (tstate K u) \<and>
        blist K' q = us \<and> buf_queues K' = buf_queues K"
  by (rule buf_queue_send_sim [OF assms])

lemma buf_queue_send_refines_witness:
  "case krhino_buf_queue_send (Some 10) (Some 65) 3 demo of (K', st) \<Rightarrow>
     st = RHINO_SUCCESS \<and> bq_holds (buf_queues K' 10) [[65, 66, 67]] \<and> tasks K' = tasks demo"
proof -
  have r: "freesize (bq_ring (buf_queues demo 10)) = 16" "rb_type (bq_ring (buf_queues demo 10)) = RINGBUF_TYPE_DYN"
    "max_msg_size (buf_queues demo 10) = 4"
    unfolding demo_bq_rec by simp_all
  have "bq_payload (buf_queues demo 10) 65 3 demo = [65, 66, 67]"
    using r by (simp add: bq_payload_def load_bytes_def upt_rec) (simp add: demo_def)
  with buf_queue_send_refines [OF sys_invD(1) [OF demo_sys_inv] demo_bq_type(1) demo_bq_holds, of 3 65] r demo_bq_type(2)
  show ?thesis by (simp add: bq_need_def)
qed

text \<open>C26. Receiving from a buffer queue that holds messages takes the oldest, stores its bytes in the
  caller's buffer and reports their number; from an empty one it returns at once when the caller
  will not or cannot wait, and otherwise the caller waits, with its buffer announced to senders.\<close>

theorem buf_queue_recv_refines:
  assumes t: "obj_type (blk_objs K q) = RHINO_BUF_QUEUE_OBJ_TYPE" and h: "bq_holds (buf_queues K q) ms"
    and c: "\<not> cancel (tasks K (g_active_task K))" and i: "g_intrpt_nested_level K = 0"
  shows "case ms of
      m # ms' \<Rightarrow> \<exists>K'. krhino_buf_queue_recv (Some q) ticks (Some a) (Some sz) K = (K', Ret RHINO_SUCCESS, Some (length m)) \<and>
        load_bytes a (length m) K' = m \<and> bq_holds (buf_queues K' q) ms' \<and> tasks K' = tasks K
    | [] \<Rightarrow> if ticks = RHINO_NO_WAIT
        then krhino_buf_queue_recv (Some q) ticks (Some a) (Some sz) K = (K, Ret RHINO_NO_PEND_WAIT, Some 0)
        else if g_sched_lock K > 0
        then krhino_buf_queue_recv (Some q) ticks (Some a) (Some sz) K = (K, Ret RHINO_SCHED_DISABLE, Some 0)
        else \<exists>K'. krhino_buf_queue_recv (Some q) ticks (Some a) (Some sz) K = (K', Block, None) \<and>
          set (blist K' q) = insert (g_active_task K) (set (blist K q)) \<and>
          msg (tasks K' (g_active_task K)) = a \<and> buf_queues K' = buf_queues K"
proof (cases ms)
  case Nil
  then have z: "bq_cur_num (buf_queues K q) = 0" using h by (simp add: bq_holds_def)
  let ?U = "upd_task (g_active_task K) (\<lambda>r. r\<lparr>msg := a\<rparr>) K"
  have "set (blist (pend_to_blk_obj q (g_active_task K) ticks ?U) q) = insert (g_active_task K) (set (blist K q))"
    by (simp add: pend_to_blk_obj_def Let_def pendins.ins_set)
  moreover have "msg (tasks (pend_to_blk_obj q (g_active_task K) ticks ?U) (g_active_task K)) = a"
    "buf_queues (pend_to_blk_obj q (g_active_task K) ticks ?U) = buf_queues K"
    using sched_frameD(19) [OF sched_frame_pend(3) [of ?U q "g_active_task K" ticks]]
    by (simp_all add: pend_to_blk_obj_def Let_def)
  ultimately show ?thesis using Nil z t c i by (auto simp: krhino_buf_queue_recv_def word_gt_0 Let_def)
next
  case (Cons m ms')
  from bq_pop [OF h [unfolded Cons]] obtain rg where p: "ringbuf_pop (bq_ring (buf_queues K q)) = Some (rg, m, length m)"
    "bq_holds ((buf_queues K q)\<lparr>bq_ring := rg, bq_cur_num := bq_cur_num (buf_queues K q) - 1\<rparr>) ms'" by blast
  have "bq_cur_num (buf_queues K q) > 0" using h Cons by (simp add: bq_holds_def)
  with Cons p t c i show ?thesis by (auto simp: krhino_buf_queue_recv_def Let_def)
qed

lemma buf_queue_recv_refines_witness:
  "\<exists>K'. krhino_buf_queue_recv (Some 10) 5 (Some 300) (Some 0) demo_bq = (K', Ret RHINO_SUCCESS, Some 3) \<and>
    load_bytes 300 3 K' = [65, 66, 67] \<and> bq_holds (buf_queues K' 10) []"
proof -
  have h: "bq_holds (buf_queues demo_bq 10) [[65, 66, 67]]" and tk: "tasks demo_bq = demo_task"
    using buf_queue_send_refines_witness by (simp_all add: demo_bq_def split_beta)
  have "blk_objs demo_bq = demo_blk" "g_active_task demo_bq = 1" "g_intrpt_nested_level demo_bq = 0"
    by (simp_all add: demo_bq_def krhino_buf_queue_send_def buf_queue_send_def Let_def mk_blk_def fault_def
        split: option.split del: One_nat_def)
  with buf_queue_recv_refines [OF _ h, of 5 300 0] tk show ?thesis
    by (simp add: mk_blk_def mk_task_def ktask_zero_def) (simp add: eval_nat_numeral, blast)
qed

text \<open>C27. With fixed blocks the length of a message is lost when nobody waits for it: a message of
  \<open>n\<close> bytes sent into an empty queue is received as a message of \<open>max_msg_size\<close> bytes, the rest of
  which was read behind the end of the sender's \<open>n\<close> bytes (a waiting receiver gets \<open>n\<close> bytes, by the
  property of sending).\<close>

theorem fix_queue_reads_past_message:
  assumes t: "obj_type (blk_objs K q) = RHINO_BUF_QUEUE_OBJ_TYPE" and h: "bq_holds (buf_queues K q) []"
    and x: "rb_type (bq_ring (buf_queues K q)) = RINGBUF_TYPE_FIX" and w: "blist K q = []"
    and n: "0 < n" "n < max_msg_size (buf_queues K q)" "max_msg_size (buf_queues K q) < 2 ^ 32 - 4"
    and f: "max_msg_size (buf_queues K q) \<le> freesize (bq_ring (buf_queues K q))"
    and c: "\<not> cancel (tasks K (g_active_task K))" "g_intrpt_nested_level K = 0"
  shows "\<exists>K' K''. krhino_buf_queue_send (Some q) (Some a) n K = (K', RHINO_SUCCESS) \<and>
    krhino_buf_queue_recv (Some q) ticks (Some b) (Some sz) K' =
      (K'', Ret RHINO_SUCCESS, Some (max_msg_size (buf_queues K q))) \<and>
    load_bytes b (max_msg_size (buf_queues K q)) K'' = load_bytes a (max_msg_size (buf_queues K q)) K"
proof -
  let ?B = "max_msg_size (buf_queues K q)"
  have room: "\<not> freesize (bq_ring (buf_queues K q)) < bq_need (buf_queues K q) n" using x f by (simp add: bq_need_def)
  from bq_send_store [OF h t n(1) less_imp_le [OF n(2)] n(3) w, of a] room x obtain r where
    r: "buf_queue_send q a n K = (upd_bq q (\<lambda>_. r) K, RHINO_SUCCESS)" "bq_holds r [load_bytes a ?B K]"
    by (auto simp: bq_payload_def)
  then have "bq_holds (buf_queues (upd_bq q (\<lambda>_. r) K) q) [load_bytes a ?B K]" by simp
  from buf_queue_recv_refines [OF _ this, of ticks b sz] t c r(1) show ?thesis
    by (auto simp: krhino_buf_queue_send_def)
qed

lemma fix_queue_reads_past_message_witness:
  "\<exists>K' K''. krhino_buf_queue_send (Some 10) (Some 65) 1 demo_fixq = (K', RHINO_SUCCESS) \<and>
    krhino_buf_queue_recv (Some 10) 0 (Some 300) (Some 0) K' = (K'', Ret RHINO_SUCCESS, Some 4) \<and>
    load_bytes 300 4 K'' = [65, 66, 67, 68]"
proof -
  have r: "buf_queues demo_fixq 10 = (buf_queues demo 10)\<lparr>bq_ring := ringbuf_init (replicate 8 0) RINGBUF_TYPE_FIX 4,
      min_free_buf_size := 8\<rparr>"
    by (simp add: demo_fixq_def)
  have B: "max_msg_size (buf_queues demo_fixq 10) = 4" unfolding r demo_bq_rec by simp
  have "bq_holds (buf_queues demo_fixq 10) []"
    unfolding r demo_bq_rec using fix_init [of 4 "replicate 8 0"] by (simp add: bq_holds_def)
  moreover have "freesize (bq_ring (buf_queues demo_fixq 10)) = 8"
    "rb_type (bq_ring (buf_queues demo_fixq 10)) = RINGBUF_TYPE_FIX"
    unfolding r demo_bq_rec by simp_all
  moreover have "load_bytes 65 4 demo_fixq = [65, 66, 67, 68]"
    by (simp add: demo_fixq_def load_bytes_def upt_rec) (simp add: demo_def)
  ultimately show ?thesis
    using fix_queue_reads_past_message [of demo_fixq 10 1 65 0 300 0, unfolded B] demo_bq_type
    by (simp add: demo_fixq_def mk_task_def ktask_zero_def)
qed

end
