(* ===== verification/KFrame.thy ===== *)
theory KFrame
  imports KTask KBufQueue
begin

text \<open>
  What a system call leaves alone. \<open>keep ob w K K'\<close>: apart from the object \<open>ob\<close> (if it names one),
  every kernel object keeps its type and its value or loses its type; no task enters a wait or a
  sleep, apart from the active one when \<open>w\<close> says so; a task that goes on waiting waits for the
  same object and the same flags, one that goes on sleeping sleeps until the same tick; the tick
  count, the interrupt level and the mode of the system stay. The frames of all calls are derived
  from those of the primitives by introduction rules.
\<close>

section \<open>Frames\<close>

datatype waits = Stays | Waits oid | Sleeps

definition same_wait :: "ktask \<Rightarrow> ktask \<Rightarrow> bool" where
  "same_wait r r' \<longleftrightarrow>
     (is_pend (task_state r') \<longrightarrow> is_pend (task_state r) \<and> (blk_ptr r' = blk_ptr r \<or> blk_ptr r' = None) \<and>
        pend_flags r' = pend_flags r \<and> pend_option r' = pend_option r) \<and>
     (is_sleep (task_state r') \<longrightarrow> is_sleep (task_state r) \<and> tick_match r' = tick_match r)"

definition new_wait :: "waits \<Rightarrow> ktask \<Rightarrow> bool" where
  "new_wait w r' \<longleftrightarrow>
     (case w of Stays \<Rightarrow> False
      | Waits b \<Rightarrow> \<not> is_sleep (task_state r') \<and> (blk_ptr r' = Some b \<or> blk_ptr r' = None)
      | Sleeps \<Rightarrow> \<not> is_pend (task_state r'))"

definition glob_keep :: "kernel \<Rightarrow> kernel \<Rightarrow> bool" where
  "glob_keep K K' \<longleftrightarrow> g_sys_stat K' = g_sys_stat K \<and> g_idle_task K' = g_idle_task K \<and>
     (g_idle_task_spawned K \<longrightarrow> g_idle_task_spawned K') \<and>
     g_intrpt_nested_level K' = g_intrpt_nested_level K \<and> g_tick_count K' = g_tick_count K"

definition same_obj :: "kernel \<Rightarrow> kernel \<Rightarrow> oid \<Rightarrow> bool" where
  "same_obj K K' b \<longleftrightarrow> obj_type (blk_objs K' b) = obj_type (blk_objs K b) \<and> sems K' b = sems K b \<and>
     events K' b = events K b \<and> queues K' b = queues K b \<and> buf_queues K' b = buf_queues K b"

definition keep :: "oid option \<Rightarrow> waits \<Rightarrow> kernel \<Rightarrow> kernel \<Rightarrow> bool" where
  "keep ob w K K' \<longleftrightarrow> glob_keep K K' \<and>
     (\<forall>b. Some b = ob \<or> same_obj K K' b \<or> obj_type (blk_objs K' b) = RHINO_OBJ_TYPE_NONE) \<and>
     (\<forall>t. same_wait (tasks K t) (tasks K' t) \<or> t = g_active_task K \<and> new_wait w (tasks K' t))"

definition quiet :: "kernel \<Rightarrow> kernel \<Rightarrow> bool" where
  "quiet K K' \<longleftrightarrow> glob_keep K K' \<and> g_sched_lock K' = g_sched_lock K \<and> (\<forall>b. same_obj K K' b) \<and>
     (\<forall>t. same_wait (tasks K t) (tasks K' t))"

lemma same_wait_refl [simp]: "same_wait r r"
  by (simp add: same_wait_def)

lemma same_wait_trans: "same_wait r s \<Longrightarrow> same_wait s u \<Longrightarrow> same_wait r u"
  unfolding same_wait_def by metis

lemma new_wait_same: "new_wait w r \<Longrightarrow> same_wait r s \<Longrightarrow> new_wait w s \<or> same_wait q s"
  by (cases w) (auto simp: new_wait_def same_wait_def)

lemma quiet_refl [simp]: "quiet K K"
  by (simp add: quiet_def glob_keep_def same_obj_def)

lemma keep_refl [simp]: "keep ob w K K"
  by (simp add: keep_def glob_keep_def same_obj_def)

lemma same_obj_trans: "same_obj A B b \<Longrightarrow> same_obj B C b \<Longrightarrow> same_obj A C b"
  by (simp add: same_obj_def)

lemma glob_keep_trans: "glob_keep A B \<Longrightarrow> glob_keep B C \<Longrightarrow> glob_keep A C"
  by (simp add: glob_keep_def)

lemma quiet_trans [trans]: "quiet A B \<Longrightarrow> quiet B C \<Longrightarrow> quiet A C"
  unfolding quiet_def using glob_keep_trans [of A B C] same_obj_trans [of A B _ C] same_wait_trans by simp blast

lemma keep_quiet:
  assumes k: "keep ob w A B" and q: "quiet B C" shows "keep ob w A C"
  unfolding keep_def
proof (intro conjI allI)
  show "glob_keep A C" using k q by (auto simp: keep_def quiet_def intro: glob_keep_trans)
  show "Some b = ob \<or> same_obj A C b \<or> obj_type (blk_objs C b) = RHINO_OBJ_TYPE_NONE" for b
    using k q same_obj_trans [of A B b C] by (auto simp: keep_def quiet_def same_obj_def)
  show "same_wait (tasks A t) (tasks C t) \<or> t = g_active_task A \<and> new_wait w (tasks C t)" for t
  proof -
    have "same_wait (tasks B t) (tasks C t)" using q by (simp add: quiet_def)
    moreover have "same_wait (tasks A t) (tasks B t) \<or> t = g_active_task A \<and> new_wait w (tasks B t)"
      using k by (simp add: keep_def)
    ultimately show ?thesis using same_wait_trans new_wait_same by blast
  qed
qed

lemma quiet_keep: "quiet A B \<Longrightarrow> keep ob w A B"
  by (auto simp: keep_def quiet_def)

lemma quietI:
  assumes "sched_frame A B" "\<And>b. obj_type (blk_objs B b) = obj_type (blk_objs A b)"
    and "\<And>t. same_wait (tasks A t) (tasks B t)"
  shows "quiet A B"
  using assms sched_frameD [OF assms(1)] by (simp add: quiet_def glob_keep_def same_obj_def)

lemma quiet_rq: "rq_frame A B \<Longrightarrow> quiet A B"
  using rq_frame_sched_frame [of A B] rq_frameD [of A B] by (auto intro!: quietI)

lemma quiet_prio: "prio_frame A B \<Longrightarrow> quiet A B"
proof (rule quietI)
  assume p: "prio_frame A B"
  show "sched_frame A B" by (rule prio_frame_glob(2) [OF p])
  show "obj_type (blk_objs B b) = obj_type (blk_objs A b)" for b by (rule prio_frame_blk(2) [OF p])
  show "same_wait (tasks A t) (tasks B t)" for t
  proof -
    obtain p' m where "tasks B t = (tasks A t)\<lparr>prio := p', mutex_ptr := m\<rparr>" by (rule prio_frame_taskE [OF p])
    then show ?thesis by (simp add: same_wait_def)
  qed
qed

section \<open>Primitives\<close>

lemma quiet_rq_ops [simp]:
  "quiet K (upd_rq h K)" "quiet K (fault K)" "quiet K (ready_list_add t K)" "quiet K (ready_list_add_tail t K)"
  "quiet K (ready_list_rm t K)" "quiet K (ready_list_head_to_tail t K)" "quiet K (ready_list_add_head t K)"
  by (rule quiet_rq, simp)+

lemma quiet_lists [simp]:
  "quiet K (k_err_proc e K)" "quiet K (blk_list_rm t K)" "quiet K (tick_list_rm t K)"
  "quiet K (upd_mutex m g K)" "quiet K (K\<lparr>g_tick_head := th\<rparr>)"
  by (rule quietI; simp add: same_wait_def)+

lemma quiet_fields [simp]:
  "quiet K (upd_kobj l K)" "quiet K (K\<lparr>mm_freed := a\<rparr>)" "quiet K (K\<lparr>g_res_list := c\<rparr>)"
  "quiet K (K\<lparr>g_task_id := i\<rparr>)" "quiet K (store_u32 x v K)"
  "quiet K (store_bytes x bs K)"
  by (simp_all add: upd_kobj_def store_u32_def store_bytes_def quiet_def glob_keep_def same_obj_def)

lemma quiet_sched [simp]: "quiet K (core_sched K)"
  by (auto simp: core_sched_def cpu_task_switch_def fault_def quiet_def glob_keep_def same_obj_def split: option.split)

lemma quiet_upd_task:
  "same_wait (tasks K t) (f (tasks K t)) \<Longrightarrow> quiet K (upd_task t f K)"
  by (auto intro!: quietI)

lemma quiet_upd_blk:
  "obj_type (f (blk_objs K b)) = obj_type (blk_objs K b) \<Longrightarrow> quiet K (upd_blk b f K)"
  by (auto intro!: quietI)

lemma quiet_rules:
  "quiet A B \<Longrightarrow> same_wait (tasks B t) (f (tasks B t)) \<Longrightarrow> quiet A (upd_task t f B)"
  "quiet A B \<Longrightarrow> obj_type (g (blk_objs B b)) = obj_type (blk_objs B b) \<Longrightarrow> quiet A (upd_blk b g B)"
  by (blast intro: quiet_trans quiet_upd_task quiet_upd_blk)+

lemmas quiet_steps = quiet_rules quiet_sched [THEN quiet_trans [rotated]] quiet_rq_ops [THEN quiet_trans [rotated]]
  quiet_lists [THEN quiet_trans [rotated]] quiet_fields [THEN quiet_trans [rotated]]

lemma quiet_wakeup [simp]: "quiet K (pend_task_wakeup t K)"
  unfolding pend_task_wakeup_def Let_def
  by (cases "tstate K t", simp_all) (intro quiet_steps quiet_refl, simp_all add: same_wait_def)+

lemma quiet_pend_rm [simp]: "quiet K (pend_task_rm t K)"
  unfolding pend_task_rm_def Let_def
  by (cases "tstate K t", simp_all) (intro quiet_steps quiet_refl, simp_all add: same_wait_def)+

lemma quiet_end_proc [simp]: "quiet K (fst (pend_state_end_proc t bo K))"
  by (auto simp: pend_state_end_proc_def split: blk_state_t.split option.split)

lemma quiet_drain:
  assumes "\<And>u L. quiet L (e u L)" shows "quiet K (blk_drain e n b K)"
proof (induction n arbitrary: K)
  case (Suc n)
  show ?case using assms quiet_trans [OF _ Suc.IH] by (auto split: list.split)
qed simp

lemma quiet_msg_recv [simp]: "quiet K (task_msg_recv m t K)"
  unfolding task_msg_recv_def
  by (rule quiet_trans [OF quiet_upd_task quiet_wakeup]) (simp add: same_wait_def)

lemma quiet_drains [simp]:
  "quiet K (pend_rm_all b K)" "quiet K (pend_wakeup_all b K)" "quiet K (blk_drain (task_msg_recv m) n b K)"
  by (simp_all add: pend_rm_all_def pend_wakeup_all_def quiet_drain)

section \<open>Loops\<close>

lemma quiet_reorder [simp]: "quiet K (pend_list_reorder t K)"
  unfolding pend_list_reorder_def Let_def
  by (auto split: option.split intro!: quiet_steps)

lemma quiet_prev_link [simp]: "quiet K (set_prev_link t p n K)"
  by (rule quiet_prio) (rule set_prev_link_frame)

lemma quiet_look_walk: "quiet K (fst (pri_look_walk t rel prev ms n p K))"
proof (induction ms arbitrary: prev n p K)
  case (Cons m ms)
  have "quiet K (fst (pri_look_walk t rel prev ms n p (set_prev_link t prev x K)))" for x
    by (rule quiet_trans [OF quiet_prev_link Cons.IH])
  with Cons.IH show ?case by (cases "rel = Some m") (simp_all add: Let_def)
qed simp

lemma quiet_look [simp]: "quiet K (fst (mutex_pri_look t rel K))"
  by (simp add: mutex_pri_look_def quiet_look_walk)

lemma quiet_pri_step: "quiet K (fst (task_pri_step t p K))"
proof -
  have set: "quiet A (upd_task t (\<lambda>r. r\<lparr>prio := p\<rparr>) B)" if "quiet A B" for A B
    using that by (rule quiet_steps) (simp add: same_wait_def)
  have look: "quiet K (fst (mutex_pri_look w None (pend_list_reorder t (upd_task t (\<lambda>r. r\<lparr>prio := p\<rparr>) K))))"
    "quiet K (pend_list_reorder t (upd_task t (\<lambda>r. r\<lparr>prio := p\<rparr>) K))"
    "quiet K (fault (pend_list_reorder t (upd_task t (\<lambda>r. r\<lparr>prio := p\<rparr>) K)))" for w
    by (intro quiet_trans [OF _ quiet_look] quiet_trans [OF _ quiet_reorder] quiet_steps set quiet_refl)+
  have rdy: "quiet K (ready_list_add_head t (upd_task t (\<lambda>r. r\<lparr>prio := p\<rparr>) L))"
    "quiet K (ready_list_add_tail t (upd_task t (\<lambda>r. r\<lparr>prio := p\<rparr>) L))" if "quiet K L" for L
    by (intro quiet_steps set that)+
  have pnd: "quiet K (fst (case blk_ptr (tasks L t) of None \<Rightarrow> (fault L, Inr RHINO_SUCCESS)
      | Some b \<Rightarrow> if obj_type (blk_objs L b) = RHINO_MUTEX_OBJ_TYPE then
          case mutex_task (mutexes L b) of None \<Rightarrow> (fault L, Inr RHINO_SUCCESS)
          | Some owner \<Rightarrow>
              if tprio L owner > tprio L t then (L, Inl (owner, p))
              else if tprio L owner = q then
                case mutex_pri_look owner None L of (K, np) \<Rightarrow>
                  if np \<noteq> tprio K owner then (K, Inl (owner, np)) else (K, Inr RHINO_SUCCESS)
              else (L, Inr RHINO_SUCCESS)
        else (L, Inr RHINO_SUCCESS)))"
    if "L = pend_list_reorder t (upd_task t (\<lambda>r. r\<lparr>prio := p\<rparr>) K)" for L q
    using look [folded that] by (auto simp: split_beta split: option.split)
  show ?thesis
    unfolding task_pri_step_def Let_def
    using pnd [OF refl] by (auto intro!: set rdy)
qed

lemma quiet_pri_loop: "quiet K (fst (task_pri_loop n t p K))"
proof (induction n arbitrary: t p K)
  case (Suc n)
  obtain K' r where r: "task_pri_step t p K = (K', r)" by fastforce
  then have "quiet K K'" using quiet_pri_step [of K t p] by simp
  with r Suc.IH show ?case by (auto split: sum.split intro: quiet_trans)
qed simp

lemma quiet_pri [simp]:
  "quiet K (fst (task_pri_change t p K))" "quiet K (mutex_release t rel K)" "quiet K (mutex_task_pri_reset t K)"
proof -
  show c: "quiet K (fst (task_pri_change t p K))" for K t p by (simp add: task_pri_change_def quiet_pri_loop)
  show r: "quiet K (mutex_release t rel K)" for K t rel
    using quiet_trans [OF quiet_look c] by (auto simp: mutex_release_def split_beta)
  show "quiet K (mutex_task_pri_reset t K)"
    using r by (auto simp: mutex_task_pri_reset_def split: option.split)
qed

lemma quiet_grant [simp]: "quiet K (mutex_grant t m K)"
  unfolding mutex_grant_def Let_def by (auto intro!: quiet_steps simp: same_wait_def)

lemmas quiet_calls = quiet_wakeup [THEN quiet_trans [rotated]] quiet_pend_rm [THEN quiet_trans [rotated]]
  quiet_pri [THEN quiet_trans [rotated]] quiet_grant [THEN quiet_trans [rotated]] quiet_drains [THEN quiet_trans [rotated]]

lemma quiet_free_walk [simp]: "quiet K (mutex_free_walk ms K)" "quiet K (task_mutex_free t K)"
proof -
  show "quiet K (mutex_free_walk ms K)" for K ms
  proof (induction ms arbitrary: K)
    case (Cons m ms)
    show ?case
      by (auto simp: Let_def same_wait_def split: list.split
          intro!: quiet_trans [OF _ Cons.IH] quiet_steps quiet_calls)
  qed simp
  then show "quiet K (task_mutex_free t K)" by (simp add: task_mutex_free_def)
qed

lemma quiet_expire [simp]: "quiet K (tick_expire t K)"
  unfolding tick_expire_def Let_def
  by (cases "tstate K t", simp_all) (intro quiet_calls quiet_steps quiet_refl, simp_all add: same_wait_def)+

lemma quiet_scan [simp]: "quiet K (tick_scan ts K)"
proof (induction ts arbitrary: K)
  case (Cons t ts)
  show ?case using quiet_trans [OF quiet_expire Cons.IH] by (simp add: Let_def)
qed simp

lemma quiet_tick_proc: "quiet (K\<lparr>g_tick_count := g_tick_count K + 1\<rparr>) (krhino_tick_proc K)"
proof -
  have "quiet L (time_slice_update L)" for L
    unfolding time_slice_update_def Let_def by (auto intro!: quiet_steps simp: same_wait_def split: list.split)
  moreover have "quiet (K\<lparr>g_tick_count := g_tick_count K + 1\<rparr>) (tick_list_update 1 K)"
    unfolding tick_list_update_def Let_def by (rule quiet_scan)
  ultimately show ?thesis unfolding krhino_tick_proc_def by (rule quiet_trans [rotated])
qed

section \<open>Calls that touch one object\<close>

lemma keep_own:
  "keep (Some b) w A B \<Longrightarrow> keep (Some b) w A (upd_sem b f B)"
  "keep (Some b) w A B \<Longrightarrow> keep (Some b) w A (upd_event b g B)"
  "keep (Some b) w A B \<Longrightarrow> keep (Some b) w A (upd_queue b h B)"
  "keep (Some b) w A B \<Longrightarrow> keep (Some b) w A (upd_bq b k B)"
  "keep (Some b) w A B \<Longrightarrow> keep (Some b) w A (upd_blk b l B)"
  by (auto simp: keep_def glob_keep_def same_obj_def upd_sem_def upd_event_def upd_queue_def upd_bq_def upd_blk_def)

lemma keep_untype:
  "keep ob w A B \<Longrightarrow> keep ob w A (upd_blk b (\<lambda>o'. o'\<lparr>obj_type := RHINO_OBJ_TYPE_NONE\<rparr>) B)"
  by (auto simp: keep_def glob_keep_def same_obj_def)

lemma keep_lock: "keep ob w A B \<Longrightarrow> keep ob w A (B\<lparr>g_sched_lock := l\<rparr>)"
  by (auto simp: keep_def glob_keep_def same_obj_def)

lemma keep_upd_task: "keep ob w A B \<Longrightarrow> same_wait (tasks B t) (f (tasks B t)) \<Longrightarrow> keep ob w A (upd_task t f B)"
  by (blast intro: keep_quiet quiet_upd_task)

lemma keep_block:
  assumes k: "keep ob Stays A B" and t: "t = g_active_task A"
  shows "keep ob (Waits b) A (pend_to_blk_obj b t n B)"
proof -
  let ?P = "pend_to_blk_obj b t n B"
  have f: "sched_frame B ?P" by simp
  have ty: "obj_type (blk_objs ?P c) = obj_type (blk_objs B c)" for c
    by (simp add: pend_to_blk_obj_def Let_def)
  have tk: "same_wait (tasks B u) (tasks ?P u) \<or> u = t \<and> new_wait (Waits b) (tasks ?P u)" for u
    by (simp add: pend_to_blk_obj_def Let_def same_wait_def new_wait_def)
  show ?thesis
    unfolding keep_def
  proof (intro conjI allI)
    show "glob_keep A ?P" using k sched_frameD [OF f] by (simp add: keep_def glob_keep_def)
    show "Some c = ob \<or> same_obj A ?P c \<or> obj_type (blk_objs ?P c) = RHINO_OBJ_TYPE_NONE" for c
      using k sched_frameD [OF f] ty by (simp add: keep_def same_obj_def)
    show "same_wait (tasks A u) (tasks ?P u) \<or> u = g_active_task A \<and> new_wait (Waits b) (tasks ?P u)" for u
    proof -
      have "same_wait (tasks A u) (tasks B u)" using k by (simp add: keep_def new_wait_def)
      with tk [of u] t show ?thesis using same_wait_trans by blast
    qed
  qed
qed

lemmas keep_steps = keep_own keep_untype keep_lock keep_upd_task keep_refl
  quiet_sched [THEN keep_quiet [rotated]] quiet_rq_ops [THEN keep_quiet [rotated]]
  quiet_lists [THEN keep_quiet [rotated]] quiet_fields [THEN keep_quiet [rotated]]
  quiet_wakeup [THEN keep_quiet [rotated]] quiet_pend_rm [THEN keep_quiet [rotated]]
  quiet_pri [THEN keep_quiet [rotated]] quiet_grant [THEN keep_quiet [rotated]]
  quiet_drains [THEN keep_quiet [rotated]] quiet_free_walk [THEN keep_quiet [rotated]]
  quiet_msg_recv [THEN keep_quiet [rotated]] quiet_end_proc [THEN keep_quiet [rotated]]

text \<open>How a blocking call ends.\<close>

fun wait_of :: "oid option \<Rightarrow> outcome \<Rightarrow> waits" where
  "wait_of (Some b) Block = Waits b"
| "wait_of _ _ = Stays"

lemma keep_sem:
  "keep sem Stays K (fst (sem_create sem name n fl K))"
  "keep ob Stays K (fst (krhino_sem_del sem K))" "keep ob Stays K (fst (krhino_sem_dyn_del sem K))"
  "keep (Some s) Stays K (fst (sem_give s all K))" "keep sem Stays K (fst (krhino_sem_count_set sem n K))"
  by (auto simp: sem_create_def krhino_sem_del_def krhino_sem_dyn_del_def sem_give_def krhino_sem_count_set_def Let_def
      intro!: keep_steps split: option.split list.split)

lemma keep_sem_take: "keep sem (wait_of sem (snd (krhino_sem_take sem ticks K))) K (fst (krhino_sem_take sem ticks K))"
  by (auto simp: krhino_sem_take_def intro!: keep_block keep_steps split: option.split)

lemma keep_mutex:
  "keep mutex Stays K (fst (mutex_create mutex name fl K))"
  "keep mutex Stays K (fst (krhino_mutex_del mutex K))" "keep mutex Stays K (fst (krhino_mutex_dyn_del mutex K))"
  "keep mutex Stays K (fst (krhino_mutex_unlock mutex K))"
  by (auto simp: mutex_create_def krhino_mutex_del_def krhino_mutex_dyn_del_def krhino_mutex_unlock_def Let_def
      intro!: keep_steps split: option.split list.split)

lemma keep_mutex_lock:
  "keep mutex (wait_of mutex (snd (krhino_mutex_lock mutex ticks K))) K (fst (krhino_mutex_lock mutex ticks K))"
  by (auto simp: krhino_mutex_lock_def Let_def intro!: keep_block keep_steps split: option.split)

lemma keep_event_wake: "keep (Some e) w A B \<Longrightarrow> keep (Some e) w A (event_wake e cur t B)"
  unfolding event_wake_def Let_def by (auto intro!: keep_steps)

lemma keep_event_walk: "keep (Some e) w A B \<Longrightarrow> keep (Some e) w A (event_set_walk e cur ts B)"
  by (induction ts arbitrary: B) (auto intro: keep_event_wake)

lemma keep_event:
  "keep event Stays K (fst (event_create event name n fl K))"
  "keep event Stays K (fst (krhino_event_del event K))" "keep event Stays K (fst (krhino_event_dyn_del event K))"
  "keep event Stays K (fst (krhino_event_set event flags opt K))"
  by (auto simp: event_create_def krhino_event_del_def krhino_event_dyn_del_def krhino_event_set_def event_set_def Let_def
      intro!: keep_steps keep_event_walk split: option.split)

lemma keep_event_get:
  assumes "\<not> is_pend (tstate K (g_active_task K))"
  shows "keep event (wait_of event (snd (krhino_event_get event flags opt a ticks K))) K
    (fst (krhino_event_get event flags opt a ticks K))"
proof -
  have sw: "same_wait r (r\<lparr>pend_option := x, pend_flags := y, pend_info := z\<rparr>)"
    if "r = tasks K (g_active_task K)" for r x y z
    using that assms by (simp add: same_wait_def)
  show ?thesis
    by (cases event; cases a) (simp_all add: krhino_event_get_def Let_def sw, auto intro!: keep_block keep_steps sw)
qed

lemma keep_queue:
  "keep queue Stays K (fst (queue_create queue name st num fl words K))"
  "keep queue Stays K (fst (krhino_queue_del queue K))" "keep queue Stays K (fst (krhino_queue_dyn_del queue K))"
  "keep queue Stays K (fst (msg_send queue m all K))" "keep queue Stays K (fst (krhino_queue_flush queue K))"
  by (auto simp: queue_create_def krhino_queue_del_def krhino_queue_dyn_del_def msg_send_def krhino_queue_flush_def
      Let_def intro!: keep_steps split: option.split list.split)

lemma keep_queue_recv:
  "keep queue (wait_of queue (fst (snd (krhino_queue_recv queue ticks m K)))) K (fst (krhino_queue_recv queue ticks m K))"
  by (auto simp: krhino_queue_recv_def Let_def intro!: keep_block keep_steps split: option.split)

lemma keep_bq:
  "keep queue Stays K (fst (buf_queue_create queue name buf sz mx fl ty K))"
  "keep queue Stays K (fst (krhino_buf_queue_del queue K))" "keep queue Stays K (fst (krhino_buf_queue_dyn_del queue K))"
  "keep queue Stays K (fst (krhino_buf_queue_send queue m n K))" "keep queue Stays K (fst (krhino_buf_queue_flush queue K))"
  by (auto simp: buf_queue_create_def krhino_buf_queue_del_def krhino_buf_queue_dyn_del_def krhino_buf_queue_send_def
      buf_queue_send_def krhino_buf_queue_flush_def same_wait_def Let_def
      intro!: keep_steps split: option.split list.split)

lemma keep_bq_recv:
  "keep queue (wait_of queue (fst (snd (krhino_buf_queue_recv queue ticks m sz K)))) K
    (fst (krhino_buf_queue_recv queue ticks m sz K))"
  by (auto simp: krhino_buf_queue_recv_def same_wait_def Let_def intro!: keep_block keep_steps split: option.split)

section \<open>Tasks and the scheduler\<close>

lemma keep_fields:
  "keep ob w A B \<Longrightarrow> keep ob w A (B\<lparr>g_idle_task_spawned := True\<rparr>)"
  by (auto simp: keep_def glob_keep_def same_obj_def)

lemma same_wait_init [simp]: "same_wait r (task_init nm pri ticks sb sz autorun fl pol i)"
  by (simp add: same_wait_def task_init_def Let_def ktask_zero_def)

lemma keep_task_create:
  "keep None Stays K (fst (task_create tsk name pri ticks sb sz entry autorun fl policy K))"
  unfolding task_create_def Let_def
  by (auto intro!: keep_steps keep_fields split: option.split)

lemma keep_sleep:
  "keep None (if snd (krhino_task_sleep ticks K) = Block then Sleeps else Stays) K (fst (krhino_task_sleep ticks K))"
proof -
  have "keep None Sleeps K (tick_list_insert (g_active_task K) ticks (upd_task (g_active_task K) (\<lambda>r. r\<lparr>task_state := K_SLEEP\<rparr>) K))"
    by (auto simp: keep_def glob_keep_def same_obj_def new_wait_def tick_list_insert_def Let_def)
  then show ?thesis unfolding krhino_task_sleep_def Let_def by (auto intro!: keep_steps)
qed

lemma keep_suspend: "keep None Stays K (fst (krhino_task_suspend tsk K))" "keep None Stays K (fst (krhino_task_resume tsk K))"
proof -
  have "keep None Stays K (fst (task_suspend t K))" for t
    unfolding task_suspend_def
    by (cases "tstate K t") (auto intro!: keep_steps simp: same_wait_def)
  moreover have "keep None Stays K (fst (task_resume t K))" for t
    unfolding task_resume_def Let_def
    by (cases "tstate K t") (auto intro!: keep_steps simp: same_wait_def)
  ultimately show "keep None Stays K (fst (krhino_task_suspend tsk K))" "keep None Stays K (fst (krhino_task_resume tsk K))"
    by (auto simp: krhino_task_suspend_def krhino_task_resume_def split: option.split)
qed

lemma keep_pri_change: "keep ob w A B \<Longrightarrow> keep ob w A (fst (krhino_task_pri_change tsk pri old B))"
  unfolding krhino_task_pri_change_def Let_def split_beta
  by (auto intro!: keep_steps simp: same_wait_def split: option.split)

lemma keep_wait_abort: "keep ob w A B \<Longrightarrow> keep ob w A (fst (krhino_task_wait_abort tsk B))"
  unfolding krhino_task_wait_abort_def Let_def
  by (auto intro!: keep_steps simp: same_wait_def split: option.split task_stat_t.split)

lemma keep_cancel: "keep None Stays K (fst (krhino_task_cancel tsk K))"
  unfolding krhino_task_cancel_def by (auto intro!: keep_wait_abort keep_steps simp: same_wait_def split: option.split)

lemma keep_sched:
  "keep ob w A B \<Longrightarrow> keep ob w A (fst (krhino_sched_disable B))"
  "keep ob w A B \<Longrightarrow> keep ob w A (fst (krhino_sched_enable B))"
  "keep ob w A B \<Longrightarrow> keep ob w A (fst (krhino_task_yield B))"
  unfolding krhino_sched_disable_def krhino_sched_enable_def krhino_task_yield_def Let_def
  by (auto intro!: keep_steps keep_lock)

lemma keep_reent: "keep ob w A B \<Longrightarrow> keep ob w A (fst (reent_reclaim tsk B))"
  unfolding reent_reclaim_def Let_def
  by (auto intro!: keep_sched keep_steps simp: same_wait_def split: option.split)

lemma keep_unlink: "keep ob w A B \<Longrightarrow> task_unlink t B = Some C \<Longrightarrow> keep ob w A C"
  unfolding task_unlink_def Let_def
  by (auto intro!: keep_steps simp: same_wait_def split: task_stat_t.splits)

lemma keep_sem_step:
  "keep ob w A B \<Longrightarrow> keep ob w A (fst (krhino_sem_del sem B))"
  "keep (Some s) w A B \<Longrightarrow> keep (Some s) w A (fst (krhino_sem_give (Some s) B))"
  by (auto simp: krhino_sem_del_def krhino_sem_give_def sem_give_def Let_def intro!: keep_steps split: option.split list.split)

lemma keep_del_hook: "keep ob w A B \<Longrightarrow> keep ob w A (krhino_task_del_hook in_heap t B)"
  unfolding krhino_task_del_hook_def krhino_task_sem_del_def Let_def
  by (auto intro!: keep_steps keep_sem_step simp: same_wait_def split: option.split)

lemma keep_kobj: "keep ob w A B \<Longrightarrow> keep ob w A (upd_kobj f B)"
  by (rule keep_steps)

lemma keep_sched_end: "keep ob w A B \<Longrightarrow> keep ob w A (core_sched B)"
  by (rule keep_steps)

lemma keep_task_del: "keep None Stays K (fst (krhino_task_del in_heap tsk K))"
proof -
  obtain L t where r: "reent_reclaim tsk K = (L, t)" by fastforce
  have L: "keep None Stays K L" using keep_reent [OF keep_refl, of None Stays K tsk] r by simp
  have "keep None Stays K (task_mutex_free t L)" by (rule keep_steps) (rule L)
  then show ?thesis
    unfolding krhino_task_del_def r prod.case
    using L keep_unlink [of None Stays K "task_mutex_free t L" t]
    by (auto simp: Let_def intro!: keep_sched_end keep_kobj keep_del_hook split: option.split)
qed

lemma res_sem_sched [simp]:
  "g_res_sem (core_sched K) = g_res_sem K" "g_res_sem (fst (krhino_sched_disable K)) = g_res_sem K"
  "g_res_sem (fst (krhino_sched_enable K)) = g_res_sem K"
proof -
  show c: "g_res_sem (core_sched K) = g_res_sem K" for K
    by (simp add: core_sched_def cpu_task_switch_def fault_def split: option.split)
  show "g_res_sem (fst (krhino_sched_disable K)) = g_res_sem K" "g_res_sem (fst (krhino_sched_enable K)) = g_res_sem K"
    by (simp_all add: krhino_sched_disable_def krhino_sched_enable_def Let_def c)
qed

lemma res_sem_reent: "g_res_sem (fst (reent_reclaim tsk K)) = g_res_sem K"
  by (simp add: reent_reclaim_def Let_def split: option.split)

lemma keep_task_dyn_del: "keep (Some (g_res_sem K)) Stays K (fst (krhino_task_dyn_del in_heap tsk K))"
proof -
  obtain L t where r: "reent_reclaim tsk K = (L, t)" by fastforce
  let ?ob = "Some (g_res_sem K)"
  have L: "keep ?ob Stays K L" using keep_reent [OF keep_refl, of ?ob Stays K tsk] r by simp
  have g: "g_res_sem L = g_res_sem K"
    using arg_cong [OF r, of "g_res_sem \<circ> fst"] by (simp add: res_sem_reent)
  define M where "M = L\<lparr>g_sched_lock := g_sched_lock L + 1, g_res_list := g_res_list L @ [[stack_base (tasks L t), t]]\<rparr>"
  obtain N st where N: "krhino_sem_give (Some (g_res_sem L)) M = (N, st)" by fastforce
  have "keep ?ob Stays K M" unfolding M_def by (auto intro: keep_lock quiet_fields [THEN keep_quiet [rotated]] L)
  from keep_sem_step(2) [OF this] have NN: "keep ?ob Stays K (N\<lparr>g_sched_lock := g_sched_lock N - 1\<rparr>)"
    using N g by (auto intro: keep_lock)
  let ?N = "N\<lparr>g_sched_lock := g_sched_lock N - 1\<rparr>"
  have F: "keep ?ob Stays K (task_mutex_free t ?N)" by (rule keep_steps) (rule NN)
  let ?X = "case task_unlink t (task_mutex_free t ?N) of None \<Rightarrow> task_mutex_free t ?N | Some K \<Rightarrow> K"
  have X: "keep ?ob Stays K ?X" using F keep_unlink [OF F] by (auto split: option.split)
  have e: "keep ?ob Stays K (k_err_proc e ?N)" for e by (rule keep_steps) (rule NN)
  have del: "fst (krhino_task_dyn_del in_heap tsk K) \<in> {L, k_err_proc RHINO_SYS_SP_ERR ?N,
      core_sched (krhino_task_del_hook in_heap t (upd_kobj (\<lambda>l. l\<lparr>task_head := removeAll t (task_head l)\<rparr>) ?X))}"
    using N unfolding krhino_task_dyn_del_def r prod.case M_def by (simp add: Let_def)
  show ?thesis using del L e keep_sched_end [OF keep_del_hook [OF keep_kobj [OF X]]] by (elim insertE emptyE) simp_all
qed

lemma keep_attr:
  "keep None Stays K (fst (krhino_task_time_slice_set tsk n K))" "keep None Stays K (fst (krhino_task_info_set tsk i info K))"
  "keep None Stays K (fst (krhino_sched_param_set tsk policy pri K))" "keep None Stays K (fst (krhino_sched_policy_set tsk policy K))"
  by (auto simp: krhino_task_time_slice_set_def krhino_task_info_set_def krhino_sched_policy_set_def krhino_sched_param_set_def
      Let_def same_wait_def intro!: keep_sched keep_pri_change keep_steps split: option.split)

end
