(* ===== verification/KCalls.thy ===== *)
theory KCalls
  imports KFrame
begin

text \<open>
  The calls of the kernel as data: \<open>kcall\<close> has one constructor per call that changes the state, \<open>exec\<close>
  runs it, \<open>permitted\<close> is what the kernel asks of its callers. The frames and the invariant of every
  call are collected per component: which object it may touch and which wait it may begin
  (\<open>exec_keep\<close>), and that the system invariant survives it (\<open>exec_sys\<close>).
\<close>

section \<open>Calls\<close>

datatype sem_call =
    Sem_create "oid option" "string option" u32
  | Sem_del "oid option"
  | Sem_dyn_create "nat option" "string option" u32 "oid option"
  | Sem_dyn_del "oid option"
  | Sem_give "oid option"
  | Sem_give_all "oid option"
  | Sem_take "oid option" tick_t
  | Sem_count_set "oid option" u32
  | Task_sem_create "tid option" "oid option" "string option" u32
  | Task_sem_del "tid option"
  | Task_sem_give "tid option"
  | Task_sem_take tick_t
  | Task_sem_count_set "tid option" u32

datatype mutex_call =
    Mutex_create "oid option" "string option"
  | Mutex_del "oid option"
  | Mutex_dyn_create "nat option" "string option" "oid option"
  | Mutex_dyn_del "oid option"
  | Mutex_lock "oid option" tick_t
  | Mutex_unlock "oid option"

datatype event_call =
    Event_create "oid option" "string option" u32
  | Event_del "oid option"
  | Event_dyn_create "nat option" "string option" u32 "oid option"
  | Event_dyn_del "oid option"
  | Event_get "oid option" u32 u8 "nat option" tick_t
  | Event_set "oid option" u32 u8

datatype queue_call =
    Queue_create "oid option" "string option" "nat option" nat "nat \<Rightarrow> nat"
  | Queue_del "oid option"
  | Queue_dyn_create "nat option" "string option" nat "oid option" "nat option" "nat \<Rightarrow> nat"
  | Queue_dyn_del "oid option"
  | Queue_back_send "oid option" nat
  | Queue_all_send "oid option" nat
  | Queue_recv "oid option" tick_t "nat option"
  | Queue_flush "oid option"

datatype buf_call =
    Buf_queue_create "oid option" "string option" "nat option" nat nat
  | Fix_buf_queue_create "oid option" "string option" "nat option" nat nat
  | Buf_queue_del "oid option"
  | Buf_queue_dyn_create "nat option" "string option" nat nat "oid option" "nat option"
  | Fix_buf_queue_dyn_create "nat option" "string option" nat nat "oid option" "nat option"
  | Buf_queue_dyn_del "oid option"
  | Buf_queue_send "oid option" "nat option" nat
  | Buf_queue_recv "oid option" tick_t "nat option" "nat option"
  | Buf_queue_flush "oid option"

datatype task_call =
    Task_create "tid option" "string option" nat tick_t "nat option" nat "nat option" bool
  | Task_dyn_create "nat option" "string option" nat tick_t nat "nat option" bool "nat option" "tid option"
  | Task_sleep tick_t
  | Task_yield
  | Task_suspend "tid option"
  | Task_resume "tid option"
  | Task_pri_change "tid option" nat "nat option"
  | Task_wait_abort "tid option"
  | Task_cancel "tid option"
  | Task_del "tid option"
  | Task_dyn_del "tid option"
  | Task_deathbed
  | Task_time_slice_set "tid option" u32
  | Task_info_set "tid option" nat nat
  | Sched_param_set "tid option" "sched_policy_t option" nat
  | Sched_policy_set "tid option" "sched_policy_t option"
  | Sched_disable
  | Sched_enable
  | Store_bytes nat "u8 list"
  | Store_word nat u32

datatype kcall = Sem sem_call | Mutex mutex_call | Event event_call | Queue queue_call | Buf buf_call | Task task_call

text \<open>The last two calls of a task are writes to its own memory.\<close>

fun res :: "kernel \<times> kstat_t \<Rightarrow> kernel \<times> outcome" where
  "res (K, s) = (K, Ret s)"

fun res_dyn :: "kernel \<times> kstat_t \<times> 'a \<Rightarrow> kernel \<times> outcome" where
  "res_dyn (K, s, x) = (K, Ret s)"

fun res_out :: "kernel \<times> outcome \<times> 'a \<Rightarrow> kernel \<times> outcome" where
  "res_out (K, r, x) = (K, r)"

fun exec_sem :: "sem_call \<Rightarrow> kernel \<Rightarrow> kernel \<times> outcome" where
  "exec_sem (Sem_create s nm n) K = res (krhino_sem_create s nm n K)"
| "exec_sem (Sem_del s) K = res (krhino_sem_del s K)"
| "exec_sem (Sem_dyn_create out nm n s) K = res_dyn (krhino_sem_dyn_create out nm n s K)"
| "exec_sem (Sem_dyn_del s) K = res (krhino_sem_dyn_del s K)"
| "exec_sem (Sem_give s) K = res (krhino_sem_give s K)"
| "exec_sem (Sem_give_all s) K = res (krhino_sem_give_all s K)"
| "exec_sem (Sem_take s ticks) K = krhino_sem_take s ticks K"
| "exec_sem (Sem_count_set s n) K = res (krhino_sem_count_set s n K)"
| "exec_sem (Task_sem_create t s nm n) K = res (krhino_task_sem_create t s nm n K)"
| "exec_sem (Task_sem_del t) K = res (krhino_task_sem_del t K)"
| "exec_sem (Task_sem_give t) K = res (krhino_task_sem_give t K)"
| "exec_sem (Task_sem_take ticks) K = krhino_task_sem_take ticks K"
| "exec_sem (Task_sem_count_set t n) K = res (krhino_task_sem_count_set t n K)"

fun exec_mutex :: "mutex_call \<Rightarrow> kernel \<Rightarrow> kernel \<times> outcome" where
  "exec_mutex (Mutex_create m nm) K = res (krhino_mutex_create m nm K)"
| "exec_mutex (Mutex_del m) K = res (krhino_mutex_del m K)"
| "exec_mutex (Mutex_dyn_create out nm m) K = res_dyn (krhino_mutex_dyn_create out nm m K)"
| "exec_mutex (Mutex_dyn_del m) K = res (krhino_mutex_dyn_del m K)"
| "exec_mutex (Mutex_lock m ticks) K = krhino_mutex_lock m ticks K"
| "exec_mutex (Mutex_unlock m) K = res (krhino_mutex_unlock m K)"

fun exec_event :: "event_call \<Rightarrow> kernel \<Rightarrow> kernel \<times> outcome" where
  "exec_event (Event_create e nm n) K = res (krhino_event_create e nm n K)"
| "exec_event (Event_del e) K = res (krhino_event_del e K)"
| "exec_event (Event_dyn_create out nm n e) K = res_dyn (krhino_event_dyn_create out nm n e K)"
| "exec_event (Event_dyn_del e) K = res (krhino_event_dyn_del e K)"
| "exec_event (Event_get e flags opt a ticks) K = krhino_event_get e flags opt a ticks K"
| "exec_event (Event_set e flags opt) K = res (krhino_event_set e flags opt K)"

fun exec_queue :: "queue_call \<Rightarrow> kernel \<Rightarrow> kernel \<times> outcome" where
  "exec_queue (Queue_create q nm st n ws) K = res (krhino_queue_create q nm st n ws K)"
| "exec_queue (Queue_del q) K = res (krhino_queue_del q K)"
| "exec_queue (Queue_dyn_create out nm n q st ws) K = res_dyn (krhino_queue_dyn_create out nm n q st ws K)"
| "exec_queue (Queue_dyn_del q) K = res (krhino_queue_dyn_del q K)"
| "exec_queue (Queue_back_send q m) K = res (krhino_queue_back_send q m K)"
| "exec_queue (Queue_all_send q m) K = res (krhino_queue_all_send q m K)"
| "exec_queue (Queue_recv q ticks out) K = res_out (krhino_queue_recv q ticks out K)"
| "exec_queue (Queue_flush q) K = res (krhino_queue_flush q K)"

fun exec_buf :: "buf_call \<Rightarrow> kernel \<Rightarrow> kernel \<times> outcome" where
  "exec_buf (Buf_queue_create q nm bf sz mx) K = res (krhino_buf_queue_create q nm bf sz mx K)"
| "exec_buf (Fix_buf_queue_create q nm bf sz n) K = res (krhino_fix_buf_queue_create q nm bf sz n K)"
| "exec_buf (Buf_queue_del q) K = res (krhino_buf_queue_del q K)"
| "exec_buf (Buf_queue_dyn_create out nm sz mx q bf) K = res_dyn (krhino_buf_queue_dyn_create out nm sz mx q bf K)"
| "exec_buf (Fix_buf_queue_dyn_create out nm sz n q bf) K = res_dyn (krhino_fix_buf_queue_dyn_create out nm sz n q bf K)"
| "exec_buf (Buf_queue_dyn_del q) K = res (krhino_buf_queue_dyn_del q K)"
| "exec_buf (Buf_queue_send q m n) K = res (krhino_buf_queue_send q m n K)"
| "exec_buf (Buf_queue_recv q ticks m sz) K = res_out (krhino_buf_queue_recv q ticks m sz K)"
| "exec_buf (Buf_queue_flush q) K = res (krhino_buf_queue_flush q K)"

fun exec_task :: "(oid \<Rightarrow> bool) \<Rightarrow> task_call \<Rightarrow> kernel \<Rightarrow> kernel \<times> outcome" where
  "exec_task in_heap (Task_create t nm pri ticks sb sz en run) K = res (krhino_task_create t nm pri ticks sb sz en run K)"
| "exec_task in_heap (Task_dyn_create out nm pri ticks sz en run sm tm) K =
     res_dyn (krhino_task_dyn_create out nm pri ticks sz en run sm tm K)"
| "exec_task in_heap (Task_sleep ticks) K = krhino_task_sleep ticks K"
| "exec_task in_heap Task_yield K = res (krhino_task_yield K)"
| "exec_task in_heap (Task_suspend t) K = res (krhino_task_suspend t K)"
| "exec_task in_heap (Task_resume t) K = res (krhino_task_resume t K)"
| "exec_task in_heap (Task_pri_change t pri old) K = res_dyn (krhino_task_pri_change t pri old K)"
| "exec_task in_heap (Task_wait_abort t) K = res (krhino_task_wait_abort t K)"
| "exec_task in_heap (Task_cancel t) K = res (krhino_task_cancel t K)"
| "exec_task in_heap (Task_del t) K = res (krhino_task_del in_heap t K)"
| "exec_task in_heap (Task_dyn_del t) K = res (krhino_task_dyn_del in_heap t K)"
| "exec_task in_heap Task_deathbed K = (krhino_task_deathbed in_heap K, Ret RHINO_SUCCESS)"
| "exec_task in_heap (Task_time_slice_set t n) K = res (krhino_task_time_slice_set t n K)"
| "exec_task in_heap (Task_info_set t i info) K = res (krhino_task_info_set t i info K)"
| "exec_task in_heap (Sched_param_set t pol pri) K = res (krhino_sched_param_set t pol pri K)"
| "exec_task in_heap (Sched_policy_set t pol) K = res (krhino_sched_policy_set t pol K)"
| "exec_task in_heap Sched_disable K = res (krhino_sched_disable K)"
| "exec_task in_heap Sched_enable K = res (krhino_sched_enable K)"
| "exec_task in_heap (Store_bytes a xs) K = (store_bytes a xs K, Ret RHINO_SUCCESS)"
| "exec_task in_heap (Store_word a x) K = (store_u32 a x K, Ret RHINO_SUCCESS)"

fun exec :: "(oid \<Rightarrow> bool) \<Rightarrow> kcall \<Rightarrow> kernel \<Rightarrow> kernel \<times> outcome" where
  "exec in_heap (Sem c) K = exec_sem c K"
| "exec in_heap (Mutex c) K = exec_mutex c K"
| "exec in_heap (Event c) K = exec_event c K"
| "exec in_heap (Queue c) K = exec_queue c K"
| "exec in_heap (Buf c) K = exec_buf c K"
| "exec in_heap (Task c) K = exec_task in_heap c K"

text \<open>What the kernel asks of its callers: the memory given to a new object or task is not in use, a
  buffer queue is given less than \<open>2 ^ 32 - 4\<close> bytes per message and, with fixed blocks, a whole
  number of them, and the policy of a task is one of those compiled in.\<close>

definition unused_obj :: "oid option \<Rightarrow> kernel \<Rightarrow> bool" where
  "unused_obj ob K \<longleftrightarrow> (case ob of None \<Rightarrow> True | Some b \<Rightarrow> blist K b = [])"

definition unused_task :: "tid option \<Rightarrow> kernel \<Rightarrow> bool" where
  "unused_task tsk K \<longleftrightarrow> (case tsk of None \<Rightarrow> True | Some t \<Rightarrow> \<not> is_live (tstate K t))"

fun permitted_sem :: "sem_call \<Rightarrow> kernel \<Rightarrow> bool" where
  "permitted_sem (Sem_create s nm n) K = unused_obj s K"
| "permitted_sem (Sem_dyn_create out nm n s) K = unused_obj s K"
| "permitted_sem (Task_sem_create t s nm n) K = unused_obj s K"
| "permitted_sem _ K = True"

fun permitted_mutex :: "mutex_call \<Rightarrow> kernel \<Rightarrow> bool" where
  "permitted_mutex (Mutex_create m nm) K = unused_obj m K"
| "permitted_mutex (Mutex_dyn_create out nm m) K = unused_obj m K"
| "permitted_mutex _ K = True"

fun permitted_event :: "event_call \<Rightarrow> kernel \<Rightarrow> bool" where
  "permitted_event (Event_create e nm n) K = unused_obj e K"
| "permitted_event (Event_dyn_create out nm n e) K = unused_obj e K"
| "permitted_event _ K = True"

fun permitted_queue :: "queue_call \<Rightarrow> kernel \<Rightarrow> bool" where
  "permitted_queue (Queue_create q nm st n ws) K = (unused_obj q K \<and> n < 2 ^ 30)"
| "permitted_queue (Queue_dyn_create out nm n q st ws) K = (unused_obj q K \<and> n < 2 ^ 30)"
| "permitted_queue _ K = True"

fun permitted_buf :: "buf_call \<Rightarrow> kernel \<Rightarrow> bool" where
  "permitted_buf (Buf_queue_create q nm bf sz mx) K = (unused_obj q K \<and> sz < 2 ^ 32 \<and> mx < 2 ^ 32 - 4)"
| "permitted_buf (Fix_buf_queue_create q nm bf sz n) K = (unused_obj q K \<and> sz * n < 2 ^ 32 \<and> sz < 2 ^ 32 - 4)"
| "permitted_buf (Buf_queue_dyn_create out nm sz mx q bf) K = (unused_obj q K \<and> sz < 2 ^ 32 \<and> mx < 2 ^ 32 - 4)"
| "permitted_buf (Fix_buf_queue_dyn_create out nm sz n q bf) K = (unused_obj q K \<and> sz * n < 2 ^ 32 \<and> sz < 2 ^ 32 - 4)"
| "permitted_buf _ K = True"

fun permitted_task :: "task_call \<Rightarrow> kernel \<Rightarrow> bool" where
  "permitted_task (Task_create t nm pri ticks sb sz en run) K = unused_task t K"
| "permitted_task (Task_dyn_create out nm pri ticks sz en run sm tm) K = unused_task tm K"
| "permitted_task (Sched_param_set t pol pri) K = (pol \<noteq> Some KSCHED_CFS)"
| "permitted_task (Sched_policy_set t pol) K = (pol \<noteq> Some KSCHED_CFS)"
| "permitted_task _ K = True"

fun permitted :: "kcall \<Rightarrow> kernel \<Rightarrow> bool" where
  "permitted (Sem c) K = permitted_sem c K"
| "permitted (Mutex c) K = permitted_mutex c K"
| "permitted (Event c) K = permitted_event c K"
| "permitted (Queue c) K = permitted_queue c K"
| "permitted (Buf c) K = permitted_buf c K"
| "permitted (Task c) K = permitted_task c K"

section \<open>Frames of the calls\<close>

text \<open>The object a call may touch.\<close>

definition sem_of :: "tid option \<Rightarrow> kernel \<Rightarrow> oid option" where
  "sem_of tsk K = (case tsk of None \<Rightarrow> None | Some t \<Rightarrow> task_sem_obj (tasks K t))"

fun sem_ob :: "sem_call \<Rightarrow> kernel \<Rightarrow> oid option" where
  "sem_ob (Sem_create s nm n) K = s" | "sem_ob (Sem_del s) K = s"
| "sem_ob (Sem_dyn_create out nm n s) K = s" | "sem_ob (Sem_dyn_del s) K = s"
| "sem_ob (Sem_give s) K = s" | "sem_ob (Sem_give_all s) K = s" | "sem_ob (Sem_take s ticks) K = s"
| "sem_ob (Sem_count_set s n) K = s" | "sem_ob (Task_sem_create t s nm n) K = s"
| "sem_ob (Task_sem_del t) K = sem_of t K" | "sem_ob (Task_sem_give t) K = sem_of t K"
| "sem_ob (Task_sem_take ticks) K = sem_of (Some (g_active_task K)) K" | "sem_ob (Task_sem_count_set t n) K = sem_of t K"

fun mutex_ob :: "mutex_call \<Rightarrow> oid option" where
  "mutex_ob (Mutex_create m nm) = m" | "mutex_ob (Mutex_del m) = m" | "mutex_ob (Mutex_dyn_create out nm m) = m"
| "mutex_ob (Mutex_dyn_del m) = m" | "mutex_ob (Mutex_lock m ticks) = m" | "mutex_ob (Mutex_unlock m) = m"

fun event_ob :: "event_call \<Rightarrow> oid option" where
  "event_ob (Event_create e nm n) = e" | "event_ob (Event_del e) = e" | "event_ob (Event_dyn_create out nm n e) = e"
| "event_ob (Event_dyn_del e) = e" | "event_ob (Event_get e flags opt a ticks) = e" | "event_ob (Event_set e flags opt) = e"

fun queue_ob :: "queue_call \<Rightarrow> oid option" where
  "queue_ob (Queue_create q nm st n ws) = q" | "queue_ob (Queue_del q) = q" | "queue_ob (Queue_dyn_create out nm n q st ws) = q"
| "queue_ob (Queue_dyn_del q) = q" | "queue_ob (Queue_back_send q m) = q" | "queue_ob (Queue_all_send q m) = q"
| "queue_ob (Queue_recv q ticks out) = q" | "queue_ob (Queue_flush q) = q"

fun buf_ob :: "buf_call \<Rightarrow> oid option" where
  "buf_ob (Buf_queue_create q nm bf sz mx) = q" | "buf_ob (Fix_buf_queue_create q nm bf sz n) = q"
| "buf_ob (Buf_queue_del q) = q" | "buf_ob (Buf_queue_dyn_create out nm sz mx q bf) = q"
| "buf_ob (Fix_buf_queue_dyn_create out nm sz n q bf) = q" | "buf_ob (Buf_queue_dyn_del q) = q"
| "buf_ob (Buf_queue_send q m n) = q" | "buf_ob (Buf_queue_recv q ticks m sz) = q" | "buf_ob (Buf_queue_flush q) = q"

fun call_ob :: "kcall \<Rightarrow> kernel \<Rightarrow> oid option" where
  "call_ob (Sem c) K = sem_ob c K" | "call_ob (Mutex c) K = mutex_ob c" | "call_ob (Event c) K = event_ob c"
| "call_ob (Queue c) K = queue_ob c" | "call_ob (Buf c) K = buf_ob c"
| "call_ob (Task c) K = (case c of Task_dyn_del t \<Rightarrow> Some (g_res_sem K) | Task_deathbed \<Rightarrow> Some (g_res_sem K) | _ \<Rightarrow> None)"

fun begun :: "kcall \<Rightarrow> oid option \<Rightarrow> outcome \<Rightarrow> waits" where
  "begun (Task c) ob r = (if r = Block then Sleeps else Stays)"
| "begun _ ob r = wait_of ob r"

lemma res_sel [simp]:
  "fst (res x) = fst x" "snd (res x) = Ret (snd x)" "fst (res_dyn y) = fst y" "snd (res_dyn y) = Ret (fst (snd y))"
  "fst (res_out z) = fst z" "snd (res_out z) = fst (snd z)"
  by (cases x; cases y; cases z; simp)+

lemma wait_of_Ret [simp]: "wait_of ob (Ret s) = Stays"
  by (cases ob) simp_all

lemma keep_freed: "keep ob w A B \<Longrightarrow> keep ob w A (B\<lparr>mm_freed := x\<rparr>)"
  by (rule keep_steps)

lemma keep_exec_sem: "keep (sem_ob c K) (wait_of (sem_ob c K) (snd (exec_sem c K))) K (fst (exec_sem c K))"
proof (cases c)
  case (Sem_dyn_create out nm n s)
  then show ?thesis using keep_sem(1) [of s K nm n K_OBJ_DYN_ALLOC]
    by (auto simp: krhino_sem_dyn_create_def split_beta keep_freed split: option.split)
next
  case (Task_sem_create t s nm n)
  then show ?thesis using keep_sem(1) [of s K nm n K_OBJ_STATIC_ALLOC]
    by (auto simp: krhino_task_sem_create_def krhino_sem_create_def split_beta same_wait_def
        intro!: keep_upd_task split: option.split)
next
  case (Task_sem_take ticks)
  then show ?thesis using keep_sem_take by (simp add: krhino_task_sem_take_def sem_of_def)
qed (auto simp: krhino_sem_create_def krhino_sem_give_def krhino_sem_give_all_def krhino_task_sem_del_def
    krhino_task_sem_give_def krhino_task_sem_count_set_def sem_of_def
    intro: keep_sem keep_sem_take split: option.split)

lemma keep_exec_mutex: "keep (mutex_ob c) (wait_of (mutex_ob c) (snd (exec_mutex c K))) K (fst (exec_mutex c K))"
proof (cases c)
  case (Mutex_dyn_create out nm m)
  then show ?thesis using keep_mutex(1) [of m K nm K_OBJ_DYN_ALLOC]
    by (auto simp: krhino_mutex_dyn_create_def split_beta keep_freed split: option.split)
qed (auto simp: krhino_mutex_create_def intro: keep_mutex keep_mutex_lock)

lemma keep_exec_event:
  assumes "\<not> is_pend (tstate K (g_active_task K))"
  shows "keep (event_ob c) (wait_of (event_ob c) (snd (exec_event c K))) K (fst (exec_event c K))"
proof (cases c)
  case (Event_dyn_create out nm n e)
  then show ?thesis using keep_event(1) [of e K nm n K_OBJ_DYN_ALLOC]
    by (auto simp: krhino_event_dyn_create_def split_beta keep_freed split: option.split)
qed (auto simp: krhino_event_create_def intro: keep_event keep_event_get [OF assms])

lemma keep_exec_queue: "keep (queue_ob c) (wait_of (queue_ob c) (snd (exec_queue c K))) K (fst (exec_queue c K))"
proof (cases c)
  case (Queue_dyn_create out nm n q st ws)
  then show ?thesis using keep_queue(1) [of q K nm st n K_OBJ_DYN_ALLOC ws]
    by (auto simp: krhino_queue_dyn_create_def split_beta keep_freed split: option.split)
qed (auto simp: krhino_queue_create_def krhino_queue_back_send_def krhino_queue_all_send_def
    intro: keep_queue keep_queue_recv)

lemma keep_exec_buf: "keep (buf_ob c) (wait_of (buf_ob c) (snd (exec_buf c K))) K (fst (exec_buf c K))"
proof -
  have dyn: "keep q Stays K (fst (buf_queue_dyn_create out nm sz mx ty q bf K))" for out nm sz mx ty q bf
    using keep_bq(1) [of q K nm bf sz mx K_OBJ_DYN_ALLOC ty]
    by (auto simp: buf_queue_dyn_create_def split_beta keep_freed split: option.split)
  show ?thesis
    by (cases c) (auto simp: krhino_buf_queue_create_def krhino_fix_buf_queue_create_def krhino_buf_queue_dyn_create_def
        krhino_fix_buf_queue_dyn_create_def intro: keep_bq keep_bq_recv dyn)
qed

lemma keep_None: "keep None w K K' \<Longrightarrow> keep ob w K K'"
  by (auto simp: keep_def)

lemma keep_exec_task:
  "keep (call_ob (Task c) K) (begun (Task c) ob (snd (exec_task in_heap c K))) K (fst (exec_task in_heap c K))"
proof (cases c)
  case (Task_dyn_create out nm pri ticks sz en run sm tm)
  have "keep None Stays K (fst (task_create (Some t) nm pri ticks (Some sb) sz en run fl pol K))" for t sb fl pol
    by (rule keep_task_create)
  with Task_dyn_create show ?thesis
    by (auto simp: krhino_task_dyn_create_def task_dyn_create_def split_beta keep_freed split: option.split)
next
  case Task_deathbed
  then show ?thesis
    by (simp add: krhino_task_deathbed_def keep_task_dyn_del keep_None [OF keep_task_del])
next
  case (Task_sleep ticks)
  then show ?thesis using keep_sleep by simp
qed (auto simp: krhino_task_create_def keep_attr keep_task_create keep_task_del keep_task_dyn_del
    keep_suspend keep_cancel intro: keep_sched keep_pri_change keep_wait_abort keep_steps)

lemma keep_exec:
  assumes "\<not> is_pend (tstate K (g_active_task K))"
  shows "keep (call_ob c K) (begun c (call_ob c K) (snd (exec in_heap c K))) K (fst (exec in_heap c K))"
proof (cases c)
  case (Task d)
  then show ?thesis using keep_exec_task by (simp del: begun.simps)
qed (use keep_exec_sem keep_exec_mutex keep_exec_event [OF assms] keep_exec_queue keep_exec_buf in auto)

section \<open>The scheduler lock\<close>

lemma quiet_lock: "quiet A B \<Longrightarrow> g_sched_lock B = g_sched_lock A"
  by (simp add: quiet_def)

lemmas lock_frames = quiet_rq_ops [THEN quiet_lock] quiet_lists [THEN quiet_lock] quiet_fields [THEN quiet_lock]
  quiet_sched [THEN quiet_lock] quiet_wakeup [THEN quiet_lock] quiet_pend_rm [THEN quiet_lock] quiet_pri [THEN quiet_lock]
  quiet_grant [THEN quiet_lock] quiet_drains [THEN quiet_lock] quiet_free_walk [THEN quiet_lock]
  quiet_msg_recv [THEN quiet_lock] quiet_end_proc [THEN quiet_lock] sched_frameD(2) [OF sched_frame_pend(3)]

lemma lock_objs:
  "g_sched_lock (upd_sem b f K) = g_sched_lock K" "g_sched_lock (upd_event b g K) = g_sched_lock K"
  "g_sched_lock (upd_queue b h K) = g_sched_lock K" "g_sched_lock (upd_bq b k K) = g_sched_lock K"
  "g_sched_lock (tick_list_insert t n K) = g_sched_lock K"
  by (simp_all add: upd_sem_def upd_event_def upd_queue_def upd_bq_def tick_list_insert_def Let_def)

lemma lock_event_walk: "g_sched_lock (event_set_walk e cur ts K) = g_sched_lock K"
proof (induction ts arbitrary: K)
  case (Cons t ts)
  then show ?case by (simp add: event_wake_def Let_def lock_frames lock_objs)
qed simp

lemmas lock_simps = lock_frames lock_objs lock_event_walk Let_def split_beta

lemma lock_exec_objs:
  "g_sched_lock (fst (exec_sem c1 K)) = g_sched_lock K" "g_sched_lock (fst (exec_mutex c2 K)) = g_sched_lock K"
  "g_sched_lock (fst (exec_event c3 K)) = g_sched_lock K" "g_sched_lock (fst (exec_queue c4 K)) = g_sched_lock K"
  "g_sched_lock (fst (exec_buf c5 K)) = g_sched_lock K"
proof -
  have sem: "g_sched_lock (fst (sem_create s nm n fl K)) = g_sched_lock K" "g_sched_lock (fst (sem_give b all K)) = g_sched_lock K"
    "g_sched_lock (fst (krhino_sem_del s K)) = g_sched_lock K" "g_sched_lock (fst (krhino_sem_take s ticks K)) = g_sched_lock K"
    "g_sched_lock (fst (krhino_sem_count_set s n K)) = g_sched_lock K" for s nm n fl b all ticks
    by (simp_all add: sem_create_def sem_give_def krhino_sem_del_def krhino_sem_take_def krhino_sem_count_set_def lock_simps
        split: option.split list.split)
  show "g_sched_lock (fst (exec_sem c1 K)) = g_sched_lock K"
    by (cases c1) (simp_all add: krhino_sem_create_def krhino_sem_dyn_create_def krhino_sem_dyn_del_def krhino_sem_give_def
        krhino_sem_give_all_def krhino_task_sem_create_def krhino_task_sem_del_def krhino_task_sem_give_def
        krhino_task_sem_take_def krhino_task_sem_count_set_def sem lock_simps split: option.split)
  show "g_sched_lock (fst (exec_mutex c2 K)) = g_sched_lock K"
    by (cases c2) (simp_all add: krhino_mutex_create_def krhino_mutex_dyn_create_def mutex_create_def krhino_mutex_del_def
        krhino_mutex_dyn_del_def krhino_mutex_lock_def krhino_mutex_unlock_def lock_simps split: option.split list.split)
  show "g_sched_lock (fst (exec_event c3 K)) = g_sched_lock K"
    by (cases c3) (simp_all add: krhino_event_create_def krhino_event_dyn_create_def event_create_def krhino_event_del_def
        krhino_event_dyn_del_def krhino_event_get_def krhino_event_set_def event_set_def lock_simps split: option.split)
  show "g_sched_lock (fst (exec_queue c4 K)) = g_sched_lock K"
    by (cases c4) (simp_all add: krhino_queue_create_def krhino_queue_dyn_create_def queue_create_def krhino_queue_del_def
        krhino_queue_dyn_del_def krhino_queue_back_send_def krhino_queue_all_send_def msg_send_def krhino_queue_recv_def
        krhino_queue_flush_def lock_simps split: option.split list.split)
  show "g_sched_lock (fst (exec_buf c5 K)) = g_sched_lock K"
    by (cases c5) (simp_all add: krhino_buf_queue_create_def krhino_fix_buf_queue_create_def buf_queue_create_def
        krhino_buf_queue_dyn_create_def krhino_fix_buf_queue_dyn_create_def buf_queue_dyn_create_def krhino_buf_queue_del_def
        krhino_buf_queue_dyn_del_def krhino_buf_queue_send_def buf_queue_send_def krhino_buf_queue_recv_def
        krhino_buf_queue_flush_def lock_simps split: option.split list.split)
qed

lemma lock_sched:
  assumes "g_sched_lock K \<le> 200"
  shows "g_sched_lock (fst (krhino_sched_disable K)) \<le> 200" "g_sched_lock (fst (krhino_sched_enable K)) \<le> 200"
    "g_sched_lock (fst (reent_reclaim tsk K)) \<le> 200"
proof -
  have inc: "l < 200 \<Longrightarrow> l + 1 \<le> 200" and dec: "0 < l \<Longrightarrow> l \<le> 200 \<Longrightarrow> l - 1 \<le> 200" for l :: u8
    by uint_arith+
  have d: "g_sched_lock (fst (krhino_sched_disable L)) \<le> 200" "g_sched_lock (fst (krhino_sched_enable L)) \<le> 200"
    if "g_sched_lock L \<le> 200" for L
    using that inc dec [of "g_sched_lock L"]
    by (auto simp: krhino_sched_disable_def krhino_sched_enable_def lock_simps word_gt_0)
  define D where "D = fst (krhino_sched_disable K)"
  have "g_sched_lock D \<le> 200" unfolding D_def using d(1) [OF assms] .
  then show "g_sched_lock (fst (reent_reclaim tsk K)) \<le> 200"
    using d(2) unfolding reent_reclaim_def D_def [symmetric] by (simp add: lock_simps split: option.split)
  show "g_sched_lock (fst (krhino_sched_disable K)) \<le> 200" "g_sched_lock (fst (krhino_sched_enable K)) \<le> 200"
    using d [OF assms] .
qed

lemma lock_hook: "g_sched_lock (krhino_task_del_hook in_heap t K) = g_sched_lock K"
proof -
  have "g_sched_lock (fst (krhino_sem_del s L)) = g_sched_lock L" for s L
    by (simp add: krhino_sem_del_def lock_simps split: option.split)
  then show ?thesis by (simp add: krhino_task_del_hook_def krhino_task_sem_del_def lock_simps split: option.split)
qed

lemma lock_unlink: "task_unlink t K = Some L \<Longrightarrow> g_sched_lock L = g_sched_lock K"
  by (auto simp: task_unlink_def lock_simps split: task_stat_t.splits)

lemma lock_del:
  assumes "g_sched_lock K \<le> 200"
  shows "g_sched_lock (fst (krhino_task_del in_heap tsk K)) \<le> 200"
    and "g_sched_lock (fst (krhino_task_dyn_del in_heap tsk K)) \<le> 200"
proof -
  obtain L t where r: "reent_reclaim tsk K = (L, t)" by fastforce
  have L: "g_sched_lock L \<le> 200" using lock_sched(3) [OF assms, of tsk] r by simp
  show "g_sched_lock (fst (krhino_task_del in_heap tsk K)) \<le> 200"
    using L lock_unlink [of t "task_mutex_free t L"] unfolding krhino_task_del_def r prod.case
    by (auto simp: lock_simps lock_hook split: option.split)
  have g: "g_sched_lock (fst (krhino_sem_give s M)) = g_sched_lock M" for s M
    by (simp add: krhino_sem_give_def sem_give_def lock_simps split: option.split list.split)
  show "g_sched_lock (fst (krhino_task_dyn_del in_heap tsk K)) \<le> 200"
    using L lock_unlink unfolding krhino_task_dyn_del_def r prod.case
    by (auto simp: lock_simps lock_hook g split: option.split)
qed

lemma lock_pri_change: "g_sched_lock (fst (krhino_task_pri_change t p old K)) = g_sched_lock K"
  by (simp add: krhino_task_pri_change_def lock_simps split: option.split)

lemma lock_wait_abort: "g_sched_lock (fst (krhino_task_wait_abort t K)) = g_sched_lock K"
  by (simp add: krhino_task_wait_abort_def lock_simps split: option.split task_stat_t.split)

lemma lock_exec_task:
  assumes l: "g_sched_lock K \<le> 200" shows "g_sched_lock (fst (exec_task in_heap c K)) \<le> 200"
proof (cases c)
  case (Sched_param_set t pol pri)
  then show ?thesis using l lock_sched(2) [of "upd_task u f L" for u f L] lock_sched(1) [OF l]
    by (simp add: krhino_sched_param_set_def lock_simps lock_pri_change split: option.split)
next
  case (Sched_policy_set t pol)
  then show ?thesis using l lock_sched(2) [of "upd_task u f L" for u f L] lock_sched(1) [OF l]
    by (simp add: krhino_sched_policy_set_def krhino_sched_param_set_def lock_simps lock_pri_change split: option.split)
next
  case (Task_suspend t)
  then show ?thesis using l
    by (simp add: krhino_task_suspend_def task_suspend_def lock_simps split: option.split task_stat_t.split)
next
  case (Task_resume t)
  then show ?thesis using l
    by (simp add: krhino_task_resume_def task_resume_def lock_simps split: option.split task_stat_t.split)
qed (use l lock_sched lock_del in \<open>simp_all add: krhino_task_create_def task_create_def krhino_task_dyn_create_def
    task_dyn_create_def krhino_task_sleep_def krhino_task_yield_def krhino_task_cancel_def krhino_task_deathbed_def
    krhino_task_time_slice_set_def krhino_task_info_set_def lock_pri_change lock_wait_abort lock_simps
    split: option.split\<close>)

lemma lock_exec: "g_sched_lock K \<le> 200 \<Longrightarrow> g_sched_lock (fst (exec in_heap c K)) \<le> 200"
  by (cases c) (simp_all add: lock_exec_objs lock_exec_task)

end
