(* ===== verification/KObjects.thy ===== *)
theory KObjects
  imports KCalls
begin

text \<open>
  One condition per kind of kernel object, \<open>obj_ok\<close>: no task waits for a semaphore with units left, for
  flags that are set, or for a message that is there, and the rings of queues hold what their
  counters say. Every call keeps the condition of the object it works on (this theory) and, by its
  frame, those of all others (\<open>keep_obj_ok\<close>).
\<close>

section \<open>The condition of an object\<close>

definition queue_ok :: "kernel \<Rightarrow> oid \<Rightarrow> bool" where
  "queue_ok K q \<longleftrightarrow> (\<exists>ms. slots_hold (queues K q) ms \<and> (blist K q \<noteq> [] \<longrightarrow> ms = []))"

definition buf_ok :: "kernel \<Rightarrow> oid \<Rightarrow> bool" where
  "buf_ok K q \<longleftrightarrow> max_msg_size (buf_queues K q) < 2 ^ 32 - 4 \<and>
     (\<exists>ms. bq_holds (buf_queues K q) ms \<and> (blist K q \<noteq> [] \<longrightarrow> ms = []))"

definition obj_ok :: "kernel \<Rightarrow> oid \<Rightarrow> bool" where
  "obj_ok K b \<longleftrightarrow> (case obj_type (blk_objs K b) of
      RHINO_SEM_OBJ_TYPE \<Rightarrow> sem_ok K b
    | RHINO_EVENT_OBJ_TYPE \<Rightarrow> event_ok K b
    | RHINO_QUEUE_OBJ_TYPE \<Rightarrow> queue_ok K b
    | RHINO_BUF_QUEUE_OBJ_TYPE \<Rightarrow> buf_ok K b
    | _ \<Rightarrow> True)"

lemma obj_okI:
  assumes "obj_type (blk_objs K b) = RHINO_SEM_OBJ_TYPE \<Longrightarrow> sem_ok K b"
    "obj_type (blk_objs K b) = RHINO_EVENT_OBJ_TYPE \<Longrightarrow> event_ok K b"
    "obj_type (blk_objs K b) = RHINO_QUEUE_OBJ_TYPE \<Longrightarrow> queue_ok K b"
    "obj_type (blk_objs K b) = RHINO_BUF_QUEUE_OBJ_TYPE \<Longrightarrow> buf_ok K b"
  shows "obj_ok K b"
  using assms by (auto simp: obj_ok_def split: kobj_type_t.split)

lemma obj_okD:
  assumes "obj_ok K b"
  shows "obj_type (blk_objs K b) = RHINO_SEM_OBJ_TYPE \<Longrightarrow> sem_ok K b"
    "obj_type (blk_objs K b) = RHINO_EVENT_OBJ_TYPE \<Longrightarrow> event_ok K b"
    "obj_type (blk_objs K b) = RHINO_QUEUE_OBJ_TYPE \<Longrightarrow> queue_ok K b"
    "obj_type (blk_objs K b) = RHINO_BUF_QUEUE_OBJ_TYPE \<Longrightarrow> buf_ok K b"
  using assms by (auto simp: obj_ok_def)

lemma obj_ok_none: "obj_type (blk_objs K b) \<in> {RHINO_OBJ_TYPE_NONE, RHINO_MUTEX_OBJ_TYPE} \<Longrightarrow> obj_ok K b"
  by (auto simp: obj_ok_def)

lemma keep_waiter:
  assumes k: "keep ob w K K'" and s: "kinvd d K" "kinvd d' K'" and w: "\<And>c. w = Waits c \<Longrightarrow> c \<noteq> b"
    and u: "u \<in> set (blist K' b)"
  shows "u \<in> set (blist K b) \<and> pend_flags (tasks K' u) = pend_flags (tasks K u) \<and>
    pend_option (tasks K' u) = pend_option (tasks K u)"
proof -
  have p: "is_pend (tstate K' u)" "blk_ptr (tasks K' u) = Some b"
    using u kinv_blist_iff [OF s(2)] by auto
  have "\<not> new_wait w (tasks K' u)" using p w by (cases w) (auto simp: new_wait_def)
  then have "same_wait (tasks K u) (tasks K' u)" using k by (auto simp: keep_def)
  with p show ?thesis using kinv_blist_iff [OF s(1), of u b] by (simp add: same_wait_def)
qed

lemma keep_obj_ok_inv:
  assumes k: "keep ob w K K'" and s: "kinvd d K" "kinvd d' K'" and w: "\<And>c. w = Waits c \<Longrightarrow> ob = Some c"
    and b: "Some b \<noteq> ob" and o: "obj_ok K b"
  shows "obj_ok K' b"
proof (cases "obj_type (blk_objs K' b) = RHINO_OBJ_TYPE_NONE")
  case False
  with k b have so: "same_obj K K' b" by (auto simp: keep_def)
  have wt: "u \<in> set (blist K b)" "pend_flags (tasks K' u) = pend_flags (tasks K u)"
    "pend_option (tasks K' u) = pend_option (tasks K u)" if "u \<in> set (blist K' b)" for u
    using keep_waiter [OF k s _ that] w b by blast+
  then have e: "blist K b = [] \<Longrightarrow> blist K' b = []" by (metis list.set_intros(1) list.exhaust list.set(1) empty_iff)
  show ?thesis
  proof (rule obj_okI)
    show "sem_ok K' b" if "obj_type (blk_objs K' b) = RHINO_SEM_OBJ_TYPE"
      using obj_okD(1) [OF o] so that e by (auto simp: sem_ok_def same_obj_def)
    show "event_ok K' b" if "obj_type (blk_objs K' b) = RHINO_EVENT_OBJ_TYPE"
      using obj_okD(2) [OF o] so that wt by (auto simp: event_ok_def same_obj_def)
    show "queue_ok K' b" if "obj_type (blk_objs K' b) = RHINO_QUEUE_OBJ_TYPE"
      using obj_okD(3) [OF o] so that e by (auto simp: queue_ok_def same_obj_def)
    show "buf_ok K' b" if "obj_type (blk_objs K' b) = RHINO_BUF_QUEUE_OBJ_TYPE"
      using obj_okD(4) [OF o] so that e by (auto simp: buf_ok_def same_obj_def)
  qed
qed (simp add: obj_ok_none)

lemma keep_obj_ok:
  assumes "keep ob w K K'" "sys_inv K" "sys_inv K'" "\<And>c. w = Waits c \<Longrightarrow> ob = Some c" "Some b \<noteq> ob" "obj_ok K b"
  shows "obj_ok K' b"
  using keep_obj_ok_inv [OF assms(1) sys_invD(1) [OF assms(2)] sys_invD(1) [OF assms(3)] assms(4-6)] .

text \<open>Types are only changed by creation and deletion.\<close>

lemma quiet_type: "quiet A B \<Longrightarrow> obj_type (blk_objs B b) = obj_type (blk_objs A b)"
  by (simp add: quiet_def same_obj_def)

lemma type_pend_to_blk: "obj_type (blk_objs (pend_to_blk_obj c t n K) b) = obj_type (blk_objs K b)"
  by (simp add: pend_to_blk_obj_def Let_def)

lemmas type_frames = quiet_sched [THEN quiet_type] quiet_wakeup [THEN quiet_type] quiet_pend_rm [THEN quiet_type]
  quiet_drains [THEN quiet_type] quiet_msg_recv [THEN quiet_type] quiet_pri [THEN quiet_type] quiet_grant [THEN quiet_type]
  type_pend_to_blk

section \<open>Semaphores and mutexes\<close>

lemma unusedD: "unused_obj ob K \<Longrightarrow> ob = Some b \<Longrightarrow> blist K b = []"
  by (simp add: unused_obj_def)

text \<open>Changes that no condition reads.\<close>

lemma obj_ok_aux [simp]:
  "obj_ok (K\<lparr>mm_freed := x\<rparr>) b \<longleftrightarrow> obj_ok K b" "obj_ok (upd_task t (\<lambda>r. r\<lparr>task_sem_obj := y\<rparr>) K) b \<longleftrightarrow> obj_ok K b"
  by (auto simp: obj_ok_def sem_ok_def event_ok_def queue_ok_def buf_ok_def split: kobj_type_t.split)

lemma sys_freed: "sys_inv (K\<lparr>mm_freed := x\<rparr>) \<longleftrightarrow> sys_inv K" "runs_next (K\<lparr>mm_freed := x\<rparr>) \<longleftrightarrow> runs_next K"
  by simp_all

lemma sys_exec_sem:
  assumes s: "sys_inv K" and i: "g_active_task K \<noteq> g_idle_task K" and p: "permitted_sem c K"
  shows "sys_inv (fst (exec_sem c K)) \<and> (runs_next K \<longrightarrow> runs_next (fst (exec_sem c K)))"
proof -
  have new: "sys_inv (fst (sem_create ob nm n fl K)) \<and> (runs_next K \<longrightarrow> runs_next (fst (sem_create ob nm n fl K)))"
    if "unused_obj ob K" for ob nm n fl
    using sem_create_ok [OF s unusedD [OF that]] by blast
  show ?thesis
  proof (cases c)
    case (Task_sem_create t ob nm n)
    have "sys_inv (upd_task u (\<lambda>r. r\<lparr>task_sem_obj := x\<rparr>) L)" if "sys_inv L" for u x L
      by (rule sys_upd_task [OF that]) simp_all
    with Task_sem_create new [of ob nm n K_OBJ_STATIC_ALLOC] p s show ?thesis
      by (auto simp: krhino_task_sem_create_def krhino_sem_create_def split_beta split: option.split)
  next
    case (Sem_dyn_create out nm n ob)
    with new [of ob nm n K_OBJ_DYN_ALLOC] p s show ?thesis
      by (auto simp: krhino_sem_dyn_create_def split_beta split: option.split)
  qed (use s p new sem_del_ok [OF s] sem_give_ok [OF s] sem_take_ok [OF s i] sem_count_set_ok [OF s] in
      \<open>auto simp: krhino_sem_create_def krhino_sem_give_def krhino_sem_give_all_def krhino_task_sem_del_def
        krhino_task_sem_give_def krhino_task_sem_take_def krhino_task_sem_count_set_def split: option.split\<close>)
qed

lemma own_sem:
  assumes s: "sys_inv K" and p: "permitted_sem c K" and o: "obj_ok K b" and b: "sem_ob c K = Some b"
  shows "obj_ok (fst (exec_sem c K)) b"
proof -
  have new: "obj_ok (fst (sem_create (Some b) nm n fl K)) b" if "unused_obj (Some b) K" for nm n fl
    using o that by (cases nm) (simp_all add: sem_create_def obj_ok_def sem_ok_def blk_obj_zero_def Let_def)
  have del: "obj_ok (fst (krhino_sem_del (Some b) K)) b" "obj_ok (fst (krhino_sem_dyn_del (Some b) K)) b"
  proof -
    let ?T = "upd_blk b (\<lambda>o'. o'\<lparr>obj_type := RHINO_OBJ_TYPE_NONE\<rparr>) K"
    have "quiet ?T (pend_rm_all b ?T)" by simp
    then have "obj_type (blk_objs (pend_rm_all b ?T) b) = RHINO_OBJ_TYPE_NONE" by (simp add: quiet_def same_obj_def)
    then show "obj_ok (fst (krhino_sem_del (Some b) K)) b" "obj_ok (fst (krhino_sem_dyn_del (Some b) K)) b"
      using o by (auto simp: krhino_sem_del_def krhino_sem_dyn_del_def Let_def intro: obj_ok_none)
  qed
  have ops: "obj_ok (fst (sem_give b all K)) b \<and> obj_ok (fst (krhino_sem_take (Some b) ticks K)) b \<and>
      obj_ok (fst (krhino_sem_count_set (Some b) n K)) b" for all ticks n
  proof (cases "obj_type (blk_objs K b) = RHINO_SEM_OBJ_TYPE")
    case True
    have ty: "obj_type (blk_objs (fst (sem_give b all K)) b) = RHINO_SEM_OBJ_TYPE"
      "obj_type (blk_objs (fst (krhino_sem_take (Some b) ticks K)) b) = RHINO_SEM_OBJ_TYPE"
      "obj_type (blk_objs (fst (krhino_sem_count_set (Some b) n K)) b) = RHINO_SEM_OBJ_TYPE" for all
      using True by (auto simp: sem_give_def krhino_sem_take_def krhino_sem_count_set_def type_frames Let_def split: list.split)
    show ?thesis
      using sem_ok_ops [OF s obj_okD(1) [OF o True] True, of ticks n] ty True
      by (cases all) (auto simp: obj_ok_def krhino_sem_give_def krhino_sem_give_all_def)
  qed (use o in \<open>auto simp: sem_give_def krhino_sem_take_def krhino_sem_count_set_def split: list.split\<close>)
  show ?thesis
  proof (cases c)
    case (Task_sem_create t ob nm n)
    with Task_sem_create new [of nm n K_OBJ_STATIC_ALLOC] p b o show ?thesis
      by (auto simp: krhino_task_sem_create_def krhino_sem_create_def split_beta split: option.split)
  next
    case (Sem_dyn_create out nm n ob)
    with Sem_dyn_create new [of nm n K_OBJ_DYN_ALLOC] p b o show ?thesis
      by (auto simp: krhino_sem_dyn_create_def split_beta split: option.split)
  qed (use p b new del ops in \<open>auto simp: krhino_sem_create_def krhino_sem_give_def krhino_sem_give_all_def sem_of_def
        krhino_task_sem_del_def krhino_task_sem_give_def krhino_task_sem_take_def krhino_task_sem_count_set_def
        split: option.splits\<close>)
qed

text \<open>The calls after which the running task may no longer be the one the scheduler would choose: an
  unlock without waiters that lowers the owner, and the deletion of a dead task.\<close>

fun resched_ok :: "kcall \<Rightarrow> kernel \<Rightarrow> bool" where
  "resched_ok (Mutex (Mutex_unlock (Some m))) K \<longleftrightarrow> (blist K m = [] \<longrightarrow> keeps_prio K m)"
| "resched_ok (Task (Task_del (Some t))) K \<longleftrightarrow> is_live (tstate K t)"
| "resched_ok _ K \<longleftrightarrow> True"

lemma sys_exec_mutex:
  assumes s: "sys_inv K" and i: "g_active_task K \<noteq> g_idle_task K" and p: "permitted_mutex c K"
  shows "sys_inv (fst (exec_mutex c K)) \<and> (runs_next K \<longrightarrow> resched_ok (Mutex c) K \<longrightarrow> runs_next (fst (exec_mutex c K)))"
proof -
  have new: "sys_inv (fst (mutex_create ob nm fl K)) \<and> (runs_next K \<longrightarrow> runs_next (fst (mutex_create ob nm fl K)))"
    if "unused_obj ob K" for ob nm fl
    using mutex_create_ok [OF s unusedD [OF that]] by blast
  show ?thesis
  proof (cases c)
    case (Mutex_dyn_create out nm ob)
    with new [of ob nm K_OBJ_DYN_ALLOC] p s show ?thesis
      by (auto simp: krhino_mutex_dyn_create_def split_beta split: option.split)
  next
    case (Mutex_unlock m)
    with mutex_unlock_ok [OF s i, of m] s show ?thesis by (cases m) (auto simp: krhino_mutex_unlock_def)
  qed (use s p new mutex_del_ok [OF s] mutex_lock_ok [OF s i] in \<open>auto simp: krhino_mutex_create_def\<close>)
qed

lemma own_mutex:
  assumes o: "obj_ok K b" and b: "mutex_ob c = Some b"
  shows "obj_ok (fst (exec_mutex c K)) b"
proof -
  have new: "obj_ok (fst (mutex_create (Some b) nm fl K)) b" for nm fl
    using o by (cases nm) (simp_all add: mutex_create_def obj_ok_none Let_def)
  have ops: "obj_ok (fst (krhino_mutex_del (Some b) K)) b \<and> obj_ok (fst (krhino_mutex_dyn_del (Some b) K)) b \<and>
     obj_ok (fst (krhino_mutex_lock (Some b) ticks K)) b \<and> obj_ok (fst (krhino_mutex_unlock (Some b) K)) b" for ticks
  proof (cases "obj_type (blk_objs K b) = RHINO_MUTEX_OBJ_TYPE")
    case True
    let ?ok = "\<lambda>L. obj_type (blk_objs L b) \<in> {RHINO_OBJ_TYPE_NONE, RHINO_MUTEX_OBJ_TYPE}"
    have "?ok (fst (krhino_mutex_del (Some b) K))" "?ok (fst (krhino_mutex_dyn_del (Some b) K))"
      using True by (simp_all add: krhino_mutex_del_def krhino_mutex_dyn_del_def Let_def type_frames split: option.split)
    moreover have "?ok (fst (krhino_mutex_lock (Some b) ticks K))" "?ok (fst (krhino_mutex_unlock (Some b) K))"
      using True by (simp_all add: krhino_mutex_lock_def krhino_mutex_unlock_def Let_def type_frames split: option.split list.split)
    ultimately show ?thesis using obj_ok_none by blast
  qed (use o in \<open>auto simp: krhino_mutex_del_def krhino_mutex_dyn_del_def krhino_mutex_lock_def krhino_mutex_unlock_def Let_def\<close>)
  show ?thesis
  proof (cases c)
    case (Mutex_dyn_create out nm ob)
    with new [of nm K_OBJ_DYN_ALLOC] b o show ?thesis
      by (auto simp: krhino_mutex_dyn_create_def split_beta split: option.split)
  qed (use b new ops in \<open>auto simp: krhino_mutex_create_def\<close>)
qed

section \<open>Events\<close>

lemma sys_exec_event:
  assumes s: "sys_inv K" and i: "g_active_task K \<noteq> g_idle_task K" and p: "permitted_event c K"
  shows "sys_inv (fst (exec_event c K)) \<and> (runs_next K \<longrightarrow> runs_next (fst (exec_event c K)))"
proof -
  have new: "sys_inv (fst (event_create ob nm n fl K)) \<and> (runs_next K \<longrightarrow> runs_next (fst (event_create ob nm n fl K)))"
    if "unused_obj ob K" for ob nm n fl
    using event_create_ok [OF s unusedD [OF that]] by blast
  show ?thesis
  proof (cases c)
    case (Event_dyn_create out nm n ob)
    with new [of ob nm n K_OBJ_DYN_ALLOC] p s show ?thesis
      by (auto simp: krhino_event_dyn_create_def split_beta split: option.split)
  qed (use s p new event_del_ok [OF s] event_get_ok [OF s i] event_set_ok [OF s] in
      \<open>auto simp: krhino_event_create_def krhino_event_set_def split: option.split\<close>)
qed

lemma own_event:
  assumes s: "sys_inv K" and p: "permitted_event c K" and o: "obj_ok K b" and b: "event_ob c = Some b"
  shows "obj_ok (fst (exec_event c K)) b"
proof -
  have new: "obj_ok (fst (event_create (Some b) nm n fl K)) b" if "unused_obj (Some b) K" for nm n fl
    using o unusedD [OF that] by (cases nm) (simp_all add: event_create_def obj_ok_def event_ok_def blk_obj_zero_def Let_def)
  have walk: "obj_type (blk_objs (event_set_walk b cur ts L) b) = obj_type (blk_objs L b)" for cur ts L
    by (induction ts arbitrary: L) (simp_all add: event_wake_def Let_def type_frames)
  have del: "obj_ok (fst (krhino_event_del (Some b) K)) b \<and> obj_ok (fst (krhino_event_dyn_del (Some b) K)) b"
    using o by (auto simp: krhino_event_del_def krhino_event_dyn_del_def Let_def type_frames intro!: obj_ok_none)
  have ops: "obj_ok (fst (krhino_event_set (Some b) flags opt K)) b \<and> obj_ok (fst (krhino_event_get (Some b) flags opt a ticks K)) b"
    for flags opt a ticks
  proof (cases "obj_type (blk_objs K b) = RHINO_EVENT_OBJ_TYPE")
    case True
    have "obj_type (blk_objs (fst (krhino_event_set (Some b) flags opt K)) b) = RHINO_EVENT_OBJ_TYPE"
      using True by (simp add: krhino_event_set_def event_set_def Let_def walk type_frames)
    moreover have "obj_type (blk_objs (fst (krhino_event_get (Some b) flags opt a ticks K)) b) = RHINO_EVENT_OBJ_TYPE"
      using True by (simp add: krhino_event_get_def Let_def type_frames split: option.split)
    ultimately show ?thesis
      using event_ok_ops [OF s obj_okD(2) [OF o True] True, of flags opt flags opt a ticks] by (simp add: obj_ok_def)
  qed (use o in \<open>auto simp: krhino_event_set_def event_set_def krhino_event_get_def split: option.split\<close>)
  show ?thesis
  proof (cases c)
    case (Event_dyn_create out nm n ob)
    with new [of nm n K_OBJ_DYN_ALLOC] p b o show ?thesis
      by (auto simp: krhino_event_dyn_create_def split_beta split: option.split)
  qed (use p b new del ops in \<open>auto simp: krhino_event_create_def\<close>)
qed

end
