(* ===== verification/KMessages.thy ===== *)
theory KMessages
  imports KObjects
begin

text \<open>
  The condition of queues and buffer queues (\<open>queue_ok\<close>, \<open>buf_ok\<close>) is kept by every call that works on
  them, and so is the system invariant.
\<close>

section \<open>Queues of pointers\<close>

lemma queue_ok_rep: "queue_ok K q \<longleftrightarrow>
    (\<exists>ms. queue_rep K q \<lparr>stored = ms, capacity = q_size (queues K q), receivers = blist K q\<rparr>)"
  by (auto simp: queue_ok_def queue_rep_def)

lemma queue_rep_ok: "queue_rep K q a \<Longrightarrow> queue_ok K q"
  by (auto simp: queue_ok_def queue_rep_def)

lemma obj_slots: "obj_ok K q \<Longrightarrow> obj_type (blk_objs K q) = RHINO_QUEUE_OBJ_TYPE \<Longrightarrow> \<exists>ms. slots_hold (queues K q) ms"
  using obj_okD(3) by (auto simp: queue_ok_def)

lemma sys_exec_queue:
  assumes s: "sys_inv K" and i: "g_active_task K \<noteq> g_idle_task K" and p: "permitted_queue c K" and o: "\<And>b. obj_ok K b"
  shows "sys_inv (fst (exec_queue c K)) \<and> (runs_next K \<longrightarrow> runs_next (fst (exec_queue c K)))"
proof -
  have new: "sys_inv (fst (queue_create ob nm st n fl ws K)) \<and> (runs_next K \<longrightarrow> runs_next (fst (queue_create ob nm st n fl ws K)))"
    if "unused_obj ob K" for ob nm st n fl ws
    using queue_create_ok [OF s unusedD [OF that]] by blast
  show ?thesis
  proof (cases c)
    case (Queue_dyn_create out nm n ob st ws)
    with new [of ob nm st n K_OBJ_DYN_ALLOC ws] p s show ?thesis
      by (auto simp: krhino_queue_dyn_create_def split_beta split: option.split)
  qed (use s p new queue_del_ok [OF s] msg_send_ok [OF s obj_slots [OF o]] queue_recv_ok [OF s i obj_slots [OF o]] in
      \<open>auto simp: krhino_queue_create_def krhino_queue_back_send_def krhino_queue_all_send_def krhino_queue_flush_def
        split: option.split\<close>)
qed

lemma own_queue:
  assumes s: "sys_inv K" and p: "permitted_queue c K" and o: "obj_ok K b" and b: "queue_ob c = Some b"
  shows "obj_ok (fst (exec_queue c K)) b"
proof -
  have new: "obj_ok (fst (queue_create (Some b) nm st n fl ws K)) b" if "unused_obj (Some b) K" "n < 2 ^ 30" for nm st n fl ws
  proof -
    have "n * 4 mod 2 ^ 32 div 4 = n" using that(2) by simp
    then show ?thesis using o slots_new [of n ws] unusedD [OF that(1)]
      by (cases nm; cases st; cases "n = 0") (auto simp: queue_create_def obj_ok_def [of "upd_kobj _ _"]
          obj_ok_def [of "upd_blk _ _ _"] queue_ok_def blk_obj_zero_def Let_def)
  qed
  have del: "obj_ok (fst (krhino_queue_del (Some b) K)) b" "obj_ok (fst (krhino_queue_dyn_del (Some b) K)) b"
    using o by (auto simp: krhino_queue_del_def krhino_queue_dyn_del_def Let_def type_frames intro!: obj_ok_none)
  have ops: "obj_ok (fst (msg_send (Some b) m all K)) b \<and> obj_ok (fst (krhino_queue_recv (Some b) ticks out K)) b \<and>
      obj_ok (fst (krhino_queue_flush (Some b) K)) b" for m all ticks out
  proof (cases "obj_type (blk_objs K b) = RHINO_QUEUE_OBJ_TYPE")
    case True
    obtain ms where r: "queue_rep K b \<lparr>stored = ms, capacity = q_size (queues K b), receivers = blist K b\<rparr>"
      using obj_okD(3) [OF o True] unfolding queue_ok_rep by blast
    then have h: "slots_hold (queues K b) ms" by (simp add: queue_rep_def)
    have ty: "obj_type (blk_objs (fst (msg_send (Some b) m all K)) b) = RHINO_QUEUE_OBJ_TYPE"
      "obj_type (blk_objs (fst (krhino_queue_recv (Some b) ticks out K)) b) = RHINO_QUEUE_OBJ_TYPE"
      "obj_type (blk_objs (fst (krhino_queue_flush (Some b) K)) b) = RHINO_QUEUE_OBJ_TYPE"
      using True by (auto simp: msg_send_def krhino_queue_recv_def krhino_queue_flush_def Let_def type_frames split: list.split option.split)
    have "queue_ok (fst (msg_send (Some b) m all K)) b"
      using queue_send_sim [OF sys_invD(1) [OF s] True r, of m all] by (auto simp: split_beta Let_def intro: queue_rep_ok)
    moreover have "queue_ok (fst (krhino_queue_recv (Some b) ticks out K)) b"
    proof (cases "fst (krhino_queue_recv (Some b) ticks out K) = K")
      case F: False
      show ?thesis
      proof (cases ms)
        case Nil
        with F True h have "fst (krhino_queue_recv (Some b) ticks out K) = core_sched (pend_to_blk_obj b (g_active_task K) ticks K)"
          by (auto simp: krhino_queue_recv_def slots_hold_def split: option.splits if_splits)
        then show ?thesis using h Nil by (auto simp: queue_ok_def)
      next
        case (Cons m' ms')
        then have e: "blist K b = []" using r by (simp add: queue_rep_def)
        have "0 < q_cur_num (queues K b)" using h Cons by (simp add: slots_hold_def)
        with pop_slot [of "queues K b" m' ms'] h Cons F True e show ?thesis
          by (auto simp: krhino_queue_recv_def queue_ok_def split: option.splits if_splits)
      qed
    qed (use obj_okD(3) [OF o True] in simp)
    moreover have "queue_ok (fst (krhino_queue_flush (Some b) K)) b"
      using slots_reset [OF h] obj_okD(3) [OF o True] True by (auto simp: krhino_queue_flush_def queue_ok_def)
    ultimately show ?thesis using ty True by (simp add: obj_ok_def)
  qed (use o in \<open>auto simp: msg_send_def krhino_queue_recv_def krhino_queue_flush_def split: option.split\<close>)
  show ?thesis
  proof (cases c)
    case (Queue_dyn_create out nm n ob st ws)
    with new [of n nm st K_OBJ_DYN_ALLOC ws] p b o show ?thesis
      by (auto simp: krhino_queue_dyn_create_def split_beta split: option.split)
  qed (use p b new del ops in \<open>auto simp: krhino_queue_create_def krhino_queue_back_send_def krhino_queue_all_send_def\<close>)
qed

section \<open>Queues of bytes\<close>

lemma bq_reset:
  assumes "bq_holds r ms"
  shows "bq_holds (let rg = ringbuf_reset (bq_ring r) in r\<lparr>bq_ring := rg, bq_cur_num := 0, bq_peak_num := 0, min_free_buf_size := freesize rg\<rparr>) []"
proof -
  have "rb_ok (ringbuf_reset rg) \<and> rb_content (ringbuf_reset rg) = []" if "rb_ok rg" for rg
    using that by (simp add: ringbuf_reset_def rb_ok_def rb_used_def rb_content_def)
  with assms show ?thesis
    by (auto simp: bq_holds_def dyn_holds_def fix_holds_def encode_def ringbuf_reset_def Let_def)
qed

lemma pend_bq: "buf_queues (pend_to_blk_obj b t n K) = buf_queues K"
  using sched_frameD(19) [OF sched_frame_pend(3)] by simp

lemma obj_bytes: "obj_ok K q \<Longrightarrow> obj_type (blk_objs K q) = RHINO_BUF_QUEUE_OBJ_TYPE \<Longrightarrow>
    max_msg_size (buf_queues K q) < 2 ^ 32 - 4 \<and> (\<exists>ms. bq_holds (buf_queues K q) ms)"
  using obj_okD(4) by (auto simp: buf_ok_def)

lemma sys_exec_buf:
  assumes s: "sys_inv K" and i: "g_active_task K \<noteq> g_idle_task K" and p: "permitted_buf c K" and o: "\<And>b. obj_ok K b"
  shows "sys_inv (fst (exec_buf c K)) \<and> (runs_next K \<longrightarrow> runs_next (fst (exec_buf c K)))"
proof -
  have new: "sys_inv (fst (buf_queue_create ob nm bf n mx fl ty K)) \<and>
      (runs_next K \<longrightarrow> runs_next (fst (buf_queue_create ob nm bf n mx fl ty K)))"
    if "unused_obj ob K" for ob nm bf n mx fl ty
    using buf_queue_create_ok [OF s unusedD [OF that]] by blast
  have dyn: "sys_inv (fst (buf_queue_dyn_create out nm n mx ty ob bf K)) \<and>
      (runs_next K \<longrightarrow> runs_next (fst (buf_queue_dyn_create out nm n mx ty ob bf K)))"
    if "unused_obj ob K" for out nm n mx ty ob bf
    using new [OF that, of nm bf n mx K_OBJ_DYN_ALLOC ty] s
    by (auto simp: buf_queue_dyn_create_def split_beta split: option.split)
  show ?thesis
    by (cases c) (use s p new dyn buf_queue_del_ok [OF s] buf_queue_send_ok [OF s obj_bytes [OF o]]
        buf_queue_recv_ok [OF s i, of "_ :: oid option"] obj_bytes [OF o] in
      \<open>auto simp: krhino_buf_queue_create_def krhino_fix_buf_queue_create_def krhino_buf_queue_dyn_create_def
        krhino_fix_buf_queue_dyn_create_def krhino_buf_queue_flush_def split: option.split\<close>)
qed

lemma own_buf:
  assumes s: "sys_inv K" and p: "permitted_buf c K" and o: "obj_ok K b" and b: "buf_ob c = Some b"
  shows "obj_ok (fst (exec_buf c K)) b"
proof -
  have dy: "obj_ok (fst (buf_queue_create (Some b) nm bf n mx fl RINGBUF_TYPE_DYN K)) b"
    if "unused_obj (Some b) K" "n < 2 ^ 32" "mx < 2 ^ 32 - 4" for nm bf n mx fl
    using o that dyn_init [of "load_bytes a n L" mx for a L] unusedD [OF that(1)]
    by (cases nm; cases bf; cases "mx = 0 \<or> n = 0") (auto simp: buf_queue_create_def obj_ok_def [of "upd_bq _ _ _"]
        buf_ok_def bq_holds_def blk_obj_zero_def Let_def)
  have fx: "obj_ok (fst (buf_queue_create (Some b) nm bf n mx fl RINGBUF_TYPE_FIX K)) b"
    if "unused_obj (Some b) K" "n < 2 ^ 32" "mx < 2 ^ 32 - 4" "mx dvd n" for nm bf n mx fl
    using o that fix_init [of mx "load_bytes a n L" for a L] unusedD [OF that(1)]
    by (cases nm; cases bf; cases "mx = 0 \<or> n = 0") (auto simp: buf_queue_create_def obj_ok_def [of "upd_bq _ _ _"]
        buf_ok_def bq_holds_def blk_obj_zero_def Let_def)
  have del: "obj_ok (fst (krhino_buf_queue_del (Some b) K)) b" "obj_ok (fst (krhino_buf_queue_dyn_del (Some b) K)) b"
    using o by (auto simp: krhino_buf_queue_del_def krhino_buf_queue_dyn_del_def Let_def type_frames intro!: obj_ok_none)
  have dyn: "obj_ok (fst (buf_queue_dyn_create out nm n mx ty (Some b) bf K)) b"
    if "unused_obj (Some b) K" "n < 2 ^ 32" "mx < 2 ^ 32 - 4" "ty = RINGBUF_TYPE_DYN \<or> ty = RINGBUF_TYPE_FIX \<and> mx dvd n"
    for out nm n mx ty bf
    using that dy [of n mx nm bf K_OBJ_DYN_ALLOC] fx [of n mx nm bf K_OBJ_DYN_ALLOC] o
    by (auto simp: buf_queue_dyn_create_def split_beta split: option.split)
  have ops: "obj_ok (fst (buf_queue_send b a n K)) b \<and> obj_ok (fst (krhino_buf_queue_recv (Some b) ticks m sz K)) b \<and>
      obj_ok (fst (krhino_buf_queue_flush (Some b) K)) b" for a n ticks m sz
  proof (cases "obj_type (blk_objs K b) = RHINO_BUF_QUEUE_OBJ_TYPE")
    case True
    have ok: "buf_ok K b" by (rule obj_okD(4) [OF o True])
    then obtain ms where h: "bq_holds (buf_queues K b) ms" and mx: "max_msg_size (buf_queues K b) < 2 ^ 32 - 4"
      and w: "blist K b \<noteq> [] \<Longrightarrow> ms = []" by (auto simp: buf_ok_def)
    have ty: "obj_type (blk_objs (fst (buf_queue_send b a n K)) b) = RHINO_BUF_QUEUE_OBJ_TYPE"
      "obj_type (blk_objs (fst (krhino_buf_queue_recv (Some b) ticks m sz K)) b) = RHINO_BUF_QUEUE_OBJ_TYPE"
      "obj_type (blk_objs (fst (krhino_buf_queue_flush (Some b) K)) b) = RHINO_BUF_QUEUE_OBJ_TYPE"
      using True by (auto simp: buf_queue_send_def krhino_buf_queue_recv_def krhino_buf_queue_flush_def Let_def type_frames
          split: list.split option.split)
    have "buf_ok (fst (buf_queue_send b a n K)) b"
    proof (cases "0 < n \<and> n \<le> max_msg_size (buf_queues K b)")
      case n: True
      show ?thesis
      proof (cases "blist K b")
        case Nil
        from bq_send_store [OF h True conjunct1 [OF n] conjunct2 [OF n] mx Nil, of a] obtain r where
          r: "fst (buf_queue_send b a n K) = upd_bq b (\<lambda>_. r) K" "max_msg_size r = max_msg_size (buf_queues K b)" and
          "if freesize (bq_ring (buf_queues K b)) < bq_need (buf_queues K b) n then r = buf_queues K b
           else bq_holds r (ms @ [bq_payload (buf_queues K b) a n K])" by (metis fst_conv)
        then have "\<exists>ms'. bq_holds r ms'" using h by (metis (full_types))
        with mx Nil r show ?thesis by (auto simp: buf_ok_def)
      next
        case (Cons u us)
        from bq_send_wake [OF sys_invD(1) [OF s] True _ _ Cons, of n a] n obtain L where
          "fst (buf_queue_send b a n K) = core_sched L" "buf_queues L = buf_queues K" by auto
        with mx h w Cons show ?thesis by (auto simp: buf_ok_def)
      qed
    qed (use ok True in \<open>auto simp: buf_queue_send_def\<close>)
    moreover have "buf_ok (fst (krhino_buf_queue_recv (Some b) ticks m sz K)) b"
    proof (cases "fst (krhino_buf_queue_recv (Some b) ticks m sz K) = K")
      case F: False
      show ?thesis
      proof (cases ms)
        case Nil
        with F True h have "\<exists>a. fst (krhino_buf_queue_recv (Some b) ticks m sz K) =
            core_sched (pend_to_blk_obj b (g_active_task K) ticks (upd_task (g_active_task K) (\<lambda>r. r\<lparr>msg := a\<rparr>) K))"
          by (auto simp: krhino_buf_queue_recv_def bq_holds_def Let_def split: option.splits if_splits)
        then show ?thesis using h Nil mx by (auto simp: buf_ok_def pend_bq)
      next
        case (Cons m' ms')
        then have e: "blist K b = []" using w by auto
        have "0 < bq_cur_num (buf_queues K b)" using h Cons by (simp add: bq_holds_def)
        with bq_pop [of "buf_queues K b" m' ms'] h Cons F True e mx show ?thesis
          by (auto simp: krhino_buf_queue_recv_def buf_ok_def Let_def split: option.splits if_splits)
      qed
    qed (use ok in simp)
    moreover have "buf_ok (fst (krhino_buf_queue_flush (Some b) K)) b"
      using bq_reset [OF h] ok mx True by (auto simp: krhino_buf_queue_flush_def buf_ok_def Let_def)
    ultimately show ?thesis using ty True by (simp add: obj_ok_def)
  qed (use o in \<open>auto simp: buf_queue_send_def krhino_buf_queue_recv_def krhino_buf_queue_flush_def split: option.split\<close>)
  show ?thesis
    by (cases c) (use p b dy fx dyn del ops o in \<open>auto simp: krhino_buf_queue_create_def krhino_fix_buf_queue_create_def
        krhino_buf_queue_dyn_create_def krhino_fix_buf_queue_dyn_create_def krhino_buf_queue_send_def
        split: option.split\<close>)
qed

section \<open>Tasks\<close>

lemma lock_le:
  fixes l :: u8
  assumes "l \<le> 200"
  shows "l \<noteq> - 1"
proof -
  have m: "(- 1 :: u8) = 255" by simp
  have "\<not> (255 :: u8) \<le> 200" by simp
  with assms show ?thesis unfolding m by blast
qed

lemma sys_exec_task:
  assumes s: "sys_inv K" and i: "g_active_task K \<noteq> g_idle_task K" and n: "g_intrpt_nested_level K = 0"
    and l: "g_sched_lock K \<le> 200" and r: "g_sys_stat K = RHINO_RUNNING" and sp: "g_idle_task_spawned K"
    and p: "permitted_task c K"
  shows "sys_inv (fst (exec_task in_heap c K)) \<and>
    (runs_next K \<longrightarrow> resched_ok (Task c) K \<longrightarrow> runs_next (fst (exec_task in_heap c K)))"
proof -
  have l': "g_sched_lock K \<noteq> - 1" by (rule lock_le [OF l])
  have new: "sys_inv (fst (task_create t nm pri ticks sb sz en run fl KSCHED_RR K)) \<and>
      (runs_next K \<longrightarrow> runs_next (fst (task_create t nm pri ticks sb sz en run fl KSCHED_RR K)))"
    if "unused_task t K" for t nm pri ticks sb sz en run fl
  proof -
    have f: "\<not> is_live (tstate K u)" if "t = Some u" for u
      using \<open>unused_task t K\<close> that by (simp add: unused_task_def del: is_live.simps)
    from task_create_ok [OF s sp _ f r, of KSCHED_RR] show ?thesis by simp
  qed
  show ?thesis
  proof (cases c)
    case (Task_dyn_create out nm pri ticks sz en run sm tm)
    with p s new [of tm nm pri ticks] show ?thesis
      by (auto simp: krhino_task_dyn_create_def task_dyn_create_def split_beta split: option.split)
  next
    case (Task_del t)
    with task_del_ok [OF s l', where in_heap = in_heap and tsk = t] show ?thesis by (cases t) auto
  qed (use s p new sleep_ok [OF s i] yield_ok [OF s n] suspend_resume_ok [OF s] pri_change_ok [OF s] wait_abort_ok [OF s]
      cancel_ok [OF s] task_dyn_del_ok [OF s l'] deathbed_ok [OF s l'] task_attr_ok [OF s] sched_disable_ok [OF s]
      sched_enable_ok [OF s n] sched_param_set_ok [OF s] sched_policy_set_ok [OF s] in
      \<open>auto simp: krhino_task_create_def\<close>)
qed

text \<open>The deletion of a dynamic task leaves its memory to the kernel and gives a unit to the semaphore
  of the task that frees it. Both halves touch no other object.\<close>

lemma dyn_del_halves:
  assumes s: "sys_inv K" and l: "g_sched_lock K \<noteq> - 1" and n: "g_intrpt_nested_level K = 0"
  shows "keep None Stays K (fst (krhino_task_dyn_del in_heap tsk K)) \<or>
    (\<exists>M. sys_inv M \<and> keep None Stays K M \<and>
      keep None Stays (fst (krhino_sem_give (Some (g_res_sem K)) M)) (fst (krhino_task_dyn_del in_heap tsk K)))"
proof -
  obtain L t where r: "reent_reclaim tsk K = (L, t)" by fastforce
  note A = reent_ok [OF s r]
  have L: "keep None Stays K L" using keep_reent [OF keep_refl, of None Stays K tsk] r by simp
  have g: "g_res_sem L = g_res_sem K" using arg_cong [OF r, of "g_res_sem \<circ> fst"] by (simp add: res_sem_reent)
  define M where "M = L\<lparr>g_sched_lock := g_sched_lock L + 1, g_res_list := g_res_list L @ [[stack_base (tasks L t), t]]\<rparr>"
  obtain N st where N: "krhino_sem_give (Some (g_res_sem L)) M = (N, st)" by fastforce
  let ?N = "N\<lparr>g_sched_lock := g_sched_lock N - 1\<rparr>"
  have KM: "keep None Stays K M" unfolding M_def by (auto intro: keep_lock quiet_fields [THEN keep_quiet [rotated]] L)
  have "tstate L (g_active_task L) = K_RDY" using sys_invD(4) [OF A(1)] A(6) n by simp
  then have sM: "sys_inv M" using A(1) A(3) [OF l] by (simp add: M_def sys_inv_def act_rdy_def add_eq_0_iff2)
  have NN: "keep None Stays N ?N" by (auto intro: keep_lock)
  have F: "keep None Stays N (task_mutex_free t ?N)" by (rule keep_steps) (rule NN)
  let ?X = "case task_unlink t (task_mutex_free t ?N) of None \<Rightarrow> task_mutex_free t ?N | Some K \<Rightarrow> K"
  have X: "keep None Stays N ?X" using F keep_unlink [OF F] by (auto split: option.split)
  have e: "keep None Stays N (k_err_proc e ?N)" for e by (rule keep_steps) (rule NN)
  have del: "fst (krhino_task_dyn_del in_heap tsk K) \<in> {L, k_err_proc RHINO_SYS_SP_ERR ?N,
      core_sched (krhino_task_del_hook in_heap t (upd_kobj (\<lambda>l. l\<lparr>task_head := removeAll t (task_head l)\<rparr>) ?X))}"
    using N unfolding krhino_task_dyn_del_def r prod.case M_def by (simp add: Let_def)
  from del show ?thesis
  proof (elim insertE emptyE)
    assume "fst (krhino_task_dyn_del in_heap tsk K) = L"
    with L show ?thesis by simp
  qed (use sM KM g N e keep_sched_end [OF keep_del_hook [OF keep_kobj [OF X]]] in \<open>auto simp: M_def intro!: exI [of _ M]\<close>)
qed

lemma own_task:
  assumes s: "sys_inv K" and n: "g_intrpt_nested_level K = 0" and l: "g_sched_lock K \<le> 200" and o: "obj_ok K b" and b: "call_ob (Task c) K = Some b"
    and s': "sys_inv (fst (exec_task in_heap c K))"
  shows "obj_ok (fst (exec_task in_heap c K)) b"
proof -
  have l': "g_sched_lock K \<noteq> - 1" by (rule lock_le [OF l])
  have bb: "b = g_res_sem K" using b by (cases c) auto
  have dyn: "obj_ok (fst (krhino_task_dyn_del in_heap tsk K)) b" if s': "sys_inv (fst (krhino_task_dyn_del in_heap tsk K))" for tsk
    using dyn_del_halves [OF s l' n, of in_heap tsk]
  proof (elim disjE exE conjE)
    assume k: "keep None Stays K (fst (krhino_task_dyn_del in_heap tsk K))"
    show ?thesis by (rule keep_obj_ok [OF k s s' _ _ o]) auto
  next
    fix M assume M: "sys_inv M" "keep None Stays K M"
      "keep None Stays (fst (krhino_sem_give (Some (g_res_sem K)) M)) (fst (krhino_task_dyn_del in_heap tsk K))"
    have "obj_ok M b" by (rule keep_obj_ok [OF M(2) s M(1) _ _ o]) auto
    then have "obj_ok (fst (krhino_sem_give (Some b) M)) b"
      using own_sem [OF M(1), of "Sem_give (Some b)" b] by simp
    moreover have "sys_inv (fst (krhino_sem_give (Some b) M))"
      using sem_give_ok(1) [OF M(1), of b False] by (simp add: krhino_sem_give_def)
    ultimately show ?thesis using keep_obj_ok [OF M(3) _ s'] bb by auto
  qed
  have del: "obj_ok (fst (krhino_task_del in_heap tsk K)) b" if "sys_inv (fst (krhino_task_del in_heap tsk K))" for tsk
    using keep_obj_ok [OF keep_task_del s that, of b] o by auto
  show ?thesis using b s' dyn del by (cases c) (auto simp: krhino_task_deathbed_def split: if_splits)
qed

section \<open>All calls\<close>

definition steady :: "kernel \<Rightarrow> bool" where
  "steady K \<longleftrightarrow> sys_inv K \<and> g_sched_lock K \<le> 200 \<and> g_sys_stat K = RHINO_RUNNING \<and> g_idle_task_spawned K \<and> (\<forall>b. obj_ok K b)"

lemma exec_ok:
  assumes k: "steady K" and i: "g_active_task K \<noteq> g_idle_task K" and n: "g_intrpt_nested_level K = 0"
    and p: "permitted c K"
  shows "sys_inv (fst (exec in_heap c K)) \<and> (\<forall>b. obj_ok (fst (exec in_heap c K)) b) \<and>
    (runs_next K \<longrightarrow> resched_ok c K \<longrightarrow> runs_next (fst (exec in_heap c K)))"
proof -
  let ?E = "fst (exec in_heap c K)"
  have s: "sys_inv K" and l: "g_sched_lock K \<le> 200" and r: "g_sys_stat K = RHINO_RUNNING" "g_idle_task_spawned K"
    and o: "\<And>b. obj_ok K b" using k by (auto simp: steady_def)
  have sys: "sys_inv ?E \<and> (runs_next K \<longrightarrow> resched_ok c K \<longrightarrow> runs_next ?E)"
    using p sys_exec_sem [OF s i] sys_exec_mutex [OF s i] sys_exec_event [OF s i] sys_exec_queue [OF s i _ o]
      sys_exec_buf [OF s i _ o] sys_exec_task [OF s i n l r] by (cases c) auto
  have "\<not> is_pend (tstate K (g_active_task K))" using sys_invD(4) [OF s n] by simp
  from keep_exec [OF this] have f: "keep (call_ob c K) (begun c (call_ob c K) (snd (exec in_heap c K))) K ?E" .
  have w: "call_ob c K = Some d" if "begun c (call_ob c K) (snd (exec in_heap c K)) = Waits d" for d
    using that by (cases c; cases "call_ob c K"; cases "snd (exec in_heap c K)") (auto split: if_splits)
  have "obj_ok ?E b" for b
  proof (cases "Some b = call_ob c K")
    case False
    show ?thesis by (rule keep_obj_ok [OF f s conjunct1 [OF sys] w False o])
  next
    case True
    have own: "obj_ok ?E b" if "\<And>d. c \<noteq> Task d"
      using that True p own_sem [OF s _ o] own_mutex [OF o] own_event [OF s _ o] own_queue [OF s _ o] own_buf [OF s _ o]
      by (cases c) auto
    show ?thesis
    proof (cases c)
      case (Task d)
      with own_task [OF s n l o, of d b in_heap] True sys show ?thesis by simp
    qed (use own in auto)
  qed
  with sys show ?thesis by blast
qed

end
