(* ===== verification/KSystem.thy ===== *)
theory KSystem
  imports KMessages
begin

text \<open>
  The running system: tasks that make any of the calls of \<open>kcall\<close>, one after the other, and interrupts
  at any moment between them. A call that blocks leaves its task inside the call (\<open>cont\<close>); when the
  task runs again the second half of the call returns. A step switches the running task exactly when
  the code does. The properties hold in every state such a system can reach, whatever the tasks and
  the interrupt handlers do: \<open>steady\<close> is kept, a task that waits is inside the call on the object
  it waits for, and time passes only with ticks.
\<close>

section \<open>Steps\<close>

datatype cont = InSem oid | InMutex oid | InEvent oid | InQueue oid | InBufQueue oid | InSleep

fun cont_ob :: "cont \<Rightarrow> oid option" where
  "cont_ob (InSem b) = Some b" | "cont_ob (InMutex b) = Some b" | "cont_ob (InEvent b) = Some b"
| "cont_ob (InQueue b) = Some b" | "cont_ob (InBufQueue b) = Some b" | "cont_ob InSleep = None"

fun cont_of :: "kcall \<Rightarrow> oid option \<Rightarrow> cont" where
  "cont_of (Sem c) (Some b) = InSem b" | "cont_of (Mutex c) (Some b) = InMutex b"
| "cont_of (Event c) (Some b) = InEvent b" | "cont_of (Queue c) (Some b) = InQueue b"
| "cont_of (Buf c) (Some b) = InBufQueue b" | "cont_of _ _ = InSleep"

fun resume :: "cont \<Rightarrow> kernel \<Rightarrow> kernel" where
  "resume (InSem b) K = fst (krhino_sem_take_resume b K)"
| "resume (InMutex b) K = fst (krhino_mutex_lock_resume b K)"
| "resume (InEvent b) K = fst (krhino_event_get_resume b K)"
| "resume (InQueue b) K = fst (krhino_queue_recv_resume b K)"
| "resume (InBufQueue b) K = fst (krhino_buf_queue_recv_resume b K)"
| "resume InSleep K = fst (krhino_task_sleep_resume K)"

record system =
  kern :: kernel
  conts :: "tid \<Rightarrow> cont option"

text \<open>The calls interrupt handlers make.\<close>

definition isr_call :: "kcall \<Rightarrow> bool" where
  "isr_call c \<longleftrightarrow> (case c of
      Sem d \<Rightarrow> (case d of Sem_give s \<Rightarrow> True | Sem_give_all s \<Rightarrow> True | Task_sem_give t \<Rightarrow> True | _ \<Rightarrow> False)
    | Event d \<Rightarrow> (case d of Event_set e f opt \<Rightarrow> True | _ \<Rightarrow> False)
    | Queue d \<Rightarrow> (case d of Queue_back_send q m \<Rightarrow> True | Queue_all_send q m \<Rightarrow> True | _ \<Rightarrow> False)
    | Buf d \<Rightarrow> (case d of Buf_queue_send q m n \<Rightarrow> True | _ \<Rightarrow> False)
    | Task d \<Rightarrow> (case d of Task_suspend t \<Rightarrow> True | Task_resume t \<Rightarrow> True | _ \<Rightarrow> False)
    | _ \<Rightarrow> False)"

datatype label = Sys_call kcall | Sys_resume | Irq_enter | Irq_exit | Irq_tick | Irq_call kcall

text \<open>A dead task is in no call; a task is inside the call that blocked it.\<close>

definition conts_after :: "kcall \<Rightarrow> outcome \<Rightarrow> system \<Rightarrow> tid \<Rightarrow> cont option" where
  "conts_after c r s u =
     (if u = g_active_task (kern s) \<and> r = Block then Some (cont_of c (call_ob c (kern s)))
      else if is_live (tstate (kern s) u) then conts s u else None)"

text \<open>\<open>P\<close> is what the tasks may call. The idle task makes no calls, and the nesting of interrupts is
  bounded by its counter.\<close>

inductive sys_step :: "(oid \<Rightarrow> bool) \<Rightarrow> (kcall \<Rightarrow> kernel \<Rightarrow> bool) \<Rightarrow> system \<Rightarrow> label \<Rightarrow> system \<Rightarrow> bool" for in_heap P where
  call: "sys_step in_heap P s (Sys_call c) \<lparr>kern = K', conts = conts_after c r s\<rparr>"
    if "g_intrpt_nested_level (kern s) = 0" "g_active_task (kern s) \<noteq> g_idle_task (kern s)"
      "conts s (g_active_task (kern s)) = None" "P c (kern s)" "exec in_heap c (kern s) = (K', r)"
| resume: "sys_step in_heap P s Sys_resume \<lparr>kern = resume k (kern s), conts = (conts s)(g_active_task (kern s) := None)\<rparr>"
    if "g_intrpt_nested_level (kern s) = 0" "conts s (g_active_task (kern s)) = Some k"
| enter: "sys_step in_heap P s Irq_enter (s\<lparr>kern := fst (krhino_intrpt_enter (kern s))\<rparr>)"
    if "g_intrpt_nested_level (kern s) \<noteq> - 1"
| exit: "sys_step in_heap P s Irq_exit (s\<lparr>kern := krhino_intrpt_exit (kern s)\<rparr>)"
    if "g_intrpt_nested_level (kern s) > 0"
| tick: "sys_step in_heap P s Irq_tick (s\<lparr>kern := krhino_tick_proc (kern s)\<rparr>)"
    if "g_intrpt_nested_level (kern s) > 0"
| isr: "sys_step in_heap P s (Irq_call c) (s\<lparr>kern := fst (exec in_heap c (kern s))\<rparr>)"
    if "g_intrpt_nested_level (kern s) > 0" "isr_call c"

inductive_cases sys_stepE: "sys_step in_heap P s l s'"
inductive_simps sys_resume_iff: "sys_step in_heap P s Sys_resume s'"
inductive_simps sys_tick_iff: "sys_step in_heap P s Irq_tick s'"

text \<open>A run, with a condition \<open>Q\<close> that holds all along.\<close>

inductive sys_run :: "(oid \<Rightarrow> bool) \<Rightarrow> (kcall \<Rightarrow> kernel \<Rightarrow> bool) \<Rightarrow> (system \<Rightarrow> bool) \<Rightarrow> system \<Rightarrow> label list \<Rightarrow> system \<Rightarrow> bool"
  for in_heap P Q s where
  start: "sys_run in_heap P Q s [] s" if "Q s"
| step: "sys_run in_heap P Q s (ls @ [l]) s''"
    if "sys_run in_heap P Q s ls s'" "sys_step in_heap P s' l s''" "Q s''"

section \<open>The invariant of a system\<close>

definition cont_ok :: "system \<Rightarrow> bool" where
  "cont_ok s \<longleftrightarrow> (\<forall>t.
     (is_pend (tstate (kern s) t) \<longrightarrow> (\<exists>k. conts s t = Some k \<and> cont_ob k \<noteq> None \<and> blk_ptr (tasks (kern s) t) = cont_ob k)) \<and>
     (is_sleep (tstate (kern s) t) \<longrightarrow> conts s t = Some InSleep))"

definition sys_ok :: "system \<Rightarrow> bool" where
  "sys_ok s \<longleftrightarrow> steady (kern s) \<and> cont_ok s"

lemma quiet_glob:
  assumes "quiet K K'"
  shows "g_sched_lock K' = g_sched_lock K" "g_sys_stat K' = g_sys_stat K" "g_idle_task_spawned K \<Longrightarrow> g_idle_task_spawned K'"
    "g_intrpt_nested_level K' = g_intrpt_nested_level K" "g_tick_count K' = g_tick_count K"
  using assms by (simp_all add: quiet_def glob_keep_def)

lemma steady_quiet:
  assumes s: "steady K" and q: "quiet K K'" and s': "sys_inv K'"
  shows "steady K'"
proof -
  have "obj_ok K' b" for b
    using keep_obj_ok [OF quiet_keep [OF q, of None Stays] _ s', of b] s by (auto simp: steady_def)
  with s s' quiet_glob [OF q] show ?thesis by (simp add: steady_def)
qed

lemma cont_ok_keep:
  assumes c: "cont_ok s" and q: "keep ob w (kern s) K'" and s': "sys_inv K'"
    and old: "\<And>t. is_pend (tstate (kern s) t) \<or> is_sleep (tstate (kern s) t) \<Longrightarrow> cs t = conts s t"
    and new: "\<And>t. t = g_active_task (kern s) \<Longrightarrow> new_wait w (tasks K' t) \<Longrightarrow>
      (is_pend (tstate K' t) \<longrightarrow> (\<exists>k. cs t = Some k \<and> cont_ob k \<noteq> None \<and> blk_ptr (tasks K' t) = cont_ob k)) \<and>
      (is_sleep (tstate K' t) \<longrightarrow> cs t = Some InSleep)"
  shows "cont_ok \<lparr>kern = K', conts = cs\<rparr>"
proof -
  have b: "blk_ptr (tasks K' t) \<noteq> None" if "is_pend (tstate K' t)" for t
    using kinvD(6) [OF sys_invD(1) [OF s']] that by (auto simp: placed_def)
  have "(is_pend (tstate K' t) \<longrightarrow> (\<exists>k. cs t = Some k \<and> cont_ob k \<noteq> None \<and> blk_ptr (tasks K' t) = cont_ob k)) \<and>
      (is_sleep (tstate K' t) \<longrightarrow> cs t = Some InSleep)" for t
  proof (cases "same_wait (tasks (kern s) t) (tasks K' t)")
    case True
    with c old [of t] b [of t] show ?thesis
      unfolding cont_ok_def same_wait_def by (metis (no_types, lifting))
  next
    case False
    with q have "t = g_active_task (kern s)" "new_wait w (tasks K' t)" by (auto simp: keep_def)
    then show ?thesis by (rule new)
  qed
  then show ?thesis by (simp add: cont_ok_def)
qed

lemma cont_ok_quiet:
  assumes "cont_ok s" and "quiet (kern s) K'" and "sys_inv K'"
    and "\<And>t. is_pend (tstate (kern s) t) \<or> is_sleep (tstate (kern s) t) \<Longrightarrow> cs t = conts s t"
  shows "cont_ok \<lparr>kern = K', conts = cs\<rparr>"
  using cont_ok_keep [OF assms(1) quiet_keep [OF assms(2), of None Stays] assms(3,4)] by (simp add: new_wait_def)

lemma obj_ok_mode [simp]: "obj_ok (core_sched K) b \<longleftrightarrow> obj_ok K b"
  "obj_ok (K\<lparr>g_intrpt_nested_level := n\<rparr>) b \<longleftrightarrow> obj_ok K b" "obj_ok (K\<lparr>g_tick_count := c\<rparr>) b \<longleftrightarrow> obj_ok K b"
  by (auto simp: obj_ok_def sem_ok_def event_ok_def queue_ok_def buf_ok_def split: kobj_type_t.split)

lemma begun_block:
  assumes "new_wait (begun c ob r) r'"
  shows "r = Block \<and> (is_pend (task_state r') \<and> blk_ptr r' \<noteq> None \<longrightarrow>
      cont_ob (cont_of c ob) \<noteq> None \<and> blk_ptr r' = cont_ob (cont_of c ob)) \<and>
    (is_sleep (task_state r') \<longrightarrow> cont_of c ob = InSleep)"
  using assms by (cases c; cases ob; cases r) (auto simp: new_wait_def split: if_splits)

section \<open>Every step keeps it\<close>

lemma call_step_ok:
  assumes s: "sys_ok s" and n: "g_intrpt_nested_level (kern s) = 0" and i: "g_active_task (kern s) \<noteq> g_idle_task (kern s)"
    and p: "permitted c (kern s)" and e: "exec in_heap c (kern s) = (K', r)"
  shows "sys_ok \<lparr>kern = K', conts = conts_after c r s\<rparr>"
    and "runs_next (kern s) \<Longrightarrow> resched_ok c (kern s) \<Longrightarrow> runs_next K'"
proof -
  let ?K = "kern s"
  have k: "steady ?K" and c: "cont_ok s" using s by (simp_all add: sys_ok_def)
  then have l: "g_sched_lock ?K \<le> 200" and sys: "sys_inv ?K" by (simp_all add: steady_def)
  have rdy: "tstate ?K (g_active_task ?K) = K_RDY" by (rule sys_invD(4) [OF sys n])
  have K': "sys_inv K'" "\<And>b. obj_ok K' b" using exec_ok [OF k i n p, of in_heap] e by auto
  show "runs_next ?K \<Longrightarrow> resched_ok c ?K \<Longrightarrow> runs_next K'" using exec_ok [OF k i n p, of in_heap] e by auto
  have f: "keep (call_ob c ?K) (begun c (call_ob c ?K) r) ?K K'" using keep_exec [of ?K c in_heap] rdy e by simp
  then have "steady K'" using k K' lock_exec [OF l, of in_heap c] e by (auto simp: steady_def keep_def glob_keep_def)
  moreover have "cont_ok \<lparr>kern = K', conts = conts_after c r s\<rparr>"
  proof (rule cont_ok_keep [OF c f K'(1)])
    fix t
    show "conts_after c r s t = conts s t" if "is_pend (tstate ?K t) \<or> is_sleep (tstate ?K t)"
      using that rdy by (auto simp: conts_after_def)
    assume t: "t = g_active_task ?K" and w: "new_wait (begun c (call_ob c ?K) r) (tasks K' t)"
    have "blk_ptr (tasks K' t) \<noteq> None" if "is_pend (tstate K' t)"
      using kinvD(6) [OF sys_invD(1) [OF K'(1)]] that by (auto simp: placed_def)
    with begun_block [OF w] t show "(is_pend (tstate K' t) \<longrightarrow> (\<exists>k. conts_after c r s t = Some k \<and> cont_ob k \<noteq> None \<and> blk_ptr (tasks K' t) = cont_ob k)) \<and>
      (is_sleep (tstate K' t) \<longrightarrow> conts_after c r s t = Some InSleep)" by (simp add: conts_after_def)
  qed
  ultimately show "sys_ok \<lparr>kern = K', conts = conts_after c r s\<rparr>" by (simp add: sys_ok_def)
qed

lemma resume_frame:
  "quiet K (resume k K)" "sys_inv K \<Longrightarrow> sys_inv (resume k K)" "sys_inv K \<Longrightarrow> runs_next K \<Longrightarrow> runs_next (resume k K)"
  by (cases k; simp add: krhino_sem_take_resume_def krhino_mutex_lock_resume_def krhino_event_get_resume_def
      krhino_queue_recv_resume_def krhino_buf_queue_recv_resume_def krhino_task_sleep_resume_def split_beta
      pend_state_end_proc_kinv)+

lemma isr_ok:
  assumes k: "steady K" and c: "isr_call c"
  shows "sys_inv (fst (exec in_heap c K)) \<and> (\<forall>b. obj_ok (fst (exec in_heap c K)) b) \<and>
    keep (call_ob c K) Stays K (fst (exec in_heap c K))"
proof -
  let ?E = "fst (exec in_heap c K)"
  have s: "sys_inv K" and o: "\<And>b. obj_ok K b" using k by (auto simp: steady_def)
  have sys: "sys_inv ?E"
    using c sem_give_ok(1) [OF s] event_set_ok(1) [OF s] msg_send_ok(1) [OF s obj_slots [OF o]]
      buf_queue_send_ok(1) [OF s obj_bytes [OF o]] suspend_resume_ok(1,3) [OF s] s
    by (auto simp: isr_call_def krhino_sem_give_def krhino_sem_give_all_def krhino_task_sem_give_def
        krhino_event_set_def krhino_queue_back_send_def krhino_queue_all_send_def
        split: kcall.splits sem_call.splits event_call.splits queue_call.splits buf_call.splits task_call.splits option.splits)
  have f: "keep (call_ob c K) Stays K ?E"
    using c keep_sem keep_event keep_queue keep_bq keep_suspend
    by (auto simp: isr_call_def krhino_sem_give_def krhino_sem_give_all_def krhino_task_sem_give_def sem_of_def
        krhino_queue_back_send_def krhino_queue_all_send_def
        split: kcall.splits sem_call.splits event_call.splits queue_call.splits buf_call.splits task_call.splits option.splits)
  have "obj_ok ?E b" for b
  proof (cases "Some b = call_ob c K")
    case False
    show ?thesis by (rule keep_obj_ok [OF f s sys _ False o]) simp
  next
    case True
    have p: "permitted c K" using c by (auto simp: isr_call_def split: kcall.splits sem_call.splits event_call.splits
          queue_call.splits buf_call.splits task_call.splits)
    show ?thesis
    proof (cases c)
      case (Task d)
      then show ?thesis using c True by (auto simp: isr_call_def split: task_call.splits)
    qed (use p True own_sem [OF s _ o] own_mutex [OF o] own_event [OF s _ o] own_queue [OF s _ o] own_buf [OF s _ o] in auto)
  qed
  with sys f show ?thesis by blast
qed

lemma steady_mode: "steady K \<Longrightarrow> sys_inv (K\<lparr>g_intrpt_nested_level := n\<rparr>) \<Longrightarrow> steady (K\<lparr>g_intrpt_nested_level := n\<rparr>)"
  by (simp add: steady_def)

lemma cont_ok_upd: "cont_ok s \<Longrightarrow> tasks K' = tasks (kern s) \<Longrightarrow> cont_ok (s\<lparr>kern := K'\<rparr>)"
  by (simp add: cont_ok_def)

lemma cont_ok_kern: "cont_ok \<lparr>kern = K', conts = conts s\<rparr> \<longleftrightarrow> cont_ok (s\<lparr>kern := K'\<rparr>)"
  by (simp add: cont_ok_def)

lemma step_ok:
  assumes st: "sys_step in_heap P s l s'" and s: "sys_ok s" and P: "\<And>c K. P c K \<Longrightarrow> permitted c K"
  shows "sys_ok s'" and "(\<And>c K. P c K \<Longrightarrow> resched_ok c K) \<Longrightarrow> runs_next (kern s) \<Longrightarrow> runs_next (kern s')"
proof -
  let ?K = "kern s"
  have k: "steady ?K" "sys_inv ?K" and c: "cont_ok s" using s by (simp_all add: sys_ok_def steady_def)
  have "sys_ok s' \<and> ((\<forall>c K. P c K \<longrightarrow> resched_ok c K) \<longrightarrow> runs_next ?K \<longrightarrow> runs_next (kern s'))"
    using st
  proof (cases rule: sys_step.cases)
    case (call c K' r)
    with call_step_ok [OF s call(3,4) P] show ?thesis by simp
  next
    case (resume kk)
    have "tstate ?K (g_active_task ?K) = K_RDY" by (rule sys_invD(4) [OF k(2) resume(3)])
    then have "cont_ok s'" unfolding resume(2)
      by (intro cont_ok_quiet [OF c resume_frame(1) resume_frame(2) [OF k(2)]]) auto
    then show ?thesis unfolding resume(2) sys_ok_def
      using steady_quiet [OF k(1) resume_frame(1) resume_frame(2) [OF k(2)]] resume_frame(3) [OF k(2)] by simp
  next
    case enter
    note e = intrpt_enter_ok [OF k(2) enter(3)]
    have "steady (fst (krhino_intrpt_enter ?K))" using steady_mode [OF k(1)] e(1) by (simp add: krhino_intrpt_enter_def)
    then show ?thesis unfolding enter(2) sys_ok_def using e(2) cont_ok_upd [OF c] by (simp add: krhino_intrpt_enter_def)
  next
    case exit
    note e = intrpt_exit_ok [OF k(2) exit(3)]
    have "steady (krhino_intrpt_exit ?K)" using k(1) e(1) quiet_glob(3) [OF quiet_sched, of "?K\<lparr>g_intrpt_nested_level := g_intrpt_nested_level ?K - 1\<rparr>"] by (simp add: steady_def intrpt_exit_eq)
    then show ?thesis unfolding exit(2) sys_ok_def using e(2) cont_ok_upd [OF c] by (simp add: intrpt_exit_eq)
  next
    case tick
    let ?M = "?K\<lparr>g_tick_count := g_tick_count ?K + 1\<rparr>" and ?T = "krhino_tick_proc ?K"
    note e = tick_proc_ok [OF k(2) tick(3)]
    have f: "keep None Stays ?M ?T" by (rule quiet_keep [OF quiet_tick_proc])
    have "obj_ok ?T b" for b
      by (rule keep_obj_ok_inv [OF f kinv_count_step [OF sys_invD(1) [OF k(2)]] sys_invD(1) [OF e(1)]])
        (use k(1) in \<open>simp_all add: steady_def\<close>)
    then have "steady ?T" using k(1) e(1) quiet_glob [OF quiet_tick_proc, of ?K] by (simp add: steady_def)
    moreover have "cont_ok (s\<lparr>kern := ?M\<rparr>)" using c by (simp add: cont_ok_def)
    then have "cont_ok \<lparr>kern = ?T, conts = conts s\<rparr>"
      using cont_ok_quiet [of "s\<lparr>kern := ?M\<rparr>" ?T "conts s"] quiet_tick_proc [of ?K] e(1) by simp
    ultimately show ?thesis unfolding tick(2) sys_ok_def cont_ok_kern using e(2) by simp
  next
    case (isr c)
    let ?E = "fst (exec in_heap c ?K)"
    note e = isr_ok [OF k(1) isr(4)]
    have l: "g_sched_lock ?E \<le> 200" using k(1) lock_exec [of ?K in_heap c] by (simp add: steady_def)
    have "cont_ok \<lparr>kern = ?E, conts = conts s\<rparr>"
      by (rule cont_ok_keep [OF c]) (use e in \<open>auto simp: new_wait_def\<close>)
    moreover have "steady ?E" using e k(1) l by (auto simp: steady_def keep_def glob_keep_def)
    moreover have "runs_next ?E" using e isr(3) by (auto simp: keep_def glob_keep_def runs_next_def word_gt_0)
    ultimately show ?thesis unfolding isr(2) sys_ok_def cont_ok_kern by simp
  qed
  then show "sys_ok s'" "(\<And>c K. P c K \<Longrightarrow> resched_ok c K) \<Longrightarrow> runs_next (kern s) \<Longrightarrow> runs_next (kern s')" by blast+
qed

lemma run_ok:
  assumes r: "sys_run in_heap P Q s ls s'" and s: "sys_ok s" and P: "\<And>c K. P c K \<Longrightarrow> permitted c K"
  shows "sys_ok s'" and "(\<And>c K. P c K \<Longrightarrow> resched_ok c K) \<Longrightarrow> runs_next (kern s) \<Longrightarrow> runs_next (kern s')"
  using r by (induction) (use s step_ok P in blast)+

section \<open>Time\<close>

lemma sleep_left: "sys_inv K \<Longrightarrow> is_sleep (tstate K t) \<Longrightarrow> 1 \<le> tick_left K t"
  using kinvD(5,6) [OF sys_invD(1), of K] by (auto simp: placed_def tick_inv_def)

lemma step_time:
  assumes st: "sys_step in_heap P s l s'" and s: "sys_ok s" and P: "\<And>c K. P c K \<Longrightarrow> permitted c K"
    and t: "is_sleep (tstate (kern s) t)" "is_sleep (tstate (kern s') t)"
  shows "tick_left (kern s') t = (if l = Irq_tick then tick_left (kern s) t - 1 else tick_left (kern s) t)"
proof -
  let ?K = "kern s" and ?K' = "kern s'"
  have k: "steady ?K" "sys_inv ?K" using s by (simp_all add: sys_ok_def steady_def)
  have left: "tick_left ?K' t = tick_left K t" if "same_wait (tasks K t) (tasks ?K' t)" "g_tick_count ?K' = g_tick_count K" for K
    using that t(2) by (simp add: tick_left_def same_wait_def del: is_sleep.simps)
  have q: "tick_left ?K' t = tick_left K t" if "quiet K ?K'" for K
    using that by (intro left) (simp_all add: quiet_def glob_keep_def)
  from st show ?thesis
  proof (cases rule: sys_step.cases)
    case (call c K' r)
    have rdy: "tstate ?K (g_active_task ?K) = K_RDY" by (rule sys_invD(4) [OF k(2) call(3)])
    then have "keep (call_ob c ?K) (begun c (call_ob c ?K) r) ?K K'" using keep_exec [of ?K c in_heap] call(7) by simp
    moreover have "t \<noteq> g_active_task ?K" using t(1) rdy by auto
    ultimately show ?thesis using left [of ?K] call(1,2) by (auto simp: keep_def glob_keep_def)
  next
    case (resume k)
    then show ?thesis using q [of ?K] resume_frame(1) by simp
  next
    case enter
    then show ?thesis by (simp add: krhino_intrpt_enter_def tick_left_def)
  next
    case exit
    then show ?thesis using q [of "?K\<lparr>g_intrpt_nested_level := g_intrpt_nested_level ?K - 1\<rparr>"]
      by (simp add: intrpt_exit_eq tick_left_def)
  next
    case tick
    then show ?thesis using q [of "?K\<lparr>g_tick_count := g_tick_count ?K + 1\<rparr>"] quiet_tick_proc
      by (simp add: tick_left_def)
  next
    case (isr c)
    then show ?thesis using isr_ok [OF k(1) isr(4), of in_heap] left [of ?K] by (auto simp: keep_def glob_keep_def new_wait_def)
  qed
qed

lemma run_time:
  assumes r: "sys_run in_heap P (\<lambda>s. is_sleep (tstate (kern s) t)) s ls s'" and s: "sys_ok s"
    and P: "\<And>c K. P c K \<Longrightarrow> permitted c K"
  shows "is_sleep (tstate (kern s') t) \<and> unat (tick_left (kern s') t) + count_list ls Irq_tick = unat (tick_left (kern s) t)"
  using r
proof induction
  case (step ls s' l s'')
  have ok: "sys_ok s'" by (rule run_ok(1) [OF step(1) s P])
  note t = step_time [OF step(2) ok P conjunct1 [OF step.IH] step(3)]
  have "1 \<le> tick_left (kern s') t" using ok step.IH sleep_left [of "kern s'" t] by (simp add: sys_ok_def steady_def)
  then have "unat (tick_left (kern s') t - 1) + 1 = unat (tick_left (kern s') t)" by (simp add: unat_sub word_le_nat_alt)
  with step t show ?case by simp
qed simp

section \<open>Properties\<close>

text \<open>The demo system, with its three waiting tasks inside their calls.\<close>

definition demo_sys :: system where
  "demo_sys = \<lparr>kern = demo, conts = [3 \<mapsto> InSem 5, 4 \<mapsto> InMutex 6, 5 \<mapsto> InSleep]\<rparr>"

lemma demo_sys_ok: "sys_ok demo_sys"
proof -
  have "obj_ok demo b" for b
  proof (rule obj_okI)
    show "sem_ok demo b" if "obj_type (blk_objs demo b) = RHINO_SEM_OBJ_TYPE"
      using that by (auto simp: sem_ok_def mk_blk_def blk_obj_zero_def split: if_splits) (simp_all add: demo_def)
    show "event_ok demo b" if "obj_type (blk_objs demo b) = RHINO_EVENT_OBJ_TYPE"
      using that by (auto simp: event_ok_def mk_blk_def blk_obj_zero_def split: if_splits)
    show "queue_ok demo b" if "obj_type (blk_objs demo b) = RHINO_QUEUE_OBJ_TYPE"
      using that demo_queue_rep queue_rep_ok by (auto simp: mk_blk_def blk_obj_zero_def split: if_splits)
    show "buf_ok demo b" if "obj_type (blk_objs demo b) = RHINO_BUF_QUEUE_OBJ_TYPE"
    proof -
      have "b = 10" using that by (auto simp: mk_blk_def blk_obj_zero_def split: if_splits)
      with demo_bq_holds demo_bq_rec show ?thesis by (auto simp: buf_ok_def)
    qed
  qed
  moreover have "g_idle_task_spawned demo" by (simp add: demo_def)
  ultimately have "steady demo" by (simp add: steady_def demo_sys_inv)
  moreover have "cont_ok demo_sys" by (auto simp: cont_ok_def demo_sys_def mk_task_def ktask_zero_def)
  ultimately show ?thesis by (simp add: sys_ok_def demo_sys_def)
qed


lemma demo_enter: "sys_step in_heap P demo_sys Irq_enter (demo_sys\<lparr>kern := demo\<lparr>g_intrpt_nested_level := 1\<rparr>\<rparr>)"
  using sys_step.enter [of demo_sys in_heap P] by (simp add: demo_sys_def krhino_intrpt_enter_def)




text \<open>C5. A task that sleeps with \<open>n\<close> ticks to go is asleep no longer after \<open>n\<close> ticks, whatever the
  other tasks and the interrupts do in between: no run with so many ticks leaves it asleep all along.\<close>

theorem sleeper_wakes:
  assumes s: "sys_ok s0" and n: "unat (tick_left (kern s0) t) \<le> count_list ls Irq_tick"
  shows "\<not> sys_run in_heap permitted (\<lambda>s. is_sleep (tstate (kern s) t)) s0 ls s"
proof
  assume r: "sys_run in_heap permitted (\<lambda>s. is_sleep (tstate (kern s) t)) s0 ls s"
  have r': "sys_run in_heap permitted (\<lambda>_. True) s0 ls s" using r by induction (auto intro: sys_run.intros)
  have "sys_inv (kern s)" using run_ok(1) [OF r' s] by (simp add: sys_ok_def steady_def)
  then have "1 \<le> unat (tick_left (kern s) t)"
    using run_time [OF r s] sleep_left [of "kern s" t] by (simp add: word_le_nat_alt)
  with run_time [OF r s] n show False by simp
qed

lemma sleeper_wakes_witness:
  "is_sleep (tstate (kern demo_sys) 5) \<and>
   (\<forall>s. \<not> sys_run (\<lambda>_. True) permitted (\<lambda>s. is_sleep (tstate (kern s) 5)) demo_sys
     [Irq_enter, Irq_tick, Irq_tick, Irq_exit, Irq_enter, Irq_tick] s)"
  using sleeper_wakes [OF demo_sys_ok, of 5 "[Irq_enter, Irq_tick, Irq_tick, Irq_exit, Irq_enter, Irq_tick]"]
  by (simp add: demo_sys_def tick_left_def mk_task_def)

end
