(* ===== verification/KTimer.thy ===== *)
theory KTimer
  imports KTask KBufQueue
begin

text \<open>
  Software timers (\<^verbatim>\<open>k_timer.c\<close>). A call of the timer interface only writes a command of 24 bytes into
  the queue \<^verbatim>\<open>g_timer_queue\<close>; the timer task receives it, and alone works on the list of running timers,
  which is sorted by the time left. \<open>None\<close> as the result of a loop means that it does not end.
  Callbacks are user code: \<open>run_cb cb timer arg\<close> is what the callback \<open>cb\<close> does to the kernel. The log
  \<open>fired\<close> of the callbacks that ran, with the time at which they did, has no counterpart in the code.
\<close>

section \<open>Data\<close>

datatype k_timer_state_t = TIMER_DEACTIVE | TIMER_ACTIVE

text \<open>\<open>to_head\<close> tells whether the pointer of that name is set; it is only ever \<^verbatim>\<open>&g_timer_head\<close>.\<close>

record ktimer =
  to_head :: bool
  timer_name :: string
  timer_cb :: nat
  timer_cb_arg :: nat
  timer_match :: tick_t
  timer_remain :: tick_t
  init_count :: tick_t
  round_ticks :: tick_t
  timer_type :: kobj_type_t
  timer_state :: k_timer_state_t
  timer_alloc_flag :: alloc_flag_t

record timer_sys =
  krn :: kernel
  g_timer_head :: "nat list"
  g_timer_count :: tick_t
  g_timer_queue :: oid
  tmr :: "nat \<Rightarrow> ktimer"
  fired :: "(nat \<times> tick_t) list"

definition upd_tmr :: "nat \<Rightarrow> (ktimer \<Rightarrow> ktimer) \<Rightarrow> timer_sys \<Rightarrow> timer_sys" where
  "upd_tmr t f T = T\<lparr>tmr := (tmr T)(t := f (tmr T t))\<rparr>"

definition RHINO_MAX_TICKS :: tick_t where [simp]: "RHINO_MAX_TICKS = 0x7fffffffffffffff"
definition RHINO_CONFIG_TIMER_MSG_NUM :: nat where [simp]: "RHINO_CONFIG_TIMER_MSG_NUM = 20"

definition TIMER_CMD_CB :: u8 where [simp]: "TIMER_CMD_CB = 0"
definition TIMER_CMD_START :: u8 where [simp]: "TIMER_CMD_START = 1"
definition TIMER_CMD_STOP :: u8 where [simp]: "TIMER_CMD_STOP = 2"
definition TIMER_CMD_CHG :: u8 where [simp]: "TIMER_CMD_CHG = 3"
definition TIMER_ARG_CHG :: u8 where [simp]: "TIMER_ARG_CHG = 4"
definition TIMER_ARG_CHG_AUTO :: u8 where [simp]: "TIMER_ARG_CHG_AUTO = 5"
definition TIMER_CMD_DEL :: u8 where [simp]: "TIMER_CMD_DEL = 6"
definition TIMER_CMD_DYN_DEL :: u8 where [simp]: "TIMER_CMD_DYN_DEL = 7"

text \<open>A command, and its layout in memory: the pointer at 0, the number at 4, three bytes of padding,
  \<^verbatim>\<open>first\<close> at 8 and the union at 16, little endian. A call leaves the bytes it does not set as they are.\<close>

record k_timer_queue_cb =
  cb_timer :: nat
  cb_num :: u8
  cb_first :: tick_t
  cb_u :: tick_t

definition cb_arg :: "k_timer_queue_cb \<Rightarrow> nat" where
  "cb_arg cb = unat (cb_u cb) mod 2 ^ 32"

definition cb_size :: nat where [simp]: "cb_size = 24"

fun le_bytes :: "nat \<Rightarrow> nat \<Rightarrow> u8 list" where
  "le_bytes 0 x = []"
| "le_bytes (Suc n) x = of_nat x # le_bytes n (x div 256)"

fun le_nat :: "u8 list \<Rightarrow> nat" where
  "le_nat [] = 0"
| "le_nat (b # bs) = unat b + 256 * le_nat bs"

definition cb_of :: "u8 list \<Rightarrow> k_timer_queue_cb" where
  "cb_of bs = \<lparr>cb_timer = le_nat (take 4 bs), cb_num = bs ! 4, cb_first = of_nat (le_nat (take 8 (drop 8 bs))),
     cb_u = of_nat (le_nat (take 8 (drop 16 bs)))\<rparr>"

section \<open>The calls\<close>

text \<open>\<open>a\<close> is the address of the local variable \<^verbatim>\<open>cb\<close> of the call.\<close>

definition timer_send :: "nat \<Rightarrow> timer_sys \<Rightarrow> timer_sys \<times> kstat_t" where
  "timer_send a T =
     (let (K, st) = krhino_buf_queue_send (Some (g_timer_queue T)) (Some a) cb_size (krn T)
      in (T\<lparr>krn := K\<rparr>, st))"

definition put_cb :: "nat \<Rightarrow> u8 list \<Rightarrow> timer_sys \<Rightarrow> timer_sys" where
  "put_cb p bs T = T\<lparr>krn := store_bytes p bs (krn T)\<rparr>"

definition krhino_timer_start :: "nat \<Rightarrow> nat option \<Rightarrow> timer_sys \<Rightarrow> timer_sys \<times> kstat_t" where
  "krhino_timer_start a timer T =
     (case timer of
        None \<Rightarrow> (T, RHINO_NULL_PTR)
      | Some t \<Rightarrow>
          let T = put_cb a (le_bytes 4 t) T;
              T = put_cb (a + 4) [TIMER_CMD_START] T
          in timer_send a T)"

definition krhino_timer_stop :: "nat \<Rightarrow> nat option \<Rightarrow> timer_sys \<Rightarrow> timer_sys \<times> kstat_t" where
  "krhino_timer_stop a timer T =
     (case timer of
        None \<Rightarrow> (T, RHINO_NULL_PTR)
      | Some t \<Rightarrow>
          let T = put_cb a (le_bytes 4 t) T;
              T = put_cb (a + 4) [TIMER_CMD_STOP] T
          in timer_send a T)"

definition krhino_timer_change :: "nat \<Rightarrow> nat option \<Rightarrow> tick_t \<Rightarrow> tick_t \<Rightarrow> timer_sys \<Rightarrow> timer_sys \<times> kstat_t" where
  "krhino_timer_change a timer first round T =
     (case timer of
        None \<Rightarrow> (T, RHINO_NULL_PTR)
      | Some t \<Rightarrow>
          if first = 0 then (T, RHINO_INV_PARAM)
          else if first > RHINO_MAX_TICKS then (T, RHINO_INV_PARAM)
          else if round > RHINO_MAX_TICKS then (T, RHINO_INV_PARAM)
          else
            let T = put_cb a (le_bytes 4 t) T;
                T = put_cb (a + 8) (le_bytes 8 (unat first)) T;
                T = put_cb (a + 16) (le_bytes 8 (unat round)) T;
                T = put_cb (a + 4) [TIMER_CMD_CHG] T
            in timer_send a T)"

definition krhino_timer_arg_change :: "nat \<Rightarrow> nat option \<Rightarrow> nat \<Rightarrow> timer_sys \<Rightarrow> timer_sys \<times> kstat_t" where
  "krhino_timer_arg_change a timer arg T =
     (case timer of
        None \<Rightarrow> (T, RHINO_NULL_PTR)
      | Some t \<Rightarrow>
          let T = put_cb a (le_bytes 4 t) T;
              T = put_cb (a + 16) (le_bytes 4 arg) T;
              T = put_cb (a + 4) [TIMER_ARG_CHG] T
          in timer_send a T)"

definition krhino_timer_arg_change_auto :: "nat \<Rightarrow> nat option \<Rightarrow> nat \<Rightarrow> timer_sys \<Rightarrow> timer_sys \<times> kstat_t" where
  "krhino_timer_arg_change_auto a timer arg T =
     (case timer of
        None \<Rightarrow> (T, RHINO_NULL_PTR)
      | Some t \<Rightarrow>
          let T = put_cb a (le_bytes 4 t) T;
              T = put_cb (a + 16) (le_bytes 4 arg) T;
              T = put_cb (a + 4) [TIMER_ARG_CHG_AUTO] T
          in timer_send a T)"

definition krhino_timer_del :: "nat \<Rightarrow> nat option \<Rightarrow> timer_sys \<Rightarrow> timer_sys \<times> kstat_t" where
  "krhino_timer_del a timer T =
     (case timer of
        None \<Rightarrow> (T, RHINO_NULL_PTR)
      | Some t \<Rightarrow>
          let T = put_cb a (le_bytes 4 t) T;
              T = put_cb (a + 4) [TIMER_CMD_DEL] T
          in timer_send a T)"

definition krhino_timer_dyn_del :: "nat \<Rightarrow> nat option \<Rightarrow> timer_sys \<Rightarrow> timer_sys \<times> kstat_t" where
  "krhino_timer_dyn_del a timer T =
     (case timer of
        None \<Rightarrow> (T, RHINO_NULL_PTR)
      | Some t \<Rightarrow>
          let T = put_cb a (le_bytes 4 t) T;
              T = put_cb (a + 4) [TIMER_CMD_DYN_DEL] T
          in timer_send a T)"

definition timer_create :: "nat \<Rightarrow> nat option \<Rightarrow> string option \<Rightarrow> nat option \<Rightarrow> tick_t \<Rightarrow> tick_t \<Rightarrow> nat \<Rightarrow> bool \<Rightarrow>
    alloc_flag_t \<Rightarrow> timer_sys \<Rightarrow> timer_sys \<times> kstat_t" where
  "timer_create a timer name cb first round arg auto_run mm_alloc_flag T =
     (case (timer, name, cb) of
        (Some t, Some nm, Some c) \<Rightarrow>
          if first = 0 then (T, RHINO_INV_PARAM)
          else if first > RHINO_MAX_TICKS then (T, RHINO_INV_PARAM)
          else if round > RHINO_MAX_TICKS then (T, RHINO_INV_PARAM)
          else
            let T = upd_tmr t (\<lambda>_. \<lparr>to_head = False, timer_name = nm, timer_cb = c, timer_cb_arg = arg,
                  timer_match = 0, timer_remain = 0, init_count = first, round_ticks = round,
                  timer_type = RHINO_TIMER_OBJ_TYPE, timer_state = TIMER_DEACTIVE, timer_alloc_flag = mm_alloc_flag\<rparr>) T
            in if auto_run then krhino_timer_start a (Some t) T else (T, RHINO_SUCCESS)
      | _ \<Rightarrow> (T, RHINO_NULL_PTR))"

definition krhino_timer_create :: "nat \<Rightarrow> nat option \<Rightarrow> string option \<Rightarrow> nat option \<Rightarrow> tick_t \<Rightarrow> tick_t \<Rightarrow> nat \<Rightarrow> bool \<Rightarrow>
    timer_sys \<Rightarrow> timer_sys \<times> kstat_t" where
  "krhino_timer_create a timer name cb first round arg auto_run T =
     timer_create a timer name cb first round arg auto_run K_OBJ_STATIC_ALLOC T"

text \<open>\<open>timer_obj\<close> is the answer of the allocator.\<close>

definition krhino_timer_dyn_create :: "nat \<Rightarrow> nat option \<Rightarrow> string option \<Rightarrow> nat option \<Rightarrow> tick_t \<Rightarrow> tick_t \<Rightarrow> nat \<Rightarrow> bool \<Rightarrow>
    nat option \<Rightarrow> timer_sys \<Rightarrow> timer_sys \<times> kstat_t \<times> nat option" where
  "krhino_timer_dyn_create a timer_out name cb first round arg auto_run timer_obj T =
     (case timer_out of
        None \<Rightarrow> (T, RHINO_NULL_PTR, None)
      | Some _ \<Rightarrow>
          case timer_obj of
            None \<Rightarrow> (T, RHINO_NO_MEM, None)
          | Some t \<Rightarrow>
              let (T, ret) = timer_create a (Some t) name cb first round arg auto_run K_OBJ_DYN_ALLOC T
              in if ret \<noteq> RHINO_SUCCESS
                 then (T\<lparr>krn := (krn T)\<lparr>mm_freed := mm_freed (krn T) @ [t]\<rparr>\<rparr>, ret, None)
                 else (T, ret, Some t))"

section \<open>The timer task\<close>

definition timer_left :: "timer_sys \<Rightarrow> nat \<Rightarrow> tick_t" where
  "timer_left T t = timer_match (tmr T t) - g_timer_count T"

fun timer_list_pri_insert :: "timer_sys \<Rightarrow> nat \<Rightarrow> nat list \<Rightarrow> nat list" where
  "timer_list_pri_insert T t [] = [t]"
| "timer_list_pri_insert T t (q # qs) =
     (if timer_match (tmr T q) - g_timer_count T > timer_remain (tmr T t) then t # q # qs
      else q # timer_list_pri_insert T t qs)"

definition timer_list_rm :: "nat \<Rightarrow> timer_sys \<Rightarrow> timer_sys" where
  "timer_list_rm t T =
     (if to_head (tmr T t)
      then upd_tmr t (\<lambda>r. r\<lparr>to_head := False\<rparr>) (T\<lparr>g_timer_head := removeAll t (g_timer_head T)\<rparr>)
      else T)"

text \<open>Linking a timer with \<open>n\<close> ticks to go.\<close>

definition timer_link :: "nat \<Rightarrow> tick_t \<Rightarrow> timer_sys \<Rightarrow> timer_sys" where
  "timer_link t n T =
     (let T = upd_tmr t (\<lambda>r. r\<lparr>timer_match := g_timer_count T + n, timer_remain := n, to_head := True\<rparr>) T
      in T\<lparr>g_timer_head := timer_list_pri_insert T t (g_timer_head T)\<rparr>)"

fun node_next :: "nat \<Rightarrow> nat list \<Rightarrow> nat option" where
  "node_next t [] = None"
| "node_next t (q # qs) = (if q = t then (case qs of [] \<Rightarrow> None | n # _ \<Rightarrow> Some n) else node_next t qs)"

text \<open>The signed difference is taken modulo \<open>2 ^ 64\<close>, as the machine computes it.\<close>

definition timer_due :: "timer_sys \<Rightarrow> nat \<Rightarrow> bool" where
  "timer_due T t \<longleftrightarrow> sint (timer_left T t) \<le> 0"

text \<open>One timer that is due: its callback runs and it leaves the list; it comes back when it is
  periodic. The loop goes on from the place the timer has then, or from the one it had: a node that
  leaves a list keeps its own pointer to the next one.\<close>

definition timer_expire :: "(nat \<Rightarrow> nat \<Rightarrow> nat \<Rightarrow> kernel \<Rightarrow> kernel) \<Rightarrow> nat \<Rightarrow> timer_sys \<Rightarrow> timer_sys \<times> nat option" where
  "timer_expire run_cb t T =
     (let nxt = node_next t (g_timer_head T);
          T = T\<lparr>krn := run_cb (timer_cb (tmr T t)) t (timer_cb_arg (tmr T t)) (krn T), fired := fired T @ [(t, g_timer_count T)]\<rparr>;
          T = timer_list_rm t T
      in if round_ticks (tmr T t) > 0
         then let T = timer_link t (round_ticks (tmr T t)) T in (T, node_next t (g_timer_head T))
         else (upd_tmr t (\<lambda>r. r\<lparr>timer_state := TIMER_DEACTIVE\<rparr>) T, nxt))"

partial_function (option) timer_walk ::
  "(nat \<Rightarrow> nat \<Rightarrow> nat \<Rightarrow> kernel \<Rightarrow> kernel) \<Rightarrow> nat option \<Rightarrow> timer_sys \<Rightarrow> timer_sys option" where
  "timer_walk run_cb q T =
     (case q of
        None \<Rightarrow> Some T
      | Some t \<Rightarrow>
          if timer_due T t then timer_walk run_cb (snd (timer_expire run_cb t T)) (fst (timer_expire run_cb t T))
          else Some T)"

definition timer_cb_proc :: "(nat \<Rightarrow> nat \<Rightarrow> nat \<Rightarrow> kernel \<Rightarrow> kernel) \<Rightarrow> timer_sys \<Rightarrow> timer_sys option" where
  "timer_cb_proc run_cb T = timer_walk run_cb (case g_timer_head T of [] \<Rightarrow> None | t # _ \<Rightarrow> Some t) T"

definition cmd_proc :: "k_timer_queue_cb \<Rightarrow> u8 \<Rightarrow> timer_sys \<Rightarrow> timer_sys" where
  "cmd_proc cb cmd T =
     (let t = cb_timer cb; r = tmr T t
      in if timer_type r \<noteq> RHINO_TIMER_OBJ_TYPE then T
         else if cmd = TIMER_CMD_START then
           (if timer_state r = TIMER_ACTIVE then T
            else upd_tmr t (\<lambda>r. r\<lparr>timer_state := TIMER_ACTIVE\<rparr>) (timer_link t (init_count r) T))
         else if cmd = TIMER_CMD_STOP then
           (if timer_state r = TIMER_DEACTIVE then T
            else upd_tmr t (\<lambda>r. r\<lparr>timer_state := TIMER_DEACTIVE\<rparr>) (timer_list_rm t T))
         else if cmd = TIMER_CMD_CHG then
           (if cb_first cb = 0 then T
            else if timer_state r \<noteq> TIMER_DEACTIVE then T
            else upd_tmr t (\<lambda>r. r\<lparr>init_count := cb_first cb, round_ticks := cb_u cb\<rparr>) T)
         else if cmd = TIMER_ARG_CHG then
           (if timer_state r \<noteq> TIMER_DEACTIVE then T else upd_tmr t (\<lambda>r. r\<lparr>timer_cb_arg := cb_arg cb\<rparr>) T)
         else if cmd = TIMER_CMD_DEL then
           (if timer_state r \<noteq> TIMER_DEACTIVE then T
            else if timer_alloc_flag r \<noteq> K_OBJ_STATIC_ALLOC then T
            else upd_tmr t (\<lambda>r. r\<lparr>timer_type := RHINO_OBJ_TYPE_NONE\<rparr>) T)
         else if cmd = TIMER_CMD_DYN_DEL then
           (if timer_state r \<noteq> TIMER_DEACTIVE then T
            else if timer_alloc_flag r \<noteq> K_OBJ_DYN_ALLOC then T
            else let T = upd_tmr t (\<lambda>r. r\<lparr>timer_type := RHINO_OBJ_TYPE_NONE\<rparr>) T
                 in T\<lparr>krn := (krn T)\<lparr>mm_freed := mm_freed (krn T) @ [t]\<rparr>\<rparr>)
         else T\<lparr>krn := k_err_proc RHINO_SYS_FATAL_ERR (krn T)\<rparr>)"

definition timer_cmd_proc :: "k_timer_queue_cb \<Rightarrow> timer_sys \<Rightarrow> timer_sys" where
  "timer_cmd_proc cb T =
     (if cb_num cb = TIMER_ARG_CHG_AUTO
      then cmd_proc cb TIMER_CMD_START (cmd_proc cb TIMER_ARG_CHG (cmd_proc cb TIMER_CMD_STOP T))
      else cmd_proc cb (cb_num cb) T)"

text \<open>The timer task waits at two places: for a command when no timer runs, and for a command or for
  the first timer. \<open>timer_settle\<close> is the part of the inner loop that does not wait; \<open>timer_task_wait\<close> is the
  call it waits in next, and \<open>timer_task_step\<close> goes on with the status of that call and the message
  at \<open>b\<close>, where \<^verbatim>\<open>cb_msg\<close> lies.\<close>

datatype timer_wait = Wait_cmd | Wait_due

partial_function (option) timer_settle ::
  "(nat \<Rightarrow> nat \<Rightarrow> nat \<Rightarrow> kernel \<Rightarrow> kernel) \<Rightarrow> timer_sys \<Rightarrow> timer_sys option" where
  "timer_settle run_cb T =
     (case g_timer_head T of
        [] \<Rightarrow> Some T
      | t # _ \<Rightarrow>
          let tick_start = krhino_sys_tick_get (krn T)
          in if sint (timer_match (tmr T t) - tick_start) > 0 then Some T
             else Option.bind (timer_cb_proc run_cb (T\<lparr>g_timer_count := tick_start\<rparr>)) (timer_settle run_cb))"

definition timer_task_wait :: "nat \<Rightarrow> timer_sys \<Rightarrow> timer_wait \<times> timer_sys \<times> outcome" where
  "timer_task_wait b T =
     (case g_timer_head T of
        [] \<Rightarrow>
          let (K, r, _) = krhino_buf_queue_recv (Some (g_timer_queue T)) RHINO_WAIT_FOREVER (Some b) (Some 0) (krn T)
          in (Wait_cmd, T\<lparr>krn := K\<rparr>, r)
      | t # _ \<Rightarrow>
          let delta = timer_match (tmr T t) - krhino_sys_tick_get (krn T);
              (K, r, _) = krhino_buf_queue_recv (Some (g_timer_queue T)) delta (Some b) (Some 0) (krn T)
          in (Wait_due, T\<lparr>krn := K\<rparr>, r))"

definition timer_task_step ::
  "(nat \<Rightarrow> nat \<Rightarrow> nat \<Rightarrow> kernel \<Rightarrow> kernel) \<Rightarrow> nat \<Rightarrow> timer_wait \<Rightarrow> kstat_t \<Rightarrow> timer_sys \<Rightarrow> timer_sys option" where
  "timer_task_step run_cb b w err T =
     (let tick_end = krhino_sys_tick_get (krn T);
          cb_msg = cb_of (load_bytes b cb_size (krn T));
          count = T\<lparr>g_timer_count := tick_end\<rparr>;
          failed = T\<lparr>krn := k_err_proc RHINO_SYS_FATAL_ERR (krn T)\<rparr>
      in Option.bind
        (case w of
           Wait_cmd \<Rightarrow> Some (timer_cmd_proc cb_msg (if err = RHINO_SUCCESS then count else failed))
         | Wait_due \<Rightarrow>
             Option.bind
               (if err = RHINO_BLK_TIMEOUT then Some count
                else if err = RHINO_SUCCESS
                then Option.bind (timer_cb_proc run_cb count) (\<lambda>T. Some (timer_cmd_proc cb_msg T))
                else Some failed)
               (timer_cb_proc run_cb))
        (timer_settle run_cb))"

text \<open>\<open>q\<close>, \<open>buf\<close>, \<open>task\<close> and \<open>stack\<close> are the addresses of the static objects, \<open>stack_sz\<close> and \<open>pri\<close> the configured
  size of the stack and priority, \<open>entry\<close> the address of \<^verbatim>\<open>timer_task\<close>.\<close>

definition ktimer_init :: "oid \<Rightarrow> nat \<Rightarrow> tid \<Rightarrow> nat \<Rightarrow> nat \<Rightarrow> nat \<Rightarrow> nat \<Rightarrow> timer_sys \<Rightarrow> timer_sys" where
  "ktimer_init q buf task_obj stack stack_sz pri entry T =
     (let T = T\<lparr>g_timer_head := [], g_timer_queue := q\<rparr>;
          K = fst (krhino_fix_buf_queue_create (Some q) (Some ''timer_queue'') (Some buf) cb_size RHINO_CONFIG_TIMER_MSG_NUM (krn T));
          K = fst (krhino_task_create (Some task_obj) (Some ''timer_task'') pri 0 (Some stack) stack_sz (Some entry) True K)
      in T\<lparr>krn := K\<rparr>)"

section \<open>The list of running timers\<close>

lemma upd_tmr_sel [simp]:
  "krn (upd_tmr t f T) = krn T" "g_timer_head (upd_tmr t f T) = g_timer_head T" "g_timer_count (upd_tmr t f T) = g_timer_count T"
  "g_timer_queue (upd_tmr t f T) = g_timer_queue T" "fired (upd_tmr t f T) = fired T" "tmr (upd_tmr t f T) = (tmr T)(t := f (tmr T t))"
  by (simp_all add: upd_tmr_def)

interpretation timerins: sorted_insertion timer_left "\<lambda>T t. timer_remain (tmr T t)" timer_list_pri_insert
proof
  show "timer_list_pri_insert T t xs = insert_before (\<lambda>y. timer_remain (tmr T t) < timer_left T y) t xs" for T t xs
    by (induction xs) (simp_all add: timer_left_def)
qed

lemma node_next_in: "node_next t xs = Some n \<Longrightarrow> n \<in> set xs"
  by (induction xs) (auto split: if_splits list.splits)

lemma node_next_other: "distinct xs \<Longrightarrow> node_next t xs = Some n \<Longrightarrow> n \<noteq> t"
proof (induction xs)
  case (Cons x xs)
  then show ?case using node_next_in [of t xs n] by (auto split: if_splits list.splits)
qed simp

lemma node_next_sorted: "sorted_by f xs \<Longrightarrow> node_next t xs = Some n \<Longrightarrow> f t \<le> f n"
proof (induction xs)
  case (Cons x xs)
  show ?case
  proof (cases "x = t")
    case True
    with Cons.prems show ?thesis by (cases xs) simp_all
  qed (use Cons in simp)
qed simp

text \<open>Links, states and the list agree.\<close>

definition timer_ok :: "timer_sys \<Rightarrow> bool" where
  "timer_ok T \<longleftrightarrow> distinct (g_timer_head T) \<and>
     (\<forall>t\<in>set (g_timer_head T). timer_type (tmr T t) = RHINO_TIMER_OBJ_TYPE) \<and>
     (\<forall>t. timer_type (tmr T t) = RHINO_TIMER_OBJ_TYPE \<longrightarrow>
        (timer_state (tmr T t) = TIMER_ACTIVE \<longleftrightarrow> t \<in> set (g_timer_head T)) \<and>
        (to_head (tmr T t) \<longleftrightarrow> t \<in> set (g_timer_head T)) \<and> round_ticks (tmr T t) \<le> RHINO_MAX_TICKS)"

lemma timer_link_sel [simp]:
  "set (g_timer_head (timer_link t n T)) = insert t (set (g_timer_head T))"
  "distinct (g_timer_head (timer_link t n T)) \<longleftrightarrow> t \<notin> set (g_timer_head T) \<and> distinct (g_timer_head T)"
  "tmr (timer_link t n T) = (tmr T)(t := (tmr T t)\<lparr>timer_match := g_timer_count T + n, timer_remain := n, to_head := True\<rparr>)"
  "g_timer_count (timer_link t n T) = g_timer_count T" "krn (timer_link t n T) = krn T" "fired (timer_link t n T) = fired T"
  "g_timer_queue (timer_link t n T) = g_timer_queue T"
  by (simp_all add: timer_link_def Let_def timerins.ins_set timerins.ins_distinct)

lemma timer_rm_sel [simp]:
  "g_timer_head (timer_list_rm t T) = (if to_head (tmr T t) then removeAll t (g_timer_head T) else g_timer_head T)"
  "tmr (timer_list_rm t T) = (tmr T)(t := (tmr T t)\<lparr>to_head := False\<rparr>)"
  "g_timer_count (timer_list_rm t T) = g_timer_count T" "krn (timer_list_rm t T) = krn T" "fired (timer_list_rm t T) = fired T"
  "g_timer_queue (timer_list_rm t T) = g_timer_queue T"
  by (auto simp: timer_list_rm_def)

lemma timer_ok_upd:
  assumes "timer_ok T"
    and "timer_type (f (tmr T t)) = RHINO_TIMER_OBJ_TYPE \<Longrightarrow> timer_type (tmr T t) = RHINO_TIMER_OBJ_TYPE \<and>
      timer_state (f (tmr T t)) = timer_state (tmr T t) \<and> to_head (f (tmr T t)) = to_head (tmr T t) \<and>
      (round_ticks (tmr T t) \<le> RHINO_MAX_TICKS \<longrightarrow> round_ticks (f (tmr T t)) \<le> RHINO_MAX_TICKS)"
    and "t \<in> set (g_timer_head T) \<Longrightarrow> timer_type (f (tmr T t)) = RHINO_TIMER_OBJ_TYPE"
  shows "timer_ok (upd_tmr t f T)"
  using assms by (simp add: timer_ok_def)

lemma timer_ok_krn [simp]: "timer_ok (T\<lparr>krn := K\<rparr>) \<longleftrightarrow> timer_ok T"
  by (simp add: timer_ok_def)

lemma timer_okD:
  assumes "timer_ok T" "timer_type (tmr T t) = RHINO_TIMER_OBJ_TYPE"
  shows "timer_state (tmr T t) = TIMER_ACTIVE \<longleftrightarrow> t \<in> set (g_timer_head T)" "to_head (tmr T t) \<longleftrightarrow> t \<in> set (g_timer_head T)"
    "round_ticks (tmr T t) \<le> RHINO_MAX_TICKS" "timer_state (tmr T t) = TIMER_DEACTIVE \<longleftrightarrow> t \<notin> set (g_timer_head T)"
proof -
  show a: "timer_state (tmr T t) = TIMER_ACTIVE \<longleftrightarrow> t \<in> set (g_timer_head T)" "to_head (tmr T t) \<longleftrightarrow> t \<in> set (g_timer_head T)"
    "round_ticks (tmr T t) \<le> RHINO_MAX_TICKS" using assms by (simp_all add: timer_ok_def)
  then show "timer_state (tmr T t) = TIMER_DEACTIVE \<longleftrightarrow> t \<notin> set (g_timer_head T)"
    by (metis k_timer_state_t.distinct(1) k_timer_state_t.exhaust)
qed

lemma cmd_proc_ok:
  assumes k: "timer_ok T" and c: "cb_num cb = TIMER_CMD_CHG \<longrightarrow> cb_u cb \<le> RHINO_MAX_TICKS"
    and cmd: "cmd = cb_num cb \<or> cmd \<noteq> TIMER_CMD_CHG"
  shows "timer_ok (cmd_proc cb cmd T)"
proof (cases "timer_type (tmr T (cb_timer cb)) = RHINO_TIMER_OBJ_TYPE")
  case True
  let ?t = "cb_timer cb"
  note d = timer_okD [OF k True]
  have start: "timer_ok (upd_tmr ?t (\<lambda>r. r\<lparr>timer_state := TIMER_ACTIVE\<rparr>) (timer_link ?t n T))"
    if "?t \<notin> set (g_timer_head T)" for n
    using that k d True unfolding timer_ok_def by simp
  have stop: "timer_ok (upd_tmr ?t (\<lambda>r. r\<lparr>timer_state := TIMER_DEACTIVE\<rparr>) (timer_list_rm ?t T))"
    if "?t \<in> set (g_timer_head T)"
    using that k d True unfolding timer_ok_def by (simp add: distinct_removeAll)
  have other: "timer_ok (upd_tmr ?t f T)" if "f \<in> {\<lambda>r. r\<lparr>timer_cb_arg := x\<rparr>}" for f x
    by (rule timer_ok_upd [OF k]) (use that True in auto)
  have chg: "timer_ok (upd_tmr ?t (\<lambda>r. r\<lparr>init_count := x, round_ticks := cb_u cb\<rparr>) T)" if "cmd = TIMER_CMD_CHG" for x
    by (rule timer_ok_upd [OF k]) (use that c cmd True in auto)
  have del: "timer_ok (upd_tmr ?t (\<lambda>r. r\<lparr>timer_type := RHINO_OBJ_TYPE_NONE\<rparr>) T)" if "?t \<notin> set (g_timer_head T)"
    by (rule timer_ok_upd [OF k]) (use that in auto)
  show ?thesis
    unfolding cmd_proc_def Let_def using True k start stop other chg del d(1,4) by simp
qed (use k in \<open>simp add: cmd_proc_def\<close>)

lemma timer_cmd_proc_ok:
  assumes "timer_ok T" "cb_num cb = TIMER_CMD_CHG \<longrightarrow> cb_u cb \<le> RHINO_MAX_TICKS"
  shows "timer_ok (timer_cmd_proc cb T)"
  unfolding timer_cmd_proc_def by (auto intro!: cmd_proc_ok assms(1)) (use assms(2) in auto)

text \<open>What an expiry changes.\<close>

lemma expire_view:
  fixes run_cb :: "nat \<Rightarrow> nat \<Rightarrow> nat \<Rightarrow> kernel \<Rightarrow> kernel"
  assumes k: "timer_ok T" and t: "t \<in> set (g_timer_head T)"
  defines "T' \<equiv> fst (timer_expire run_cb t T)" and "r \<equiv> tmr T t"
  shows "set (g_timer_head T') = (if round_ticks r > 0 then set (g_timer_head T) else set (g_timer_head T) - {t})"
    "tmr T' = (tmr T)(t := if round_ticks r > 0 then r\<lparr>timer_match := g_timer_count T + round_ticks r, timer_remain := round_ticks r\<rparr>
       else r\<lparr>to_head := False, timer_state := TIMER_DEACTIVE\<rparr>)"
    "g_timer_count T' = g_timer_count T" "krn T' = run_cb (timer_cb r) t (timer_cb_arg r) (krn T)"
    "fired T' = fired T @ [(t, g_timer_count T)]" "distinct (g_timer_head T')"
    "snd (timer_expire run_cb t T) = Some u \<Longrightarrow> u \<in> set (g_timer_head T') \<and> u \<noteq> t"
proof -
  have h: "to_head (tmr T t)" "distinct (g_timer_head T)" using k t by (auto simp: timer_ok_def)
  then show "set (g_timer_head T') = (if round_ticks r > 0 then set (g_timer_head T) else set (g_timer_head T) - {t})"
    "g_timer_count T' = g_timer_count T" "krn T' = run_cb (timer_cb r) t (timer_cb_arg r) (krn T)"
    "fired T' = fired T @ [(t, g_timer_count T)]"
    using t by (auto simp: T'_def r_def timer_expire_def Let_def)
  show d: "distinct (g_timer_head T')"
    using h by (auto simp: T'_def timer_expire_def Let_def distinct_removeAll)
  show "tmr T' = (tmr T)(t := if round_ticks r > 0 then r\<lparr>timer_match := g_timer_count T + round_ticks r, timer_remain := round_ticks r\<rparr>
       else r\<lparr>to_head := False, timer_state := TIMER_DEACTIVE\<rparr>)"
    using h by (auto simp: T'_def r_def timer_expire_def Let_def intro!: ext ktimer.equality)
  show "u \<in> set (g_timer_head T') \<and> u \<noteq> t" if u: "snd (timer_expire run_cb t T) = Some u"
  proof (cases "round_ticks r > 0")
    case True
    then have "node_next t (g_timer_head T') = Some u" using u h by (auto simp: T'_def r_def timer_expire_def Let_def)
    then show ?thesis using d node_next_in node_next_other by blast
  next
    case False
    then have "node_next t (g_timer_head T) = Some u" using u by (auto simp: r_def timer_expire_def Let_def)
    then have "u \<in> set (g_timer_head T) \<and> u \<noteq> t" using h node_next_in node_next_other by blast
    with False h show ?thesis by (simp add: T'_def r_def timer_expire_def Let_def)
  qed
qed

section \<open>The loops end\<close>

definition due_count :: "timer_sys \<Rightarrow> nat" where
  "due_count T = card {t \<in> set (g_timer_head T). timer_due T t}"

lemma round_not_due:
  fixes n :: tick_t
  assumes "0 < n" "n \<le> RHINO_MAX_TICKS"
  shows "0 < sint n"
proof -
  have "n < 2 ^ 63" by (rule le_less_trans [OF assms(2)]) simp
  then have "sint n = uint n" by (rule sint_small)
  with assms(1) show ?thesis by (simp add: word_less_def)
qed

lemma timer_expire_ok:
  assumes k: "timer_ok T" and t: "t \<in> set (g_timer_head T)"
  shows "timer_ok (fst (timer_expire run_cb t T))"
    and "timer_due T t \<Longrightarrow> due_count (fst (timer_expire run_cb t T)) < due_count T"
proof -
  let ?T = "fst (timer_expire run_cb t T)"
  note v = expire_view [OF k t, of run_cb]
  have ty: "timer_type (tmr T t) = RHINO_TIMER_OBJ_TYPE" "round_ticks (tmr T t) \<le> RHINO_MAX_TICKS"
    "to_head (tmr T t)" "timer_state (tmr T t) = TIMER_ACTIVE" using k t by (auto simp: timer_ok_def)
  show "timer_ok ?T" unfolding timer_ok_def v(1,2) using v(6) k t ty by (auto simp: timer_ok_def)
  assume d: "timer_due T t"
  have "{u \<in> set (g_timer_head ?T). timer_due ?T u} \<subseteq> {u \<in> set (g_timer_head T). timer_due T u} - {t}"
    using round_not_due [OF _ ty(2)] by (auto simp: v timer_due_def timer_left_def split: if_splits)
  moreover have "t \<in> {u \<in> set (g_timer_head T). timer_due T u}" using t d by simp
  ultimately show "due_count ?T < due_count T" unfolding due_count_def
    by (intro psubset_card_mono) auto
qed

text \<open>No tick is processed while a callback runs.\<close>

definition keeps_time :: "(nat \<Rightarrow> nat \<Rightarrow> nat \<Rightarrow> kernel \<Rightarrow> kernel) \<Rightarrow> bool" where
  "keeps_time run_cb \<longleftrightarrow> (\<forall>c t a K. g_tick_count (run_cb c t a K) = g_tick_count K)"

lemma timer_walk_ends:
  assumes "timer_ok T" "\<And>t. q = Some t \<Longrightarrow> t \<in> set (g_timer_head T)"
  shows "\<exists>T'. timer_walk run_cb q T = Some T' \<and> timer_ok T' \<and> g_timer_count T' = g_timer_count T \<and> due_count T' \<le> due_count T \<and>
    (keeps_time run_cb \<longrightarrow> g_tick_count (krn T') = g_tick_count (krn T)) \<and>
    (\<forall>t. q = Some t \<longrightarrow> timer_due T t \<longrightarrow> due_count T' < due_count T)"
  using assms
proof (induction "due_count T" arbitrary: T q rule: less_induct)
  case less
  show ?case
  proof (cases "\<exists>t. q = Some t \<and> timer_due T t")
    case False
    then have "timer_walk run_cb q T = Some T"
      by (subst timer_walk.simps) (auto split: option.split)
    with False less.prems show ?thesis by auto
  next
    case True
    then obtain t where t: "q = Some t" "timer_due T t" by blast
    let ?e = "timer_expire run_cb t T"
    have i: "t \<in> set (g_timer_head T)" using less.prems(2) t by blast
    note e = timer_expire_ok [OF less.prems(1) i, of run_cb] and v = expire_view [OF less.prems(1) i, of run_cb]
    obtain T' where T': "timer_walk run_cb (snd ?e) (fst ?e) = Some T'" "timer_ok T'" "g_timer_count T' = g_timer_count T"
        "due_count T' \<le> due_count (fst ?e)" "keeps_time run_cb \<longrightarrow> g_tick_count (krn T') = g_tick_count (krn (fst ?e))"
      using less.hyps [OF e(2) [OF t(2)] e(1), of "snd ?e"] v(3,7) by auto
    have "timer_walk run_cb q T = Some T'" using t T'(1) by (subst timer_walk.simps) simp
    with T' e(2) [OF t(2)] show ?thesis by (auto simp: v(4) keeps_time_def)
  qed
qed

definition settled :: "timer_sys \<Rightarrow> bool" where
  "settled T \<longleftrightarrow> (\<forall>t ts. g_timer_head T = t # ts \<longrightarrow> 0 < sint (timer_match (tmr T t) - krhino_sys_tick_get (krn T)))"

lemma timer_count_upd: "timer_ok (T\<lparr>g_timer_count := n\<rparr>) \<longleftrightarrow> timer_ok T"
  by (simp add: timer_ok_def)

lemma timer_settle_ends:
  assumes k: "timer_ok T" and c: "keeps_time run_cb"
  shows "\<exists>T'. timer_settle run_cb T = Some T' \<and> timer_ok T' \<and> settled T' \<and> g_tick_count (krn T') = g_tick_count (krn T)"
  using k
proof (induction "due_count (T\<lparr>g_timer_count := g_tick_count (krn T)\<rparr>)" arbitrary: T rule: less_induct)
  case less
  let ?now = "g_tick_count (krn T)"
  let ?N = "T\<lparr>g_timer_count := ?now\<rparr>"
  show ?case
  proof (cases "settled T")
    case True
    then have "timer_settle run_cb T = Some T"
      by (subst timer_settle.simps) (auto simp: settled_def Let_def split: list.split)
    with True less.prems show ?thesis by auto
  next
    case False
    then obtain t ts where t: "g_timer_head T = t # ts" "\<not> 0 < sint (timer_match (tmr T t) - ?now)"
      by (auto simp: settled_def krhino_sys_tick_get_def)
    have d: "timer_due ?N t" using t(2) by (simp add: timer_due_def timer_left_def)
    have N: "timer_ok ?N" using less.prems by (simp add: timer_count_upd)
    obtain M where M: "timer_cb_proc run_cb ?N = Some M" "timer_ok M" "g_timer_count M = ?now" "g_tick_count (krn M) = ?now"
        "due_count M < due_count ?N"
      using timer_walk_ends [OF N, of "Some t" run_cb] t d c by (auto simp: timer_cb_proc_def)
    have e: "M\<lparr>g_timer_count := g_tick_count (krn M)\<rparr> = M" using M(3,4) by simp
    from less.hyps [of M, unfolded e, OF M(5,2)] obtain T' where
      T': "timer_settle run_cb M = Some T'" "timer_ok T'" "settled T'" "g_tick_count (krn T') = ?now" using M(4) by auto
    have "timer_settle run_cb T = Option.bind (timer_cb_proc run_cb ?N) (timer_settle run_cb)"
      using t by (subst timer_settle.simps) (simp add: krhino_sys_tick_get_def Let_def)
    with M(1) T' show ?thesis by auto
  qed
qed

section \<open>Timers served on time\<close>

text \<open>The list is sorted, and no timer is overdue.\<close>

definition on_time :: "timer_sys \<Rightarrow> bool" where
  "on_time T \<longleftrightarrow> timer_ok T \<and> sorted_by (timer_left T) (g_timer_head T) \<and>
     (\<forall>t\<in>set (g_timer_head T). timer_left T t \<le> RHINO_MAX_TICKS)"

abbreviation due_now :: "timer_sys \<Rightarrow> nat list" where
  "due_now T \<equiv> takeWhile (\<lambda>t. timer_left T t = 0) (g_timer_head T)"

definition serve :: "(nat \<Rightarrow> nat \<Rightarrow> nat \<Rightarrow> kernel \<Rightarrow> kernel) \<Rightarrow> nat \<Rightarrow> timer_sys \<Rightarrow> timer_sys" where
  "serve run_cb t T = fst (timer_expire run_cb t T)"

lemma due_on_time: "timer_left T t \<le> RHINO_MAX_TICKS \<Longrightarrow> timer_due T t \<longleftrightarrow> timer_left T t = 0"
  using round_not_due [of "timer_left T t"] by (cases "timer_left T t = 0") (auto simp: timer_due_def word_gt_0)

lemma takeWhile_sorted_zero:
  "sorted_by f xs \<Longrightarrow> takeWhile (\<lambda>x. f x = (0 :: tick_t)) xs = filter (\<lambda>x. f x = 0) xs"
proof (induction xs)
  case (Cons x xs)
  show ?case
  proof (cases "f x = 0")
    case False
    with Cons.prems have "\<forall>y\<in>set xs. f y \<noteq> 0" by (auto simp: word_le_0_iff)
    with False show ?thesis by (simp add: filter_empty_conv)
  qed (use Cons in simp)
qed simp

lemma expire_on_time:
  fixes run_cb :: "nat \<Rightarrow> nat \<Rightarrow> nat \<Rightarrow> kernel \<Rightarrow> kernel"
  assumes o: "on_time T" and h: "g_timer_head T = t # ts" "timer_left T t = 0"
  defines "T' \<equiv> serve run_cb t T" and "q \<equiv> snd (timer_expire run_cb t T)"
  shows "on_time T'" "due_now T' = takeWhile (\<lambda>t. timer_left T t = 0) ts"
    "if round_ticks (tmr T t) > 0 then \<forall>u. q = Some u \<longrightarrow> \<not> timer_due T' u
     else q = (case g_timer_head T' of [] \<Rightarrow> None | u # _ \<Rightarrow> Some u)"
proof -
  have k: "timer_ok T" and i: "t \<in> set (g_timer_head T)" and srt: "sorted_by (timer_left T) (t # ts)"
    and mx: "\<forall>u\<in>set (t # ts). timer_left T u \<le> RHINO_MAX_TICKS" using o h(1) by (auto simp: on_time_def)
  note v = expire_view [OF k i, of run_cb, folded serve_def, folded T'_def]
  have d: "t \<notin> set ts" "distinct ts" and th: "to_head (tmr T t)" and mr: "round_ticks (tmr T t) \<le> RHINO_MAX_TICKS"
    using k h(1) by (auto simp: timer_ok_def)
  let ?r = "round_ticks (tmr T t)"
  have left: "timer_left T' u = (if u = t \<and> ?r > 0 then ?r else timer_left T u)" for u
    by (simp add: timer_left_def v)
  have k': "timer_ok T'" using timer_expire_ok(1) [OF k i] by (simp add: T'_def serve_def)
  have one: "on_time T' \<and> due_now T' = takeWhile (\<lambda>t. timer_left T t = 0) ts \<and>
      q = (case g_timer_head T' of [] \<Rightarrow> None | u # _ \<Rightarrow> Some u)" if z: "\<not> ?r > 0"
  proof -
    have hd: "g_timer_head T' = ts" using th h(1) d z by (simp add: T'_def serve_def timer_expire_def Let_def)
    have "timer_left T' = timer_left T" using left z by (simp add: fun_eq_iff)
    moreover have "q = (case ts of [] \<Rightarrow> None | u # _ \<Rightarrow> Some u)"
      using z h(1) by (simp add: q_def timer_expire_def Let_def split: list.split)
    ultimately show ?thesis using hd srt mx k' by (simp add: on_time_def)
  qed
  have per: "on_time T' \<and> due_now T' = takeWhile (\<lambda>t. timer_left T t = 0) ts \<and> (\<forall>u. q = Some u \<longrightarrow> \<not> timer_due T' u)" if p: "?r > 0"
  proof -
    define S where "S = T\<lparr>g_timer_head := ts, tmr := (tmr T)(t := (tmr T t)\<lparr>timer_match := g_timer_count T + ?r, timer_remain := ?r, to_head := True\<rparr>)\<rparr>"
    have key: "timer_left S u = timer_left T' u" for u by (simp add: left p) (simp add: timer_left_def S_def)
    have kS: "timer_left S = timer_left T'" using key by (simp add: fun_eq_iff)
    have ins: "insert_before (\<lambda>y. timer_remain (tmr S t) < timer_left S y) t ts = g_timer_head T'"
      using th h(1) d p unfolding T'_def serve_def timer_expire_def timer_link_def Let_def
      by (simp add: timerins.ins_eq S_def timer_left_def cong: if_cong)
    have rS: "timer_remain (tmr S t) = timer_left S t" by (simp add: S_def timer_left_def)
    have sts: "sorted_by (timer_left S) ts"
    proof -
      have "timer_left S u = timer_left T u" if "u \<in> set ts" for u using that d(1) left [of u] key [of u] by auto
      then have "sorted_by (timer_left S) ts = sorted_by (timer_left T) ts" by (rule sorted_by_cong)
      with srt show ?thesis by simp
    qed
    have "sorted_by (timer_left S) (g_timer_head T')"
      using timerins.ins_sorted [OF rS sts] unfolding timerins.ins_eq ins .
    then have s': "sorted_by (timer_left T') (g_timer_head T')" unfolding kS .
    have "\<forall>u\<in>set (g_timer_head T'). timer_left T' u \<le> RHINO_MAX_TICKS"
      using mx mr p h(1) by (auto simp: v(1) left)
    then have ot: "on_time T'" using k' s' by (simp add: on_time_def)
    have "due_now T' = filter (\<lambda>u. timer_left T' u = 0) (g_timer_head T')" by (rule takeWhile_sorted_zero [OF s'])
    also have "\<dots> = filter (\<lambda>u. timer_left T' u = 0) ts"
      unfolding ins [symmetric] by (rule filter_insert_before_out) (use left p in auto)
    also have "\<dots> = filter (\<lambda>u. timer_left T u = 0) ts" using d(1) left by (intro filter_cong) auto
    also have "\<dots> = takeWhile (\<lambda>t. timer_left T t = 0) ts" using takeWhile_sorted_zero [of "timer_left T" ts] srt by simp
    finally have dn: "due_now T' = takeWhile (\<lambda>t. timer_left T t = 0) ts" .
    have "\<not> timer_due T' u" if "q = Some u" for u
    proof -
      have "q = node_next t (g_timer_head T')" using p by (simp add: q_def T'_def serve_def timer_expire_def Let_def)
      then have nx: "node_next t (g_timer_head T') = Some u" using that by simp
      have "timer_left T' t \<le> timer_left T' u" by (rule node_next_sorted [OF s' nx])
      then have "timer_left T' u \<noteq> 0" using p left [of t] by (auto simp: word_gt_0)
      then show ?thesis using due_on_time [of T' u] ot node_next_in [OF nx] by (simp add: on_time_def)
    qed
    with ot dn show ?thesis by blast
  qed
  show "on_time T'" "due_now T' = takeWhile (\<lambda>t. timer_left T t = 0) ts"
    "if ?r > 0 then \<forall>u. q = Some u \<longrightarrow> \<not> timer_due T' u else q = (case g_timer_head T' of [] \<Rightarrow> None | u # _ \<Rightarrow> Some u)"
    using one per by (cases "?r > 0"; simp)+
qed

lemma walk_on_time:
  assumes "on_time T"
  shows "\<exists>S. timer_cb_proc run_cb T = Some (fold (serve run_cb) S T) \<and> on_time (fold (serve run_cb) S T) \<and>
    due_now T = S @ due_now (fold (serve run_cb) S T) \<and> (due_now T \<noteq> [] \<longrightarrow> S \<noteq> [])"
  using assms
proof (induction "length (due_now T)" arbitrary: T rule: less_induct)
  case less
  show ?case
  proof (cases "due_now T")
    case Nil
    have "timer_cb_proc run_cb T = Some T"
      using Nil less.prems due_on_time unfolding timer_cb_proc_def
      by (subst timer_walk.simps) (auto simp: on_time_def split: list.splits if_splits)
    with less.prems Nil show ?thesis by (intro exI [of _ "[]"]) simp
  next
    case (Cons t ds)
    then obtain ts where h: "g_timer_head T = t # ts" "timer_left T t = 0" and ds: "ds = takeWhile (\<lambda>t. timer_left T t = 0) ts"
      by (cases "g_timer_head T") (auto split: if_splits)
    let ?e = "timer_expire run_cb t T" and ?T = "serve run_cb t T"
    note e = expire_on_time [OF less.prems h, of run_cb]
    have "timer_due T t" using h(2) by (simp add: timer_due_def)
    then have w: "timer_cb_proc run_cb T = timer_walk run_cb (snd ?e) ?T"
      using h(1) unfolding timer_cb_proc_def serve_def by (subst timer_walk.simps) simp
    show ?thesis
    proof (cases "round_ticks (tmr T t) > 0")
      case True
      then have "timer_walk run_cb (snd ?e) ?T = Some ?T"
        using e(3) by (subst timer_walk.simps) (auto split: option.split)
      with w e(1,2) Cons ds show ?thesis by (intro exI [of _ "[t]"]) simp
    next
      case False
      then have "timer_walk run_cb (snd ?e) ?T = timer_cb_proc run_cb ?T" using e(3) by (simp add: timer_cb_proc_def)
      moreover obtain S where S: "timer_cb_proc run_cb ?T = Some (fold (serve run_cb) S ?T)" "on_time (fold (serve run_cb) S ?T)"
          "due_now ?T = S @ due_now (fold (serve run_cb) S ?T)"
        using less.hyps [of ?T] e(1,2) Cons ds by auto
      ultimately show ?thesis using w Cons ds e(2) by (intro exI [of _ "t # S"]) simp
    qed
  qed
qed

lemma serve_sel:
  assumes "timer_ok T" "t \<in> set (g_timer_head T)"
  shows "g_timer_count (serve run_cb t T) = g_timer_count T" "krn (serve run_cb t T) = run_cb (timer_cb (tmr T t)) t (timer_cb_arg (tmr T t)) (krn T)"
  using expire_view(3,4) [OF assms, of run_cb] by (simp_all add: serve_def)

lemma fold_serve:
  assumes "on_time T" "due_now T = S @ R"
  shows "on_time (fold (serve run_cb) S T) \<and> due_now (fold (serve run_cb) S T) = R \<and>
    g_timer_count (fold (serve run_cb) S T) = g_timer_count T \<and>
    (keeps_time run_cb \<longrightarrow> g_tick_count (krn (fold (serve run_cb) S T)) = g_tick_count (krn T)) \<and>
    fired (fold (serve run_cb) S T) = fired T @ map (\<lambda>t. (t, g_timer_count T)) S \<and>
    set (g_timer_head (fold (serve run_cb) S T)) = {t \<in> set (g_timer_head T). t \<in> set S \<longrightarrow> round_ticks (tmr T t) > 0} \<and>
    (\<forall>t. tmr (fold (serve run_cb) S T) t = (if t \<in> set S then
       if round_ticks (tmr T t) > 0
       then (tmr T t)\<lparr>timer_match := g_timer_count T + round_ticks (tmr T t), timer_remain := round_ticks (tmr T t)\<rparr>
       else (tmr T t)\<lparr>to_head := False, timer_state := TIMER_DEACTIVE\<rparr> else tmr T t))"
  using assms
proof (induction S arbitrary: T)
  case (Cons t S)
  then obtain ts where h: "g_timer_head T = t # ts" "timer_left T t = 0" and ds: "S @ R = takeWhile (\<lambda>t. timer_left T t = 0) ts"
    by (cases "g_timer_head T") (auto split: if_splits)
  have k: "timer_ok T" "t \<in> set (g_timer_head T)" "distinct (g_timer_head T)" using Cons.prems(1) h by (auto simp: on_time_def timer_ok_def)
  note e = expire_on_time [OF Cons.prems(1) h, of run_cb] and v = expire_view [OF k(1,2), of run_cb, folded serve_def]
  have n: "t \<notin> set S" using k(3) h(1) ds by (metis Un_iff distinct.simps(2) set_append set_takeWhileD)
  have d: "due_now (serve run_cb t T) = S @ R" using e(2) ds by simp
  note IH = Cons.IH [OF e(1) d]
  show ?case using IH n k(2) by (simp add: v keeps_time_def) auto
qed simp

lemma settle_on_time:
  assumes "on_time T" "g_timer_count T = g_tick_count (krn T)" and c: "keeps_time run_cb"
  shows "timer_settle run_cb T = Some (fold (serve run_cb) (due_now T) T)"
  using assms(1,2)
proof (induction "length (due_now T)" arbitrary: T rule: less_induct)
  case less
  have left: "timer_match (tmr T t) - krhino_sys_tick_get (krn T) = timer_left T t" for t
    using less.prems(2) by (simp add: timer_left_def krhino_sys_tick_get_def)
  show ?case
  proof (cases "due_now T")
    case Nil
    then have "timer_settle run_cb T = Some T"
      using less.prems(1) round_not_due left by (subst timer_settle.simps) (auto simp: on_time_def word_gt_0 split: list.splits if_splits)
    with Nil show ?thesis by simp
  next
    case (Cons t ds)
    then obtain ts where h: "g_timer_head T = t # ts" "timer_left T t = 0"
      by (cases "g_timer_head T") (auto split: if_splits)
    obtain S where S: "timer_cb_proc run_cb T = Some (fold (serve run_cb) S T)" "on_time (fold (serve run_cb) S T)"
        "due_now T = S @ due_now (fold (serve run_cb) S T)" "S \<noteq> []"
      using walk_on_time [OF less.prems(1), of run_cb] Cons by auto
    note f = fold_serve [OF less.prems(1) S(3), of run_cb]
    have eq: "T\<lparr>g_timer_count := krhino_sys_tick_get (krn T)\<rparr> = T" using less.prems(2) by (simp add: krhino_sys_tick_get_def)
    have "timer_settle run_cb T = timer_settle run_cb (fold (serve run_cb) S T)"
      using h left S(1) by (subst timer_settle.simps) (simp add: Let_def eq)
    also have "\<dots> = Some (fold (serve run_cb) (due_now (fold (serve run_cb) S T)) (fold (serve run_cb) S T))"
      by (rule less.hyps) (use S f c less.prems(2) in auto)
    also have "\<dots> = Some (fold (serve run_cb) (due_now T) T)" using S(3) by (metis comp_apply fold_append)
    finally show ?thesis .
  qed
qed

section \<open>The memory of a command\<close>

lemma load_store_other: "p + length xs \<le> a \<or> a + n \<le> p \<Longrightarrow> load_bytes a n (store_bytes p xs K) = load_bytes a n K"
  by (auto simp: load_bytes_def store_bytes_def)

lemma load_store_at: "n = length xs \<Longrightarrow> load_bytes a n (store_bytes a xs K) = xs"
  by simp

lemma length_le_bytes [simp]: "length (le_bytes n x) = n"
  by (induction n arbitrary: x) auto

lemma le_nat_bytes: "le_nat (le_bytes n x) = x mod 256 ^ n"
proof (induction n arbitrary: x)
  case (Suc n)
  have "unat (of_nat x :: u8) = x mod 256" by (simp add: unat_of_nat)
  with Suc show ?case by (simp add: mod_mult2_eq)
qed simp

lemma cb_of_load:
  "cb_of (load_bytes a cb_size K) = \<lparr>cb_timer = le_nat (load_bytes a 4 K), cb_num = u8_mem K (a + 4),
     cb_first = of_nat (le_nat (load_bytes (a + 8) 8 K)), cb_u = of_nat (le_nat (load_bytes (a + 16) 8 K))\<rparr>"
proof -
  have "take n (drop m (load_bytes a 24 K)) = load_bytes (a + m) n K" if "m + n \<le> 24" for m n
    using that by (auto simp: load_bytes_def ac_simps intro!: nth_equalityI)
  from this [of 0 4] this [of 8 8] this [of 16 8] show ?thesis
    by (simp add: cb_of_def) (simp add: load_bytes_def)
qed

lemma u64_bytes: "of_nat (le_nat (le_bytes 8 (unat (x :: tick_t)))) = x"
proof -
  have "unat x < 256 ^ 8" using unsigned_less [of x] by simp
  then show ?thesis by (simp add: le_nat_bytes)
qed

section \<open>Properties\<close>

text \<open>The timers of the demo system: 1 is periodic and 2 is not, both due now; 3 is due in 5 ticks.\<close>

definition mk_tmr :: "tick_t \<Rightarrow> tick_t \<Rightarrow> ktimer" where
  "mk_tmr m r = \<lparr>to_head = True, timer_name = ''tmr'', timer_cb = 0, timer_cb_arg = 0, timer_match = m, timer_remain = 1,
     init_count = 10, round_ticks = r, timer_type = RHINO_TIMER_OBJ_TYPE, timer_state = TIMER_ACTIVE,
     timer_alloc_flag = K_OBJ_STATIC_ALLOC\<rparr>"

definition no_tmr :: ktimer where
  "no_tmr = (mk_tmr 0 0)\<lparr>timer_type := RHINO_OBJ_TYPE_NONE\<rparr>"

definition demo_tmr :: timer_sys where
  "demo_tmr = \<lparr>krn = demo, g_timer_head = [1, 2, 3], g_timer_count = 90, g_timer_queue = 10,
     tmr = (\<lambda>_. no_tmr)(1 := mk_tmr 100 7, 2 := mk_tmr 100 0, 3 := mk_tmr 105 0), fired = []\<rparr>"

lemmas demo_tmr_defs = demo_tmr_def mk_tmr_def no_tmr_def

lemma demo_tmr_ok: "timer_ok demo_tmr"
  by (auto simp: timer_ok_def demo_tmr_defs)



text \<open>C31. When the timer task gets to run before any timer is overdue, it calls the callback of every timer
  that is due exactly once, in the order of the list, and of no other; then a periodic one is due
  again after its period, a one-shot timer is inactive and off the list, the other timers are as they
  were, the list is sorted and nothing in it is due.\<close>

theorem timers_served:
  assumes o: "on_time (T\<lparr>g_timer_count := now\<rparr>)" and n: "now = g_tick_count (krn T)" and c: "keeps_time run_cb"
    and D: "D = takeWhile (\<lambda>t. timer_match (tmr T t) = now) (g_timer_head T)" "D \<noteq> []"
  shows "\<exists>T'. timer_settle run_cb T = Some T' \<and> fired T' = fired T @ map (\<lambda>t. (t, now)) D \<and>
    set (g_timer_head T') = {t \<in> set (g_timer_head T). t \<in> set D \<longrightarrow> round_ticks (tmr T t) > 0} \<and>
    (\<forall>t. tmr T' t = (if t \<in> set D then
       if round_ticks (tmr T t) > 0
       then (tmr T t)\<lparr>timer_match := now + round_ticks (tmr T t), timer_remain := round_ticks (tmr T t)\<rparr>
       else (tmr T t)\<lparr>to_head := False, timer_state := TIMER_DEACTIVE\<rparr> else tmr T t)) \<and>
    sorted_by (timer_left T') (g_timer_head T') \<and> (\<forall>t\<in>set (g_timer_head T'). \<not> timer_due T' t)"
proof -
  let ?N = "T\<lparr>g_timer_count := now\<rparr>"
  have due: "due_now ?N = D" by (simp add: D(1) timer_left_def)
  note f = fold_serve [OF o, of D "[]" run_cb, unfolded due, simplified]
  have "timer_settle run_cb ?N = Some (fold (serve run_cb) D ?N)"
    using settle_on_time [OF o _ c] n due by simp
  moreover have "timer_settle run_cb T = timer_settle run_cb ?N"
  proof -
    obtain t ts where t: "g_timer_head T = t # ts" "timer_match (tmr T t) = now"
      using D by (cases "g_timer_head T") (auto split: if_splits)
    have "timer_settle run_cb T = Option.bind (timer_cb_proc run_cb ?N) (timer_settle run_cb)"
      "timer_settle run_cb ?N = Option.bind (timer_cb_proc run_cb ?N) (timer_settle run_cb)"
      using t n by (subst timer_settle.simps, simp add: krhino_sys_tick_get_def Let_def)+
    then show ?thesis by simp
  qed
  moreover have "sorted_by (timer_left (fold (serve run_cb) D ?N)) (g_timer_head (fold (serve run_cb) D ?N)) \<and>
      (\<forall>t\<in>set (g_timer_head (fold (serve run_cb) D ?N)). \<not> timer_due (fold (serve run_cb) D ?N) t)"
    (is "?s \<and> ?d")
  proof
    have ot: "on_time (fold (serve run_cb) D ?N)" and e: "due_now (fold (serve run_cb) D ?N) = []" using f by simp_all
    then show ?s by (simp add: on_time_def)
    have "filter (\<lambda>t. timer_left (fold (serve run_cb) D ?N) t = 0) (g_timer_head (fold (serve run_cb) D ?N)) = []"
      using takeWhile_sorted_zero [of "timer_left (fold (serve run_cb) D ?N)"] ot e by (simp add: on_time_def)
    then show ?d using ot due_on_time by (auto simp: on_time_def filter_empty_conv)
  qed
  ultimately show ?thesis using f by (intro exI [of _ "fold (serve run_cb) D ?N"]) simp
qed

lemma timers_served_witness:
  "\<exists>T'. timer_settle (\<lambda>_ _ _ K. K) demo_tmr = Some T' \<and> fired T' = [(1, 100), (2, 100)] \<and> set (g_timer_head T') = {1, 3}"
proof -
  have o: "on_time (demo_tmr\<lparr>g_timer_count := 100\<rparr>)"
    using demo_tmr_ok by (simp add: on_time_def timer_count_upd) (simp add: timer_left_def demo_tmr_defs)
  have n: "100 = g_tick_count (krn demo_tmr)" by (simp add: demo_tmr_def)
  have D: "[1, 2] = takeWhile (\<lambda>t. timer_match (tmr demo_tmr t) = 100) (g_timer_head demo_tmr)" by (simp add: demo_tmr_defs)
  have c: "keeps_time (\<lambda>_ _ _ K. K)" by (simp add: keeps_time_def)
  obtain T' where T': "timer_settle (\<lambda>_ _ _ K. K) demo_tmr = Some T'" "fired T' = fired demo_tmr @ map (\<lambda>t. (t, 100)) [1, 2]"
      "set (g_timer_head T') = {t \<in> set (g_timer_head demo_tmr). t \<in> set [1, 2] \<longrightarrow> round_ticks (tmr demo_tmr t) > 0}"
    using timers_served [OF o n c D] by blast
  have "{t \<in> set (g_timer_head demo_tmr). t \<in> set [1, 2] \<longrightarrow> round_ticks (tmr demo_tmr t) > 0} = {1, 3}"
    by (auto simp: demo_tmr_defs)
  moreover have "fired demo_tmr = []" by (simp add: demo_tmr_def)
  ultimately show ?thesis using T' by auto
qed

definition late_tmr :: timer_sys where
  "late_tmr = \<lparr>krn = demo, g_timer_head = [2, 3, 4], g_timer_count = 90, g_timer_queue = 10,
     tmr = (\<lambda>_. no_tmr)(2 := mk_tmr 98 5, 3 := mk_tmr 99 3, 4 := mk_tmr 99 0), fired = []\<rparr>"

lemma late_sel:
  "g_timer_head late_tmr = [2, 3, 4]" "krn late_tmr = demo" "g_timer_count late_tmr = 90" "fired late_tmr = []"
  "tmr late_tmr 2 = mk_tmr 98 5" "tmr late_tmr 3 = mk_tmr 99 3" "tmr late_tmr 4 = mk_tmr 99 0"
  by (simp_all add: late_tmr_def)

lemma mk_tmr_sel [simp]:
  "to_head (mk_tmr m r) = True" "timer_match (mk_tmr m r) = m" "round_ticks (mk_tmr m r) = r"
  "timer_type (mk_tmr m r) = RHINO_TIMER_OBJ_TYPE" "timer_state (mk_tmr m r) = TIMER_ACTIVE"
  by (simp_all add: mk_tmr_def)

text \<open>C34. A timer that is late can be passed over: timers 2 and 3 are periodic, 4 is not, all three are overdue;
  the list was sorted when they were started. The round of the timer task links 3 and 2, served, in
  front of 4, because the time left of an overdue timer counts as a huge number there, and then
  waits for timer 3; timer 4 stays in the list, overdue and not served.\<close>

theorem late_timer_left_behind:
  "timer_ok late_tmr \<and> sorted_by (timer_left late_tmr) (g_timer_head late_tmr) \<and>
   (\<exists>T'. timer_settle (\<lambda>_ _ _ K. K) late_tmr = Some T' \<and> g_timer_head T' = [3, 2, 4] \<and>
      fired T' = [(2, 100), (3, 100)] \<and> timer_due T' 4 \<and>
      timer_match (tmr T' 3) - krhino_sys_tick_get (krn T') = 3)"
proof -
  let ?cb = "\<lambda>_ _ _ K. K :: kernel" and ?N = "late_tmr\<lparr>g_timer_count := 100\<rparr>"
  define A where "A = fst (timer_expire ?cb 2 ?N)"
  define B where "B = fst (timer_expire ?cb 3 A)"
  have ok: "timer_ok late_tmr" by (auto simp: timer_ok_def late_tmr_def no_tmr_def)
  have N: "timer_ok ?N" using ok by (simp add: timer_count_upd)
  note vA = expire_view [OF N, of 2 ?cb, folded A_def]
  have tA: "tmr A 2 = (mk_tmr 98 5)\<lparr>timer_match := 105, timer_remain := 5\<rparr>" "tmr A 3 = mk_tmr 99 3" "tmr A 4 = mk_tmr 99 0"
    "g_timer_count A = 100" "krn A = demo" "fired A = [(2, 100)]"
    using vA by (simp_all add: late_sel)
  have hA: "g_timer_head A = [2, 3, 4]" "snd (timer_expire ?cb 2 ?N) = Some 3"
    by (simp_all add: A_def timer_expire_def timer_link_def Let_def late_sel timer_list_rm_def)
  have "timer_ok A" using timer_expire_ok(1) [OF N, of 2 ?cb] by (simp add: A_def late_sel)
  note vB = expire_view [OF this, of 3 ?cb, folded B_def]
  have tB: "tmr B 2 = (mk_tmr 98 5)\<lparr>timer_match := 105, timer_remain := 5\<rparr>" "tmr B 4 = mk_tmr 99 0" "timer_match (tmr B 3) = 103"
    "g_timer_count B = 100" "krn B = demo" "fired B = [(2, 100), (3, 100)]"
    using vB by (simp_all add: hA tA)
  have hB: "g_timer_head B = [3, 2, 4]" "snd (timer_expire ?cb 3 A) = Some 2"
    by (simp_all add: B_def timer_expire_def timer_link_def Let_def hA tA timer_list_rm_def)
  have due: "timer_due ?N 2" "timer_due A 3" "\<not> timer_due B 2" "timer_due B 4"
    by (simp_all add: timer_due_def timer_left_def late_sel tA tB)
  have w: "timer_walk ?cb (Some 2) ?N = timer_walk ?cb (Some 3) A" "timer_walk ?cb (Some 3) A = timer_walk ?cb (Some 2) B"
    "timer_walk ?cb (Some 2) B = Some B"
    by (subst timer_walk.simps, simp add: due hA(2) hB(2) A_def [symmetric] B_def [symmetric])+
  then have "timer_cb_proc ?cb ?N = Some B" by (simp add: timer_cb_proc_def late_sel)
  moreover have tick: "krhino_sys_tick_get demo = 100" by (simp add: krhino_sys_tick_get_def)
  ultimately have "timer_settle ?cb late_tmr = timer_settle ?cb B"
    by (subst timer_settle.simps) (simp add: late_sel)
  also have "\<dots> = Some B" by (subst timer_settle.simps) (simp add: hB tB tick)
  finally have "timer_settle ?cb late_tmr = Some B" .
  moreover have "sorted_by (timer_left late_tmr) (g_timer_head late_tmr)" by (simp add: late_sel timer_left_def)
  ultimately show ?thesis using ok hB tB due tick by simp
qed

text \<open>C33. A call of the timer interface reaches the timer task as it was made, through the bytes of the queue:
  \<^verbatim>\<open>krhino_timer_change\<close> either appends one message that decodes to its own timer, command, first delay
  and period, or, when the timer task waits, puts these bytes into its variable.\<close>

theorem timer_change_delivered:
  assumes k: "kinv (krn T)" and q: "q = g_timer_queue T" and ty: "obj_type (blk_objs (krn T) q) = RHINO_BUF_QUEUE_OBJ_TYPE"
    and h: "bq_holds (buf_queues (krn T) q) ms" and f: "rb_type (bq_ring (buf_queues (krn T) q)) = RINGBUF_TYPE_FIX"
    and m: "max_msg_size (buf_queues (krn T) q) = cb_size" and r: "cb_size \<le> freesize (bq_ring (buf_queues (krn T) q))"
    and t: "t < 2 ^ 32" and p: "0 < first" "first \<le> RHINO_MAX_TICKS" "round \<le> RHINO_MAX_TICKS"
  shows "case krhino_timer_change a (Some t) first round T of (T', st) \<Rightarrow> st = RHINO_SUCCESS \<and>
    (case blist (krn T) q of
       [] \<Rightarrow> \<exists>bs. bq_holds (buf_queues (krn T') q) (ms @ [bs]) \<and>
         cb_of bs = \<lparr>cb_timer = t, cb_num = TIMER_CMD_CHG, cb_first = first, cb_u = round\<rparr>
     | u # us \<Rightarrow> cb_of (load_bytes (msg (tasks (krn T) u)) cb_size (krn T')) =
         \<lparr>cb_timer = t, cb_num = TIMER_CMD_CHG, cb_first = first, cb_u = round\<rparr>)"
proof -
  let ?K = "store_bytes (a + 4) [TIMER_CMD_CHG] (store_bytes (a + 16) (le_bytes 8 (unat round))
    (store_bytes (a + 8) (le_bytes 8 (unat first)) (store_bytes a (le_bytes 4 t) (krn T))))"
  have "load_bytes a 4 ?K = le_bytes 4 t" "load_bytes (a + 8) 8 ?K = le_bytes 8 (unat first)"
    "load_bytes (a + 16) 8 ?K = le_bytes 8 (unat round)" "u8_mem ?K (a + 4) = TIMER_CMD_CHG"
    by (simp_all add: load_store_other load_store_at) (simp add: store_bytes_def)
  moreover have t32: "le_nat (le_bytes 4 t) = t" using t by (simp add: le_nat_bytes)
  ultimately have cb: "cb_of (load_bytes a cb_size ?K) = \<lparr>cb_timer = t, cb_num = TIMER_CMD_CHG, cb_first = first, cb_u = round\<rparr>"
    unfolding cb_of_load using t32 by (simp add: u64_bytes)
  obtain K' st where s: "krhino_buf_queue_send (Some q) (Some a) cb_size ?K = (K', st)" by fastforce
  have call: "krhino_timer_change a (Some t) first round T = (T\<lparr>krn := K'\<rparr>, st)"
    using p s q by (auto simp: krhino_timer_change_def timer_send_def put_cb_def Let_def)
  have pl: "bq_payload (buf_queues ?K q) a cb_size ?K = load_bytes a cb_size ?K" "bq_need (buf_queues ?K q) cb_size = cb_size"
    using f m by (simp_all add: bq_payload_def bq_need_def)
  have "case (K', st) of (K', st) \<Rightarrow> case blist ?K q of
      [] \<Rightarrow> if freesize (bq_ring (buf_queues ?K q)) < bq_need (buf_queues ?K q) cb_size
        then st = RHINO_BUF_QUEUE_FULL \<and> K' = ?K
        else st = RHINO_SUCCESS \<and> bq_holds (buf_queues K' q) (ms @ [bq_payload (buf_queues ?K q) a cb_size ?K]) \<and> tasks K' = tasks ?K
    | u # us \<Rightarrow> st = RHINO_SUCCESS \<and> load_bytes (msg (tasks ?K u)) cb_size K' = load_bytes a cb_size ?K \<and>
        bq_msg_size (tasks K' u) = cb_size \<and> blk_state (tasks K' u) = BLK_FINISH \<and> tstate K' u = woken (tstate ?K u) \<and>
        blist K' q = us \<and> buf_queues K' = buf_queues ?K"
    unfolding s [symmetric] by (rule buf_queue_send_sim) (use k ty h m in simp_all)
  with r show ?thesis unfolding call pl using cb by (auto split: list.splits)
qed

text \<open>The queue of the demo system, made as \<^verbatim>\<open>ktimer_init\<close> makes it.\<close>

definition demo_tq :: timer_sys where
  "demo_tq = demo_tmr\<lparr>krn := upd_bq 10 (\<lambda>r. r\<lparr>bq_ring := ringbuf_init (replicate 480 0) RINGBUF_TYPE_FIX 24, max_msg_size := 24\<rparr>) demo\<rparr>"

lemma timer_change_delivered_witness:
  "case krhino_timer_change 3000 (Some 2) 20 5 demo_tq of (T', st) \<Rightarrow> st = RHINO_SUCCESS \<and>
     (\<exists>bs. bq_holds (buf_queues (krn T') 10) [bs] \<and> cb_of bs = \<lparr>cb_timer = 2, cb_num = TIMER_CMD_CHG, cb_first = 20, cb_u = 5\<rparr>)"
proof -
  have K: "krn demo_tq = upd_bq 10 (\<lambda>r. r\<lparr>bq_ring := ringbuf_init (replicate 480 0) RINGBUF_TYPE_FIX 24, max_msg_size := 24\<rparr>) demo"
    "g_timer_queue demo_tq = 10" by (simp_all add: demo_tq_def demo_tmr_def)
  have "kinv (krn demo_tq)" using sys_invD(1) [OF demo_sys_inv] by (simp add: K)
  moreover have "bq_holds (buf_queues (krn demo_tq) 10) []"
    using fix_init [of 24 "replicate 480 0"] unfolding K by (simp add: bq_holds_def demo_bq_rec)
  ultimately have "case krhino_timer_change 3000 (Some 2) 20 5 demo_tq of (T', st) \<Rightarrow> st = RHINO_SUCCESS \<and>
    (case blist (krn demo_tq) 10 of
       [] \<Rightarrow> \<exists>bs. bq_holds (buf_queues (krn T') 10) ([] @ [bs]) \<and>
         cb_of bs = \<lparr>cb_timer = 2, cb_num = TIMER_CMD_CHG, cb_first = 20, cb_u = 5\<rparr>
     | u # us \<Rightarrow> cb_of (load_bytes (msg (tasks (krn demo_tq) u)) cb_size (krn T')) =
         \<lparr>cb_timer = 2, cb_num = TIMER_CMD_CHG, cb_first = 20, cb_u = 5\<rparr>)"
    by (intro timer_change_delivered) (use demo_bq_type in \<open>simp_all add: K\<close>)
  then show ?thesis using demo_bq_type by (simp add: K)
qed

end
