(* ===== verification/KMem.thy ===== *)
theory KMem
  imports KRingbuf KBitmap
begin

text \<open>
  The memory the allocators of \<^verbatim>\<open>k_mm_blk.c\<close> and \<^verbatim>\<open>k_mm.c\<close> work in: bytes at 32-bit
  addresses, words stored little endian, \<open>memset\<close> and \<open>memcpy\<close>. Addresses and sizes are
  natural numbers below \<open>2 ^ 32\<close>; wherever an addition or a subtraction of the code can leave
  that range it is written \<open>add32\<close> or \<open>sub32\<close>. The lemmas say what a store leaves alone,
  what null-terminated lists in memory are, and what the size classes (the position of the
  highest set bit) amount to.
\<close>

type_synonym addr = nat
type_synonym mem = "nat \<Rightarrow> u8"

section \<open>Arithmetic on 32 bits\<close>

lemma sz_add_small: "a + b < 2 ^ 32 \<Longrightarrow> sz_add a b = a + b"
  by (simp add: sz_add_def)

lemma sz_sub_small: "b \<le> a \<Longrightarrow> sz_sub a b = a - b"
  by (simp add: sz_sub_def)

lemma sz_add_less [simp]: "sz_add a b < 2 ^ 32"
  by (simp add: sz_add_def)

lemma sz_sub_less: "a < 2 ^ 32 \<Longrightarrow> sz_sub a b < 2 ^ 32"
  by (auto simp: sz_sub_def)

text \<open>A counter that is kept modulo \<open>2 ^ 32\<close> and counts up and down.\<close>

lemma sz_add_mod: "sz_add (a mod 2 ^ 32) b = (a + b) mod 2 ^ 32"
  by (simp add: sz_add_def mod_add_left_eq)

lemma sz_sub_mod:
  assumes "b < 2 ^ 32" "b \<le> c" shows "sz_sub (c mod 2 ^ 32) b = (c - b) mod 2 ^ 32"
proof (cases "b \<le> c mod 2 ^ 32")
  case True
  have "c - b = c div 2 ^ 32 * 2 ^ 32 + (c mod 2 ^ 32 - b)"
    using True div_mult_mod_eq [of c "2 ^ 32"] by linarith
  then have "(c - b) mod 2 ^ 32 = (c mod 2 ^ 32 - b) mod 2 ^ 32" by simp
  with True show ?thesis by (simp add: sz_sub_def less_imp_diff_less)
next
  case False
  then have q: "c div 2 ^ 32 \<noteq> 0" using assms(2) div_mult_mod_eq [of c "2 ^ 32"]
    by (metis add_0 mult_0)
  then obtain k where k: "c div 2 ^ 32 = Suc k" using not0_implies_Suc by blast
  have "c - b = k * 2 ^ 32 + (c mod 2 ^ 32 + 2 ^ 32 - b)"
    using False k assms(1) div_mult_mod_eq [of c "2 ^ 32"] by simp
  then have "(c - b) mod 2 ^ 32 = (c mod 2 ^ 32 + 2 ^ 32 - b) mod 2 ^ 32" by simp
  with False show ?thesis by (simp add: sz_sub_def)
qed

section \<open>Bytes and words\<close>

definition load32 :: "mem \<Rightarrow> addr \<Rightarrow> nat" where
  "load32 M a = bytes_size [M a, M (a + 1), M (a + 2), M (a + 3)]"

definition store32 :: "mem \<Rightarrow> addr \<Rightarrow> nat \<Rightarrow> mem" where
  "store32 M a v = M(a := size_bytes v ! 0, a + 1 := size_bytes v ! 1,
     a + 2 := size_bytes v ! 2, a + 3 := size_bytes v ! 3)"

definition mem_set :: "mem \<Rightarrow> addr \<Rightarrow> nat \<Rightarrow> mem" where
  "mem_set M a n = (\<lambda>x. if a \<le> x \<and> x < a + n then 0 else M x)"

definition mem_copy :: "mem \<Rightarrow> addr \<Rightarrow> addr \<Rightarrow> nat \<Rightarrow> mem" where
  "mem_copy M to from n = (\<lambda>x. if to \<le> x \<and> x < to + n then M (from + (x - to)) else M x)"

lemma bytes_size_4:
  "bytes_size [a, b, c, d] = unat a + unat b * 256 + unat c * 65536 + unat d * 16777216"
proof -
  have sum4: "(\<Sum>i<4. f i) = f 0 + f 1 + f 2 + f 3" for f :: "nat \<Rightarrow> nat"
    by (simp add: eval_nat_numeral)
  show ?thesis by (simp add: bytes_size_def sum4)
qed

lemma four_nths: "length xs = 4 \<Longrightarrow> [xs ! 0, xs ! 1, xs ! 2, xs ! 3] = xs"
proof -
  assume "length xs = 4"
  then have "length xs = Suc (Suc (Suc (Suc 0)))" by simp
  then obtain a b c d where "xs = [a, b, c, d]" by (auto simp: length_Suc_conv)
  then show ?thesis by simp
qed

lemma load32_store_same [simp]: "v < 2 ^ 32 \<Longrightarrow> load32 (store32 M a v) a = v"
  using bytes_size_bytes [of v] four_nths [of "size_bytes v"]
  by (simp add: load32_def store32_def)

lemma load32_cong:
  "(\<And>x. a \<le> x \<Longrightarrow> x < a + 4 \<Longrightarrow> M x = M' x) \<Longrightarrow> load32 M a = load32 M' a"
  by (simp add: load32_def)

lemma load32_store_other: "a + 4 \<le> b \<or> b + 4 \<le> a \<Longrightarrow> load32 (store32 M a v) b = load32 M b"
  by (rule load32_cong) (auto simp: store32_def)

lemma load_set_other: "a + n \<le> b \<or> b + 4 \<le> a \<Longrightarrow> load32 (mem_set M a n) b = load32 M b"
  by (rule load32_cong) (auto simp: mem_set_def)

lemma load_set_zero: "a \<le> b \<Longrightarrow> b + 4 \<le> a + n \<Longrightarrow> load32 (mem_set M a n) b = 0"
  by (simp add: load32_def mem_set_def bytes_size_4)

lemma load_copy_other: "a + n \<le> b \<or> b + 4 \<le> a \<Longrightarrow> load32 (mem_copy M a c n) b = load32 M b"
  by (rule load32_cong) (auto simp: mem_copy_def)

lemma load32_less [simplified, simp]: "load32 M a < 2 ^ 32"
proof -
  have "unat x \<le> 255" for x :: u8 using unsigned_less [of x, where 'a = nat] by simp
  from this [of "M a"] this [of "M (a + 1)"] this [of "M (a + 2)"] this [of "M (a + 3)"]
  show ?thesis unfolding load32_def bytes_size_4 by simp
qed

text \<open>Two memories agree outside of a set of addresses.\<close>

definition same_outside :: "nat set \<Rightarrow> mem \<Rightarrow> mem \<Rightarrow> bool" where
  "same_outside X M M' \<longleftrightarrow> (\<forall>x. x \<notin> X \<longrightarrow> M' x = M x)"

lemma same_outside_refl [simp]: "same_outside X M M"
  by (simp add: same_outside_def)

lemma same_outside_trans:
  "same_outside X M M' \<Longrightarrow> same_outside X M' M'' \<Longrightarrow> same_outside X M M''"
  by (simp add: same_outside_def)

lemma same_outside_mono: "same_outside X M M' \<Longrightarrow> X \<subseteq> Y \<Longrightarrow> same_outside Y M M'"
  by (auto simp: same_outside_def)

lemma same_outside_store [intro]: "{a..<a + 4} \<subseteq> X \<Longrightarrow> same_outside X M (store32 M a v)"
  unfolding same_outside_def store32_def subset_iff by simp

lemma same_outside_load:
  "same_outside X M M' \<Longrightarrow> {a..<a + 4} \<inter> X = {} \<Longrightarrow> load32 M' a = load32 M a"
  by (rule load32_cong) (auto simp: same_outside_def)

section \<open>Size classes\<close>

text \<open>The number of leading zeros of a number between two powers of two.\<close>

lemma krhino_clz32_range:
  assumes "2 ^ k \<le> x" "x < 2 ^ Suc k" "k < 32"
  shows "krhino_clz32 (of_nat x) = 31 - k"
proof -
  have x32: "x < 2 ^ 32" using assms(2,3)
    by (meson Suc_leI less_le_trans one_le_numeral power_increasing)
  have bit: "bit (of_nat x :: u32) j \<longleftrightarrow> j < 32 \<and> bit x j" for j
    by (simp add: bit_of_nat_iff)
  have "(of_nat x :: u32) \<noteq> 0"
    using assms x32 by (simp add: word_of_nat_eq_0_iff nat_dvd_not_less)
  then have c: "is_clz (of_nat x) (krhino_clz32 (of_nat x))" by (rule krhino_clz32_correct)
  have top: "bit x k" and above: "\<And>j. k < j \<Longrightarrow> \<not> bit x j"
  proof -
    have "x div 2 ^ k = 1" using assms(1,2) by (simp add: div_nat_eqI)
    then show "bit x k" by (simp add: bit_iff_odd)
    show "\<not> bit x j" if "k < j" for j
    proof -
      have "x < 2 ^ j" using assms(2) that
        by (meson Suc_leI less_le_trans one_le_numeral power_increasing)
      then show ?thesis by (simp add: bit_iff_odd)
    qed
  qed
  let ?n = "krhino_clz32 (of_nat x)"
  from c have n: "?n < 32" "bit x (31 - ?n)" "\<forall>j. 31 - ?n < j \<longrightarrow> \<not> (j < 32 \<and> bit x j)"
    by (auto simp: is_clz_def bit)
  from n(2) above have "31 - ?n \<le> k" by (meson not_less)
  moreover from n(3) top assms(3) have "k \<le> 31 - ?n" by (meson not_less)
  ultimately show ?thesis using n(1) by linarith
qed

lemma log2_range: "0 < x \<Longrightarrow> \<exists>k. 2 ^ k \<le> x \<and> x < 2 ^ Suc (k::nat)" for x :: nat
  using ex_power_ivl1 [of 2 x] by auto

section \<open>Null-terminated lists in memory\<close>

text \<open>\<open>chain link M p xs\<close>: starting at \<open>p\<close> the words at offset \<open>link\<close> lead through the
  addresses \<open>xs\<close> to \<^verbatim>\<open>NULL\<close>.\<close>

fun chain :: "nat \<Rightarrow> mem \<Rightarrow> addr \<Rightarrow> addr list \<Rightarrow> bool" where
  "chain link M p [] \<longleftrightarrow> p = 0"
| "chain link M p (x # xs) \<longleftrightarrow> p = x \<and> x \<noteq> 0 \<and> chain link M (load32 M (x + link)) xs"

lemma chain_cong:
  "(\<And>x. x \<in> set xs \<Longrightarrow> load32 M' (x + link) = load32 M (x + link)) \<Longrightarrow>
   chain link M' p xs = chain link M p xs"
  by (induction xs arbitrary: p) auto

lemma chain_Nil_iff: "chain link M p xs \<Longrightarrow> xs = [] \<longleftrightarrow> p = 0"
  by (cases xs) auto

lemma chain_0: "chain link M 0 xs \<longleftrightarrow> xs = []"
  by (cases xs) auto

lemma chain_nonzero: "p \<noteq> 0 \<Longrightarrow> chain link M p xs \<Longrightarrow>
   \<exists>ys. xs = p # ys \<and> chain link M (load32 M (p + link)) ys"
  by (cases xs) auto

text \<open>A doubly linked segment: from \<open>p\<close> through \<open>xs\<close> to \<open>e\<close>, the back pointer of the
  first entry being \<open>prv\<close>. Offsets 8 and 12 are those of \<^verbatim>\<open>free_ptr\<close> in a block head.\<close>

fun dseg :: "mem \<Rightarrow> addr \<Rightarrow> addr \<Rightarrow> addr list \<Rightarrow> addr \<Rightarrow> bool" where
  "dseg M prv p [] e \<longleftrightarrow> p = e"
| "dseg M prv p (x # xs) e \<longleftrightarrow>
     p = x \<and> x \<noteq> 0 \<and> load32 M (x + 8) = prv \<and> dseg M x (load32 M (x + 12)) xs e"

lemma dseg_cong:
  "(\<And>x. x \<in> set xs \<Longrightarrow> load32 M' (x + 8) = load32 M (x + 8)) \<Longrightarrow>
   (\<And>x. x \<in> set xs \<Longrightarrow> load32 M' (x + 12) = load32 M (x + 12)) \<Longrightarrow>
   dseg M' q p xs e = dseg M q p xs e"
  by (induction xs arbitrary: p q) auto

lemma dseg_chain: "dseg M q p xs 0 \<Longrightarrow> chain 12 M p xs"
  by (induction xs arbitrary: p q) auto

lemma dseg_append:
  "dseg M q p (xs @ ys) e \<longleftrightarrow>
     (\<exists>r. dseg M q p xs r \<and> dseg M (if xs = [] then q else last xs) r ys e)"
  by (induction xs arbitrary: p q) auto

lemma dseg_nonzero: "dseg M q p xs e \<Longrightarrow> x \<in> set xs \<Longrightarrow> x \<noteq> 0"
  by (induction xs arbitrary: p q) auto

lemma load_store_aligned:
  assumes "4 dvd a" "4 dvd b" "a \<noteq> b" shows "load32 (store32 M a v) b = load32 M b"
proof -
  have "a + 4 \<le> b \<or> b + 4 \<le> a" using assms by presburger
  then show ?thesis by (rule load32_store_other)
qed

lemma load_store_links:
  "8 dvd x \<Longrightarrow> 8 dvd y \<Longrightarrow> load32 (store32 M (x + 8) v) (y + 12) = load32 M (y + 12)"
  "8 dvd x \<Longrightarrow> 8 dvd y \<Longrightarrow> load32 (store32 M (x + 12) v) (y + 8) = load32 M (y + 8)"
  "8 dvd x \<Longrightarrow> 8 dvd y \<Longrightarrow> x \<noteq> y \<Longrightarrow> load32 (store32 M (x + 8) v) (y + 8) = load32 M (y + 8)"
  "8 dvd x \<Longrightarrow> 8 dvd y \<Longrightarrow> x \<noteq> y \<Longrightarrow> load32 (store32 M (x + 12) v) (y + 12) = load32 M (y + 12)"
  by (rule load_store_aligned; presburger)+

text \<open>Redirecting the last forward pointer and the first back pointer of a segment.\<close>

lemma dseg_forward:
  assumes "dseg M q p (us @ [u]) e" "distinct (us @ [u])" "\<forall>x\<in>set (us @ [u]). 8 dvd x"
    and "n < 2 ^ 32"
  shows "dseg (store32 M (u + 12) n) q p (us @ [u]) n"
proof -
  have "u \<noteq> x" if "x \<in> set us" for x using assms(2) that by auto
  then have "dseg (store32 M (u + 12) n) q p us r = dseg M q p us r" for r
    by (intro dseg_cong load_store_links) (use assms(3) in auto)
  with assms show ?thesis by (auto simp: dseg_append load_store_links)
qed

lemma dseg_back:
  assumes "dseg M q p xs e" "distinct xs" "\<forall>x\<in>set xs. 8 dvd x" "xs \<noteq> []" "r < 2 ^ 32"
  shows "dseg (store32 M (hd xs + 8) r) r p xs e"
proof -
  obtain x ys where xs: "xs = x # ys" using assms(4) by (cases xs) auto
  have "x \<noteq> y" if "y \<in> set ys" for y using assms(2) xs that by auto
  then have "dseg (store32 M (x + 8) r) x l ys e = dseg M x l ys e" for l
    by (intro dseg_cong load_store_links) (use assms(3) xs in auto)
  with assms xs show ?thesis by (auto simp: load_store_links)
qed

end
