(* ===== verification/KMmBlk.thy ===== *)
theory KMmBlk
  imports KMem
begin

text \<open>
  Pools of small blocks, \<^verbatim>\<open>k_mm_blk.c\<close> and \<^verbatim>\<open>include/k_mm_blk.h\<close>. A pool is cut into slices
  of 1024 bytes; a slice serves blocks of one size, a power of two, which are cut off it one
  after the other; freed blocks are chained through their first word. The abstract state is
  the set of live blocks (\<open>mblk_live\<close>); the lemmas show that an allocation adds a block that
  was not live, large enough, inside the pool and disjoint from all others, without touching
  the memory, and that freeing it removes it and writes only into it.

  With \<^verbatim>\<open>RHINO_CONFIG_CPU_NUM\<close> 1 the locking variants are the \<open>_nolock\<close> ones.
\<close>

section \<open>Constants and data\<close>

definition RHINO_CONFIG_MM_TLF_BLK_SIZE :: nat where
  "RHINO_CONFIG_MM_TLF_BLK_SIZE = 0x800"

definition MM_BLK_SLICE_BIT :: nat where
  "MM_BLK_SLICE_BIT = 10"

definition MM_BLK_SLICE_SIZE :: nat where
  "MM_BLK_SLICE_SIZE = 2 ^ MM_BLK_SLICE_BIT"

definition MM_BLK_SLICE_NUM :: nat where
  "MM_BLK_SLICE_NUM = RHINO_CONFIG_MM_TLF_BLK_SIZE div MM_BLK_SLICE_SIZE"

definition MM_BLK_SIZE2TYPE :: "nat \<Rightarrow> nat" where
  "MM_BLK_SIZE2TYPE sz = 32 - krhino_clz32 (of_nat sz - 1)"

definition MM_BLK_TYPE2SIZE :: "nat \<Rightarrow> nat" where
  "MM_BLK_TYPE2SIZE type = 2 ^ type"

lemma mblk_consts [simp]:
  "MM_BLK_SLICE_BIT = 10" "MM_BLK_SLICE_SIZE = 1024" "MM_BLK_SLICE_NUM = 2"
  by (simp_all add: MM_BLK_SLICE_BIT_def MM_BLK_SLICE_SIZE_def MM_BLK_SLICE_NUM_def
      RHINO_CONFIG_MM_TLF_BLK_SIZE_def)

record mblk_list_t =
  blk_size :: nat
  fail_cnt :: nat
  freelist_cnt :: nat
  nofree_cnt :: nat
  list_slice_cnt :: nat
  slice_addr :: addr
  slice_offset :: nat
  free_head :: addr

record mblk_pool_t =
  pool_name :: string
  pool_start :: addr
  pool_end :: addr
  slice_cnt :: nat
  slice_type :: "nat list"
  blk_list :: "mblk_list_t list"

record mblk_info_t =
  info_pool_name :: string
  info_pool_size :: nat
  info_used_size :: nat
  info_max_used_size :: nat
  info_max_blk_size :: nat

definition zero_list :: mblk_list_t where
  "zero_list = \<lparr>blk_size = 0, fail_cnt = 0, freelist_cnt = 0, nofree_cnt = 0,
     list_slice_cnt = 0, slice_addr = 0, slice_offset = 0, free_head = 0\<rparr>"

definition upd_list :: "nat \<Rightarrow> (mblk_list_t \<Rightarrow> mblk_list_t) \<Rightarrow> mblk_pool_t \<Rightarrow> mblk_pool_t" where
  "upd_list t f P = P\<lparr>blk_list := (blk_list P)[t := f (blk_list P ! t)]\<rparr>"

section \<open>Operations\<close>

text \<open>The pool memory is cleared before the address and the size are checked. A null pointer
  is \<open>None\<close> (the pool, the name) or \<open>0\<close> (the memory).\<close>

definition krhino_mblk_pool_init ::
  "mem \<Rightarrow> mblk_pool_t option \<Rightarrow> string option \<Rightarrow> addr \<Rightarrow> nat \<Rightarrow>
   mem \<times> mblk_pool_t option \<times> kstat_t" where
  "krhino_mblk_pool_init M pool name start sz =
     (case (pool, name) of
        (Some P, Some nm) \<Rightarrow>
          if start = 0 then (M, pool, RHINO_NULL_PTR)
          else
            let M = mem_set M start sz in
            if start AND 3 \<noteq> 0 \<or> sz AND 3 \<noteq> 0 then (M, pool, RHINO_INV_ALIGN)
            else if sz mod MM_BLK_SLICE_SIZE \<noteq> 0 then (M, pool, RHINO_MM_POOL_SIZE_ERR)
            else
              (M, Some (P\<lparr>pool_name := nm, pool_start := start, pool_end := sz_add start sz,
                 slice_cnt := 0, slice_type := replicate MM_BLK_SLICE_NUM 0,
                 blk_list := map (\<lambda>t. zero_list\<lparr>blk_size := MM_BLK_TYPE2SIZE t\<rparr>)
                   [0..<MM_BLK_SLICE_BIT]\<rparr>), RHINO_SUCCESS)
      | _ \<Rightarrow> (M, pool, RHINO_NULL_PTR))"

text \<open>One pass of the loop of the allocation: from the free list, from a new slice, from the
  current slice; \<open>None\<close> is the \<^verbatim>\<open>continue\<close> to the next larger size.\<close>

definition mblk_new_slice :: "nat \<Rightarrow> mblk_pool_t \<Rightarrow> mblk_pool_t" where
  "mblk_new_slice t P =
     (let P = upd_list t (\<lambda>l. l\<lparr>slice_addr := sz_add (pool_start P) (slice_cnt P * MM_BLK_SLICE_SIZE)\<rparr>) P;
          P = P\<lparr>slice_type := (slice_type P)[slice_cnt P := t]\<rparr>;
          P = upd_list t (\<lambda>l. l\<lparr>slice_offset := 0\<rparr>) P;
          P = P\<lparr>slice_cnt := sz_add (slice_cnt P) 1\<rparr>
      in upd_list t (\<lambda>l. l\<lparr>list_slice_cnt := sz_add (list_slice_cnt l) 1\<rparr>) P)"

definition mblk_cut :: "nat \<Rightarrow> mblk_pool_t \<Rightarrow> mblk_pool_t \<times> addr" where
  "mblk_cut t P =
     (upd_list t (\<lambda>l. l\<lparr>slice_offset := sz_add (slice_offset l) (blk_size l)\<rparr>) P,
      sz_add (slice_addr (blk_list P ! t)) (slice_offset (blk_list P ! t)))"

definition mblk_take :: "mem \<Rightarrow> mblk_pool_t \<Rightarrow> nat \<Rightarrow> (mblk_pool_t \<times> addr) option" where
  "mblk_take M P t =
     (let l = blk_list P ! t in
      if free_head l \<noteq> 0 then
        Some (upd_list t (\<lambda>l. l\<lparr>free_head := load32 M (free_head l),
                freelist_cnt := sz_sub (freelist_cnt l) 1\<rparr>) P, free_head l)
      else if slice_addr l = 0 \<or> slice_offset l = MM_BLK_SLICE_SIZE then
        if slice_cnt P = MM_BLK_SLICE_NUM then None
        else Some (mblk_cut t (mblk_new_slice t P))
      else Some (mblk_cut t P))"

text \<open>The loop; with the address comes the list that served it, or was tried last.\<close>

function mblk_search ::
  "mem \<Rightarrow> mblk_pool_t \<Rightarrow> nat \<Rightarrow> nat option \<Rightarrow> mblk_pool_t \<times> nat option \<times> addr" where
  "mblk_search M P t lst =
     (if t < MM_BLK_SLICE_BIT then
        case mblk_take M P t of
          Some (P', a) \<Rightarrow> (P', Some t, a)
        | None \<Rightarrow> mblk_search M P (Suc t) (Some t)
      else (P, lst, 0))"
  by pat_completeness auto
termination by (relation "measure (\<lambda>(M, P, t, lst). MM_BLK_SLICE_BIT - t)") auto

declare mblk_search.simps [simp del]

definition krhino_mblk_alloc_nolock ::
  "mem \<Rightarrow> mblk_pool_t option \<Rightarrow> nat \<Rightarrow> mblk_pool_t option \<times> addr" where
  "krhino_mblk_alloc_nolock M pool sz =
     (case pool of
        None \<Rightarrow> (None, 0)
      | Some P \<Rightarrow>
          let sz = (if sz < 4 then 4 else sz);
              (P, lst, a) = mblk_search M P (MM_BLK_SIZE2TYPE sz) None
          in (Some (case lst of
                      None \<Rightarrow> P
                    | Some t \<Rightarrow>
                        upd_list t (\<lambda>l. if a = 0 then l\<lparr>fail_cnt := sz_add (fail_cnt l) 1\<rparr>
                                        else l\<lparr>nofree_cnt := sz_add (nofree_cnt l) 1\<rparr>) P), a))"

definition slice_idx :: "mblk_pool_t \<Rightarrow> addr \<Rightarrow> nat" where
  "slice_idx P blk = drop_bit MM_BLK_SLICE_BIT (sz_sub blk (pool_start P))"

definition krhino_mblk_free_nolock ::
  "mem \<Rightarrow> mblk_pool_t option \<Rightarrow> addr \<Rightarrow> mem \<times> mblk_pool_t option \<times> kstat_t" where
  "krhino_mblk_free_nolock M pool blk =
     (case pool of
        None \<Rightarrow> (M, None, RHINO_NULL_PTR)
      | Some P \<Rightarrow>
          if blk = 0 then (M, pool, RHINO_NULL_PTR)
          else if slice_idx P blk \<ge> MM_BLK_SLICE_NUM then (M, pool, RHINO_MM_FREE_ADDR_ERR)
          else
            let t = slice_type P ! slice_idx P blk in
            if t \<ge> MM_BLK_SLICE_BIT then (M, pool, RHINO_MM_FREE_ADDR_ERR)
            else
              (store32 M blk (free_head (blk_list P ! t)),
               Some (upd_list t (\<lambda>l. l\<lparr>free_head := blk, nofree_cnt := sz_sub (nofree_cnt l) 1,
                       freelist_cnt := sz_add (freelist_cnt l) 1\<rparr>) P),
               RHINO_SUCCESS))"

text \<open>The walk over the lists with the three running values of \<^verbatim>\<open>krhino_mblk_info_nolock\<close>.\<close>

fun mblk_sizes :: "mblk_list_t list \<Rightarrow> nat \<times> nat \<times> nat \<Rightarrow> nat \<times> nat \<times> nat" where
  "mblk_sizes [] s = s"
| "mblk_sizes (l # ls) (in_list, in_slice, bsize) =
     mblk_sizes ls
       (sz_add in_list (nofree_cnt l * blk_size l),
        if list_slice_cnt l > 0
        then sz_add in_slice ((list_slice_cnt l - 1) * MM_BLK_SLICE_SIZE + slice_offset l)
        else in_slice,
        if list_slice_cnt l > 0 then blk_size l else bsize)"

definition krhino_mblk_info_nolock ::
  "mblk_pool_t option \<Rightarrow> mblk_info_t option \<Rightarrow> mblk_info_t option \<times> kstat_t" where
  "krhino_mblk_info_nolock pool info =
     (case (pool, info) of
        (Some P, Some i) \<Rightarrow>
          let (in_list, in_slice, bsize) = mblk_sizes (blk_list P) (0, 0, 0)
          in (Some (i\<lparr>info_pool_name := pool_name P,
                info_pool_size := sz_sub (pool_end P) (pool_start P),
                info_used_size := in_list, info_max_used_size := in_slice,
                info_max_blk_size := bsize\<rparr>), RHINO_SUCCESS)
      | _ \<Rightarrow> (info, RHINO_NULL_PTR))"

definition krhino_mblk_alloc ::
  "mem \<Rightarrow> mblk_pool_t option \<Rightarrow> nat \<Rightarrow> mblk_pool_t option \<times> addr" where
  "krhino_mblk_alloc M pool sz =
     (case pool of None \<Rightarrow> (None, 0) | Some _ \<Rightarrow> krhino_mblk_alloc_nolock M pool sz)"

definition krhino_mblk_free ::
  "mem \<Rightarrow> mblk_pool_t option \<Rightarrow> addr \<Rightarrow> mem \<times> mblk_pool_t option \<times> kstat_t" where
  "krhino_mblk_free M pool blk =
     (if pool = None \<or> blk = 0 then (M, pool, RHINO_NULL_PTR)
      else krhino_mblk_free_nolock M pool blk)"

definition krhino_mblk_info ::
  "mblk_pool_t option \<Rightarrow> mblk_info_t option \<Rightarrow> mblk_info_t option \<times> kstat_t" where
  "krhino_mblk_info pool info =
     (if pool = None \<or> info = None then (info, RHINO_NULL_PTR)
      else krhino_mblk_info_nolock pool info)"

definition krhino_mblk_check :: "mblk_pool_t option \<Rightarrow> addr \<Rightarrow> bool" where
  "krhino_mblk_check pool blk =
     (case pool of None \<Rightarrow> False | Some P \<Rightarrow> pool_start P \<le> blk \<and> blk < pool_end P)"

definition krhino_mblk_get_size :: "mblk_pool_t \<Rightarrow> addr \<Rightarrow> nat" where
  "krhino_mblk_get_size P blk = blk_size (blk_list P ! (slice_type P ! slice_idx P blk))"

section \<open>Blocks\<close>

text \<open>How far slice \<open>i\<close>, which serves list \<open>t\<close>, has been cut, and the blocks cut so far.\<close>

definition cut_end :: "mblk_pool_t \<Rightarrow> nat \<Rightarrow> nat \<Rightarrow> nat" where
  "cut_end P t i =
     (if slice_addr (blk_list P ! t) = pool_start P + i * 1024
      then slice_offset (blk_list P ! t) else 1024)"

definition mblk_blocks :: "mblk_pool_t \<Rightarrow> nat \<Rightarrow> addr set" where
  "mblk_blocks P t =
     {pool_start P + i * 1024 + k * 2 ^ t | i k.
        i < slice_cnt P \<and> slice_type P ! i = t \<and> k * 2 ^ t < cut_end P t i}"

definition pool_shape :: "mblk_pool_t \<Rightarrow> bool" where
  "pool_shape P \<longleftrightarrow>
     length (slice_type P) = MM_BLK_SLICE_NUM \<and> length (blk_list P) = MM_BLK_SLICE_BIT \<and>
     slice_cnt P \<le> MM_BLK_SLICE_NUM \<and> 0 < pool_start P \<and> 4 dvd pool_start P \<and>
     pool_start P + MM_BLK_SLICE_NUM * MM_BLK_SLICE_SIZE \<le> pool_end P \<and> pool_end P < 2 ^ 32 \<and>
     (\<forall>i < slice_cnt P. 2 \<le> slice_type P ! i \<and> slice_type P ! i < MM_BLK_SLICE_BIT)"

definition list_shape :: "mblk_pool_t \<Rightarrow> nat \<Rightarrow> bool" where
  "list_shape P t \<longleftrightarrow>
     (let l = blk_list P ! t in
      blk_size l = 2 ^ t \<and>
      (if slice_addr l = 0 then \<forall>i < slice_cnt P. slice_type P ! i \<noteq> t
       else slice_offset l \<le> 1024 \<and> 2 ^ t dvd slice_offset l \<and>
         (\<exists>i < slice_cnt P. slice_type P ! i = t \<and> slice_addr l = pool_start P + i * 1024)))"

text \<open>The free lists: \<open>F t\<close> are the addresses chained from \<open>free_head\<close> of list \<open>t\<close>.\<close>

definition list_free :: "mem \<Rightarrow> mblk_pool_t \<Rightarrow> (nat \<Rightarrow> addr list) \<Rightarrow> nat \<Rightarrow> bool" where
  "list_free M P F t \<longleftrightarrow>
     chain 0 M (free_head (blk_list P ! t)) (F t) \<and> distinct (F t) \<and>
     set (F t) \<subseteq> mblk_blocks P t \<and>
     freelist_cnt (blk_list P ! t) = length (F t) mod 2 ^ 32"

definition mblk_ok :: "mem \<Rightarrow> mblk_pool_t \<Rightarrow> (nat \<Rightarrow> addr list) \<Rightarrow> bool" where
  "mblk_ok M P F \<longleftrightarrow>
     pool_shape P \<and> (\<forall>t<MM_BLK_SLICE_BIT. list_shape P t \<and> list_free M P F t)"

definition mblk_live :: "mblk_pool_t \<Rightarrow> (nat \<Rightarrow> addr list) \<Rightarrow> (addr \<times> nat) set" where
  "mblk_live P F = {(a, t). t < MM_BLK_SLICE_BIT \<and> a \<in> mblk_blocks P t \<and> a \<notin> set (F t)}"

text \<open>A power of two that divides a bound leaves room for one more block below it.\<close>

lemma pow2_room: "k * 2 ^ t < (n::nat) \<Longrightarrow> 2 ^ t dvd n \<Longrightarrow> k * 2 ^ t + 2 ^ t \<le> n"
  using dvd_room [of "2 ^ t" "k * 2 ^ t" n] by simp

lemma pow2_dvd_1024: "t < 10 \<Longrightarrow> (2::nat) ^ t dvd 1024"
  using le_imp_power_dvd [of t 10 "2::nat"] by simp

lemma cut_end_facts:
  assumes "list_shape P t" "i < slice_cnt P" "slice_type P ! i = t" "t < 10"
  shows "cut_end P t i \<le> 1024" "2 ^ t dvd cut_end P t i"
  using assms pow2_dvd_1024 [of t]
  by (auto simp: cut_end_def list_shape_def Let_def split: if_splits)

lemma block_bounds:
  assumes "mblk_ok M P F" "t < 10" "a \<in> mblk_blocks P t"
  shows "pool_start P \<le> a" "a + 2 ^ t \<le> pool_start P + 2048" "2 \<le> t" "4 dvd a" "4 \<le> (2::nat) ^ t"
    "0 < a" "a + 2 ^ t \<le> pool_end P"
proof -
  from assms have sh: "pool_shape P" "list_shape P t" by (simp_all add: mblk_ok_def)
  from assms(3) obtain i k where i: "i < slice_cnt P" "slice_type P ! i = t"
    and k: "k * 2 ^ t < cut_end P t i" and a: "a = pool_start P + i * 1024 + k * 2 ^ t"
    by (auto simp: mblk_blocks_def)
  have "k * 2 ^ t + 2 ^ t \<le> 1024"
    using cut_end_facts [OF sh(2) i assms(2)] pow2_room [OF k] by linarith
  moreover have "i \<le> 1" using i(1) sh(1) by (simp add: pool_shape_def)
  ultimately show "pool_start P \<le> a" and b: "a + 2 ^ t \<le> pool_start P + 2048" using a by simp_all
  show t: "2 \<le> t" using i sh(1) by (auto simp: pool_shape_def)
  have "(4::nat) dvd 2 ^ t" using le_imp_power_dvd [OF t, of "2::nat"] by simp
  then show "4 dvd a" using sh(1) a by (simp add: pool_shape_def dvd_mult)
  show "4 \<le> (2::nat) ^ t" using power_increasing [OF t, of "2::nat"] by simp
  show "0 < a" "a + 2 ^ t \<le> pool_end P" using sh(1) a b by (simp_all add: pool_shape_def)
qed

text \<open>Two different blocks do not overlap.\<close>

lemma blocks_disjoint:
  assumes ok: "mblk_ok M P F" and t: "t < 10" "a \<in> mblk_blocks P t"
    and u: "u < 10" "b \<in> mblk_blocks P u" and ne: "(a, t) \<noteq> (b, u)"
  shows "a + 2 ^ t \<le> b \<or> b + 2 ^ u \<le> a"
proof -
  from ok t u have sh: "list_shape P t" "list_shape P u" by (simp_all add: mblk_ok_def)
  from t(2) obtain i k where i: "i < slice_cnt P" "slice_type P ! i = t"
    and k: "k * 2 ^ t < cut_end P t i" and a: "a = pool_start P + i * 1024 + k * 2 ^ t"
    by (auto simp: mblk_blocks_def)
  from u(2) obtain j m where j: "j < slice_cnt P" "slice_type P ! j = u"
    and m: "m * 2 ^ u < cut_end P u j" and b: "b = pool_start P + j * 1024 + m * 2 ^ u"
    by (auto simp: mblk_blocks_def)
  have ka: "k * 2 ^ t + 2 ^ t \<le> 1024"
    using cut_end_facts [OF sh(1) i t(1)] pow2_room [OF k] by linarith
  have mb: "m * 2 ^ u + 2 ^ u \<le> 1024"
    using cut_end_facts [OF sh(2) j u(1)] pow2_room [OF m] by linarith
  consider "i < j" | "j < i" | "i = j" by linarith
  then show ?thesis
  proof cases
    case 1
    then have "(i + 1) * 1024 \<le> j * 1024" by (intro mult_le_mono1) simp
    with ka a b show ?thesis by simp
  next
    case 2
    then have "(j + 1) * 1024 \<le> i * 1024" by (intro mult_le_mono1) simp
    with mb a b show ?thesis by simp
  next
    case 3
    with i j have [simp]: "u = t" by simp
    with ne a b 3 have "k \<noteq> m" by auto
    then consider "Suc k \<le> m" | "Suc m \<le> k" by linarith
    then show ?thesis
    proof cases
      case 1
      then have "Suc k * 2 ^ t \<le> m * 2 ^ t" by (intro mult_le_mono1)
      with a b 3 show ?thesis by simp
    next
      case 2
      then have "Suc m * 2 ^ t \<le> k * 2 ^ t" by (intro mult_le_mono1)
      with a b 3 show ?thesis by simp
    qed
  qed
qed

section \<open>Allocation\<close>

lemma upd_list_sel [simp]:
  "pool_start (upd_list t f P) = pool_start P" "pool_end (upd_list t f P) = pool_end P"
  "slice_cnt (upd_list t f P) = slice_cnt P" "slice_type (upd_list t f P) = slice_type P"
  "pool_name (upd_list t f P) = pool_name P"
  "length (blk_list (upd_list t f P)) = length (blk_list P)"
  "u \<noteq> t \<Longrightarrow> blk_list (upd_list t f P) ! u = blk_list P ! u"
  "t < length (blk_list P) \<Longrightarrow> blk_list (upd_list t f P) ! t = f (blk_list P ! t)"
  by (simp_all add: upd_list_def)

lemma pool_shape_upd_list [simp]: "pool_shape (upd_list t f P) = pool_shape P"
  by (simp add: pool_shape_def)

text \<open>Changing the counters or the free list of a list does not move a block.\<close>

definition same_slices :: "mblk_list_t \<Rightarrow> mblk_list_t \<Rightarrow> bool" where
  "same_slices l l' \<longleftrightarrow> blk_size l' = blk_size l \<and> slice_addr l' = slice_addr l \<and>
     slice_offset l' = slice_offset l"

lemma upd_list_blocks:
  assumes "t < length (blk_list P)" "same_slices (blk_list P ! t) (f (blk_list P ! t))"
  shows "mblk_blocks (upd_list t f P) u = mblk_blocks P u"
    and "list_shape (upd_list t f P) u = list_shape P u"
  using assms
  by (cases "u = t"; simp add: mblk_blocks_def cut_end_def list_shape_def same_slices_def Let_def)+

lemma list_free_cong:
  "free_head (blk_list P' ! t) = free_head (blk_list P ! t) \<Longrightarrow>
   freelist_cnt (blk_list P' ! t) = freelist_cnt (blk_list P ! t) \<Longrightarrow>
   mblk_blocks P t \<subseteq> mblk_blocks P' t \<Longrightarrow> list_free M P F t \<Longrightarrow> list_free M P' F t"
  by (auto simp: list_free_def)

lemma mblk_okD:
  assumes "mblk_ok M P F" "t < 10"
  shows "pool_shape P" "list_shape P t" "list_free M P F t" "t < length (blk_list P)"
  using assms by (auto simp: mblk_ok_def pool_shape_def)

text \<open>Taking the head of the free list.\<close>

lemma mblk_pop:
  assumes ok: "mblk_ok M P F" and t: "t < 10" and h: "free_head (blk_list P ! t) \<noteq> 0"
    and P': "P' = upd_list t (\<lambda>l. l\<lparr>free_head := load32 M (free_head l),
                freelist_cnt := sz_sub (freelist_cnt l) 1\<rparr>) P"
  shows "mblk_ok M P' (F(t := tl (F t)))" and "mblk_blocks P' u = mblk_blocks P u"
    and "F t = free_head (blk_list P ! t) # tl (F t)"
    and "free_head (blk_list P ! t) \<in> mblk_blocks P t"
proof -
  note D = mblk_okD [OF ok t]
  from D(3) have ch: "chain 0 M (free_head (blk_list P ! t)) (F t)" and d: "distinct (F t)"
    and sub: "set (F t) \<subseteq> mblk_blocks P t"
    and cnt: "freelist_cnt (blk_list P ! t) = length (F t) mod 2 ^ 32"
    by (simp_all add: list_free_def)
  from chain_nonzero [OF h ch] obtain ys where ys: "F t = free_head (blk_list P ! t) # ys"
    "chain 0 M (load32 M (free_head (blk_list P ! t))) ys" by auto
  show bl: "mblk_blocks P' u = mblk_blocks P u" for u
    unfolding P' by (rule upd_list_blocks(1)) (use D in \<open>simp_all add: same_slices_def\<close>)
  have ls: "list_shape P' u = list_shape P u" for u
    unfolding P' by (rule upd_list_blocks(2)) (use D in \<open>simp_all add: same_slices_def\<close>)
  have "list_free M P' (F(t := tl (F t))) u" if u: "u < 10" for u
  proof (cases "u = t")
    case True
    have "freelist_cnt (blk_list P' ! t) = length ys mod 2 ^ 32"
      using cnt ys(1) D(4) sz_sub_mod [of 1 "length (F t)"] by (simp add: P')
    moreover have "free_head (blk_list P' ! t) = load32 M (free_head (blk_list P ! t))"
      using D(4) by (simp add: P')
    moreover have "distinct ys" "set ys \<subseteq> mblk_blocks P t" using d sub ys(1) by auto
    ultimately show ?thesis using True ys by (simp add: list_free_def bl)
  next
    case False
    with mblk_okD(3) [OF ok u] show ?thesis by (simp add: list_free_def bl) (simp add: P')
  qed
  with ok show "mblk_ok M P' (F(t := tl (F t)))" by (simp add: mblk_ok_def ls) (simp add: P')
  show "F t = free_head (blk_list P ! t) # tl (F t)" using ys(1) by (metis list.sel(3))
  show "free_head (blk_list P ! t) \<in> mblk_blocks P t"
    using sub ys(1) by (metis list.set_intros(1) subset_iff)
qed

text \<open>A new slice for list \<open>t\<close>, from which nothing is cut yet.\<close>

lemma new_slice_sel:
  assumes "t < length (blk_list P)"
  shows "pool_start (mblk_new_slice t P) = pool_start P" "pool_end (mblk_new_slice t P) = pool_end P"
    "slice_cnt (mblk_new_slice t P) = sz_add (slice_cnt P) 1"
    "slice_type (mblk_new_slice t P) = (slice_type P)[slice_cnt P := t]"
    "blk_list (mblk_new_slice t P) = (blk_list P)[t := (blk_list P ! t)\<lparr>
       slice_addr := sz_add (pool_start P) (slice_cnt P * 1024), slice_offset := 0,
       list_slice_cnt := sz_add (list_slice_cnt (blk_list P ! t)) 1\<rparr>]"
  using assms by (simp_all add: mblk_new_slice_def upd_list_def Let_def)

lemma mblk_new_slice_ok:
  assumes ok: "mblk_ok M P F" and t: "2 \<le> t" "t < 10" and c: "slice_cnt P \<noteq> 2"
    and e: "slice_addr (blk_list P ! t) = 0 \<or> slice_offset (blk_list P ! t) = 1024"
  shows "mblk_ok M (mblk_new_slice t P) F"
    and "mblk_blocks (mblk_new_slice t P) u = mblk_blocks P u"
    and "slice_addr (blk_list (mblk_new_slice t P) ! t) \<noteq> 0"
    and "slice_offset (blk_list (mblk_new_slice t P) ! t) = 0"
proof -
  let ?Q = "mblk_new_slice t P" and ?n = "slice_cnt P"
  note D = mblk_okD [OF ok t(2)]
  note sel = new_slice_sel [OF D(4)]
  from D(1) c have n: "?n < 2" and len: "length (slice_type P) = 2" "length (blk_list P) = 10"
    and start: "0 < pool_start P" "pool_start P + 2048 < 2 ^ 32"
    by (auto simp: pool_shape_def)
  have cnt: "slice_cnt ?Q = Suc ?n" using n by (simp add: sel sz_add_small)
  have addr: "sz_add (pool_start P) (?n * 1024) = pool_start P + ?n * 1024"
    using n start by (intro sz_add_small) linarith
  have type: "slice_type ?Q ! i = (if i = ?n then t else slice_type P ! i)" for i
    using n len by (simp add: sel nth_list_update)
  have lst: "blk_list ?Q ! t = (blk_list P ! t)\<lparr>slice_addr := pool_start P + ?n * 1024,
      slice_offset := 0, list_slice_cnt := sz_add (list_slice_cnt (blk_list P ! t)) 1\<rparr>"
    "\<And>v. v \<noteq> t \<Longrightarrow> blk_list ?Q ! v = blk_list P ! v"
    using D(4) by (simp_all add: sel addr)
  have full: "cut_end P t i = 1024" if "i < ?n" "slice_type P ! i = t" for i
    using e D(2) that by (auto simp: cut_end_def list_shape_def Let_def split: if_splits)
  have new: "cut_end ?Q t i = 1024" if "i < ?n" for i
    using that by (simp add: cut_end_def lst sel(1))
  have old: "cut_end ?Q v i = cut_end P v i" if "v \<noteq> t" for v i
    using that by (simp add: cut_end_def lst sel(1))
  have last: "cut_end ?Q t ?n = 0" by (simp add: cut_end_def lst sel(1))
  show bl: "mblk_blocks ?Q u = mblk_blocks P u" for u
  proof (cases "u = t")
    case True
    have "(i < Suc ?n \<and> slice_type ?Q ! i = t \<and> k * 2 ^ t < cut_end ?Q t i) =
        (i < ?n \<and> slice_type P ! i = t \<and> k * 2 ^ t < cut_end P t i)" for i k
      using full [of i] new [of i] last by (cases "i = ?n") (auto simp: type less_Suc_eq)
    with True show ?thesis by (simp add: mblk_blocks_def cnt sel(1))
  next
    case False
    then have "(i < Suc ?n \<and> slice_type ?Q ! i = u \<and> k * 2 ^ u < cut_end ?Q u i) =
        (i < ?n \<and> slice_type P ! i = u \<and> k * 2 ^ u < cut_end P u i)" for i k
      by (cases "i = ?n") (auto simp: type less_Suc_eq old)
    then show ?thesis by (simp add: mblk_blocks_def cnt sel(1))
  qed
  show a0: "slice_addr (blk_list ?Q ! t) \<noteq> 0" and "slice_offset (blk_list ?Q ! t) = 0"
    using start by (simp_all add: lst)
  have "pool_shape ?Q"
    using D(1) n t by (auto simp: pool_shape_def cnt sel(1,2) type) (simp_all add: sel)
  moreover have "list_shape ?Q v" if v: "v < 10" for v
  proof (cases "v = t")
    case True
    have "\<exists>i<Suc ?n. slice_type ?Q ! i = t \<and> pool_start P + ?n * 1024 = pool_start P + i * 1024"
      by (rule exI [of _ ?n]) (simp add: type)
    with True D(2) start show ?thesis by (simp add: list_shape_def lst cnt sel(1) Let_def)
  next
    case False
    have idx: "(i < Suc ?n \<and> slice_type ?Q ! i = v) = (i < ?n \<and> slice_type P ! i = v)" for i
      using False by (auto simp: type less_Suc_eq)
    have iff: "(\<exists>i<Suc ?n. slice_type ?Q ! i = v \<and> Q i) \<longleftrightarrow> (\<exists>i<?n. slice_type P ! i = v \<and> Q i)" for Q
      using idx by blast
    have all: "(\<forall>i<Suc ?n. slice_type ?Q ! i \<noteq> v) \<longleftrightarrow> (\<forall>i<?n. slice_type P ! i \<noteq> v)"
      using idx by blast
    from mblk_okD(2) [OF ok v] show ?thesis
      unfolding list_shape_def lst(2) [OF False] cnt sel(1) iff all .
  qed
  moreover have "list_free M ?Q F v" if v: "v < 10" for v
    by (rule list_free_cong [OF _ _ _ mblk_okD(3) [OF ok v]])
      (cases "v = t"; simp add: lst bl)+
  ultimately show "mblk_ok M ?Q F" by (simp add: mblk_ok_def)
qed

lemma slice_unique: "j * 1024 + x = i * 1024 + y \<Longrightarrow> x < 1024 \<Longrightarrow> y < (1024::nat) \<Longrightarrow> j = i"
proof -
  assume eq: "j * 1024 + x = i * 1024 + y" and "x < 1024" "y < (1024::nat)"
  then have "j = (j * 1024 + x) div 1024" "i = (i * 1024 + y) div 1024" by simp_all
  with eq show ?thesis by simp
qed

text \<open>Cutting the next block off the current slice.\<close>

lemma mblk_cut_ok:
  assumes ok: "mblk_ok M P F" and t: "t < 10"
    and e: "slice_addr (blk_list P ! t) \<noteq> 0" "slice_offset (blk_list P ! t) \<noteq> 1024"
    and c: "mblk_cut t P = (P', a)"
  shows "mblk_ok M P' F" and "mblk_blocks P' u = (if u = t then insert a (mblk_blocks P t) else mblk_blocks P u)"
    and "a \<notin> mblk_blocks P t"
proof -
  note D = mblk_okD [OF ok t]
  let ?l = "blk_list P ! t"
  from D(2) e obtain i where i: "i < slice_cnt P" "slice_type P ! i = t"
    and addr: "slice_addr ?l = pool_start P + i * 1024"
    and off: "slice_offset ?l < 1024" and dvd: "2 ^ t dvd slice_offset ?l" and bs: "blk_size ?l = 2 ^ t"
    by (auto simp: list_shape_def Let_def)
  from dvd obtain m where m: "slice_offset ?l = m * 2 ^ t" by (auto simp: dvd_def mult.commute)
  have room: "m * 2 ^ t + 2 ^ t \<le> 1024" using pow2_room pow2_dvd_1024 [OF t] off m by auto
  have "i < 2" "pool_start P + 2048 < 2 ^ 32" using i(1) D(1) by (auto simp: pool_shape_def)
  then have i2: "i * 1024 \<le> 1024" and bound: "pool_start P + i * 1024 + 1024 < 2 ^ 32" by linarith+
  have a: "a = pool_start P + i * 1024 + m * 2 ^ t"
    using c bound off by (simp add: mblk_cut_def addr m sz_add_small)
  have P': "P' = upd_list t (\<lambda>l. l\<lparr>slice_offset := sz_add (slice_offset l) (blk_size l)\<rparr>) P"
    using c by (simp add: mblk_cut_def)
  have lst: "blk_list P' ! t = ?l\<lparr>slice_offset := m * 2 ^ t + 2 ^ t\<rparr>"
    using D(4) room by (simp add: P' m bs sz_add_small)
  have lst': "\<And>v. v \<noteq> t \<Longrightarrow> blk_list P' ! v = blk_list P ! v" by (simp add: P')
  have sel: "pool_start P' = pool_start P" "slice_cnt P' = slice_cnt P" "slice_type P' = slice_type P"
    by (simp_all add: P')
  have same: "mblk_blocks P' v = mblk_blocks P v" if "v \<noteq> t" for v
    using that by (simp add: mblk_blocks_def cut_end_def sel lst')
  have cut: "k * 2 ^ t < cut_end P' t j \<longleftrightarrow> k * 2 ^ t < cut_end P t j \<or> j = i \<and> k = m" for j k
  proof (cases "j = i")
    case True
    have "k * 2 ^ t < m * 2 ^ t + 2 ^ t \<longleftrightarrow> k * 2 ^ t < Suc m * 2 ^ t" by (simp add: add.commute)
    also have "\<dots> \<longleftrightarrow> k < Suc m" by (simp only: mult_less_cancel2) simp
    finally show ?thesis using True by (auto simp: cut_end_def lst addr sel(1) m)
  next
    case False
    then show ?thesis by (simp add: cut_end_def lst addr sel(1))
  qed
  have grow: "mblk_blocks P' t = insert a (mblk_blocks P t)"
    unfolding mblk_blocks_def sel cut using i a by blast
  show bl: "mblk_blocks P' u = (if u = t then insert a (mblk_blocks P t) else mblk_blocks P u)" for u
    using same grow by simp
  show "a \<notin> mblk_blocks P t"
  proof
    assume "a \<in> mblk_blocks P t"
    then obtain j k where jk: "j < slice_cnt P" "slice_type P ! j = t" "k * 2 ^ t < cut_end P t j"
      "a = pool_start P + j * 1024 + k * 2 ^ t" by (auto simp: mblk_blocks_def)
    have "k * 2 ^ t < 1024" using jk(3) cut_end_facts(1) [OF D(2) jk(1,2) t] by simp
    with jk(4) a room have eq: "j * 1024 + k * 2 ^ t = i * 1024 + m * 2 ^ t" "k * 2 ^ t < 1024" "m * 2 ^ t < 1024"
      using off m by simp_all
    then have "j = i" by (rule slice_unique)
    with eq jk(3) show False by (simp add: cut_end_def addr m)
  qed
  have "list_shape P' v" if v: "v < 10" for v
  proof (cases "v = t")
    case True
    with D(2) addr i room e(1) show ?thesis by (auto simp: list_shape_def lst sel Let_def bs)
  next
    case False
    with mblk_okD(2) [OF ok v] show ?thesis by (simp add: list_shape_def lst' sel Let_def)
  qed
  moreover have "list_free M P' F v" if v: "v < 10" for v
    by (rule list_free_cong [OF _ _ _ mblk_okD(3) [OF ok v]])
      (cases "v = t"; auto simp: lst lst' bl)+
  ultimately show "mblk_ok M P' F" using ok by (simp add: mblk_ok_def) (simp add: P')
qed

text \<open>One successful pass: the block was not live, now it is, and nothing else changes.\<close>

lemma mblk_take_step:
  assumes ok: "mblk_ok M P F" and t: "2 \<le> t" "t < 10" and take: "mblk_take M P t = Some (P', a)"
  shows "\<exists>F'. mblk_ok M P' F' \<and> (a, t) \<notin> mblk_live P F \<and> a \<in> mblk_blocks P' t \<and>
    mblk_live P' F' = insert (a, t) (mblk_live P F)"
proof -
  note D = mblk_okD [OF ok t(2)]
  let ?l = "blk_list P ! t"
  have live: "\<exists>F'. mblk_ok M P' F' \<and> (a, t) \<notin> mblk_live P F \<and> a \<in> mblk_blocks P' t \<and>
      mblk_live P' F' = insert (a, t) (mblk_live P F)"
    if Q: "mblk_ok M Q F" "\<And>u. mblk_blocks Q u = mblk_blocks P u" "mblk_cut t Q = (P', a)"
      "slice_addr (blk_list Q ! t) \<noteq> 0" "slice_offset (blk_list Q ! t) \<noteq> 1024" for Q
  proof -
    note C = mblk_cut_ok [OF Q(1) t(2) Q(4,5,3)]
    have "a \<notin> set (F t)" using C(3) mblk_okD(3) [OF Q(1) t(2)] by (auto simp: list_free_def)
    with C t Q(2) have "mblk_live P' F = insert (a, t) (mblk_live P F)" "(a, t) \<notin> mblk_live P F"
      by (auto simp: mblk_live_def split: if_splits)
    with C show ?thesis by auto
  qed
  show ?thesis
  proof (cases "free_head ?l = 0")
    case False
    with take have P': "P' = upd_list t (\<lambda>l. l\<lparr>free_head := load32 M (free_head l),
        freelist_cnt := sz_sub (freelist_cnt l) 1\<rparr>) P" and a: "a = free_head ?l"
      by (simp_all add: mblk_take_def Let_def)
    note pop = mblk_pop [OF ok t(2) False P']
    have "a \<notin> set (tl (F t))" using pop(3) D(3) a
      by (metis distinct.simps(2) list_free_def)
    moreover have "set (F t) = insert a (set (tl (F t)))" using pop(3) a by (metis list.simps(15))
    moreover have "a \<in> mblk_blocks P t" using pop(4) a by simp
    ultimately have "mblk_live P' (F(t := tl (F t))) = insert (a, t) (mblk_live P F)"
      "(a, t) \<notin> mblk_live P F"
      using t by (auto simp: mblk_live_def pop(2))
    with pop a show ?thesis by blast
  next
    case head: True
    show ?thesis
    proof (cases "slice_addr ?l = 0 \<or> slice_offset ?l = 1024")
      case True
      with take head have c: "slice_cnt P \<noteq> 2" "mblk_cut t (mblk_new_slice t P) = (P', a)"
        by (auto simp: mblk_take_def Let_def split: if_splits)
      note new = mblk_new_slice_ok [OF ok t c(1) True]
      show ?thesis by (rule live [OF new(1,2) c(2) new(3)]) (simp add: new(4))
    next
      case False
      with take head show ?thesis
        by (intro live [OF ok refl]) (auto simp: mblk_take_def Let_def)
    qed
  qed
qed

lemma mblk_take_frame:
  assumes "t < length (blk_list P)" "mblk_take M P t = Some (P', a)"
  shows "pool_start P' = pool_start P" "pool_end P' = pool_end P" "pool_name P' = pool_name P"
    and "nofree_cnt (blk_list P' ! u) = nofree_cnt (blk_list P ! u)"
  using assms
  by (auto simp: mblk_take_def mblk_cut_def mblk_new_slice_def upd_list_def Let_def nth_list_update
      split: if_splits)

text \<open>A pass fails only when the list has no free block, nothing is left to cut and no slice
  can be added.\<close>

lemma mblk_take_None:
  assumes ok: "mblk_ok M P F" and t: "t < 10" and take: "mblk_take M P t = None"
  shows "F t = []" "slice_cnt P = MM_BLK_SLICE_NUM"
    "\<forall>i < slice_cnt P. slice_type P ! i = t \<longrightarrow> cut_end P t i = 1024"
proof -
  note D = mblk_okD [OF ok t]
  from take have n: "free_head (blk_list P ! t) = 0" "slice_cnt P = MM_BLK_SLICE_NUM"
    "slice_addr (blk_list P ! t) = 0 \<or> slice_offset (blk_list P ! t) = 1024"
    by (auto simp: mblk_take_def Let_def split: if_splits)
  then show "slice_cnt P = MM_BLK_SLICE_NUM" by simp
  show "F t = []" using D(3) n(1) by (simp add: list_free_def chain_0)
  show "\<forall>i < slice_cnt P. slice_type P ! i = t \<longrightarrow> cut_end P t i = 1024"
    using n(3) D(2) by (auto simp: cut_end_def list_shape_def Let_def split: if_splits)
qed

text \<open>The whole loop.\<close>

definition exhausted :: "mblk_pool_t \<Rightarrow> (nat \<Rightarrow> addr list) \<Rightarrow> nat \<Rightarrow> bool" where
  "exhausted P F t \<longleftrightarrow> F t = [] \<and> slice_cnt P = MM_BLK_SLICE_NUM \<and>
     (\<forall>i < slice_cnt P. slice_type P ! i = t \<longrightarrow> cut_end P t i = 1024)"

lemma mblk_search_ok:
  assumes "mblk_ok M P F" "2 \<le> t" "mblk_search M P t lst = (P', lst', a)"
  shows "if a = 0 then P' = P \<and> (\<forall>u. t \<le> u \<and> u < 10 \<longrightarrow> exhausted P F u)
    else \<exists>u. t \<le> u \<and> u < 10 \<and> lst' = Some u \<and> mblk_take M P u = Some (P', a)"
  using assms
proof (induction "10 - t" arbitrary: t lst)
  case 0
  then show ?case by (auto simp: mblk_search.simps [of M P t])
next
  case (Suc n)
  then have t: "t < 10" by simp
  show ?case
  proof (cases "mblk_take M P t")
    case None
    have IH: "if a = 0 then P' = P \<and> (\<forall>u. Suc t \<le> u \<and> u < 10 \<longrightarrow> exhausted P F u)
        else \<exists>u. Suc t \<le> u \<and> u < 10 \<and> lst' = Some u \<and> mblk_take M P u = Some (P', a)"
      using Suc.prems None t Suc.hyps(2)
      by (intro Suc.hyps(1) [of "Suc t" "Some t"]) (auto simp: mblk_search.simps [of M P t])
    have ex: "exhausted P F t" using mblk_take_None [OF Suc.prems(1) t None] by (simp add: exhausted_def)
    show ?thesis
    proof (cases "a = 0")
      case True
      have "exhausted P F u" if "t \<le> u" "u < 10" for u
        using True IH ex that by (cases "u = t") auto
      with True IH show ?thesis by simp
    next
      case False
      with IH show ?thesis using Suc_leD by auto
    qed
  next
    case (Some r)
    with Suc.prems t have r: "r = (P', a)" "lst' = Some t"
      by (cases r; auto simp: mblk_search.simps [of M P t])+
    obtain F' where "mblk_ok M P' F'" "a \<in> mblk_blocks P' t"
      using mblk_take_step [OF Suc.prems(1,2) t] Some r by blast
    then have "a \<noteq> 0" using block_bounds(6) t by blast
    with r Some t show ?thesis by auto
  qed
qed

text \<open>The size class of a request: the least power of two that is large enough.\<close>

lemma MM_BLK_SIZE2TYPE_range:
  assumes "4 \<le> n" "n < 2 ^ 32"
  shows "n \<le> 2 ^ MM_BLK_SIZE2TYPE n" "2 \<le> MM_BLK_SIZE2TYPE n"
    "n \<le> 2 ^ u \<Longrightarrow> MM_BLK_SIZE2TYPE n \<le> u"
proof -
  obtain k where k: "2 ^ k \<le> n - 1" "n - 1 < 2 ^ Suc k" using log2_range [of "n - 1"] assms by auto
  have k32: "k < 32"
  proof (rule ccontr)
    assume "\<not> k < 32"
    then have "(2::nat) ^ 32 \<le> 2 ^ k" by (intro power_increasing) simp_all
    with k(1) assms show False by linarith
  qed
  have "of_nat n - 1 = (of_nat (n - 1) :: u32)" using assms by simp
  with krhino_clz32_range [OF k k32] k32 have type: "MM_BLK_SIZE2TYPE n = Suc k"
    by (simp add: MM_BLK_SIZE2TYPE_def)
  show "n \<le> 2 ^ MM_BLK_SIZE2TYPE n" using k(2) unfolding type by linarith
  have "0 < k"
  proof (rule ccontr)
    assume "\<not> 0 < k" with k(2) assms(1) show False by simp
  qed
  then show "2 \<le> MM_BLK_SIZE2TYPE n" by (simp add: type)
  show "MM_BLK_SIZE2TYPE n \<le> u" if "n \<le> 2 ^ u"
  proof (rule ccontr)
    assume "\<not> MM_BLK_SIZE2TYPE n \<le> u"
    then have "(2::nat) ^ u \<le> 2 ^ k" by (intro power_increasing) (simp_all add: type)
    with k(1) that assms show False by linarith
  qed
qed

text \<open>The counters of the live blocks.\<close>

definition mblk_counts :: "mblk_pool_t \<Rightarrow> (nat \<Rightarrow> addr list) \<Rightarrow> bool" where
  "mblk_counts P F \<longleftrightarrow>
     (\<forall>t<MM_BLK_SLICE_BIT. nofree_cnt (blk_list P ! t) = card {a. (a, t) \<in> mblk_live P F} mod 2 ^ 32)"

definition mblk_rep :: "mem \<Rightarrow> mblk_pool_t \<Rightarrow> (nat \<Rightarrow> addr list) \<Rightarrow> bool" where
  "mblk_rep M P F \<longleftrightarrow> mblk_ok M P F \<and> mblk_counts P F"

lemma finite_blocks [simp]: "finite (mblk_blocks P t)"
proof (rule finite_subset)
  show "mblk_blocks P t \<subseteq> (\<lambda>(i, n). pool_start P + i * 1024 + n) `
      ({..<slice_cnt P} \<times> {..<max 1024 (slice_offset (blk_list P ! t))})"
    by (force simp: mblk_blocks_def cut_end_def split: if_splits)
qed simp

lemma finite_live [simp]: "finite {a. (a, t) \<in> mblk_live P F}"
  by (rule finite_subset [OF _ finite_blocks [of P t]]) (auto simp: mblk_live_def)

lemma mblk_rep_upd:
  assumes "t < length (blk_list P)" "same_slices (blk_list P ! t) (f (blk_list P ! t))"
    and "free_head (f (blk_list P ! t)) = free_head (blk_list P ! t)"
    and "freelist_cnt (f (blk_list P ! t)) = freelist_cnt (blk_list P ! t)"
  shows "mblk_ok M (upd_list t f P) F = mblk_ok M P F"
    and "mblk_live (upd_list t f P) F = mblk_live P F"
proof -
  note bl = upd_list_blocks [of t P f, OF assms(1,2)]
  have "list_free M (upd_list t f P) F u = list_free M P F u" for u
    using assms by (cases "u = t") (simp_all add: list_free_def bl)
  then show "mblk_ok M (upd_list t f P) F = mblk_ok M P F" by (simp add: mblk_ok_def bl)
  show "mblk_live (upd_list t f P) F = mblk_live P F" by (simp add: mblk_live_def bl)
qed

lemma upd_list_beyond: "\<not> t < length (blk_list P) \<Longrightarrow> upd_list t f P = P"
  by (simp add: upd_list_def list_update_beyond)

lemma mblk_rep_fail_cnt:
  assumes "mblk_rep M P F"
  shows "mblk_rep M (upd_list t (\<lambda>l. l\<lparr>fail_cnt := n l\<rparr>) P) F"
    and "mblk_live (upd_list t (\<lambda>l. l\<lparr>fail_cnt := n l\<rparr>) P) F = mblk_live P F"
proof -
  let ?f = "\<lambda>l. l\<lparr>fail_cnt := n l\<rparr>"
  have "mblk_rep M (upd_list t ?f P) F \<and> mblk_live (upd_list t ?f P) F = mblk_live P F"
  proof (cases "t < length (blk_list P)")
    case True
    note U = mblk_rep_upd [OF True, of ?f]
    have live: "mblk_live (upd_list t ?f P) F = mblk_live P F"
      by (rule U(2)) (simp_all add: same_slices_def)
    have "nofree_cnt (blk_list (upd_list t ?f P) ! u) = nofree_cnt (blk_list P ! u)" for u
      using True by (cases "u = t") simp_all
    with live assms have "mblk_counts (upd_list t ?f P) F" by (simp add: mblk_rep_def mblk_counts_def)
    moreover have "mblk_ok M (upd_list t ?f P) F"
      using assms by (subst U(1)) (simp_all add: same_slices_def mblk_rep_def)
    ultimately show ?thesis using live by (simp add: mblk_rep_def)
  next
    case False
    with assms show ?thesis by (simp add: upd_list_beyond)
  qed
  then show "mblk_rep M (upd_list t ?f P) F" "mblk_live (upd_list t ?f P) F = mblk_live P F" by auto
qed

text \<open>A successful pass followed by the count.\<close>

lemma mblk_take_counted:
  assumes rep: "mblk_rep M P F" and t: "2 \<le> t" "t < 10" and take: "mblk_take M P t = Some (P1, a)"
    and P': "P' = upd_list t (\<lambda>l. l\<lparr>nofree_cnt := sz_add (nofree_cnt l) 1\<rparr>) P1"
  shows "\<exists>F'. mblk_rep M P' F' \<and> (a, t) \<notin> mblk_live P F \<and>
    mblk_live P' F' = insert (a, t) (mblk_live P F)"
    and "pool_start P' = pool_start P" "pool_end P' = pool_end P" "pool_name P' = pool_name P"
proof -
  from rep have ok: "mblk_ok M P F" and cnt: "mblk_counts P F" by (auto simp: mblk_rep_def)
  have len: "t < length (blk_list P)" using mblk_okD(4) [OF ok t(2)] .
  note fr = mblk_take_frame [OF len take]
  obtain F' where F': "mblk_ok M P1 F'" "(a, t) \<notin> mblk_live P F"
    "mblk_live P1 F' = insert (a, t) (mblk_live P F)"
    using mblk_take_step [OF ok t take] by auto
  have len1: "t < length (blk_list P1)" using mblk_okD(4) [OF F'(1) t(2)] .
  note U = mblk_rep_upd [OF len1, of "\<lambda>l. l\<lparr>nofree_cnt := sz_add (nofree_cnt l) 1\<rparr>"]
  have live: "mblk_live P' F' = insert (a, t) (mblk_live P F)"
    using U(2) F'(3) by (simp add: P' same_slices_def)
  have "nofree_cnt (blk_list P' ! u) = card {b. (b, u) \<in> mblk_live P' F'} mod 2 ^ 32" if "u < 10" for u
  proof (cases "u = t")
    case True
    have "{b. (b, t) \<in> mblk_live P' F'} = insert a {b. (b, t) \<in> mblk_live P F}" by (auto simp: live)
    then have "card {b. (b, t) \<in> mblk_live P' F'} = card {b. (b, t) \<in> mblk_live P F} + 1"
      using F'(2) by simp
    moreover have "nofree_cnt (blk_list P ! t) = card {b. (b, t) \<in> mblk_live P F} mod 2 ^ 32"
      using cnt t(2) by (simp add: mblk_counts_def)
    ultimately show ?thesis using True len1 by (simp add: P' fr(4) sz_add_mod [simplified])
  next
    case False
    then have "{b. (b, u) \<in> mblk_live P' F'} = {b. (b, u) \<in> mblk_live P F}" by (auto simp: live)
    with False that cnt show ?thesis by (simp add: P' fr(4) mblk_counts_def)
  qed
  then have "mblk_counts P' F'" by (simp add: mblk_counts_def)
  moreover have "mblk_ok M P' F'" using F'(1) U(1) by (simp add: P' same_slices_def)
  ultimately show "\<exists>F'. mblk_rep M P' F' \<and> (a, t) \<notin> mblk_live P F \<and>
      mblk_live P' F' = insert (a, t) (mblk_live P F)"
    using live F'(2) by (auto simp: mblk_rep_def)
  show "pool_start P' = pool_start P" "pool_end P' = pool_end P" "pool_name P' = pool_name P"
    using fr by (simp_all add: P')
qed

lemma mblk_alloc_ok:
  assumes rep: "mblk_rep M P F" and n: "sz < 2 ^ 32"
    and alloc: "krhino_mblk_alloc_nolock M (Some P) sz = (po, a)"
  shows "\<exists>P' F'. po = Some P' \<and> mblk_rep M P' F' \<and> pool_start P' = pool_start P \<and>
    pool_end P' = pool_end P \<and> pool_name P' = pool_name P \<and>
    (if a = 0
     then mblk_live P' F' = mblk_live P F \<and> (\<forall>u<10. sz \<le> 2 ^ u \<and> 2 \<le> u \<longrightarrow> exhausted P F u)
     else \<exists>t. 2 \<le> t \<and> sz \<le> 2 ^ t \<and> (a, t) \<notin> mblk_live P F \<and> mblk_live P' F' = insert (a, t) (mblk_live P F))"
proof -
  let ?n = "if sz < 4 then 4 else sz" let ?t = "MM_BLK_SIZE2TYPE ?n"
  have n4: "4 \<le> ?n" "?n < 2 ^ 32" "sz \<le> ?n" using n by auto
  note T = MM_BLK_SIZE2TYPE_range [OF n4(1,2)]
  from rep have ok: "mblk_ok M P F" by (auto simp: mblk_rep_def)
  obtain P1 lst where srch: "mblk_search M P ?t None = (P1, lst, a)" and
    po: "po = Some (case lst of None \<Rightarrow> P1 | Some t \<Rightarrow>
           upd_list t (\<lambda>l. if a = 0 then l\<lparr>fail_cnt := sz_add (fail_cnt l) 1\<rparr>
                           else l\<lparr>nofree_cnt := sz_add (nofree_cnt l) 1\<rparr>) P1)"
    using alloc by (auto simp: krhino_mblk_alloc_nolock_def Let_def split: prod.splits)
  note S = mblk_search_ok [OF ok T(2) srch]
  show ?thesis
  proof (cases "a = 0")
    case True
    with S have S0: "P1 = P" "\<And>u. ?t \<le> u \<Longrightarrow> u < 10 \<Longrightarrow> exhausted P F u" by auto
    have "exhausted P F u" if "u < 10" "sz \<le> 2 ^ u" "2 \<le> u" for u
    proof (rule S0(2) [OF T(3) that(1)])
      show "?n \<le> 2 ^ u" using that power_increasing [OF that(3), of "2::nat"] by simp
    qed
    then have ex: "\<forall>u<10. sz \<le> 2 ^ u \<and> 2 \<le> u \<longrightarrow> exhausted P F u" by blast
    define P' where "P' = (case lst of None \<Rightarrow> P | Some t \<Rightarrow>
        upd_list t (\<lambda>l. l\<lparr>fail_cnt := sz_add (fail_cnt l) 1\<rparr>) P)"
    have "mblk_rep M P' F \<and> mblk_live P' F = mblk_live P F \<and> pool_start P' = pool_start P \<and>
        pool_end P' = pool_end P \<and> pool_name P' = pool_name P"
      using rep mblk_rep_fail_cnt [OF rep] by (cases lst) (simp_all add: P'_def)
    moreover have "po = Some P'" using True by (cases lst) (simp_all add: po P'_def S0(1))
    ultimately show ?thesis using True ex by auto
  next
    case False
    with S obtain u where u: "?t \<le> u" "u < 10" "lst = Some u" "mblk_take M P u = Some (P1, a)" by auto
    have u2: "2 \<le> u" using T(2) u(1) by linarith
    define P' where "P' = upd_list u (\<lambda>l. l\<lparr>nofree_cnt := sz_add (nofree_cnt l) 1\<rparr>) P1"
    note K = mblk_take_counted [OF rep u2 u(2,4) P'_def]
    have po': "po = Some P'" using False u(3) by (simp add: po P'_def)
    have "?n \<le> 2 ^ u" using T(1) power_increasing [OF u(1), of "2::nat"] by linarith
    then have "sz \<le> 2 ^ u" using n4(3) by linarith
    with K False u2 po' show ?thesis by auto
  qed
qed

section \<open>Release\<close>

lemma slice_idx_block:
  assumes ok: "mblk_ok M P F" and t: "t < 10" "a \<in> mblk_blocks P t"
  shows "slice_idx P a < 2" "slice_type P ! slice_idx P a = t"
proof -
  from t(2) obtain i k where i: "i < slice_cnt P" "slice_type P ! i = t"
    and k: "k * 2 ^ t < cut_end P t i" and a: "a = pool_start P + i * 1024 + k * 2 ^ t"
    by (auto simp: mblk_blocks_def)
  have "k * 2 ^ t < 1024"
    using k cut_end_facts(1) [OF mblk_okD(2) [OF ok t(1)] i t(1)] by linarith
  moreover have "sz_sub a (pool_start P) = i * 1024 + k * 2 ^ t" by (simp add: a sz_sub_small)
  ultimately have "slice_idx P a = i" by (simp add: slice_idx_def drop_bit_eq_div)
  moreover have "i < 2" using i(1) mblk_okD(1) [OF ok t(1)] by (auto simp: pool_shape_def)
  ultimately show "slice_idx P a < 2" "slice_type P ! slice_idx P a = t" using i by simp_all
qed

text \<open>The head of a free list is an address, and writing a link into a live block leaves the
  free lists alone.\<close>

lemma free_head_less:
  assumes ok: "mblk_ok M P F" and t: "t < 10" shows "free_head (blk_list P ! t) < 2 ^ 32"
proof (cases "F t")
  case Nil
  then show ?thesis using mblk_okD(3) [OF ok t] by (simp add: list_free_def)
next
  case (Cons b bs)
  then have "free_head (blk_list P ! t) = b" "b \<in> mblk_blocks P t"
    using mblk_okD(3) [OF ok t] by (auto simp: list_free_def)
  then show ?thesis using block_bounds(7) [OF ok t] mblk_okD(1) [OF ok t] unfolding pool_shape_def
    by (metis add_leE less_le_trans not_le)
qed

lemma chain_store_live:
  assumes ok: "mblk_ok M P F" and live: "(a, t) \<in> mblk_live P F" and u: "u < 10"
  shows "chain 0 (store32 M a v) p (F u) = chain 0 M p (F u)"
proof (rule chain_cong)
  fix b assume b: "b \<in> set (F u)"
  from live have t: "t < 10" "a \<in> mblk_blocks P t" "a \<notin> set (F t)" by (auto simp: mblk_live_def)
  have bb: "b \<in> mblk_blocks P u" using mblk_okD(3) [OF ok u] b by (auto simp: list_free_def)
  have "(a, t) \<noteq> (b, u)" using b t(3) by auto
  with blocks_disjoint [OF ok t(1,2) u bb] have "a + 4 \<le> b \<or> b + 4 \<le> a"
    using block_bounds(5) [OF ok t(1,2)] block_bounds(5) [OF ok u bb] by linarith
  then show "load32 (store32 M a v) (b + 0) = load32 M (b + 0)" by (simp add: load32_store_other)
qed

text \<open>Linking a live block into the free list of its size.\<close>

lemma mblk_push:
  assumes ok: "mblk_ok M P F" and live: "(a, t) \<in> mblk_live P F"
    and M': "M' = store32 M a (free_head (blk_list P ! t))"
    and P': "P' = upd_list t (\<lambda>l. l\<lparr>free_head := a, nofree_cnt := sz_sub (nofree_cnt l) 1,
        freelist_cnt := sz_add (freelist_cnt l) 1\<rparr>) P"
  shows "mblk_ok M' P' (F(t := a # F t))"
    and "mblk_live P' (F(t := a # F t)) = mblk_live P F - {(a, t)}"
proof -
  from live have t: "t < 10" "a \<in> mblk_blocks P t" "a \<notin> set (F t)" by (auto simp: mblk_live_def)
  note D = mblk_okD [OF ok t(1)] and B = block_bounds [OF ok t(1,2)]
  have U: "mblk_blocks P' u = mblk_blocks P u" "list_shape P' u = list_shape P u" for u
    unfolding P' by (rule upd_list_blocks; simp add: D(4) same_slices_def)+
  have ch: "chain 0 M' p (F u) = chain 0 M p (F u)" if "u < 10" for u p
    unfolding M' by (rule chain_store_live [OF ok live that])
  have head: "load32 M' a = free_head (blk_list P ! t)"
    using free_head_less [OF ok t(1)] by (simp add: M')
  have "list_free M' P' (F(t := a # F t)) u" if u: "u < 10" for u
  proof (cases "u = t")
    case True
    have "freelist_cnt (blk_list P' ! t) = (length (F t) + 1) mod 2 ^ 32"
      using D(3,4) by (simp add: P' list_free_def sz_add_mod [simplified])
    moreover have "free_head (blk_list P' ! t) = a" using D(4) by (simp add: P')
    ultimately show ?thesis using True D(3) t B(6) ch [OF t(1)] head by (simp add: list_free_def U)
  next
    case False
    with mblk_okD(3) [OF ok u] ch [OF u] show ?thesis by (simp add: list_free_def U) (simp add: P')
  qed
  with ok show "mblk_ok M' P' (F(t := a # F t))" by (simp add: mblk_ok_def U) (simp add: P')
  show "mblk_live P' (F(t := a # F t)) = mblk_live P F - {(a, t)}"
    by (auto simp: mblk_live_def U split: if_splits)
qed

lemma mblk_free_ok:
  assumes rep: "mblk_rep M P F" and live: "(a, t) \<in> mblk_live P F"
    and free: "krhino_mblk_free_nolock M (Some P) a = (M', po, r)"
  shows "r = RHINO_SUCCESS" and "same_outside {a..<a + 2 ^ t} M M'"
    and "\<exists>P' F'. po = Some P' \<and> mblk_rep M' P' F' \<and> pool_start P' = pool_start P \<and>
      pool_end P' = pool_end P \<and> pool_name P' = pool_name P \<and>
      mblk_live P' F' = mblk_live P F - {(a, t)}"
proof -
  from rep have ok: "mblk_ok M P F" and cnt: "mblk_counts P F" by (auto simp: mblk_rep_def)
  from live have t: "t < 10" "a \<in> mblk_blocks P t" by (auto simp: mblk_live_def)
  note D = mblk_okD [OF ok t(1)] and B = block_bounds [OF ok t] and I = slice_idx_block [OF ok t]
  let ?F = "F(t := a # F t)" and ?L = "\<lambda>u. {b. (b, u) \<in> mblk_live P F}"
  define P' where "P' = upd_list t (\<lambda>l. l\<lparr>free_head := a, nofree_cnt := sz_sub (nofree_cnt l) 1,
      freelist_cnt := sz_add (freelist_cnt l) 1\<rparr>) P"
  have res: "M' = store32 M a (free_head (blk_list P ! t))" "po = Some P'" "r = RHINO_SUCCESS"
    using free I B(6) t(1) by (simp_all add: krhino_mblk_free_nolock_def P'_def Let_def)
  then show "r = RHINO_SUCCESS" by simp
  show "same_outside {a..<a + 2 ^ t} M M'"
    unfolding res(1) using B(5) by (intro same_outside_store) auto
  note push = mblk_push [OF ok live res(1) P'_def]
  have "nofree_cnt (blk_list P' ! u) = card {b. (b, u) \<in> mblk_live P' ?F} mod 2 ^ 32" if u: "u < 10" for u
  proof (cases "u = t")
    case True
    have "{b. (b, t) \<in> mblk_live P' ?F} = ?L t - {a}" by (auto simp: push(2))
    then have "card {b. (b, t) \<in> mblk_live P' ?F} = card (?L t) - 1" using live by simp
    moreover have "0 < card (?L t)" using live by (auto simp: card_gt_0_iff)
    moreover have "nofree_cnt (blk_list P ! t) = card (?L t) mod 2 ^ 32"
      using cnt t(1) by (simp add: mblk_counts_def)
    ultimately show ?thesis using True D(4) sz_sub_mod [of 1 "card (?L t)"] by (simp add: P'_def)
  next
    case False
    then have "{b. (b, u) \<in> mblk_live P' ?F} = ?L u" by (auto simp: push(2))
    with False u cnt show ?thesis by (simp add: P'_def mblk_counts_def)
  qed
  with push(1) have "mblk_rep M' P' ?F" by (simp add: mblk_rep_def mblk_counts_def)
  with res push(2) show "\<exists>P' F'. po = Some P' \<and> mblk_rep M' P' F' \<and> pool_start P' = pool_start P \<and>
      pool_end P' = pool_end P \<and> pool_name P' = pool_name P \<and>
      mblk_live P' F' = mblk_live P F - {(a, t)}"
    by (intro exI [of _ P'] exI [of _ ?F]) (simp add: P'_def)
qed

section \<open>A new pool\<close>

lemma mblk_init_ok:
  assumes "start \<noteq> 0" "4 dvd start" "start + 2048 < 2 ^ 32"
    and init: "krhino_mblk_pool_init M (Some P) (Some nm) start 2048 = (M', po, r)"
  shows "r = RHINO_SUCCESS" "M' = mem_set M start 2048"
    and "\<exists>P'. po = Some P' \<and> mblk_rep M' P' (\<lambda>_. []) \<and> mblk_live P' (\<lambda>_. []) = {} \<and>
      pool_start P' = start \<and> pool_end P' = start + 2048 \<and> pool_name P' = nm"
proof -
  have al: "start AND 3 = 0"
  proof -
    have "start AND 3 = start mod 4" using take_bit_eq_mod [of 2 start] take_bit_eq_mask [of 2 start]
      by (simp add: mask_eq_exp_minus_1)
    with assms(2) show ?thesis by simp
  qed
  define P' where "P' = P\<lparr>pool_name := nm, pool_start := start, pool_end := start + 2048,
      slice_cnt := 0, slice_type := replicate 2 0,
      blk_list := map (\<lambda>t. zero_list\<lparr>blk_size := MM_BLK_TYPE2SIZE t\<rparr>) [0..<10]\<rparr>"
  have e: "sz_add start 2048 = start + 2048" using assms(3) by (simp add: sz_add_small)
  have res: "M' = mem_set M start 2048" "po = Some P'" "r = RHINO_SUCCESS"
    using init assms(1) al by (simp_all add: krhino_mblk_pool_init_def Let_def P'_def e)
  then show "r = RHINO_SUCCESS" "M' = mem_set M start 2048" by simp_all
  have none: "mblk_blocks P' u = {}" for u by (simp add: mblk_blocks_def P'_def)
  have l: "blk_list P' ! u = zero_list\<lparr>blk_size := 2 ^ u\<rparr>" if "u < 10" for u
    using that by (simp add: P'_def MM_BLK_TYPE2SIZE_def)
  have "pool_shape P'" using assms by (simp add: pool_shape_def P'_def)
  moreover have "list_shape P' u \<and> list_free M' P' (\<lambda>_. []) u" if "u < 10" for u
    by (simp add: list_shape_def list_free_def none l [OF that]) (simp add: zero_list_def P'_def)
  ultimately have "mblk_ok M' P' (\<lambda>_. [])" by (simp add: mblk_ok_def)
  moreover have live: "mblk_live P' (\<lambda>_. []) = {}" by (simp add: mblk_live_def none)
  moreover have "mblk_counts P' (\<lambda>_. [])" by (simp add: mblk_counts_def live l) (simp add: zero_list_def)
  ultimately show "\<exists>P'. po = Some P' \<and> mblk_rep M' P' (\<lambda>_. []) \<and> mblk_live P' (\<lambda>_. []) = {} \<and>
      pool_start P' = start \<and> pool_end P' = start + 2048 \<and> pool_name P' = nm"
    using res(2) by (intro exI [of _ P']) (simp add: mblk_rep_def, simp add: P'_def)
qed

text \<open>Only writes into the pool's free blocks matter to a pool.\<close>

lemma mblk_rep_cong:
  assumes "mblk_rep M P F" "same_outside X M M'" "X \<inter> {pool_start P..<pool_end P} = {}"
  shows "mblk_rep M' P F"
proof -
  from assms(1) have ok: "mblk_ok M P F" by (simp add: mblk_rep_def)
  have "list_free M' P F t" if t: "t < 10" for t
  proof -
    note D = mblk_okD(3) [OF ok t]
    have "load32 M' (a + 0) = load32 M (a + 0)" if a: "a \<in> set (F t)" for a
    proof -
      have "a \<in> mblk_blocks P t" using D a by (auto simp: list_free_def)
      note B = block_bounds [OF ok t this]
      have "{a..<a + 4} \<subseteq> {pool_start P..<pool_end P}" using B(1,5,7) by auto
      with assms(3) have "{a..<a + 4} \<inter> X = {}" by blast
      then show ?thesis by (simp add: same_outside_load [OF assms(2)])
    qed
    then have "chain 0 M' p (F t) = chain 0 M p (F t)" for p by (intro chain_cong) auto
    with D show ?thesis by (simp add: list_free_def)
  qed
  with assms(1) show ?thesis by (simp add: mblk_rep_def mblk_ok_def)
qed

lemma live_bounds:
  assumes "mblk_rep M P F" "(a, t) \<in> mblk_live P F"
  shows "pool_start P \<le> a" "a + 2 ^ t \<le> pool_end P" "t < 10" "4 dvd a" "0 < a"
  using assms block_bounds [of M P F t a] by (auto simp: mblk_rep_def mblk_live_def)

lemma live_disjoint:
  assumes "mblk_rep M P F" "(a, t) \<in> mblk_live P F" "(b, u) \<in> mblk_live P F" "(a, t) \<noteq> (b, u)"
  shows "a + 2 ^ t \<le> b \<or> b + 2 ^ u \<le> a"
  using assms blocks_disjoint [of M P F t a u b] by (auto simp: mblk_rep_def mblk_live_def)

section \<open>Properties\<close>

text \<open>C35. An allocation from a pool of \<open>MM_BLK_SLICE_NUM\<close> slices either returns a block that was
  not in use, large enough, aligned, inside the pool and disjoint from every block in use, and
  adds exactly this block to those in use; or it returns \<^verbatim>\<open>NULL\<close>, and then no block of a
  sufficient size is free, nothing is left to cut and every slice is given out.\<close>

theorem mblk_alloc_fresh:
  assumes "mblk_rep M P F" "sz < 2 ^ 32" "krhino_mblk_alloc M (Some P) sz = (po, a)"
  shows "\<exists>P' F'. po = Some P' \<and> mblk_rep M P' F' \<and>
    (if a = 0
     then mblk_live P' F' = mblk_live P F \<and> (\<forall>t<10. sz \<le> 2 ^ t \<and> 2 \<le> t \<longrightarrow> exhausted P F t)
     else \<exists>t. (a, t) \<notin> mblk_live P F \<and> mblk_live P' F' = insert (a, t) (mblk_live P F) \<and>
       sz \<le> 2 ^ t \<and> 4 dvd a \<and> pool_start P \<le> a \<and> a + 2 ^ t \<le> pool_end P \<and>
       (\<forall>(b, u)\<in>mblk_live P F. a + 2 ^ t \<le> b \<or> b + 2 ^ u \<le> a))"
proof -
  from assms(3) have "krhino_mblk_alloc_nolock M (Some P) sz = (po, a)"
    by (simp add: krhino_mblk_alloc_def)
  from mblk_alloc_ok [OF assms(1,2) this] obtain P' F' where
    P': "po = Some P'" "mblk_rep M P' F'" "pool_start P' = pool_start P" "pool_end P' = pool_end P" and
    r: "if a = 0
     then mblk_live P' F' = mblk_live P F \<and> (\<forall>u<10. sz \<le> 2 ^ u \<and> 2 \<le> u \<longrightarrow> exhausted P F u)
     else \<exists>t. 2 \<le> t \<and> sz \<le> 2 ^ t \<and> (a, t) \<notin> mblk_live P F \<and> mblk_live P' F' = insert (a, t) (mblk_live P F)"
    by blast
  show ?thesis
  proof (cases "a = 0")
    case True
    with P' r show ?thesis by auto
  next
    case False
    with r obtain t where t: "sz \<le> 2 ^ t" "(a, t) \<notin> mblk_live P F"
      "mblk_live P' F' = insert (a, t) (mblk_live P F)" by auto
    then have "(a, t) \<in> mblk_live P' F'" by simp
    note B = live_bounds [OF P'(2) this] and dis = live_disjoint [OF P'(2) this]
    have "a + 2 ^ t \<le> b \<or> b + 2 ^ u \<le> a" if "(b, u) \<in> mblk_live P F" for b u
      using dis [of b u] that t(2,3) by auto
    with False P' t B show ?thesis by (intro exI [of _ P'] exI [of _ F']) auto
  qed
qed

text \<open>A new pool at address 4096.\<close>

definition demo_pool :: mblk_pool_t where
  "demo_pool = \<lparr>pool_name = ''pool'', pool_start = 4096, pool_end = 6144, slice_cnt = 0,
     slice_type = replicate 2 0, blk_list = map (\<lambda>t. zero_list\<lparr>blk_size := 2 ^ t\<rparr>) [0..<10]\<rparr>"

lemma demo_pool_rep: "\<exists>F. mblk_rep (mem_set (\<lambda>_. 0) 4096 2048) demo_pool F \<and> mblk_live demo_pool F = {}"
proof -
  have "krhino_mblk_pool_init (\<lambda>_. 0) (Some demo_pool) (Some ''pool'') 4096 2048 =
      (mem_set (\<lambda>_. 0) 4096 2048, Some demo_pool, RHINO_SUCCESS)"
    by (simp add: krhino_mblk_pool_init_def demo_pool_def Let_def MM_BLK_TYPE2SIZE_def sz_add_def)
  from mblk_init_ok(3) [OF _ _ _ this] show ?thesis by auto
qed

lemma demo_types: "MM_BLK_SIZE2TYPE 100 = 7" "MM_BLK_SIZE2TYPE 512 = 9"
proof -
  have type: "MM_BLK_SIZE2TYPE n = Suc k" if "4 \<le> n" "n \<le> 2 ^ Suc k" "2 ^ k < n" "n < 2 ^ 32" for n k
  proof (rule antisym)
    show "MM_BLK_SIZE2TYPE n \<le> Suc k" using MM_BLK_SIZE2TYPE_range(3) that by blast
    show "Suc k \<le> MM_BLK_SIZE2TYPE n"
    proof (rule ccontr)
      assume "\<not> Suc k \<le> MM_BLK_SIZE2TYPE n"
      then have "(2::nat) ^ MM_BLK_SIZE2TYPE n \<le> 2 ^ k" by (intro power_increasing) simp_all
      with MM_BLK_SIZE2TYPE_range(1) [of n] that show False by simp
    qed
  qed
  show "MM_BLK_SIZE2TYPE 100 = 7" using type [of 100 6] by simp
  show "MM_BLK_SIZE2TYPE 512 = 9" using type [of 512 8] by simp
qed

lemma demo_pool_alloc: "snd (krhino_mblk_alloc M (Some demo_pool) 100) = 4096"
proof -
  obtain P where "mblk_take M demo_pool 7 = Some (P, 4096)"
    by (simp add: mblk_take_def mblk_cut_def mblk_new_slice_def demo_pool_def zero_list_def
        upd_list_def Let_def sz_add_def)
  then have "mblk_search M demo_pool 7 None = (P, Some 7, 4096)" by (subst mblk_search.simps) simp
  then show ?thesis
    by (simp add: krhino_mblk_alloc_def krhino_mblk_alloc_nolock_def demo_pool_def demo_types)
qed

lemma mblk_alloc_fresh_witness:
  "\<exists>P F t. krhino_mblk_alloc (mem_set (\<lambda>_. 0) 4096 2048) (Some demo_pool) 100 = (Some P, 4096) \<and>
     mblk_live P F = {(4096, t)} \<and> 100 \<le> (2::nat) ^ t \<and> 4096 + 2 ^ t \<le> (6144::nat)"
proof -
  let ?M = "mem_set (\<lambda>_. 0) 4096 2048"
  obtain F where F: "mblk_rep ?M demo_pool F" "mblk_live demo_pool F = {}" using demo_pool_rep by auto
  obtain po where alloc: "krhino_mblk_alloc ?M (Some demo_pool) 100 = (po, 4096)"
    using demo_pool_alloc [of ?M] by (metis prod.collapse)
  from mblk_alloc_fresh [OF F(1) _ alloc] show ?thesis
    using alloc by (auto simp: F(2)) (auto simp: demo_pool_def)
qed

text \<open>Two steps of a pool of one slice that serves blocks of 512 bytes.\<close>

definition pool_at :: "mblk_pool_t \<Rightarrow> nat \<Rightarrow> addr \<Rightarrow> nat \<Rightarrow> bool" where
  "pool_at P n addr off \<longleftrightarrow>
     length (blk_list P) = 10 \<and> pool_start P = 4096 \<and> pool_end P = 5120 \<and> slice_cnt P = n \<and>
     free_head (blk_list P ! 9) = 0 \<and> blk_size (blk_list P ! 9) = 512 \<and>
     slice_addr (blk_list P ! 9) = addr \<and> slice_offset (blk_list P ! 9) = off"

lemma pool_at_alloc:
  assumes "mblk_take M P 9 = Some (Q, a)" "a \<noteq> 0" "pool_at Q n addr off"
  shows "\<exists>P'. krhino_mblk_alloc M (Some P) 512 = (Some P', a) \<and> pool_at P' n addr off"
proof -
  have "mblk_search M P 9 None = (Q, Some 9, a)" using assms by (subst mblk_search.simps) simp
  with assms show ?thesis
    by (simp add: krhino_mblk_alloc_def krhino_mblk_alloc_nolock_def demo_types pool_at_def)
qed

lemma pool_at_new_slice:
  assumes "pool_at P n addr off" "addr = 0 \<or> off = 1024" "n < 2"
  shows "\<exists>P'. krhino_mblk_alloc M (Some P) 512 = (Some P', 4096 + n * 1024) \<and>
    pool_at P' (Suc n) (4096 + n * 1024) 512"
proof -
  let ?Q = "fst (mblk_cut 9 (mblk_new_slice 9 P))"
  have "n = 0 \<or> n = 1" using assms(3) by linarith
  then have "mblk_take M P 9 = Some (?Q, 4096 + n * 1024)" "pool_at ?Q (Suc n) (4096 + n * 1024) 512"
    using assms by (auto simp: mblk_take_def mblk_cut_def mblk_new_slice_def pool_at_def Let_def sz_add_def)
  then show ?thesis by (intro pool_at_alloc) simp_all
qed

lemma pool_at_cut:
  assumes "pool_at P n 4096 512"
  shows "\<exists>P'. krhino_mblk_alloc M (Some P) 512 = (Some P', 4608) \<and> pool_at P' n 4096 1024"
proof -
  let ?Q = "fst (mblk_cut 9 P)"
  have "mblk_take M P 9 = Some (?Q, 4608)" "pool_at ?Q n 4096 1024"
    using assms by (auto simp: mblk_take_def mblk_cut_def pool_at_def Let_def sz_add_def)
  then show ?thesis by (intro pool_at_alloc) simp_all
qed

text \<open>C40. The number of slices is a constant of the build, not the size of the pool: a pool of one
  slice is accepted, and its third block of 512 bytes lies behind its end.\<close>

theorem mblk_small_pool_overrun:
  "let (M, pool, r) = krhino_mblk_pool_init M (Some P) (Some nm) 4096 1024;
       (pool, a) = krhino_mblk_alloc M pool 512;
       (pool, b) = krhino_mblk_alloc M pool 512;
       (pool, c) = krhino_mblk_alloc M pool 512
   in r = RHINO_SUCCESS \<and> krhino_mblk_check pool a \<and> krhino_mblk_check pool b \<and>
      c \<noteq> 0 \<and> \<not> krhino_mblk_check pool c"
proof -
  let ?M = "mem_set M 4096 1024"
  obtain P0 where init: "krhino_mblk_pool_init M (Some P) (Some nm) 4096 1024 = (?M, Some P0, RHINO_SUCCESS)"
    and P0: "pool_at P0 0 0 0"
    by (simp add: krhino_mblk_pool_init_def pool_at_def Let_def MM_BLK_TYPE2SIZE_def sz_add_def zero_list_def)
  obtain P1 where P1: "krhino_mblk_alloc ?M (Some P0) 512 = (Some P1, 4096)" "pool_at P1 1 4096 512"
    using pool_at_new_slice [OF P0, of ?M] by auto
  obtain P2 where P2: "krhino_mblk_alloc ?M (Some P1) 512 = (Some P2, 4608)" "pool_at P2 1 4096 1024"
    using pool_at_cut [OF P1(2), of ?M] by auto
  obtain P3 where P3: "krhino_mblk_alloc ?M (Some P2) 512 = (Some P3, 5120)" "pool_at P3 2 5120 512"
    using pool_at_new_slice [OF P2(2), of ?M] by (auto simp: numeral_2_eq_2)
  show ?thesis using P3(2) by (simp add: init P1(1) P2(1) P3(1) krhino_mblk_check_def pool_at_def)
qed

end
