(* ===== verification/KMm.thy ===== *)
theory KMm
  imports KMmBlk "HOL-Library.Monad_Syntax"
begin

text \<open>
  The heap, \<^verbatim>\<open>k_mm.c\<close> and \<^verbatim>\<open>include/k_mm.h\<close>: the segregated-fit allocator with its
  boundary tags in memory, the free lists by size level with their bitmap, the statistics and
  the pool of small blocks in front of it (\<open>KMmBlk\<close>). This theory holds the data and the
  operations. The proofs follow in layers: \<open>KMmLists\<close> (the free lists), \<open>KMmHeap\<close> (the blocks laid
  end to end), \<open>KMmAlloc\<close> (taking and releasing a block), \<open>KMmCalls\<close> (allocate and free),
  \<open>KMmInit\<close> (building a heap) and \<open>KMmRealloc\<close> (shrinking and enlarging).

  The configuration is the one of the board: \<^verbatim>\<open>RHINO_CONFIG_MM_DEBUG\<close> 0 (no owner fields in
  the block heads), \<^verbatim>\<open>RHINO_CONFIG_MM_QUICK\<close> 0, \<^verbatim>\<open>RHINO_CONFIG_MM_BLK\<close> 1,
  \<^verbatim>\<open>RHINO_CONFIG_MM_REGION_MUTEX\<close> 0, so that the critical sections only mask interrupts.
  Block heads and links are words in memory; the head of the heap and the head of its pool are
  records, their bytes being disjoint from all others. A walk along a free list that does not
  end is \<open>None\<close>.
\<close>

section \<open>Constants\<close>

definition MM_MAX_BIT :: nat where "MM_MAX_BIT = 28"
definition MM_MIN_BIT :: nat where "MM_MIN_BIT = 6"
definition MM_MAX_SIZE :: nat where "MM_MAX_SIZE = 2 ^ MM_MAX_BIT"
definition MM_MIN_SIZE :: nat where "MM_MIN_SIZE = 2 ^ (MM_MIN_BIT - 1)"
definition MM_BIT_LEVEL :: nat where "MM_BIT_LEVEL = MM_MAX_BIT - MM_MIN_BIT + 2"
definition MM_MIN_HEAP_SIZE :: nat where "MM_MIN_HEAP_SIZE = 1024"
definition MMLIST_HEAD_SIZE :: nat where "MMLIST_HEAD_SIZE = 8"
definition RHINO_CONFIG_MM_BLK_SIZE :: nat where "RHINO_CONFIG_MM_BLK_SIZE = 256"

text \<open>The sizes of \<^verbatim>\<open>k_mm_head\<close>, \<^verbatim>\<open>k_mm_region_info_t\<close> and \<^verbatim>\<open>mblk_pool_t\<close> on the 32-bit target.\<close>

definition sizeof_k_mm_head :: nat where "sizeof_k_mm_head = 220"
definition sizeof_region_info :: nat where "sizeof_region_info = 8"
definition sizeof_mblk_pool :: nat where "sizeof_mblk_pool = 344"

lemma mm_consts [simp]:
  "MM_MAX_BIT = 28" "MM_MIN_BIT = 6" "MM_MAX_SIZE = 268435456" "MM_MIN_SIZE = 32" "MM_BIT_LEVEL = 24"
  "MM_MIN_HEAP_SIZE = 1024" "MMLIST_HEAD_SIZE = 8" "RHINO_CONFIG_MM_BLK_SIZE = 256"
  "sizeof_k_mm_head = 220" "sizeof_region_info = 8" "sizeof_mblk_pool = 344"
  "RHINO_CONFIG_MM_TLF_BLK_SIZE = 2048"
  by (simp_all add: MM_MAX_BIT_def MM_MIN_BIT_def MM_MAX_SIZE_def MM_MIN_SIZE_def MM_BIT_LEVEL_def
      MM_MIN_HEAP_SIZE_def MMLIST_HEAD_SIZE_def RHINO_CONFIG_MM_BLK_SIZE_def sizeof_k_mm_head_def
      sizeof_region_info_def sizeof_mblk_pool_def RHINO_CONFIG_MM_TLF_BLK_SIZE_def)

definition MM_ALIGN_UP :: "nat \<Rightarrow> nat" where
  "MM_ALIGN_UP a = sz_add a 7 AND 0xFFFFFFF8"

definition MM_ALIGN_DOWN :: "nat \<Rightarrow> nat" where
  "MM_ALIGN_DOWN a = a AND 0xFFFFFFF8"

text \<open>The flags of \<^verbatim>\<open>buf_size\<close>.\<close>

abbreviation (input) MM_BUFF_FREE :: nat where "MM_BUFF_FREE \<equiv> 1"
abbreviation (input) MM_BUFF_USED :: nat where "MM_BUFF_USED \<equiv> 0"
abbreviation (input) MM_BUFF_PREV_FREE :: nat where "MM_BUFF_PREV_FREE \<equiv> 2"
abbreviation (input) MM_BUFF_PREV_USED :: nat where "MM_BUFF_PREV_USED \<equiv> 0"
abbreviation (input) MM_PRESTAT_MASK :: nat where "MM_PRESTAT_MASK \<equiv> 2"

section \<open>Data\<close>

record k_mm_head =
  regioninfo :: addr
  fix_pool :: "mblk_pool_t option"
  used_size :: nat
  maxused_size :: nat
  free_size :: nat
  alloc_times :: "nat list"
  free_bitmap :: u32
  freelist :: "addr list"

definition zero_head :: k_mm_head where
  "zero_head = \<lparr>regioninfo = 0, fix_pool = None, used_size = 0, maxused_size = 0, free_size = 0,
     alloc_times = replicate MM_BIT_LEVEL 0, free_bitmap = 0, freelist = replicate MM_BIT_LEVEL 0\<rparr>"

text \<open>The members of a block head \<^verbatim>\<open>k_mm_list_t\<close> at address \<open>b\<close>; \<^verbatim>\<open>free_ptr\<close> overlays the payload.\<close>

abbreviation (input) prev_at :: "addr \<Rightarrow> addr" where "prev_at b \<equiv> b"
abbreviation (input) buf_size_at :: "addr \<Rightarrow> addr" where "buf_size_at b \<equiv> b + 4"
abbreviation (input) free_prev_at :: "addr \<Rightarrow> addr" where "free_prev_at b \<equiv> b + 8"
abbreviation (input) free_next_at :: "addr \<Rightarrow> addr" where "free_next_at b \<equiv> b + 12"
abbreviation (input) buffer_at :: "addr \<Rightarrow> addr" where "buffer_at b \<equiv> b + 8"

definition MM_GET_BUF_SIZE :: "mem \<Rightarrow> addr \<Rightarrow> nat" where
  "MM_GET_BUF_SIZE M b = load32 M (buf_size_at b) AND 0xFFFFFFF8"

definition MM_GET_BLK_SIZE :: "mem \<Rightarrow> addr \<Rightarrow> nat" where
  "MM_GET_BLK_SIZE M b = sz_add (MM_GET_BUF_SIZE M b) MMLIST_HEAD_SIZE"

definition MM_GET_NEXT_BLK :: "mem \<Rightarrow> addr \<Rightarrow> addr" where
  "MM_GET_NEXT_BLK M b = sz_add (buffer_at b) (MM_GET_BUF_SIZE M b)"

definition MM_GET_THIS_BLK :: "addr \<Rightarrow> addr" where
  "MM_GET_THIS_BLK p = sz_sub p MMLIST_HEAD_SIZE"

text \<open>Reading, setting and clearing flags of a block head.\<close>

definition buf_flag :: "mem \<Rightarrow> addr \<Rightarrow> nat \<Rightarrow> bool" where
  "buf_flag M b m \<longleftrightarrow> load32 M (buf_size_at b) AND m \<noteq> 0"

definition buf_set :: "mem \<Rightarrow> addr \<Rightarrow> nat \<Rightarrow> mem" where
  "buf_set M b m = store32 M (buf_size_at b) (load32 M (buf_size_at b) OR m)"

definition buf_clear :: "mem \<Rightarrow> addr \<Rightarrow> nat \<Rightarrow> mem" where
  "buf_clear M b m = store32 M (buf_size_at b) (load32 M (buf_size_at b) AND (0xFFFFFFFF - m))"

definition buf_grow :: "mem \<Rightarrow> addr \<Rightarrow> nat \<Rightarrow> mem" where
  "buf_grow M b n = store32 M (buf_size_at b) (sz_add (load32 M (buf_size_at b)) n)"

section \<open>Size levels and statistics\<close>

definition size_to_level :: "nat \<Rightarrow> int" where
  "size_to_level sz =
     (let cnt = 32 - krhino_clz32 (of_nat sz) in
      if cnt < MM_MIN_BIT then 0
      else if cnt > MM_MAX_BIT then -1
      else int cnt - int MM_MIN_BIT)"

definition stats_addsize :: "nat \<Rightarrow> nat \<Rightarrow> k_mm_head \<Rightarrow> k_mm_head" where
  "stats_addsize sz req_size H =
     (let H = H\<lparr>free_size := (if free_size H > sz then sz_sub (free_size H) sz else 0)\<rparr>;
          H = H\<lparr>used_size := sz_add (used_size H) sz\<rparr>;
          H = (if used_size H > maxused_size H then H\<lparr>maxused_size := used_size H\<rparr> else H);
          level = size_to_level req_size
      in if req_size > 0 \<and> level \<noteq> -1
         then H\<lparr>alloc_times := (alloc_times H)[nat level := sz_add (alloc_times H ! nat level) 1]\<rparr>
         else H)"

definition stats_removesize :: "nat \<Rightarrow> k_mm_head \<Rightarrow> k_mm_head" where
  "stats_removesize sz H =
     (let H = H\<lparr>used_size := (if used_size H > sz then sz_sub (used_size H) sz else 0)\<rparr>
      in H\<lparr>free_size := sz_add (free_size H) sz\<rparr>)"

section \<open>Free lists\<close>

definition k_mm_freelist_insert :: "addr \<Rightarrow> mem \<times> k_mm_head \<Rightarrow> mem \<times> k_mm_head" where
  "k_mm_freelist_insert b = (\<lambda>(M, H).
     let level = size_to_level (MM_GET_BUF_SIZE M b) in
     if level < 0 \<or> level \<ge> int MM_BIT_LEVEL then (M, H)
     else
       let l = nat level; hd = freelist H ! l;
           M = store32 M (free_prev_at b) 0;
           M = store32 M (free_next_at b) hd;
           M = (if hd \<noteq> 0 then store32 M (free_prev_at hd) b else M)
       in (M, H\<lparr>freelist := (freelist H)[l := b], free_bitmap := free_bitmap H OR push_bit l 1\<rparr>))"

definition k_mm_freelist_delete :: "addr \<Rightarrow> mem \<times> k_mm_head \<Rightarrow> mem \<times> k_mm_head" where
  "k_mm_freelist_delete b = (\<lambda>(M, H).
     let level = size_to_level (MM_GET_BUF_SIZE M b) in
     if level < 0 \<or> level \<ge> int MM_BIT_LEVEL then (M, H)
     else
       let l = nat level;
           M = (if load32 M (free_next_at b) \<noteq> 0
                then store32 M (free_prev_at (load32 M (free_next_at b))) (load32 M (free_prev_at b))
                else M);
           M = (if load32 M (free_prev_at b) \<noteq> 0
                then store32 M (free_next_at (load32 M (free_prev_at b))) (load32 M (free_next_at b))
                else M);
           H = (if freelist H ! l = b then
                  let nxt = load32 M (free_next_at b);
                      H = H\<lparr>freelist := (freelist H)[l := nxt]\<rparr>
                  in if nxt = 0 then H\<lparr>free_bitmap := free_bitmap H AND NOT (push_bit l 1)\<rparr> else H
                else H);
           M = store32 M (free_prev_at b) 0;
           M = store32 M (free_next_at b) 0
       in (M, H))"

text \<open>The first block of the first non-empty list above \<open>level\<close>, or \<^verbatim>\<open>NULL\<close>.\<close>

definition find_up_level :: "k_mm_head \<Rightarrow> int \<Rightarrow> addr" where
  "find_up_level H level =
     (let l = krhino_ctz32 (free_bitmap H AND push_bit (nat (level + 1)) 0xFFFFFFFF)
      in if l < MM_BIT_LEVEL then freelist H ! l else 0)"

text \<open>The first block of a list that is large enough, or \<^verbatim>\<open>NULL\<close>.\<close>

partial_function (option) mm_first_fit :: "mem \<Rightarrow> nat \<Rightarrow> addr \<Rightarrow> addr option" where
  "mm_first_fit M sz b =
     (if b = 0 then Some 0
      else if MM_GET_BUF_SIZE M b \<ge> sz then Some b
      else mm_first_fit M sz (load32 M (free_next_at b)))"

section \<open>Allocation and release\<close>

text \<open>Splitting: block \<open>b\<close> keeps \<open>n\<close> bytes, the rest becomes a free block of \<open>rest\<close> bytes in
  front of \<open>next_b\<close>.\<close>

definition mm_split :: "addr \<Rightarrow> nat \<Rightarrow> nat \<Rightarrow> addr \<Rightarrow> mem \<Rightarrow> mem \<times> addr" where
  "mm_split b n rest next_b M =
     (let M = store32 M (buf_size_at b) (n OR (load32 M (buf_size_at b) AND MM_PRESTAT_MASK));
          new_b = MM_GET_NEXT_BLK M b;
          M = store32 M (prev_at new_b) b;
          M = store32 M (buf_size_at new_b) (rest OR MM_BUFF_FREE OR MM_BUFF_PREV_USED);
          M = store32 M (prev_at next_b) new_b
      in (M, new_b))"

text \<open>The part of \<open>k_mm_alloc\<close> behind the search: the block \<open>get_b\<close> is taken for \<open>n\<close> bytes.\<close>

definition mm_take :: "addr \<Rightarrow> nat \<Rightarrow> mem \<times> k_mm_head \<Rightarrow> mem \<times> k_mm_head" where
  "mm_take get_b n MH =
     (let (M, H) = k_mm_freelist_delete get_b MH;
          next_b = MM_GET_NEXT_BLK M get_b;
          (M, H) =
            (if MM_GET_BUF_SIZE M get_b \<ge> sz_add (sz_add n MMLIST_HEAD_SIZE) MM_MIN_SIZE then
               let left_size = sz_sub (sz_sub (MM_GET_BUF_SIZE M get_b) n) MMLIST_HEAD_SIZE;
                   (M, new_b) = mm_split get_b n left_size next_b M
               in k_mm_freelist_insert new_b (M, H)
             else (buf_clear M next_b MM_BUFF_PREV_FREE, H))
      in (buf_clear M get_b MM_BUFF_FREE, H))"

definition k_mm_alloc ::
  "mem \<Rightarrow> k_mm_head option \<Rightarrow> nat \<Rightarrow> (mem \<times> k_mm_head option \<times> addr) option" where
  "k_mm_alloc M head sz =
     (case head of
        None \<Rightarrow> Some (M, head, 0)
      | Some H \<Rightarrow>
          if sz = 0 then Some (M, head, 0)
          else
            let (pool, ret) =
                  (if fix_pool H \<noteq> None \<and> sz \<le> RHINO_CONFIG_MM_BLK_SIZE
                   then krhino_mblk_alloc_nolock M (fix_pool H) sz else (fix_pool H, 0));
                H = H\<lparr>fix_pool := pool\<rparr>
            in if ret \<noteq> 0 then Some (M, Some H, ret)
            else
              let n = MM_ALIGN_UP sz;
                  n = (if n < MM_MIN_SIZE then MM_MIN_SIZE else n);
                  level = size_to_level n
              in if level = -1 then Some (M, Some H, 0)
              else do {
                get_b \<leftarrow> mm_first_fit M n (freelist H ! nat level);
                let get_b = (if get_b = 0 then find_up_level H level else get_b);
                if get_b = 0 then Some (M, Some H, 0)
                else
                  let (M, H) = mm_take get_b n (M, H);
                      retptr = buffer_at get_b;
                      H = (if retptr \<noteq> 0 then stats_addsize (MM_GET_BLK_SIZE M get_b) sz H else H)
                  in Some (M, Some H, retptr) })"

text \<open>The part of \<open>k_mm_free\<close> for a block of the heap: mark it, merge it with its free
  neighbours, list the result.\<close>

definition mm_merge_next :: "addr \<Rightarrow> mem \<times> k_mm_head \<Rightarrow> mem \<times> k_mm_head" where
  "mm_merge_next b = (\<lambda>(M, H).
     let next_b = MM_GET_NEXT_BLK M b in
     if buf_flag M next_b MM_BUFF_FREE then
       let (M, H) = k_mm_freelist_delete next_b (M, H)
       in (buf_grow M b (MM_GET_BLK_SIZE M next_b), H)
     else (M, H))"

definition mm_merge_prev :: "addr \<Rightarrow> mem \<times> k_mm_head \<Rightarrow> (mem \<times> k_mm_head) \<times> addr" where
  "mm_merge_prev b = (\<lambda>(M, H).
     if buf_flag M b MM_BUFF_PREV_FREE then
       let prev_b = load32 M (prev_at b);
           (M, H) = k_mm_freelist_delete prev_b (M, H)
       in ((buf_grow M prev_b (MM_GET_BLK_SIZE M b), H), prev_b)
     else ((M, H), b))"

definition mm_release :: "addr \<Rightarrow> mem \<times> k_mm_head \<Rightarrow> mem \<times> k_mm_head" where
  "mm_release b = (\<lambda>(M, H).
     let M = buf_set M b MM_BUFF_FREE;
         H = stats_removesize (MM_GET_BLK_SIZE M b) H;
         MH = mm_merge_next b (M, H);
         (MH, free_b) = mm_merge_prev b MH;
         (M, H) = k_mm_freelist_insert free_b MH;
         next_b = MM_GET_NEXT_BLK M free_b;
         M = store32 M (prev_at next_b) free_b
     in (buf_set M next_b MM_BUFF_PREV_FREE, H))"

definition k_mm_free :: "mem \<Rightarrow> k_mm_head option \<Rightarrow> addr \<Rightarrow> mem \<times> k_mm_head option" where
  "k_mm_free M head ptr =
     (case head of
        None \<Rightarrow> (M, head)
      | Some H \<Rightarrow>
          if ptr = 0 then (M, head)
          else if krhino_mblk_check (fix_pool H) ptr then
            let (M, pool, _) = krhino_mblk_free_nolock M (fix_pool H) ptr
            in (M, Some (H\<lparr>fix_pool := pool\<rparr>))
          else
            let (M, H) = mm_release (MM_GET_THIS_BLK ptr) (M, H)
            in (M, Some H))"

section \<open>Reallocation\<close>

text \<open>The rest of a block that was shrunk or enlarged, split off and listed.\<close>

definition mm_split_rest :: "addr \<Rightarrow> nat \<Rightarrow> nat \<Rightarrow> addr \<Rightarrow> mem \<times> k_mm_head \<Rightarrow> mem \<times> k_mm_head" where
  "mm_split_rest this_b old n next_b = (\<lambda>(M, H).
     if old \<ge> sz_add (sz_add n MMLIST_HEAD_SIZE) MM_MIN_SIZE then
       let split_size = sz_sub (sz_sub old n) MMLIST_HEAD_SIZE;
           (M, split_b) = mm_split this_b n split_size next_b M;
           M = buf_set M next_b MM_BUFF_PREV_FREE
       in k_mm_freelist_insert split_b (M, H)
     else (M, H))"

definition mm_shrink :: "addr \<Rightarrow> nat \<Rightarrow> nat \<Rightarrow> mem \<times> k_mm_head \<Rightarrow> mem \<times> k_mm_head" where
  "mm_shrink this_b n req_size = (\<lambda>(M, H).
     let old_size = MM_GET_BUF_SIZE M this_b;
         next_b = MM_GET_NEXT_BLK M this_b;
         H = stats_removesize (MM_GET_BLK_SIZE M this_b) H;
         ((M, H), old_size, next_b) =
           (if buf_flag M next_b MM_BUFF_FREE then
              let (M, H) = k_mm_freelist_delete next_b (M, H)
              in ((M, H), sz_add old_size (MM_GET_BLK_SIZE M next_b), MM_GET_NEXT_BLK M next_b)
            else ((M, H), old_size, next_b));
         (M, H) = mm_split_rest this_b old_size n next_b (M, H)
     in (M, stats_addsize (MM_GET_BLK_SIZE M this_b) req_size H))"

definition mm_enlarge :: "addr \<Rightarrow> nat \<Rightarrow> nat \<Rightarrow> mem \<times> k_mm_head \<Rightarrow> mem \<times> k_mm_head" where
  "mm_enlarge this_b n req_size = (\<lambda>(M, H).
     let next_b = MM_GET_NEXT_BLK M this_b;
         H = stats_removesize (MM_GET_BLK_SIZE M this_b) H;
         (M, H) = k_mm_freelist_delete next_b (M, H);
         M = buf_grow M this_b (MM_GET_BLK_SIZE M next_b);
         next_b = MM_GET_NEXT_BLK M this_b;
         M = store32 M (prev_at next_b) this_b;
         M = buf_clear M next_b MM_BUFF_PREV_FREE;
         (M, H) = mm_split_rest this_b (MM_GET_BUF_SIZE M this_b) n next_b (M, H)
     in (M, stats_addsize (MM_GET_BLK_SIZE M this_b) req_size H))"

text \<open>In place when the block shrinks or its free successor has room, else by copying. \<open>None\<close>
  is also the null pointer dereference that a missing head causes here (and only here).\<close>

definition k_mm_realloc ::
  "mem \<Rightarrow> k_mm_head option \<Rightarrow> addr \<Rightarrow> nat \<Rightarrow> (mem \<times> k_mm_head option \<times> addr) option" where
  "k_mm_realloc M head oldmem new_size =
     (if oldmem = 0 then
        if new_size > 0 then k_mm_alloc M head new_size else Some (M, head, 0)
      else if new_size = 0 then
        let (M, head) = k_mm_free M head oldmem in Some (M, head, 0)
      else
        case head of
          None \<Rightarrow> None
        | Some H \<Rightarrow>
            if krhino_mblk_check (fix_pool H) oldmem then do {
              (M, head, ptr_aux) \<leftarrow> k_mm_alloc M head new_size;
              H \<leftarrow> head;
              P \<leftarrow> fix_pool H;
              if ptr_aux = 0 then Some (M, head, 0)
              else
                let cp_len = krhino_mblk_get_size P oldmem;
                    cp_len = (if cp_len > new_size then new_size else cp_len);
                    M = mem_copy M ptr_aux oldmem cp_len;
                    (M, pool, _) = krhino_mblk_free_nolock M (fix_pool H) oldmem
                in Some (M, Some (H\<lparr>fix_pool := pool\<rparr>), ptr_aux) }
            else
              let this_b = MM_GET_THIS_BLK oldmem;
                  old_size = MM_GET_BUF_SIZE M this_b;
                  next_b = MM_GET_NEXT_BLK M this_b;
                  n = MM_ALIGN_UP new_size;
                  n = (if n < MM_MIN_SIZE then MM_MIN_SIZE else n)
              in if n \<le> old_size then
                let (M, H) = mm_shrink this_b n new_size (M, H)
                in Some (M, Some H, buffer_at this_b)
              else if buf_flag M next_b MM_BUFF_FREE \<and>
                n \<le> sz_add old_size (MM_GET_BLK_SIZE M next_b) then
                let (M, H) = mm_enlarge this_b n new_size (M, H)
                in Some (M, Some H, buffer_at this_b)
              else do {
                (M, head, ptr_aux) \<leftarrow> k_mm_alloc M head n;
                if ptr_aux = 0 then Some (M, head, 0)
                else
                  let cpsize = (if MM_GET_BUF_SIZE M this_b > n then n else MM_GET_BUF_SIZE M this_b);
                      M = mem_copy M ptr_aux oldmem cpsize;
                      (M, head) = k_mm_free M head oldmem
                  in Some (M, head, ptr_aux) })"

section \<open>Regions\<close>

definition init_mm_region :: "mem \<Rightarrow> addr \<Rightarrow> nat \<Rightarrow> mem \<times> addr" where
  "init_mm_region M regionaddr len =
     (let firstblk = regionaddr;
          M = store32 M (prev_at firstblk) 0;
          M = store32 M (buf_size_at firstblk)
                (MM_ALIGN_UP sizeof_region_info OR MM_BUFF_USED OR MM_BUFF_PREV_USED);
          lastblk = sz_sub (sz_add regionaddr len) MMLIST_HEAD_SIZE;
          midblk = MM_GET_NEXT_BLK M firstblk;
          M = store32 M (buf_size_at midblk)
                (sz_sub lastblk (buffer_at midblk) OR MM_BUFF_USED OR MM_BUFF_PREV_USED);
          M = store32 M (free_next_at midblk) 0;
          M = store32 M (free_prev_at midblk) 0;
          M = store32 M (prev_at lastblk) midblk;
          M = store32 M (buf_size_at lastblk) (0 OR MM_BUFF_USED OR MM_BUFF_PREV_FREE);
          region = buffer_at firstblk;
          M = store32 M (region + 4) 0;
          M = store32 M region lastblk
      in (M, firstblk))"

definition krhino_init_mm_head ::
  "mem \<Rightarrow> k_mm_head option \<Rightarrow> addr \<Rightarrow> nat \<Rightarrow> (mem \<times> k_mm_head option \<times> kstat_t) option" where
  "krhino_init_mm_head M head addr len =
     (if addr = 0 then Some (M, head, RHINO_NULL_PTR)
      else
        let M = mem_set M addr len;
            orig_addr = addr;
            addr = MM_ALIGN_UP addr;
            len = sz_sub len (sz_sub addr orig_addr);
            len = MM_ALIGN_DOWN len
        in if len = 0 \<or> len < MM_MIN_HEAP_SIZE + RHINO_CONFIG_MM_TLF_BLK_SIZE \<or> len > MM_MAX_SIZE
        then Some (M, head, RHINO_MM_POOL_SIZE_ERR)
        else
          let M = mem_set M addr sizeof_k_mm_head;
              (M, firstblk) = init_mm_region M (sz_add addr (MM_ALIGN_UP sizeof_k_mm_head))
                                (MM_ALIGN_DOWN (len - sizeof_k_mm_head));
              H = zero_head\<lparr>regioninfo := buffer_at firstblk\<rparr>;
              nextblk = MM_GET_NEXT_BLK M firstblk
          in case k_mm_free M (Some H) (buffer_at nextblk) of
               (M, None) \<Rightarrow> None
             | (M, Some H) \<Rightarrow>
                 let H = H\<lparr>free_size := MM_GET_BUF_SIZE M nextblk\<rparr>;
                     H = H\<lparr>used_size := sz_sub len (MM_GET_BUF_SIZE M nextblk)\<rparr>;
                     H = H\<lparr>maxused_size := used_size H\<rparr>;
                     H = H\<lparr>fix_pool := None\<rparr>
                 in do {
                   (M, head, mmblk_pool) \<leftarrow> k_mm_alloc M (Some H)
                      (RHINO_CONFIG_MM_TLF_BLK_SIZE + MM_ALIGN_UP sizeof_mblk_pool);
                   H \<leftarrow> head;
                   if mmblk_pool = 0 then Some (M, Some H, RHINO_SUCCESS)
                   else
                     let P = \<lparr>pool_name = [], pool_start = 0, pool_end = 0, slice_cnt = 0,
                               slice_type = [], blk_list = []\<rparr>;
                         (M, pool, stat) = krhino_mblk_pool_init M (Some P) (Some ''fixed_mm_blk'')
                            (sz_add mmblk_pool (MM_ALIGN_UP sizeof_mblk_pool)) RHINO_CONFIG_MM_TLF_BLK_SIZE
                     in if stat = RHINO_SUCCESS then Some (M, Some (H\<lparr>fix_pool := pool\<rparr>), RHINO_SUCCESS)
                     else
                       let (M, head) = k_mm_free M (Some H) mmblk_pool
                       in Some (M, head, RHINO_SUCCESS) })"

definition krhino_deinit_mm_head :: "k_mm_head \<Rightarrow> k_mm_head \<times> kstat_t" where
  "krhino_deinit_mm_head H = (zero_head, RHINO_SUCCESS)"

definition krhino_add_mm_region ::
  "mem \<Rightarrow> k_mm_head option \<Rightarrow> addr \<Rightarrow> nat \<Rightarrow> mem \<times> k_mm_head option \<times> kstat_t" where
  "krhino_add_mm_region M head addr len =
     (case head of
        None \<Rightarrow> (M, head, RHINO_NULL_PTR)
      | Some H \<Rightarrow>
          if addr = 0 then (M, head, RHINO_NULL_PTR)
          else
            let orig_addr = addr;
                addr = MM_ALIGN_UP addr;
                len = sz_sub len (sz_sub addr orig_addr);
                len = MM_ALIGN_DOWN len
            in if len = 0 \<or> len < sizeof_region_info + MMLIST_HEAD_SIZE * 3 + MM_MIN_SIZE
            then (M, head, RHINO_MM_POOL_SIZE_ERR)
            else
              let M = mem_set M addr len;
                  (M, firstblk) = init_mm_region M addr len;
                  nextblk = MM_GET_NEXT_BLK M firstblk;
                  region = buffer_at firstblk;
                  M = store32 M (region + 4) (regioninfo H);
                  H = H\<lparr>regioninfo := region\<rparr>;
                  H = H\<lparr>used_size := sz_add (used_size H) (MM_GET_BLK_SIZE M nextblk)\<rparr>;
                  (M, head) = k_mm_free M (Some H) (buffer_at nextblk)
              in (M, head, RHINO_SUCCESS))"

text \<open>The regions of the board, the first one and the others.\<close>

fun mm_add_regions ::
  "(addr \<times> nat) list \<Rightarrow> mem \<times> k_mm_head option \<Rightarrow> mem \<times> k_mm_head option" where
  "mm_add_regions [] MH = MH"
| "mm_add_regions ((start, len) # rs) (M, head) =
     (let (M, head, _) = krhino_add_mm_region M head start len in mm_add_regions rs (M, head))"

definition k_mm_init ::
  "mem \<Rightarrow> (addr \<times> nat) \<Rightarrow> (addr \<times> nat) list \<Rightarrow> (mem \<times> k_mm_head option) option" where
  "k_mm_init M region0 regions = do {
     (M, head, _) \<leftarrow> krhino_init_mm_head M None (fst region0) (snd region0);
     Some (mm_add_regions regions (M, head)) }"

section \<open>The heap of the kernel\<close>

text \<open>The hook \<^verbatim>\<open>krhino_mm_alloc_hook\<close> is empty on the board.\<close>

definition krhino_mm_alloc ::
  "mem \<Rightarrow> k_mm_head option \<Rightarrow> nat \<Rightarrow> (mem \<times> k_mm_head option \<times> addr) option" where
  "krhino_mm_alloc M g_kmm_head sz =
     (if sz = 0 then Some (M, g_kmm_head, 0) else k_mm_alloc M g_kmm_head sz)"

definition krhino_mm_free :: "mem \<Rightarrow> k_mm_head option \<Rightarrow> addr \<Rightarrow> mem \<times> k_mm_head option" where
  "krhino_mm_free M g_kmm_head ptr = k_mm_free M g_kmm_head ptr"

definition krhino_mm_realloc ::
  "mem \<Rightarrow> k_mm_head option \<Rightarrow> addr \<Rightarrow> nat \<Rightarrow> (mem \<times> k_mm_head option \<times> addr) option" where
  "krhino_mm_realloc M g_kmm_head oldmem newsize = k_mm_realloc M g_kmm_head oldmem newsize"

text \<open>The largest block of the highest non-empty list.\<close>

partial_function (option) mm_max_size :: "mem \<Rightarrow> nat \<Rightarrow> addr \<Rightarrow> nat option" where
  "mm_max_size M best b =
     (if b = 0 then Some best
      else mm_max_size M (if best < MM_GET_BUF_SIZE M b then MM_GET_BUF_SIZE M b else best)
             (load32 M (free_next_at b)))"

definition krhino_mm_max_free_size_get :: "mem \<Rightarrow> k_mm_head \<Rightarrow> nat option" where
  "krhino_mm_max_free_size_get M H =
     (let index = krhino_clz32 (free_bitmap H) in
      if index > 31 then Some 0 else mm_max_size M 0 (freelist H ! (31 - index)))"

end
