(* ===== verification/KMmLists.thy ===== *)
theory KMmLists
  imports KMm
begin

text \<open>
  The words of block heads and the free lists of the heap: how \<open>buf_size\<close> encodes a size and
  two flags, the size levels, and what insertion into, deletion from and search in the free
  lists do.
\<close>

section \<open>Block heads\<close>

text \<open>A size that is a multiple of eight, whether the block is free, and whether its
  predecessor is.\<close>

definition enc :: "nat \<Rightarrow> bool \<Rightarrow> bool \<Rightarrow> nat" where
  "enc s f p = s + (if f then 1 else 0) + (if p then 2 else 0)"

lemma and_align: "x < 2 ^ 32 \<Longrightarrow> x AND 0xFFFFFFF8 = x div 8 * (8::nat)"
proof -
  assume x: "x < 2 ^ 32"
  have "x div 8 AND 0x1FFFFFFF = take_bit 29 (x div 8)"
    by (simp add: take_bit_eq_mask mask_eq_exp_minus_1)
  also have "\<dots> = x div 8" using x by (intro take_bit_nat_eq_self) simp
  finally have "x div 2 div 2 div 2 AND 0x1FFFFFFF = x div 8" by (simp add: div_mult2_eq [symmetric])
  then show ?thesis
    by (simp add: and_rec [of x] and_rec [of "x div 2"] and_rec [of "x div 2 div 2"])
qed

lemma ALIGN_DOWN_eq: "a < 2 ^ 32 \<Longrightarrow> MM_ALIGN_DOWN a = a div 8 * 8"
  by (simp add: MM_ALIGN_DOWN_def and_align)

lemma ALIGN_UP_eq: "a + 7 < 2 ^ 32 \<Longrightarrow> MM_ALIGN_UP a = (a + 7) div 8 * 8"
  by (simp add: MM_ALIGN_UP_def and_align sz_add_small)

lemma ALIGN_UP_bounds:
  assumes "a + 7 < 2 ^ 32" shows "a \<le> MM_ALIGN_UP a" "MM_ALIGN_UP a < a + 8" "8 dvd MM_ALIGN_UP a"
proof -
  have eq: "MM_ALIGN_UP a = (a + 7) div 8 * 8" using assms by (rule ALIGN_UP_eq)
  show "8 dvd MM_ALIGN_UP a" by (simp add: eq)
  show "a \<le> MM_ALIGN_UP a" "MM_ALIGN_UP a < a + 8" unfolding eq by presburger+
qed

lemma enc_less: "8 dvd s \<Longrightarrow> s < 2 ^ 32 \<Longrightarrow> enc s f p < 2 ^ 32"
  by (auto simp: enc_def)

lemma enc_add: "sz_add (enc s f p) n = (if enc s f p + n < 2 ^ 32 then enc (s + n) f p else sz_add (enc s f p) n)"
  by (simp add: enc_def sz_add_small)

lemma enc_size: "8 dvd s \<Longrightarrow> s < 2 ^ 32 \<Longrightarrow> enc s f p AND 0xFFFFFFF8 = s"
  using and_align [OF enc_less [of s f p]] by (auto simp: enc_def)

lemma bit_enc:
  assumes "8 dvd s"
  shows "bit (enc s f p) j \<longleftrightarrow> (if j = 0 then f else if j = 1 then p else bit s j)"
proof -
  from assms obtain k where s: "s = 8 * k" by (auto simp: dvd_def)
  have "bit (enc s f p) 0 = f" by (auto simp: enc_def s bit_0)
  moreover have d: "enc s f p div 2 = 4 * k + (if p then 1 else 0)" by (auto simp: enc_def s)
  then have "bit (enc s f p) 1 = p" by (auto simp: bit_Suc bit_0)
  moreover have "bit (enc s f p) (Suc (Suc i)) = bit s (Suc (Suc i))" for i
    by (simp add: bit_Suc d) (simp add: s)
  ultimately show ?thesis by (metis One_nat_def not0_implies_Suc)
qed

lemma bit_consts:
  "bit (Suc 0) j \<longleftrightarrow> j = 0" "bit (2::nat) j \<longleftrightarrow> j = 1"
  "bit (0xFFFFFFFE::nat) j \<longleftrightarrow> 1 \<le> j \<and> j < 32"
  "bit (0xFFFFFFFD::nat) j \<longleftrightarrow> j < 32 \<and> j \<noteq> 1"
proof -
  show "bit (Suc 0) j \<longleftrightarrow> j = 0" using bit_1_iff [of j, where 'a = nat] by simp
  show "bit (2::nat) j \<longleftrightarrow> j = 1" using bit_exp_iff [of 1 j, where 'a = nat] by auto
  have e: "(0xFFFFFFFE::nat) = push_bit 1 (mask 31)" "(0xFFFFFFFD::nat) = push_bit 2 (mask 30) + 1"
    by (simp_all add: mask_eq_exp_minus_1 push_bit_eq_mult)
  show "bit (0xFFFFFFFE::nat) j \<longleftrightarrow> 1 \<le> j \<and> j < 32"
    unfolding e(1) bit_push_bit_iff bit_mask_iff by auto
  show "bit (0xFFFFFFFD::nat) j \<longleftrightarrow> j < 32 \<and> j \<noteq> 1"
  proof (cases j)
    case (Suc i)
    have "(0xFFFFFFFD::nat) div 2 = push_bit 1 (mask 30)"
      by (simp add: mask_eq_exp_minus_1 push_bit_eq_mult)
    then show ?thesis unfolding Suc bit_Suc by (simp only: bit_push_bit_iff bit_mask_iff) auto
  qed (simp add: bit_0)
qed

lemma bit_size: "s < 4294967296 \<Longrightarrow> bit (s::nat) j \<Longrightarrow> j < 32"
  using take_bit_nat_eq_self [of s 32] bit_take_bit_iff [of 32 s j] by simp

lemma bit_low: "8 dvd s \<Longrightarrow> \<not> bit (s::nat) 0" "8 dvd s \<Longrightarrow> \<not> bit (s::nat) (Suc 0)"
  using bit_enc [of s False False 0] bit_enc [of s False False 1] by (simp_all add: enc_def)

lemma enc_free: "8 dvd s \<Longrightarrow> enc s f p AND 1 = (if f then 1 else 0)"
  using bit_enc [of s f p 0] by (auto simp: bit_0 and_one_eq odd_iff_mod_2_eq_one)

lemma enc_prev: "8 dvd s \<Longrightarrow> enc s f p AND 2 = (if p then 2 else 0)"
  by (rule bit_eqI) (auto simp add: bit_and_iff bit_consts bit_enc split: if_splits)

lemma enc_or_1: "8 dvd s \<Longrightarrow> enc s f p OR 1 = enc s True p"
  by (rule bit_eqI) (auto simp add: bit_or_iff bit_consts bit_enc bit_low split: if_splits)

lemma enc_or_2: "8 dvd s \<Longrightarrow> enc s f p OR 2 = enc s f True"
  by (rule bit_eqI) (auto simp add: bit_or_iff bit_consts bit_enc bit_low split: if_splits)

lemma enc_clear_1: "8 dvd s \<Longrightarrow> s < 2 ^ 32 \<Longrightarrow> enc s f p AND 0xFFFFFFFE = enc s False p"
  by (rule bit_eqI) (auto simp add: bit_and_iff bit_consts bit_enc dest: bit_size)

lemma enc_clear_2: "8 dvd s \<Longrightarrow> s < 2 ^ 32 \<Longrightarrow> enc s f p AND 0xFFFFFFFD = enc s f False"
  by (rule bit_eqI) (auto simp add: bit_and_iff bit_consts bit_enc dest: bit_size)

lemma enc_or_prev: "8 dvd n \<Longrightarrow> n OR (if p then 2 else 0) = enc n False p"
  by (rule bit_eqI) (auto simp add: bit_or_iff bit_consts bit_enc bit_low)

lemma enc_or_free: "8 dvd n \<Longrightarrow> n OR 1 = enc n True False"
  by (rule bit_eqI) (auto simp add: bit_or_iff bit_consts bit_enc bit_low)

section \<open>Size levels\<close>

text \<open>Level \<open>l\<close> holds the sizes from \<open>2 ^ (l + 5)\<close> up to \<open>2 ^ (l + 6)\<close>, one power of two less
  than the comments of \<^verbatim>\<open>k_mm.h\<close> and of \<^verbatim>\<open>size_to_level\<close> say.\<close>

lemma size_to_level_eq:
  assumes "32 \<le> n" "n < 2 ^ 28" "2 ^ (l + 5) \<le> n" "n < 2 ^ (l + 6)"
  shows "size_to_level n = int l" "l < 23"
proof -
  have "(2::nat) ^ (l + 5) < 2 ^ 28" using assms(2,3) by linarith
  then have "l + 5 < 28" by (rule power_less_imp_less_exp [rotated]) simp
  then show l: "l < 23" by simp
  have "krhino_clz32 (of_nat n) = 31 - (l + 5)"
    by (rule krhino_clz32_range) (use assms l in \<open>simp_all add: add.commute\<close>)
  with l show "size_to_level n = int l" by (simp add: size_to_level_def Let_def)
qed

lemma size_to_level_range:
  assumes "32 \<le> n" "n < 2 ^ 28"
  obtains l where "size_to_level n = int l" "l < 23" "2 ^ (l + 5) \<le> n" "n < 2 ^ (l + 6)"
proof -
  obtain k where k: "2 ^ k \<le> n" "n < 2 ^ Suc k" using log2_range [of n] assms(1) by auto
  have "5 \<le> k"
  proof (rule ccontr)
    assume "\<not> 5 \<le> k"
    then have "(2::nat) ^ Suc k \<le> 2 ^ 5" by (intro power_increasing) simp_all
    with k(2) assms(1) show False by simp
  qed
  then obtain l where "k = l + 5" by (metis add.commute le_Suc_ex)
  with k have "2 ^ (l + 5) \<le> n" "n < 2 ^ (l + 6)" by (simp_all add: add.commute)
  with size_to_level_eq [OF assms this] that show ?thesis by blast
qed

lemma size_to_level_big:
  assumes "2 ^ 28 \<le> n" "n < 2 ^ 32" shows "size_to_level n = -1"
proof -
  obtain k where k: "2 ^ k \<le> n" "n < 2 ^ Suc k" using log2_range [of n] assms(1) by auto
  have "28 \<le> k"
  proof (rule ccontr)
    assume "\<not> 28 \<le> k"
    then have "(2::nat) ^ Suc k \<le> 2 ^ 28" by (intro power_increasing) simp_all
    with k(2) assms(1) show False by linarith
  qed
  moreover have "k < 32"
  proof (rule ccontr)
    assume "\<not> k < 32"
    then have "(2::nat) ^ 32 \<le> 2 ^ k" by (intro power_increasing) simp_all
    with k(1) assms(2) show False by linarith
  qed
  ultimately show ?thesis using krhino_clz32_range [OF k] by (simp add: size_to_level_def Let_def)
qed

section \<open>The free lists\<close>

text \<open>The bytes of the links of a set of blocks.\<close>

definition links :: "addr set \<Rightarrow> nat set" where
  "links A = (\<Union>a\<in>A. {a + 8..<a + 16})"

lemma links_mono: "A \<subseteq> B \<Longrightarrow> links A \<subseteq> links B"
  by (auto simp: links_def)

text \<open>\<open>L\<close> maps the listed blocks to their sizes, \<open>F l\<close> is the list of level \<open>l\<close>.\<close>

definition flists :: "mem \<Rightarrow> k_mm_head \<Rightarrow> (addr \<rightharpoonup> nat) \<Rightarrow> (nat \<Rightarrow> addr list) \<Rightarrow> bool" where
  "flists M H L F \<longleftrightarrow>
     length (freelist H) = MM_BIT_LEVEL \<and>
     (\<forall>l<MM_BIT_LEVEL. dseg M 0 (freelist H ! l) (F l) 0 \<and> distinct (F l) \<and>
        (\<forall>a. a \<in> set (F l) \<longleftrightarrow> (\<exists>s. L a = Some s \<and> size_to_level s = int l)) \<and>
        (bit (free_bitmap H) l \<longleftrightarrow> F l \<noteq> [])) \<and>
     (\<forall>l\<ge>MM_BIT_LEVEL. \<not> bit (free_bitmap H) l) \<and>
     (\<forall>a s. L a = Some s \<longrightarrow> 8 dvd a \<and> 0 < a \<and> a < 2 ^ 32 \<and> 32 \<le> s \<and> s < 2 ^ 28)"

lemma flistsD:
  assumes "flists M H L F" "l < 24"
  shows "dseg M 0 (freelist H ! l) (F l) 0" "distinct (F l)"
    "a \<in> set (F l) \<longleftrightarrow> (\<exists>s. L a = Some s \<and> size_to_level s = int l)"
    "bit (free_bitmap H) l \<longleftrightarrow> F l \<noteq> []" "\<forall>x\<in>set (F l). 8 dvd x \<and> 0 < x \<and> x < 2 ^ 32"
    "length (freelist H) = 24"
  using assms by (auto simp: flists_def)

lemma flists_listed:
  assumes "flists M H L F" "L a = Some s"
  shows "8 dvd a" "0 < a" "a < 2 ^ 32" "32 \<le> s" "s < 2 ^ 28"
  using assms by (auto simp: flists_def)

lemma dseg_store_other:
  assumes "a \<notin> set xs" "8 dvd a" "\<forall>x\<in>set xs. 8 dvd x"
  shows "dseg (store32 M (a + 8) v) q p xs e = dseg M q p xs e"
    and "dseg (store32 M (a + 12) v) q p xs e = dseg M q p xs e"
  using assms by (auto intro!: dseg_cong load_store_links)

text \<open>The lists do not depend on anything but the links of the listed blocks.\<close>

lemma flists_cong:
  assumes "flists M H L F" "same_outside X M M'" "X \<inter> links (dom L) = {}"
    and "freelist H' = freelist H" "free_bitmap H' = free_bitmap H"
  shows "flists M' H' L F"
proof -
  have "dseg M' 0 p (F l) 0 = dseg M 0 p (F l) 0" if "l < 24" for l p
  proof (rule dseg_cong)
    fix x assume "x \<in> set (F l)"
    then have "x \<in> dom L" using flistsD(3) [OF assms(1) that] by auto
    then have "{x + 8..<x + 16} \<inter> X = {}" using assms(3) by (auto simp: links_def)
    moreover have "{x + 8..<x + 8 + 4} \<subseteq> {x + 8..<x + 16}" "{x + 12..<x + 12 + 4} \<subseteq> {x + 8..<x + 16}"
      by auto
    ultimately have "{x + 8..<x + 8 + 4} \<inter> X = {}" "{x + 12..<x + 12 + 4} \<inter> X = {}" by blast+
    then show "load32 M' (x + 8) = load32 M (x + 8)" "load32 M' (x + 12) = load32 M (x + 12)"
      using same_outside_load [OF assms(2)] by blast+
  qed
  with assms show ?thesis by (simp add: flists_def)
qed

lemma same_outside_link: "b \<in> A \<Longrightarrow> same_outside (links A) M (store32 M (b + 8) v)"
  "b \<in> A \<Longrightarrow> same_outside (links A) M (store32 M (b + 12) v)"
  by (rule same_outside_store; force simp: links_def)+

text \<open>Two blocks of different levels are different.\<close>

lemma flists_level_unique:
  assumes "flists M H L F" "l < 24" "m < 24" "a \<in> set (F l)" "a \<in> set (F m)"
  shows "l = m"
  using assms flistsD(3) [OF assms(1,2), of a] flistsD(3) [OF assms(1,3), of a] by auto

lemma bit_or_push: "bit (w OR 2 ^ l :: u32) m \<longleftrightarrow> bit w m \<or> m = l \<and> l < 32"
  by (auto simp: bit_or_iff bit_exp_iff)

lemma bit_clear_push: "bit (w AND NOT (2 ^ l) :: u32) m \<longleftrightarrow> bit w m \<and> m \<noteq> l"
  using bit_imp_le_length [of w m] by (auto simp: bit_and_iff bit_not_iff bit_exp_iff)

lemma k_mm_freelist_insert_ok:
  assumes fl: "flists M H L F" and new: "L b = None" and b: "8 dvd b" "0 < b" "b < 2 ^ 32"
    and s: "MM_GET_BUF_SIZE M b = s" "32 \<le> s" "s < 2 ^ 28"
    and ins: "k_mm_freelist_insert b (M, H) = (M', H')"
  shows "\<exists>F'. flists M' H' (L(b \<mapsto> s)) F'" and "same_outside (links (insert b (dom L))) M M'"
    and "H' = H\<lparr>freelist := freelist H', free_bitmap := free_bitmap H'\<rparr>"
proof -
  obtain l where l: "size_to_level s = int l" "l < 23" using size_to_level_range [OF s(2,3)] by metis
  then have l24: "l < 24" by simp
  note D = flistsD [OF fl l24]
  let ?h = "freelist H ! l"
  let ?M1 = "store32 (store32 M (b + 8) 0) (b + 12) ?h"
  let ?M2 = "if ?h \<noteq> 0 then store32 ?M1 (?h + 8) b else ?M1"
  have res: "M' = ?M2" "H' = H\<lparr>freelist := (freelist H)[l := b], free_bitmap := free_bitmap H OR push_bit l 1\<rparr>"
    using ins l s(1) by (simp_all add: k_mm_freelist_insert_def Let_def split: if_splits)
  then show "H' = H\<lparr>freelist := freelist H', free_bitmap := free_bitmap H'\<rparr>" by simp
  have b_out: "b \<notin> set (F m)" if "m < 24" for m using flistsD(3) [OF fl that] new by auto
  have head: "?h \<noteq> 0 \<Longrightarrow> ?h \<in> set (F l) \<and> F l \<noteq> [] \<and> ?h = hd (F l)" using D(1) by (cases "F l") auto
  have h32: "?h < 2 ^ 32" using head D(5) by (cases "?h = 0") auto
  have b_h: "?h \<noteq> 0 \<Longrightarrow> b \<noteq> ?h" using head b_out [OF l24] by auto
  have h8: "?h \<noteq> 0 \<Longrightarrow> 8 dvd ?h" using head D(5) by auto
  show "same_outside (links (insert b (dom L))) M M'"
  proof -
    let ?X = "links (insert b (dom L))"
    have "same_outside ?X M (store32 M (b + 8) 0)" by (rule same_outside_link) simp
    moreover have "same_outside ?X (store32 M (b + 8) 0) ?M1" by (rule same_outside_link) simp
    ultimately have M1: "same_outside ?X M ?M1" by (rule same_outside_trans)
    moreover have "same_outside ?X ?M1 ?M2"
    proof (cases "?h = 0")
      case False
      then have "?h \<in> insert b (dom L)" using head D(3) by auto
      with False show ?thesis using same_outside_link(1) by simp
    qed simp
    ultimately show ?thesis unfolding res(1) by (rule same_outside_trans)
  qed
  have old: "dseg M' q p (F m) 0 = dseg M q p (F m) 0" if m: "m < 24" "m \<noteq> l" for q p m
  proof -
    have "?h \<noteq> 0 \<Longrightarrow> ?h \<notin> set (F m)" using flists_level_unique [OF fl l24 m(1)] head m(2) by metis
    with b_out [OF m(1)] b(1) h8 flistsD(5) [OF fl m(1)] show ?thesis
      by (simp add: res(1) dseg_store_other)
  qed
  have tail: "dseg M' b ?h (F l) 0"
  proof -
    have "dseg ?M1 0 ?h (F l) 0" using D(1,5) b_out [OF l24] b(1) by (simp add: dseg_store_other)
    moreover have "?h = 0 \<Longrightarrow> F l = []" using D(1) by (cases "F l") auto
    ultimately show ?thesis
      using dseg_back [of ?M1 0 ?h "F l" 0 b] head D(2,5) b by (cases "?h = 0") (auto simp: res(1))
  qed
  have self: "load32 M' (b + 8) = 0" "load32 M' (b + 12) = ?h"
    using b(1) h8 b_h h32 by (auto simp: res(1) load_store_links)
  have "dseg M' 0 (freelist H' ! m) ((F(l := b # F l)) m) 0" if "m < 24" for m
    using that old tail self b D(6) flistsD(1) [OF fl that] by (auto simp: res(2) nth_list_update)
  moreover have "a \<in> set ((F(l := b # F l)) m) \<longleftrightarrow>
      (\<exists>t. (L(b \<mapsto> s)) a = Some t \<and> size_to_level t = int m)" if "m < 24" for a m
    using flistsD(3) [OF fl that, of a] new l(1) by auto
  moreover have "distinct ((F(l := b # F l)) m)" if "m < 24" for m
    using flistsD(2) [OF fl that] b_out [OF that] by auto
  moreover have "bit (free_bitmap H') m \<longleftrightarrow> (F(l := b # F l)) m \<noteq> []" if "m < 24" for m
    using flistsD(4) [OF fl that] l24 by (auto simp: res(2) bit_or_push)
  ultimately have "flists M' H' (L(b \<mapsto> s)) (F(l := b # F l))"
    using fl l24 b s by (auto simp: flists_def res(2) bit_or_push)
  then show "\<exists>F'. flists M' H' (L(b \<mapsto> s)) F'" by blast
qed

text \<open>Unlinking an entry of a doubly linked list.\<close>

lemma dseg_unlink:
  assumes ds: "dseg M 0 h (ys @ b # zs) 0" and d: "distinct (ys @ b # zs)"
    and al: "\<forall>x\<in>set (ys @ b # zs). 8 dvd x \<and> x < 2 ^ 32"
    and nxt: "nxt = load32 M (b + 12)" and prv: "prv = load32 M (b + 8)"
    and M1: "M1 = (if nxt \<noteq> 0 then store32 M (nxt + 8) prv else M)"
    and M2: "M2 = (if prv \<noteq> 0 then store32 M1 (prv + 12) nxt else M1)"
  shows "dseg M2 0 (if ys = [] then nxt else h) (ys @ zs) 0"
    and "h = b \<longleftrightarrow> ys = []" and "nxt \<noteq> 0 \<Longrightarrow> nxt \<in> set zs" and "prv \<noteq> 0 \<Longrightarrow> prv \<in> set ys"
    and "ys = [] \<Longrightarrow> nxt = 0 \<longleftrightarrow> zs = []"
proof -
  from ds obtain r where r: "dseg M 0 h ys r" "dseg M (if ys = [] then 0 else last ys) r (b # zs) 0"
    by (auto simp: dseg_append)
  then have [simp]: "r = b" and prv': "prv = (if ys = [] then 0 else last ys)"
    and zs: "dseg M b nxt zs 0" by (auto simp: prv nxt)
  have prv0: "prv \<noteq> 0 \<longleftrightarrow> ys \<noteq> []" using dseg_nonzero [OF r(1), of "last ys"] prv' by auto
  have nxt0: "nxt = 0 \<longleftrightarrow> zs = []" using zs by (cases zs) auto
  have hd_zs: "zs \<noteq> [] \<Longrightarrow> nxt = hd zs" using zs by (cases zs) auto
  show "prv \<noteq> 0 \<Longrightarrow> prv \<in> set ys" using prv0 prv' by auto
  show n_in: "nxt \<noteq> 0 \<Longrightarrow> nxt \<in> set zs" using nxt0 hd_zs by auto
  show "ys = [] \<Longrightarrow> nxt = 0 \<longleftrightarrow> zs = []" using nxt0 by simp
  show "h = b \<longleftrightarrow> ys = []" using r(1) d by (cases ys) auto
  have p32: "prv < 2 ^ 32" "nxt < 2 ^ 32" by (simp_all add: prv nxt)
  have zs1: "dseg M1 prv nxt zs 0"
  proof (cases "zs = []")
    case True
    with nxt0 show ?thesis by (simp add: M1)
  next
    case False
    with nxt0 hd_zs have "M1 = store32 M (hd zs + 8) prv" by (simp add: M1)
    moreover have "distinct zs" "\<forall>x\<in>set zs. 8 dvd x" using d al by auto
    ultimately show ?thesis using dseg_back [OF zs _ _ False p32(1)] by simp
  qed
  have ys1: "dseg M1 0 h ys b"
  proof (cases "nxt = 0")
    case False
    with n_in have "nxt \<notin> set ys" "8 dvd nxt" "\<forall>x\<in>set ys. 8 dvd x" using d al by auto
    with False r(1) show ?thesis by (simp add: M1 dseg_store_other)
  qed (use r(1) in \<open>simp add: M1\<close>)
  show "dseg M2 0 (if ys = [] then nxt else h) (ys @ zs) 0"
  proof (cases "ys = []")
    case True
    with zs1 prv0 prv' show ?thesis by (simp add: M2)
  next
    case False
    then obtain us where us: "ys = us @ [last ys]" by (metis append_butlast_last_id)
    have M2': "M2 = store32 M1 (last ys + 12) nxt" using False prv0 prv' by (simp add: M2)
    have "dseg M2 0 h ys nxt"
      using dseg_forward [of M1 0 h us "last ys" b nxt] ys1 us d al p32 by (simp add: M2')
    moreover have "dseg M2 prv nxt zs 0"
    proof -
      have "last ys \<in> set ys" using False by simp
      then have "last ys \<notin> set zs" "8 dvd last ys" "\<forall>x\<in>set zs. 8 dvd x" using d al by auto
      then show ?thesis using zs1 by (simp add: M2' dseg_store_other)
    qed
    ultimately show ?thesis using False prv' by (auto simp: dseg_append)
  qed
qed

lemma k_mm_freelist_delete_ok:
  assumes fl: "flists M H L F" and Lb: "L b = Some s" and s: "MM_GET_BUF_SIZE M b = s"
    and del: "k_mm_freelist_delete b (M, H) = (M', H')"
  shows "\<exists>F'. flists M' H' (L(b := None)) F'" and "same_outside (links (dom L)) M M'"
    and "H' = H\<lparr>freelist := freelist H', free_bitmap := free_bitmap H'\<rparr>"
proof -
  note Ls = flists_listed [OF fl Lb]
  obtain l where l: "size_to_level s = int l" "l < 23" using size_to_level_range [OF Ls(4,5)] by metis
  then have l24: "l < 24" by simp
  note D = flistsD [OF fl l24]
  have b_in: "b \<in> set (F l)" using D(3) Lb l(1) by auto
  then obtain ys zs where F: "F l = ys @ b # zs" by (meson split_list)
  define nxt prv where "nxt = load32 M (b + 12)" and "prv = load32 M (b + 8)"
  define M1 where "M1 = (if nxt \<noteq> 0 then store32 M (nxt + 8) prv else M)"
  define M2 where "M2 = (if prv \<noteq> 0 then store32 M1 (prv + 12) nxt else M1)"
  define M3 where "M3 = store32 (store32 M2 (b + 8) 0) (b + 12) 0"
  have al: "\<forall>x\<in>set (ys @ b # zs). 8 dvd x \<and> x < 2 ^ 32" using D(5) F by auto
  have d: "distinct (ys @ b # zs)" using D(2) F by simp
  note U = dseg_unlink [OF D(1) [unfolded F] d al nxt_def prv_def M1_def M2_def]
  have nb: "nxt \<noteq> 0 \<Longrightarrow> nxt \<noteq> b \<and> 8 dvd nxt \<and> nxt \<in> set (F l)" using U(3) d al F by auto
  have pb: "prv \<noteq> 0 \<Longrightarrow> prv \<noteq> b \<and> 8 dvd prv \<and> prv \<in> set (F l)" using U(4) d al F by auto
  have b8: "8 dvd b" using Ls by simp
  have ld1: "load32 M1 (b + 8) = prv" "load32 M1 (b + 12) = nxt"
    using nb b8 by (auto simp: M1_def load_store_links prv_def nxt_def)
  have ld2: "load32 M2 (b + 12) = nxt" using pb b8 ld1 by (auto simp: M2_def load_store_links)
  have lev: "\<not> size_to_level s < 0" "\<not> int MM_BIT_LEVEL \<le> size_to_level s" "nat (size_to_level s) = l"
    using l by simp_all
  define H1 where "H1 = (if freelist H ! l = b
     then let H = H\<lparr>freelist := (freelist H)[l := nxt]\<rparr>
          in if nxt = 0 then H\<lparr>free_bitmap := free_bitmap H AND NOT (push_bit l 1)\<rparr> else H
     else H)"
  have res: "M' = M3" "H' = H1"
    using del unfolding k_mm_freelist_delete_def split_conv s Let_def if_not_P [OF lev(1)] lev(2,3)
      nxt_def [symmetric] prv_def [symmetric] M1_def [symmetric] ld1 M2_def [symmetric] ld2 M3_def [symmetric]
      H1_def [unfolded Let_def, symmetric]
    using lev by auto
  show "H' = H\<lparr>freelist := freelist H', free_bitmap := free_bitmap H'\<rparr>"
    by (simp add: res H1_def Let_def)
  have inL: "x \<in> set (F l) \<Longrightarrow> x \<in> dom L" for x using D(3) by auto
  have b_dom: "b \<in> dom L" using Lb by auto
  show "same_outside (links (dom L)) M M'"
  proof -
    let ?X = "links (dom L)"
    have "same_outside ?X M M1" using nb inL same_outside_link(1) by (simp add: M1_def)
    moreover have "same_outside ?X M1 M2" using pb inL same_outside_link(2) by (simp add: M2_def)
    moreover have "same_outside ?X M2 (store32 M2 (b + 8) 0)" using b_dom by (rule same_outside_link)
    moreover have "same_outside ?X (store32 M2 (b + 8) 0) M3"
      unfolding M3_def using b_dom by (rule same_outside_link)
    ultimately show ?thesis unfolding res by (blast intro: same_outside_trans)
  qed
  have other: "dseg M3 0 p (F m) 0 = dseg M 0 p (F m) 0" if m: "m < 24" "m \<noteq> l" for m p
  proof -
    have out: "x \<in> set (F l) \<Longrightarrow> x \<notin> set (F m)" for x
      using flists_level_unique [OF fl l24 m(1)] m(2) by metis
    have a8: "\<forall>x\<in>set (F m). 8 dvd x" using flistsD(5) [OF fl m(1)] by auto
    have "dseg M1 0 p (F m) 0 = dseg M 0 p (F m) 0"
      using nb out a8 by (simp add: M1_def dseg_store_other)
    moreover have "dseg M2 0 p (F m) 0 = dseg M1 0 p (F m) 0"
      using pb out a8 by (simp add: M2_def dseg_store_other)
    ultimately show ?thesis using out [OF b_in] b8 a8 by (simp add: M3_def dseg_store_other)
  qed
  have same: "dseg M3 0 (if ys = [] then nxt else freelist H ! l) (ys @ zs) 0"
    using U(1) d al b8 by (simp add: M3_def dseg_store_other)
  have fh: "freelist H' ! m = (if m = l \<and> ys = [] then nxt else freelist H ! m)" if "m < 24" for m
    using that U(2) D(6) by (simp add: res H1_def Let_def nth_list_update)
  let ?F = "F(l := ys @ zs)"
  have "dseg M' 0 (freelist H' ! m) (?F m) 0" if "m < 24" for m
    using that same other flistsD(1) [OF fl that] by (auto simp: fh res(1))
  moreover have "a \<in> set (?F m) \<longleftrightarrow> (\<exists>t. (L(b := None)) a = Some t \<and> size_to_level t = int m)"
    if "m < 24" for a m
  proof (cases "m = l")
    case True
    have "a \<in> set (ys @ zs) \<longleftrightarrow> a \<in> set (F l) \<and> a \<noteq> b" using F d by auto
    with True D(3) [of a] show ?thesis by auto
  next
    case False
    then show ?thesis using flistsD(3) [OF fl that, of a] Lb l(1) by auto
  qed
  moreover have "distinct (?F m)" if "m < 24" for m using flistsD(2) [OF fl that] d by auto
  moreover have bm: "bit (free_bitmap H') m \<longleftrightarrow> bit (free_bitmap H) m \<and> \<not> (m = l \<and> ys @ zs = [])" for m
    using U(2,5) by (auto simp: res H1_def Let_def bit_clear_push)
  moreover have "bit (free_bitmap H') m \<longleftrightarrow> ?F m \<noteq> []" if "m < 24" for m
    using flistsD(4) [OF fl that] F by (auto simp: bm)
  moreover have "length (freelist H') = 24" using D(6) by (simp add: res H1_def Let_def)
  ultimately have "flists M' H' (L(b := None)) ?F" using fl by (auto simp: flists_def)
  then show "\<exists>F'. flists M' H' (L(b := None)) F'" by blast
qed

section \<open>Searching\<close>

text \<open>The walk along a list ends: at the first block that is large enough, or with \<^verbatim>\<open>NULL\<close>.\<close>

lemma mm_first_fit_ok:
  assumes "chain 12 M p xs"
  shows "\<exists>r. mm_first_fit M n p = Some r \<and>
    (if r = 0 then \<forall>x\<in>set xs. MM_GET_BUF_SIZE M x < n else r \<in> set xs \<and> n \<le> MM_GET_BUF_SIZE M r)"
  using assms
proof (induction xs arbitrary: p)
  case Nil
  then show ?case by (subst mm_first_fit.simps) simp
next
  case (Cons x xs)
  then have p: "p = x" "x \<noteq> 0" and ch: "chain 12 M (load32 M (x + 12)) xs" by auto
  show ?case
  proof (cases "n \<le> MM_GET_BUF_SIZE M x")
    case True
    with p have "mm_first_fit M n p = Some x" by (subst mm_first_fit.simps) simp
    with True p(2) show ?thesis by auto
  next
    case False
    from Cons.IH [OF ch] obtain r where r: "mm_first_fit M n (load32 M (x + 12)) = Some r"
      "if r = 0 then \<forall>x\<in>set xs. MM_GET_BUF_SIZE M x < n else r \<in> set xs \<and> n \<le> MM_GET_BUF_SIZE M r"
      by blast
    with False p have "mm_first_fit M n p = Some r" by (subst mm_first_fit.simps) simp
    with r(2) False show ?thesis by (intro exI [of _ r]) (auto split: if_splits)
  qed
qed

lemma mm_max_size_ok:
  assumes "chain 12 M p xs"
  shows "mm_max_size M best p = Some (Max (insert best (MM_GET_BUF_SIZE M ` set xs)))"
  using assms
proof (induction xs arbitrary: p best)
  case Nil
  then show ?case by (subst mm_max_size.simps) simp
next
  case (Cons x xs)
  let ?b = "if best < MM_GET_BUF_SIZE M x then MM_GET_BUF_SIZE M x else best"
  from Cons.prems have p: "p = x" "x \<noteq> 0" "chain 12 M (load32 M (x + 12)) xs" by auto
  have "mm_max_size M best p = mm_max_size M ?b (load32 M (x + 12))"
    using p(1,2) by (subst mm_max_size.simps) simp
  with Cons.IH [OF p(3), of ?b]
  have "mm_max_size M best p = Some (Max (insert ?b (MM_GET_BUF_SIZE M ` set xs)))" by simp
  moreover have "?b = max best (MM_GET_BUF_SIZE M x)" by (simp add: max_def)
  ultimately show ?case by (cases "xs = []") (simp_all add: max.assoc)
qed

lemma find_up_level_ok:
  assumes fl: "flists M H L F" and l: "l < 23"
  shows "if find_up_level H (int l) = 0 then \<forall>m. l < m \<and> m < 24 \<longrightarrow> F m = []
    else \<exists>m. l < m \<and> m < 24 \<and> find_up_level H (int l) \<in> set (F m)"
proof -
  let ?x = "free_bitmap H AND push_bit (Suc l) 0xFFFFFFFF"
  let ?m = "krhino_ctz32 ?x"
  have bit: "bit ?x j \<longleftrightarrow> bit (free_bitmap H) j \<and> l < j" for j
  proof -
    have "(0xFFFFFFFF :: u32) = - 1" by simp
    then have "bit (0xFFFFFFFF :: u32) i \<longleftrightarrow> i < 32" for i by (simp only: bit_minus_1_iff) simp
    then have "bit ?x j \<longleftrightarrow> bit (free_bitmap H) j \<and> Suc l \<le> j \<and> j - Suc l < 32 \<and> j < 32"
      by (simp only: bit_and_iff bit_push_bit_iff) auto
    then show ?thesis using bit_imp_le_length [of "free_bitmap H" j] by auto
  qed
  have eq: "find_up_level H (int l) = (if ?m < 24 then freelist H ! ?m else 0)"
    by (simp add: find_up_level_def Let_def nat_add_distrib)
  have mem: "bit (free_bitmap H) m \<longleftrightarrow> F m \<noteq> []" if "m < 24" for m using flistsD(4) [OF fl that] .
  have high: "\<not> bit (free_bitmap H) m" if "24 \<le> m" for m using fl that by (simp add: flists_def)
  show ?thesis
  proof (cases "?x = 0")
    case True
    then have "\<not> bit ?x j" for j by simp
    then have none: "\<forall>m. l < m \<and> m < 24 \<longrightarrow> F m = []" using bit mem by blast
    have "find_up_level H (int l) = 0" using True by (simp add: eq krhino_ctz32_def)
    with none show ?thesis by simp
  next
    case False
    then have "is_ctz ?x ?m" by (rule krhino_ctz32_correct)
    then have m: "bit (free_bitmap H) ?m" "l < ?m" using bit by (auto simp: is_ctz_def)
    then have m24: "?m < 24" using high by (meson not_le)
    with m(1) mem have "F ?m \<noteq> []" by simp
    then have "freelist H ! ?m \<in> set (F ?m)" "freelist H ! ?m \<noteq> 0"
      using flistsD(1) [OF fl m24] by (cases "F ?m"; auto)+
    with m(2) m24 show ?thesis by (auto simp: eq)
  qed
qed

text \<open>Both searches together: a listed block that is large enough, if there is one.\<close>

lemma mm_search_ok:
  assumes fl: "flists M H L F" and sizes: "\<And>x s. L x = Some s \<Longrightarrow> MM_GET_BUF_SIZE M x = s"
    and n: "32 \<le> n" "n < 2 ^ 28"
  shows "\<exists>r. mm_first_fit M n (freelist H ! nat (size_to_level n)) = Some r \<and>
    (let b = if r = 0 then find_up_level H (size_to_level n) else r in
     if b = 0 then \<forall>x s. L x = Some s \<longrightarrow> s < n else \<exists>s. L b = Some s \<and> n \<le> s)"
proof -
  obtain l where l: "size_to_level n = int l" "l < 23" "2 ^ (l + 5) \<le> n" "n < 2 ^ (l + 6)"
    using size_to_level_range [OF n] by metis
  then have l24: "l < 24" by simp
  from mm_first_fit_ok [OF dseg_chain [OF flistsD(1) [OF fl l24]], of n] obtain r where
    r: "mm_first_fit M n (freelist H ! l) = Some r"
      "if r = 0 then \<forall>x\<in>set (F l). MM_GET_BUF_SIZE M x < n else r \<in> set (F l) \<and> n \<le> MM_GET_BUF_SIZE M r"
    by blast
  have mem: "x \<in> set (F m) \<longleftrightarrow> (\<exists>s. L x = Some s \<and> size_to_level s = int m)" if "m < 24" for x m
    using flistsD(3) [OF fl that] .
  have bound: "2 ^ (m + 5) \<le> s \<and> s < 2 ^ (m + 6)" if x: "L x = Some s" and m: "size_to_level s = int m" for x s m
  proof -
    obtain k where "size_to_level s = int k" "2 ^ (k + 5) \<le> s" "s < 2 ^ (k + 6)"
      using size_to_level_range flists_listed(4,5) [OF fl x] by metis
    with m show ?thesis by simp
  qed
  have level: "\<exists>m<23. size_to_level s = int m" if x: "L x = Some s" for x s
    using size_to_level_range flists_listed(4,5) [OF fl x] by metis
  let ?b = "if r = 0 then find_up_level H (int l) else r"
  have "if ?b = 0 then \<forall>x s. L x = Some s \<longrightarrow> s < n else \<exists>s. L ?b = Some s \<and> n \<le> s"
  proof (cases "r = 0")
    case False
    with r(2) mem [OF l24] sizes show ?thesis by auto
  next
    case True
    note up = find_up_level_ok [OF fl l(2)]
    show ?thesis
    proof (cases "find_up_level H (int l) = 0")
      case none: True
      have "s < n" if x: "L x = Some s" for x s
      proof -
        obtain m where m: "m < 23" "size_to_level s = int m" using level [OF x] by blast
        consider "m < l" | "m = l" | "l < m" by linarith
        then show ?thesis
        proof cases
          case 1
          then have "(2::nat) ^ (m + 6) \<le> 2 ^ (l + 5)" by (intro power_increasing) simp_all
          with bound [OF x m(2)] l(3) show ?thesis by linarith
        next
          case 2
          with x m mem [of l x] l24 True r(2) sizes show ?thesis by auto
        next
          case 3
          with up none m(1) have "F m = []" by simp
          with mem [of m x] m x show ?thesis by auto
        qed
      qed
      with True none show ?thesis by simp
    next
      case False
      with up obtain m where m: "l < m" "m < 24" "find_up_level H (int l) \<in> set (F m)" by auto
      with mem obtain s where s: "L (find_up_level H (int l)) = Some s" "size_to_level s = int m" by blast
      have "(2::nat) ^ (l + 6) \<le> 2 ^ (m + 5)" using m(1) by (intro power_increasing) simp_all
      with bound [OF s] l(4) have "n \<le> s" by linarith
      with True False s show ?thesis by auto
    qed
  qed
  with r(1) l(1) show ?thesis by (auto simp: Let_def)
qed

end
