(* ===== verification/KMmHeap.thy ===== *)
theory KMmHeap
  imports KMmLists
begin

text \<open>
  The blocks of the heap. The state of its memory is a map from the addresses of block heads
  to the size of the block, whether it is free and whether its predecessor is; \<open>mm_ok\<close> says
  that memory and free lists represent this map. The blocks are split, joined, marked free and
  marked used by three operations on the map, each of which keeps them in order (\<open>blks_ok\<close>);
  the code is proved to perform them.
\<close>

section \<open>Blocks\<close>

type_synonym blks = "addr \<rightharpoonup> nat \<times> bool \<times> bool"

text \<open>Every block is aligned, followed by a block that knows its status, and belongs to a region
  closed by a block of size zero; blocks do not overlap.\<close>

definition blk_ok :: "blks \<Rightarrow> addr \<Rightarrow> nat \<Rightarrow> bool \<Rightarrow> bool \<Rightarrow> bool" where
  "blk_ok B a s f p \<longleftrightarrow>
     8 dvd a \<and> 0 < a \<and> 8 dvd s \<and> (f \<longrightarrow> 32 \<le> s) \<and>
     (\<exists>y q. B y = Some (0, False, q) \<and> a \<le> y \<and> y < a + 2 ^ 28 \<and> y + 8 < 2 ^ 32) \<and>
     (s \<noteq> 0 \<longrightarrow> (\<exists>s' f'. B (a + 8 + s) = Some (s', f', f))) \<and>
     (p \<longrightarrow> (\<exists>b t q. B b = Some (t, True, q) \<and> b + 8 + t = a))"

definition blks_apart :: "blks \<Rightarrow> bool" where
  "blks_apart B \<longleftrightarrow> (\<forall>a s f p b. B a = Some (s, f, p) \<longrightarrow> b \<in> dom B \<longrightarrow> a < b \<longrightarrow> a + 8 + s \<le> b)"

definition blks_ok :: "blks \<Rightarrow> bool" where
  "blks_ok B \<longleftrightarrow> (\<forall>a s f p. B a = Some (s, f, p) \<longrightarrow> blk_ok B a s f p) \<and> blks_apart B"

text \<open>No two free blocks are neighbours.\<close>

definition coalesced :: "blks \<Rightarrow> bool" where
  "coalesced B \<longleftrightarrow> (\<forall>a s p. B a = Some (s, True, p) \<longrightarrow> (\<exists>s'. B (a + 8 + s) = Some (s', False, True)))"

text \<open>What the memory holds for the blocks: size and flags, and behind a free block its address.\<close>

definition hdrs :: "mem \<Rightarrow> blks \<Rightarrow> bool" where
  "hdrs M B \<longleftrightarrow> (\<forall>a s f p. B a = Some (s, f, p) \<longrightarrow>
     load32 M (a + 4) = enc s f p \<and> (f \<longrightarrow> load32 M (a + 8 + s) = a))"

definition free_map :: "blks \<Rightarrow> addr \<rightharpoonup> nat" where
  "free_map B a = (case B a of Some (s, f, _) \<Rightarrow> if f then Some s else None | None \<Rightarrow> None)"

definition mm_ok :: "mem \<Rightarrow> k_mm_head \<Rightarrow> blks \<Rightarrow> bool" where
  "mm_ok M H B \<longleftrightarrow> blks_ok B \<and> coalesced B \<and> hdrs M B \<and> (\<exists>F. flists M H (free_map B) F)"

lemma free_map_iff: "free_map B a = Some s \<longleftrightarrow> (\<exists>p. B a = Some (s, True, p))"
  by (auto simp: free_map_def split: option.splits if_splits)

lemma blks_okD: "blks_ok B \<Longrightarrow> B a = Some (s, f, p) \<Longrightarrow> blk_ok B a s f p"
  by (simp add: blks_ok_def)

lemma blks_apartD:
  assumes "blks_ok B" "B a = Some (s, f, p)" "B b = Some (t, g, q)"
  shows "a + 8 + s \<le> b \<or> b + 8 + t \<le> a \<or> a = b"
  using assms unfolding blks_ok_def blks_apart_def by (metis domI linorder_neqE_nat)

lemma blk_next:
  assumes "blks_ok B" "B a = Some (s, f, p)" "s \<noteq> 0"
  obtains s' f' where "B (a + 8 + s) = Some (s', f', f)"
  using blks_okD [OF assms(1,2)] assms(3) by (auto simp: blk_ok_def)

lemma blk_prev:
  assumes "blks_ok B" "B a = Some (s, f, True)"
  obtains b t q where "B b = Some (t, True, q)" "b + 8 + t = a"
  using blks_okD [OF assms(1,2)] by (auto simp: blk_ok_def)

lemma blk_prev_ex:
  "blks_ok B \<Longrightarrow> B a = Some (s, f, p) \<Longrightarrow> p \<Longrightarrow> \<exists>b t q. B b = Some (t, True, q) \<and> b + 8 + t = a"
  using blks_okD [of B a s f p] by (auto simp: blk_ok_def)

lemma blk_end:
  assumes "blks_ok B" "B a = Some (s, f, p)"
  obtains y q where "B y = Some (0, False, q)" "a \<le> y" "y < a + 2 ^ 28" "y + 8 < 2 ^ 32"
  using blks_okD [OF assms] by (auto simp: blk_ok_def)

text \<open>Bounds: with the closing block of the region everything stays below \<open>2 ^ 32\<close>.\<close>

lemma blk_bounds:
  assumes ok: "blks_ok B" and a: "B a = Some (s, f, p)"
  shows "8 dvd a" "0 < a" "8 dvd s" "a + 8 + s < 2 ^ 32" "s < 2 ^ 28" "f \<Longrightarrow> 32 \<le> s"
proof -
  obtain y q where y: "B y = Some (0, False, q)" "a \<le> y" "y < a + 2 ^ 28" "y + 8 < 2 ^ 32"
    using blk_end [OF ok a] .
  show "8 dvd a" "0 < a" "8 dvd s" "f \<Longrightarrow> 32 \<le> s" using blks_okD [OF ok a] by (auto simp: blk_ok_def)
  have "a = y \<and> s = 0 \<or> a + 8 + s \<le> y" using blks_apartD [OF ok a y(1)] y(1,2) a by auto
  with y show "a + 8 + s < 2 ^ 32" "s < 2 ^ 28" by auto
qed

lemma blk_room:
  assumes ok: "blks_ok B" and a: "B a = Some (s, f, p)" "s \<noteq> 0" and b: "B (a + 8 + s) = Some (t, g, q)" "t \<noteq> 0"
  shows "s + 8 + t < 2 ^ 28" "a + 8 + s + 8 + t < 2 ^ 32"
proof -
  obtain y r where y: "B y = Some (0, False, r)" "a \<le> y" "y < a + 2 ^ 28" "y + 8 < 2 ^ 32"
    using blk_end [OF ok a(1)] .
  have "a \<noteq> y" using a y(1) by auto
  then have 1: "a + 8 + s \<le> y" using blks_apartD [OF ok a(1) y(1)] y(2) by auto
  moreover have "a + 8 + s \<noteq> y" using b y(1) by auto
  ultimately have "a + 8 + s + 8 + t \<le> y" using blks_apartD [OF ok b(1) y(1)] by auto
  with y show "s + 8 + t < 2 ^ 28" "a + 8 + s + 8 + t < 2 ^ 32" by auto
qed

section \<open>Splitting, joining, marking\<close>

definition blk_split :: "addr \<Rightarrow> nat \<Rightarrow> blks \<Rightarrow> blks" where
  "blk_split g n B =
     (case B g of None \<Rightarrow> B
      | Some (s, f, p) \<Rightarrow> B(g \<mapsto> (n, f, p), g + 8 + n \<mapsto> (s - n - 8, f, f)))"

definition blk_join :: "addr \<Rightarrow> blks \<Rightarrow> blks" where
  "blk_join g B =
     (case B g of None \<Rightarrow> B
      | Some (s, f, p) \<Rightarrow>
          (case B (g + 8 + s) of None \<Rightarrow> B
           | Some (t, _, _) \<Rightarrow> B(g \<mapsto> (s + 8 + t, f, p), g + 8 + s := None)))"

definition blk_mark :: "addr \<Rightarrow> bool \<Rightarrow> blks \<Rightarrow> blks" where
  "blk_mark g v B =
     (case B g of None \<Rightarrow> B
      | Some (s, _, p) \<Rightarrow>
          (case B (g + 8 + s) of None \<Rightarrow> B
           | Some (t, h, _) \<Rightarrow> B(g \<mapsto> (s, v, p), g + 8 + s \<mapsto> (t, h, v))))"

text \<open>A map in which a few blocks changed: what is left to show of \<open>blk_ok\<close> for the others.\<close>

lemma blk_ok_upd:
  assumes old: "blk_ok B a s f p"
    and ends: "\<And>y q. B y = Some (0, False, q) \<Longrightarrow> \<exists>q'. B' y = Some (0, False, q')"
    and nxt: "\<And>s' f'. s \<noteq> 0 \<Longrightarrow> B (a + 8 + s) = Some (s', f', f) \<Longrightarrow> \<exists>s' f'. B' (a + 8 + s) = Some (s', f', f)"
    and prv: "\<And>b t q. p \<Longrightarrow> B b = Some (t, True, q) \<Longrightarrow> b + 8 + t = a \<Longrightarrow>
      \<exists>b t q. B' b = Some (t, True, q) \<and> b + 8 + t = a"
  shows "blk_ok B' a s f p"
proof -
  obtain y q where y: "B y = Some (0, False, q)" "a \<le> y" "y < a + 2 ^ 28" "y + 8 < 2 ^ 32"
    using old by (auto simp: blk_ok_def)
  obtain q' where "B' y = Some (0, False, q')" using ends [OF y(1)] by blast
  with y have 1: "\<exists>y q. B' y = Some (0, False, q) \<and> a \<le> y \<and> y < a + 2 ^ 28 \<and> y + 8 < 2 ^ 32" by blast
  have 2: "s \<noteq> 0 \<longrightarrow> (\<exists>s' f'. B' (a + 8 + s) = Some (s', f', f))" using old nxt unfolding blk_ok_def by blast
  have 3: "p \<longrightarrow> (\<exists>b t q. B' b = Some (t, True, q) \<and> b + 8 + t = a)" using old prv unfolding blk_ok_def by blast
  from old 1 2 3 show ?thesis unfolding blk_ok_def by blast
qed

lemma blk_split_inside:
  assumes "blks_ok B" "B g = Some (s, f, p)" "n + 8 \<le> s"
  shows "B (g + 8 + n) = None"
proof (cases "B (g + 8 + n)")
  case (Some r)
  then obtain t h q where "B (g + 8 + n) = Some (t, h, q)" by (cases r) auto
  from blks_apartD [OF assms(1,2) this] assms(3) show ?thesis by auto
qed simp

lemma blk_okI:
  assumes "B y = Some (0, False, q)" "a \<le> y" "y < a + 2 ^ 28" "y + 8 < 2 ^ 32"
    and "8 dvd a" "0 < a" "8 dvd s" "f \<Longrightarrow> 32 \<le> s"
    and "s \<noteq> 0 \<Longrightarrow> B (a + 8 + s) = Some (s', f', f)"
    and "p \<Longrightarrow> \<exists>b t q. B b = Some (t, True, q) \<and> b + 8 + t = a"
  shows "blk_ok B a s f p"
  using assms unfolding blk_ok_def by blast

lemma blks_apart_old:
  assumes "blks_ok B" "B a = Some (s, f, p)" "B b \<noteq> None" "a < b"
  shows "a + 8 + s \<le> b"
  using assms unfolding blks_ok_def blks_apart_def by blast

lemma blk_split_ok:
  assumes ok: "blks_ok B" and g: "B g = Some (s, f, p)" and n: "8 dvd n" "32 \<le> n" "n + 40 \<le> s"
  shows "blks_ok (blk_split g n B)"
proof -
  let ?m = "g + 8 + n" and ?t = "s - n - 8"
  define Q where "Q = blk_split g n B"
  have Q: "Q g = Some (n, f, p)" "Q ?m = Some (?t, f, f)" "\<And>x. x \<noteq> g \<Longrightarrow> x \<noteq> ?m \<Longrightarrow> Q x = B x"
    using g by (simp_all add: Q_def blk_split_def)
  have new: "B ?m = None" using blk_split_inside [OF ok g] n(3) by simp
  note bd = blk_bounds [OF ok g]
  have m8: "8 dvd ?m" "8 dvd ?t" using bd(1,3) n(1) by (auto simp: dvd_diff_nat)
  have stop: "?m + 8 + ?t = g + 8 + s" using n(3) by simp
  from blk_next [OF ok g] n obtain s' f' where "B (g + 8 + s) = Some (s', f', f)" by auto
  with Q(3) [of "g + 8 + s"] n(3) have nx: "Q (g + 8 + s) = Some (s', f', f)" by auto
  have ends: "Q y = Some (0, False, q)" if "B y = Some (0, False, q)" for y q
    using that g new n Q(3) [of y] by (cases "y = g"; cases "y = ?m") auto
  obtain y q where y: "B y = Some (0, False, q)" "g \<le> y" "y < g + 2 ^ 28" "y + 8 < 2 ^ 32"
    using blk_end [OF ok g] .
  have "y \<noteq> g" using y g n by auto
  then have ym: "?m \<le> y" using blks_apartD [OF ok g y(1)] y new n(3) by auto
  have prv: "\<exists>b t q. Q b = Some (t, True, q) \<and> b + 8 + t = a"
    if b: "B b = Some (t, True, q)" "b + 8 + t = a" for b t q a
  proof (cases "b = g")
    case True
    with b g have "f" "t = s" by auto
    with b True Q(2) stop have "Q ?m = Some (?t, True, True)" "?m + 8 + ?t = a" by auto
    then show ?thesis by blast
  next
    case False
    with b new Q(3) [of b] have "Q b = Some (t, True, q)" by (cases "b = ?m") auto
    with b show ?thesis by blast
  qed
  have one: "blk_ok Q a t h r" if a: "Q a = Some (t, h, r)" for a t h r
  proof -
    consider "a = g" | "a = ?m" | "a \<noteq> g" "a \<noteq> ?m" by blast
    then show ?thesis
    proof cases
      case 1
      with a Q(1) have e: "t = n" "h = f" "r = p" by auto
      show ?thesis unfolding 1 e
      proof (rule blk_okI [where B = Q and a = g and y = y, OF ends [OF y(1)] y(2-4)])
        show "p \<Longrightarrow> \<exists>b t q. Q b = Some (t, True, q) \<and> b + 8 + t = g"
          using blk_prev_ex [OF ok g] prv by blast
      qed (use bd n Q(2) in auto)
    next
      case 2
      with a Q(2) have e: "t = ?t" "h = f" "r = f" by auto
      show ?thesis unfolding 2 e
      proof (rule blk_okI [where B = Q and a = ?m and y = y, OF ends [OF y(1)] ym _ y(4)])
        show "y < ?m + 2 ^ 28" using y(3) by linarith
        show "f \<Longrightarrow> \<exists>b t q. Q b = Some (t, True, q) \<and> b + 8 + t = ?m" using Q(1) by auto
        show "32 \<le> ?t" using n(3) by linarith
        show "Q (?m + 8 + ?t) = Some (s', f', f)" using nx by (simp only: stop)
      qed (use m8 in auto)
    next
      case 3
      with a Q(3) have old: "B a = Some (t, h, r)" by auto
      show ?thesis
      proof (rule blk_ok_upd [OF blks_okD [OF ok old]])
        fix u v assume "B (a + 8 + t) = Some (u, v, h)"
        then show "\<exists>u v. Q (a + 8 + t) = Some (u, v, h)"
          using g new Q by (cases "a + 8 + t = g"; cases "a + 8 + t = ?m") auto
      qed (use prv ends in auto)
    qed
  qed
  have out: "c + 8 + u \<le> g \<or> g + 8 + s \<le> c" if "B c = Some (u, v, w)" "c \<noteq> g" for c u v w
    using blks_apartD [OF ok g that(1)] that(2) by auto
  have apart: "blks_apart Q"
    unfolding blks_apart_def
  proof (intro allI impI)
    fix a t h r b assume a: "Q a = Some (t, h, r)" and "b \<in> dom Q" and lt: "a < b"
    then obtain u v w where b: "Q b = Some (u, v, w)" by auto
    consider "a = g" | "a = ?m" | "a \<noteq> g" "a \<noteq> ?m" by blast
    then show "a + 8 + t \<le> b"
    proof cases
      case 3
      with a Q(3) have old: "B a = Some (t, h, r)" by auto
      show ?thesis
      proof (cases "b = ?m")
        case True
        with out [OF old 3(1)] lt n(3) show ?thesis by auto
      next
        case False
        then have "B b \<noteq> None" using b Q(3) [of b] g by (cases "b = g") auto
        with blks_apart_old [OF ok old _ lt] show ?thesis .
      qed
    next
      case 1
      with a Q(1) have "t = n" by simp
      moreover have "b = ?m \<or> g + 8 + s \<le> b"
      proof (cases "b = ?m")
        case False
        with b Q(3) [of b] lt 1 have "B b = Some (u, v, w)" by simp
        from out [OF this] lt 1 show ?thesis by auto
      qed simp
      ultimately show ?thesis using 1 n(3) by auto
    next
      case 2
      with a Q(2) have "t = ?t" by simp
      moreover have "g + 8 + s \<le> b"
      proof -
        from b Q(3) [of b] lt 2 have "B b = Some (u, v, w)" by simp
        from out [OF this] lt 2 show ?thesis by auto
      qed
      ultimately show ?thesis using 2 stop by simp
    qed
  qed
  show ?thesis unfolding blks_ok_def Q_def [symmetric] using one apart by blast
qed

lemma blk_join_ok:
  assumes ok: "blks_ok B" and g: "B g = Some (s, f, p)" "s \<noteq> 0"
    and m: "B (g + 8 + s) = Some (t, f, f)" "t \<noteq> 0"
  shows "blks_ok (blk_join g B)"
proof -
  let ?m = "g + 8 + s"
  define Q where "Q = blk_join g B"
  have Q: "Q g = Some (s + 8 + t, f, p)" "Q ?m = None" "\<And>x. x \<noteq> g \<Longrightarrow> x \<noteq> ?m \<Longrightarrow> Q x = B x"
    using g(1) m(1) by (simp_all add: Q_def blk_join_def)
  note bd = blk_bounds [OF ok g(1)] and bm = blk_bounds [OF ok m(1)]
  obtain s' f' where "B (?m + 8 + t) = Some (s', f', f)" using blk_next [OF ok m] .
  with Q(3) [of "?m + 8 + t"] have nx: "Q (?m + 8 + t) = Some (s', f', f)" by auto
  have ends: "Q y = Some (0, False, q)" if "B y = Some (0, False, q)" for y q
    using that g m Q(3) [of y] by (cases "y = g"; cases "y = ?m") auto
  obtain y q where y: "B y = Some (0, False, q)" "g \<le> y" "y < g + 2 ^ 28" "y + 8 < 2 ^ 32"
    using blk_end [OF ok g(1)] .
  have prv: "\<exists>b t q. Q b = Some (t, True, q) \<and> b + 8 + t = a"
    if b: "B b = Some (u, True, q)" "b + 8 + u = a" "a \<noteq> ?m" for b u q a
  proof -
    consider "b = g" | "b = ?m" | "b \<noteq> g" "b \<noteq> ?m" by blast
    then show ?thesis
    proof cases
      case 1 with b g show ?thesis by auto
    next
      case 2
      with b m have "f" "u = t" by auto
      with 2 b(2) Q(1) have "Q g = Some (s + 8 + t, True, p)" "g + 8 + (s + 8 + t) = a" by auto
      then show ?thesis by blast
    next
      case 3
      with b Q(3) show ?thesis by metis
    qed
  qed
  have one: "blk_ok Q a u h r" if a: "Q a = Some (u, h, r)" for a u h r
  proof (cases "a = g")
    case True
    with a Q(1) have e: "u = s + 8 + t" "h = f" "r = p" by auto
    show ?thesis unfolding True e
    proof (rule blk_okI [where B = Q and a = g and y = y, OF ends [OF y(1)] y(2-4)])
      show "p \<Longrightarrow> \<exists>b t q. Q b = Some (t, True, q) \<and> b + 8 + t = g"
        using blk_prev_ex [OF ok g(1)] prv [of _ _ _ g] by auto
      show "Q (g + 8 + (s + 8 + t)) = Some (s', f', f)" using nx by (simp add: add.assoc)
    qed (use bd bm in auto)
  next
    case False
    with a Q(2,3) have old: "B a = Some (u, h, r)" "a \<noteq> ?m" by (cases "a = ?m"; auto)+
    show ?thesis
    proof (rule blk_ok_upd [OF blks_okD [OF ok old(1)]])
      fix v w assume z: "u \<noteq> 0" "B (a + 8 + u) = Some (v, w, h)"
      have "a + 8 + u \<noteq> ?m" using blks_apartD [OF ok g(1) old(1)] False g(2) by auto
      with z Q g show "\<exists>v w. Q (a + 8 + u) = Some (v, w, h)" by (cases "a + 8 + u = g") auto
    qed (use prv ends old(2) in auto)
  qed
  have apart: "blks_apart Q"
    unfolding blks_apart_def
  proof (intro allI impI)
    fix a u h r b assume a: "Q a = Some (u, h, r)" and "b \<in> dom Q" and lt: "a < b"
    then obtain v w x where b: "Q b = Some (v, w, x)" by auto
    have b': "B b \<noteq> None" "b \<noteq> ?m" using b Q g by (cases "b = g"; cases "b = ?m"; auto)+
    show "a + 8 + u \<le> b"
    proof (cases "a = g")
      case True
      have "?m \<le> b" using blks_apart_old [OF ok g(1) b'(1)] lt True by simp
      then have "?m + 8 + t \<le> b" using blks_apart_old [OF ok m(1) b'(1)] b'(2) by simp
      with True a Q(1) show ?thesis by simp
    next
      case False
      with a Q(2,3) have "B a = Some (u, h, r)" by (cases "a = ?m"; auto)
      from blks_apart_old [OF ok this b'(1) lt] show ?thesis .
    qed
  qed
  show ?thesis unfolding blks_ok_def Q_def [symmetric] using one apart by blast
qed

lemma blk_mark_ok:
  assumes ok: "blks_ok B" and g: "B g = Some (s, f, p)" "32 \<le> s"
  shows "blks_ok (blk_mark g v B)"
proof -
  let ?m = "g + 8 + s"
  obtain t h where m: "B ?m = Some (t, h, f)" using blk_next [OF ok g(1)] g(2) by auto
  define Q where "Q = blk_mark g v B"
  have Q: "Q g = Some (s, v, p)" "Q ?m = Some (t, h, v)" "\<And>x. x \<noteq> g \<Longrightarrow> x \<noteq> ?m \<Longrightarrow> Q x = B x"
    using g(1) m by (simp_all add: Q_def blk_mark_def)
  note bd = blk_bounds [OF ok g(1)] and bm = blk_bounds [OF ok m]
  have ends: "\<exists>q'. Q y = Some (0, False, q')" if "B y = Some (0, False, q)" for y q
    using that g m Q(2) Q(3) [of y] by (cases "y = g"; cases "y = ?m") auto
  have prv: "\<exists>b t q. Q b = Some (t, True, q) \<and> b + 8 + t = a"
    if b: "B b = Some (u, True, q)" "b + 8 + u = a" "a \<noteq> ?m" for b u q a
  proof -
    consider "b = g" | "b = ?m" | "b \<noteq> g" "b \<noteq> ?m" by blast
    then show ?thesis
    proof cases
      case 1 with b g show ?thesis by auto
    next
      case 2
      with b m Q(2) have "Q ?m = Some (u, True, v)" by auto
      with 2 b(2) show ?thesis by blast
    next
      case 3
      with b Q(3) show ?thesis by metis
    qed
  qed
  have nxt: "\<exists>v w. Q (a + 8 + u) = Some (v, w, h)"
    if a: "B a = Some (u, k, r)" "a \<noteq> g" "u \<noteq> 0" "B (a + 8 + u) = Some (x, w, h)" for a u k r x w h
  proof -
    have "a + 8 + u \<noteq> ?m" using blks_apartD [OF ok g(1) a(1)] a(2,3) g(2) by auto
    with a Q g show ?thesis by (cases "a + 8 + u = g") auto
  qed
  obtain y q where y: "B y = Some (0, False, q)" "g \<le> y" "y < g + 2 ^ 28" "y + 8 < 2 ^ 32"
    using blk_end [OF ok g(1)] .
  obtain q' where y': "Q y = Some (0, False, q')" using ends [OF y(1)] by blast
  have one: "blk_ok Q a u k r" if a: "Q a = Some (u, k, r)" for a u k r
  proof -
    consider "a = g" | "a = ?m" | "a \<noteq> g" "a \<noteq> ?m" by blast
    then show ?thesis
    proof cases
      case 1
      with a Q(1) have e: "u = s" "k = v" "r = p" by auto
      show ?thesis unfolding 1 e
      proof (rule blk_okI [where B = Q and a = g and y = y, OF y' y(2-4)])
        show "p \<Longrightarrow> \<exists>b t q. Q b = Some (t, True, q) \<and> b + 8 + t = g"
          using blk_prev_ex [OF ok g(1)] prv [of _ _ _ g] by auto
      qed (use bd g(2) Q(2) in auto)
    next
      case 2
      with a Q(2) have e: "u = t" "k = h" "r = v" by auto
      obtain z q where z: "B z = Some (0, False, q)" "?m \<le> z" "z < ?m + 2 ^ 28" "z + 8 < 2 ^ 32"
        using blk_end [OF ok m] .
      obtain q' where z': "Q z = Some (0, False, q')" using ends [OF z(1)] by blast
      have "\<exists>x w. Q (?m + 8 + t) = Some (x, w, h)" if t: "t \<noteq> 0"
      proof -
        obtain x w where "B (?m + 8 + t) = Some (x, w, h)" using blk_next [OF ok m t] .
        from nxt [OF m _ t this] g(2) show ?thesis by auto
      qed
      then obtain x w where "t \<noteq> 0 \<longrightarrow> Q (?m + 8 + t) = Some (x, w, h)" by blast
      then show ?thesis unfolding 2 e
        by (intro blk_okI [where B = Q and a = ?m and y = z, OF z' z(2-4)])
          (use bm Q(1) in \<open>auto intro: exI [of _ g]\<close>)
    next
      case 3
      with a Q(3) have old: "B a = Some (u, k, r)" by auto
      show ?thesis
        by (rule blk_ok_upd [OF blks_okD [OF ok old]]) (use prv ends nxt [OF old 3(1)] 3(2) in auto)
    qed
  qed
  have dom: "B b \<noteq> None" if "Q b = Some x" for b x
    using that g(1) m Q(3) by (metis option.distinct(1))
  have sz: "\<exists>k r. B a = Some (u, k, r)" if a: "Q a = Some (u, k, r)" for a u k r
  proof -
    consider "a = g" | "a = ?m" | "B a = Some (u, k, r)" using a Q(3) [of a] by fastforce
    then show ?thesis using a g m Q(1,2) by cases auto
  qed
  have apart: "blks_apart Q"
    unfolding blks_apart_def using sz dom blks_apart_old [OF ok] by (metis domD)
  show ?thesis unfolding blks_ok_def Q_def [symmetric] using one apart by blast
qed

section \<open>Reading and writing heads\<close>

lemma enc_reads:
  assumes "load32 M (a + 4) = enc s f p" "8 dvd s" "s < 2 ^ 28" "a + 8 + s < 2 ^ 32"
  shows "MM_GET_BUF_SIZE M a = s" "MM_GET_BLK_SIZE M a = s + 8" "MM_GET_NEXT_BLK M a = a + 8 + s"
    "buf_flag M a 1 = f" "buf_flag M a 2 = p"
proof -
  have s32: "s < 2 ^ 32" using assms(3) by simp
  show b: "MM_GET_BUF_SIZE M a = s" using enc_size [OF assms(2) s32] by (simp add: MM_GET_BUF_SIZE_def assms(1))
  show "MM_GET_BLK_SIZE M a = s + 8" using assms(3) by (simp add: MM_GET_BLK_SIZE_def b sz_add_small)
  show "MM_GET_NEXT_BLK M a = a + 8 + s" using assms(4) by (simp add: MM_GET_NEXT_BLK_def b sz_add_small)
  show "buf_flag M a 1 = f" using enc_free [OF assms(2)] by (simp add: buf_flag_def assms(1))
  show "buf_flag M a 2 = p" using enc_prev [OF assms(2)] by (simp add: buf_flag_def assms(1))
qed

lemma hdrsD: "hdrs M B \<Longrightarrow> B a = Some (s, f, p) \<Longrightarrow> load32 M (a + 4) = enc s f p"
  "hdrs M B \<Longrightarrow> B a = Some (s, True, p) \<Longrightarrow> load32 M (a + 8 + s) = a"
  by (auto simp: hdrs_def)

lemma blk_reads:
  assumes "blks_ok B" "hdrs M B" "B a = Some (s, f, p)"
  shows "MM_GET_BUF_SIZE M a = s" "MM_GET_BLK_SIZE M a = s + 8" "MM_GET_NEXT_BLK M a = a + 8 + s"
    "buf_flag M a 1 = f" "buf_flag M a 2 = p"
  using enc_reads [OF hdrsD(1) [OF assms(2,3)]] blk_bounds [OF assms(1,3)] by auto

text \<open>The part of the memory that belongs to the allocator: everything but the payload of the used
  blocks.\<close>

definition meta :: "blks \<Rightarrow> nat set" where
  "meta B = {x. \<forall>a s p. B a = Some (s, False, p) \<longrightarrow> \<not> (a + 8 \<le> x \<and> x < a + 8 + s)}"

lemma head_meta:
  assumes "blks_ok B" "c \<in> dom B" shows "{c..<c + 8} \<subseteq> meta B"
proof -
  obtain t g q where c: "B c = Some (t, g, q)" using assms(2) by auto
  show ?thesis using blks_apartD [OF assms(1) _ c] by (force simp: meta_def)
qed

lemma free_meta:
  assumes "blks_ok B" "B c = Some (t, True, q)" shows "{c..<c + 8 + t} \<subseteq> meta B"
proof
  fix x assume x: "x \<in> {c..<c + 8 + t}"
  have "\<not> (a + 8 \<le> x \<and> x < a + 8 + s)" if "B a = Some (s, False, p)" for a s p
    using blks_apartD [OF assms(1) that assms(2)] x that assms(2) by auto
  then show "x \<in> meta B" unfolding meta_def by blast
qed

lemma links_meta:
  assumes "blks_ok B" "\<forall>x\<in>A. \<exists>s p. B x = Some (s, True, p)" shows "links A \<subseteq> meta B"
proof -
  have "{x + 8..<x + 16} \<subseteq> meta B" if "x \<in> A" for x
  proof -
    from assms(2) that obtain s p where x: "B x = Some (s, True, p)" by blast
    have "{x + 8..<x + 16} \<subseteq> {x..<x + 8 + s}" using blk_bounds(6) [OF assms(1) x] by auto
    then show ?thesis using free_meta [OF assms(1) x] by blast
  qed
  then show ?thesis by (auto simp: links_def)
qed

text \<open>No head overlaps the links of the free blocks.\<close>

lemma head_links:
  assumes "blks_ok B" "\<forall>x\<in>A. \<exists>s p. B x = Some (s, True, p)" "c \<in> dom B"
  shows "{c..<c + 8} \<inter> links A = {}"
proof -
  obtain t g q where c: "B c = Some (t, g, q)" using assms(3) by auto
  have "{c..<c + 8} \<inter> {x + 8..<x + 16} = {}" if "x \<in> A" for x
  proof -
    from assms(2) that obtain s p where x: "B x = Some (s, True, p)" by blast
    show ?thesis using blk_bounds(6) [OF assms(1) x] blks_apartD [OF assms(1) x c] by auto
  qed
  then show ?thesis unfolding links_def by blast
qed

lemma load_blk_head:
  assumes "same_outside X M M'" "{c..<c + 8} \<inter> X = {}"
  shows "load32 M' c = load32 M c" "load32 M' (c + 4) = load32 M (c + 4)"
proof -
  have "{c..<c + 4} \<subseteq> {c..<c + 8}" "{c + 4..<c + 4 + 4} \<subseteq> {c..<c + 8}" by auto
  with assms(2) have "{c..<c + 4} \<inter> X = {}" "{c + 4..<c + 4 + 4} \<inter> X = {}" by blast+
  with assms(1) show "load32 M' c = load32 M c" "load32 M' (c + 4) = load32 M (c + 4)"
    by (simp_all add: same_outside_load)
qed

text \<open>The condition for one head.\<close>

definition hdr_at :: "mem \<Rightarrow> blks \<Rightarrow> addr \<Rightarrow> bool" where
  "hdr_at M B a \<longleftrightarrow> (\<forall>s f p. B a = Some (s, f, p) \<longrightarrow>
     load32 M (a + 4) = enc s f p \<and> (f \<longrightarrow> load32 M (a + 8 + s) = a))"

lemma hdrs_iff: "hdrs M B \<longleftrightarrow> (\<forall>a. hdr_at M B a)"
  by (simp add: hdrs_def hdr_at_def)

lemma hdr_at_frame:
  assumes ok: "blks_ok B" and h: "hdr_at M B a" and X: "same_outside X M M'"
    and out: "\<And>c. c \<in> dom B \<Longrightarrow> {c..<c + 8} \<inter> X = {}"
  shows "hdr_at M' B a"
  unfolding hdr_at_def
proof (intro allI impI conjI)
  fix s f p assume a: "B a = Some (s, f, p)"
  have "a \<in> dom B" using a by auto
  from load_blk_head(2) [OF X out [OF this]] show "load32 M' (a + 4) = enc s f p"
    using a h by (simp add: hdr_at_def)
  assume f
  with ok a have "s \<noteq> 0" using blk_bounds(6) [OF ok a] by auto
  then obtain t g where "B (a + 8 + s) = Some (t, g, f)" using blk_next [OF ok a] by blast
  then have "a + 8 + s \<in> dom B" by auto
  from load_blk_head(1) [OF X out [OF this]] show "load32 M' (a + 8 + s) = a"
    using h a \<open>f\<close> unfolding hdr_at_def by metis
qed

text \<open>Writing the size word of one head leaves the others alone.\<close>

lemma hdr_at_store:
  assumes ok: "blks_ok B" and a: "8 dvd a" "c \<noteq> a" and h: "hdr_at M B c"
  shows "hdr_at (store32 M (a + 4) v) B c"
  unfolding hdr_at_def
proof (intro allI impI)
  fix s f p assume c: "B c = Some (s, f, p)"
  note bd = blk_bounds [OF ok c]
  have "load32 (store32 M (a + 4) v) (c + 4) = load32 M (c + 4)"
    by (rule load_store_aligned) (use a bd in presburger)+
  moreover have "load32 (store32 M (a + 4) v) (c + 8 + s) = load32 M (c + 8 + s)"
    by (rule load_store_aligned) (use a bd in presburger)+
  ultimately show "load32 (store32 M (a + 4) v) (c + 4) = enc s f p \<and>
      (f \<longrightarrow> load32 (store32 M (a + 4) v) (c + 8 + s) = c)"
    using h c by (simp add: hdr_at_def)
qed

lemma hdr_at_cong: "B' c = B c \<or> B' c = None \<Longrightarrow> hdr_at M B c \<Longrightarrow> hdr_at M B' c"
  by (auto simp: hdr_at_def)

section \<open>Listing and unlisting\<close>

text \<open>The blocks \<open>L\<close> are listed; they are free. The heads are right but for those in \<open>T\<close>.\<close>

definition mm_st :: "addr set \<Rightarrow> mem \<Rightarrow> k_mm_head \<Rightarrow> blks \<Rightarrow> (addr \<rightharpoonup> nat) \<Rightarrow> bool" where
  "mm_st T M H B L \<longleftrightarrow> blks_ok B \<and> (\<forall>a. a \<notin> T \<longrightarrow> hdr_at M B a) \<and> (\<exists>F. flists M H L F) \<and>
     (\<forall>a s. L a = Some s \<longrightarrow> (\<exists>p. B a = Some (s, True, p)))"

lemma mm_ok_st: "mm_ok M H B \<longleftrightarrow> mm_st {} M H B (free_map B) \<and> coalesced B"
  by (auto simp: mm_ok_def mm_st_def free_map_iff hdrs_iff)

lemma mm_stD:
  assumes "mm_st T M H B L" shows "blks_ok B" "a \<notin> T \<Longrightarrow> hdr_at M B a" "\<exists>F. flists M H L F"
    "\<forall>x\<in>dom L. \<exists>s p. B x = Some (s, True, p)" "L a = Some s \<Longrightarrow> \<exists>p. B a = Some (s, True, p)"
  using assms by (auto simp: mm_st_def dom_def) blast

lemma mm_st_reads:
  assumes "mm_st T M H B L" "a \<notin> T" "B a = Some (s, f, p)"
  shows "MM_GET_BUF_SIZE M a = s" "MM_GET_BLK_SIZE M a = s + 8" "MM_GET_NEXT_BLK M a = a + 8 + s"
    "buf_flag M a 1 = f" "buf_flag M a 2 = p" "load32 M (a + 4) = enc s f p"
    "f \<Longrightarrow> load32 M (a + 8 + s) = a"
proof -
  have h: "load32 M (a + 4) = enc s f p" "f \<Longrightarrow> load32 M (a + 8 + s) = a"
    using mm_stD(2) [OF assms(1,2)] assms(3) by (auto simp: hdr_at_def)
  then show "load32 M (a + 4) = enc s f p" "f \<Longrightarrow> load32 M (a + 8 + s) = a" by auto
  show "MM_GET_BUF_SIZE M a = s" "MM_GET_BLK_SIZE M a = s + 8" "MM_GET_NEXT_BLK M a = a + 8 + s"
    "buf_flag M a 1 = f" "buf_flag M a 2 = p"
    using enc_reads [OF h(1)] blk_bounds [OF mm_stD(1) [OF assms(1)] assms(3)] by auto
qed

lemma mm_delete_st:
  assumes st: "mm_st T M H B L" and b: "L b = Some s" "b \<notin> T"
    and del: "k_mm_freelist_delete b (M, H) = (M', H')"
  shows "mm_st T M' H' B (L(b := None))" and "same_outside (meta B) M M'"
    and "H' = H\<lparr>freelist := freelist H', free_bitmap := free_bitmap H'\<rparr>"
    and "c \<in> dom B \<Longrightarrow> load32 M' c = load32 M c" and "c \<in> dom B \<Longrightarrow> load32 M' (c + 4) = load32 M (c + 4)"
proof -
  note D = mm_stD [OF st]
  obtain F where F: "flists M H L F" using D(3) by blast
  obtain p where p: "B b = Some (s, True, p)" using D(5) b by blast
  note del' = k_mm_freelist_delete_ok [OF F b(1) mm_st_reads(1) [OF st b(2) p] del]
  show "same_outside (meta B) M M'" by (rule same_outside_mono [OF del'(2)]) (rule links_meta [OF D(1,4)])
  show "H' = H\<lparr>freelist := freelist H', free_bitmap := free_bitmap H'\<rparr>" by (rule del'(3))
  note out = head_links [OF D(1,4)]
  show "c \<in> dom B \<Longrightarrow> load32 M' c = load32 M c" "c \<in> dom B \<Longrightarrow> load32 M' (c + 4) = load32 M (c + 4)"
    using load_blk_head [OF del'(2) out] by blast+
  have "hdr_at M' B a" if "a \<notin> T" for a by (rule hdr_at_frame [OF D(1) D(2) [OF that] del'(2)]) (rule out)
  with D del'(1) show "mm_st T M' H' B (L(b := None))" by (auto simp: mm_st_def)
qed

lemma mm_insert_st:
  assumes st: "mm_st T M H B L" and b: "B b = Some (s, True, p)" "L b = None" "MM_GET_BUF_SIZE M b = s"
    and ins: "k_mm_freelist_insert b (M, H) = (M', H')"
  shows "mm_st T M' H' B (L(b \<mapsto> s))" and "same_outside (meta B) M M'"
    and "H' = H\<lparr>freelist := freelist H', free_bitmap := free_bitmap H'\<rparr>"
    and "c \<in> dom B \<Longrightarrow> load32 M' c = load32 M c" and "c \<in> dom B \<Longrightarrow> load32 M' (c + 4) = load32 M (c + 4)"
proof -
  note D = mm_stD [OF st] and bd = blk_bounds [OF mm_stD(1) [OF st] b(1)]
  obtain F where F: "flists M H L F" using D(3) by blast
  have b32: "b < 2 ^ 32" "32 \<le> s" using bd by auto
  note ins' = k_mm_freelist_insert_ok [OF F b(2) bd(1,2) b32(1) b(3) b32(2) bd(5) ins]
  have free: "\<forall>x\<in>insert b (dom L). \<exists>s p. B x = Some (s, True, p)" using D(4) b(1) by auto
  show "same_outside (meta B) M M'" by (rule same_outside_mono [OF ins'(2)]) (rule links_meta [OF D(1) free])
  show "H' = H\<lparr>freelist := freelist H', free_bitmap := free_bitmap H'\<rparr>" by (rule ins'(3))
  note out = head_links [OF D(1) free]
  show "c \<in> dom B \<Longrightarrow> load32 M' c = load32 M c" "c \<in> dom B \<Longrightarrow> load32 M' (c + 4) = load32 M (c + 4)"
    using load_blk_head [OF ins'(2) out] by blast+
  have "hdr_at M' B a" if "a \<notin> T" for a by (rule hdr_at_frame [OF D(1) D(2) [OF that] ins'(2)]) (rule out)
  with D ins'(1) b(1) show "mm_st T M' H' B (L(b \<mapsto> s))" by (auto simp: mm_st_def)
qed

text \<open>Changes of heads alone do not touch the lists.\<close>

lemma mm_st_heads:
  assumes st: "mm_st T M H B L" and ok: "blks_ok B'" and h: "\<And>a. a \<notin> T' \<Longrightarrow> hdr_at M' B' a"
    and X: "same_outside X M M'" "X \<inter> links (dom L) = {}"
    and free: "\<And>a s. L a = Some s \<Longrightarrow> \<exists>p. B' a = Some (s, True, p)"
    and H: "freelist H' = freelist H" "free_bitmap H' = free_bitmap H"
  shows "mm_st T' M' H' B' L"
proof -
  obtain F where "flists M H L F" using mm_stD(3) [OF st] by blast
  from flists_cong [OF this X H] have "flists M' H' L F" .
  with ok h free show ?thesis by (auto simp: mm_st_def)
qed

text \<open>A head that is written drops out.\<close>

lemma mm_st_store:
  assumes st: "mm_st T M H B L" and a: "a \<in> dom B"
  shows "mm_st (insert a T) (store32 M (a + 4) v) H B L"
    and "same_outside (meta B) M (store32 M (a + 4) v)"
proof -
  note D = mm_stD [OF st]
  obtain s f p where s: "B a = Some (s, f, p)" using a by auto
  have X: "same_outside {a..<a + 8} M (store32 M (a + 4) v)" by (rule same_outside_store) auto
  show "mm_st (insert a T) (store32 M (a + 4) v) H B L"
  proof (rule mm_st_heads [OF st D(1) _ X head_links [OF D(1,4) a] D(5)])
    fix c assume "c \<notin> insert a T"
    then show "hdr_at (store32 M (a + 4) v) B c"
      by (intro hdr_at_store [OF D(1) blk_bounds(1) [OF D(1) s]] D(2)) auto
  qed simp_all
  show "same_outside (meta B) M (store32 M (a + 4) v)"
    by (rule same_outside_mono [OF X head_meta [OF D(1) a]])
qed

lemma mm_st_stats:
  assumes "mm_st T M H B L" "freelist H' = freelist H" "free_bitmap H' = free_bitmap H"
  shows "mm_st T M H' B L"
proof -
  obtain F where "flists M H L F" using mm_stD(3) [OF assms(1)] by blast
  then have "flists M H' L F" using assms(2,3) by (simp add: flists_def)
  with assms(1) show ?thesis by (auto simp: mm_st_def)
qed

section \<open>Splitting off a free block\<close>

text \<open>Block \<open>g\<close> keeps \<open>n\<close> bytes and is used, the rest becomes a free block.\<close>

definition blk_carve :: "addr \<Rightarrow> nat \<Rightarrow> blks \<Rightarrow> blks" where
  "blk_carve g n B =
     (case B g of None \<Rightarrow> B
      | Some (s, f, p) \<Rightarrow>
          (case B (g + 8 + s) of None \<Rightarrow> B
           | Some (s', f', _) \<Rightarrow> B(g \<mapsto> (n, False, p), g + 8 + n \<mapsto> (s - n - 8, True, False),
               g + 8 + s \<mapsto> (s', f', True))))"

lemma blk_carve_eq:
  assumes "B g = Some (s, f, p)" "B (g + 8 + s) = Some (s', f', f)" "n + 40 \<le> s"
  shows "blk_carve g n B g = Some (n, False, p)"
    and "blk_carve g n B (g + 8 + n) = Some (s - n - 8, True, False)"
    and "blk_carve g n B (g + 8 + s) = Some (s', f', True)"
    and "x \<noteq> g \<Longrightarrow> x \<noteq> g + 8 + n \<Longrightarrow> x \<noteq> g + 8 + s \<Longrightarrow> blk_carve g n B x = B x"
  using assms by (auto simp: blk_carve_def)

lemma blk_carve_ok:
  assumes ok: "blks_ok B" and g: "B g = Some (s, f, p)" and n: "8 dvd n" "32 \<le> n" "n + 40 \<le> s"
  shows "blks_ok (blk_carve g n B)"
proof -
  let ?m = "g + 8 + n"
  obtain s' f' where x: "B (g + 8 + s) = Some (s', f', f)" using blk_next [OF ok g] n by auto
  define C where "C = blk_mark g False B"
  define D where "D = blk_split g n C"
  have C: "C = B(g \<mapsto> (s, False, p), g + 8 + s \<mapsto> (s', f', False))"
    using g x by (simp add: C_def blk_mark_def)
  have ok1: "blks_ok C" unfolding C_def by (rule blk_mark_ok [OF ok g]) (use n in simp)
  have Cg: "C g = Some (s, False, p)" by (simp add: C)
  have ok2: "blks_ok D" unfolding D_def by (rule blk_split_ok [OF ok1 Cg n])
  have D: "D = C(g \<mapsto> (n, False, p), ?m \<mapsto> (s - n - 8, False, False))"
    using Cg by (simp add: D_def blk_split_def)
  have Dm: "D ?m = Some (s - n - 8, False, False)" by (simp add: D)
  from blk_mark_ok [OF ok2 Dm, of True] n(3) have ok3: "blks_ok (blk_mark ?m True D)" by simp
  have stop: "?m + 8 + (s - n - 8) = g + 8 + s" using n(3) by simp
  have Dx: "D (g + 8 + s) = Some (s', f', False)" using n(3) by (simp add: D C)
  have "blk_mark ?m True D = D(?m \<mapsto> (s - n - 8, True, False), g + 8 + s \<mapsto> (s', f', True))"
    unfolding blk_mark_def Dm option.case prod.case stop Dx ..
  also have "\<dots> = blk_carve g n B" using n(3) by (auto simp: blk_carve_def g x D C)
  finally show ?thesis using ok3 by simp
qed

text \<open>The words written by \<open>mm_split\<close>.\<close>

lemma mm_split_words:
  assumes al: "8 dvd g" "8 dvd n" "8 dvd t" and sz: "t < 2 ^ 28" "n < 2 ^ 28" "g + 8 + n < 2 ^ 32"
    and nx: "x = g + 8 + n + 8 + t" "32 \<le> t" and p: "load32 M (g + 4) AND 2 = (if p then 2 else 0)"
    and sp: "mm_split g n t x M = (M', m)"
  shows "m = g + 8 + n" and "load32 M' (g + 4) = enc n False p" and "load32 M' (m + 4) = enc t True False"
    and "load32 M' x = m"
    and "same_outside ({g + 4..<g + 8} \<union> {m..<m + 8} \<union> {x..<x + 4}) M M'"
proof -
  let ?M1 = "store32 M (g + 4) (enc n False p)"
  have en: "enc n False p < 2 ^ 32" "enc t True False < 2 ^ 32" 
    using enc_less [OF al(2), of False p] enc_less [OF al(3), of True False] sz by simp_all
  have l1: "load32 ?M1 (g + 4) = enc n False p" using en by simp
  have nb: "MM_GET_NEXT_BLK ?M1 g = g + 8 + n" using enc_reads(3) [OF l1 al(2)] sz by simp
  have sp': "mm_split g n t x M = (store32 (store32 (store32 ?M1 (g + 8 + n) g) (g + 8 + n + 4)
      (enc t True False)) x (g + 8 + n), g + 8 + n)"
    unfolding mm_split_def Let_def p enc_or_prev [OF al(2)] nb or.right_neutral enc_or_free [OF al(3)] ..
  from sp sp' show m: "m = g + 8 + n" by (simp only: prod.inject)
  have res: "M' = store32 (store32 (store32 ?M1 m g) (m + 4) (enc t True False)) x m"
    using sp unfolding sp' m by (simp only: prod.inject)
  have m32: "m < 2 ^ 32" using sz m by simp
  show "load32 M' (g + 4) = enc n False p" "load32 M' (m + 4) = enc t True False" "load32 M' x = m"
    using en m32 nx by (simp_all add: res m load32_store_other)
  have "same_outside {g + 4..<g + 8} M ?M1" by (rule same_outside_store) auto
  moreover have "same_outside {m..<m + 8} ?M1 (store32 ?M1 m g)" by (rule same_outside_store) auto
  moreover have "same_outside {m..<m + 8} (store32 ?M1 m g) (store32 (store32 ?M1 m g) (m + 4) (enc t True False))"
    by (rule same_outside_store) auto
  moreover have "same_outside {x..<x + 4} (store32 (store32 ?M1 m g) (m + 4) (enc t True False)) M'"
    unfolding res by (rule same_outside_store) auto
  ultimately show "same_outside ({g + 4..<g + 8} \<union> {m..<m + 8} \<union> {x..<x + 4}) M M'"
    by (auto simp: same_outside_def)
qed

text \<open>The heads after a split, when the flag of the successor is right.\<close>

lemma mm_split_hdrs:
  assumes ok: "blks_ok B" and g: "B g = Some (s, f, p)" and n: "8 dvd n" "32 \<le> n" "n + 40 \<le> s"
    and x: "x = g + 8 + s" "B x = Some (s', False, f)"
    and h: "\<And>a. a \<noteq> g \<Longrightarrow> a \<noteq> x \<Longrightarrow> hdr_at M B a" and p: "load32 M (g + 4) AND 2 = (if p then 2 else 0)"
    and sp: "mm_split g n (s - n - 8) x M = (M1, m)"
    and M': "same_outside {x + 4..<x + 8} M1 M'" "load32 M' (x + 4) = enc s' False True"
  shows "m = g + 8 + n" and "hdrs M' (blk_carve g n B)"
    and "same_outside ({g..<g + 8} \<union> {g + 8 + n..<g + 8 + n + 8} \<union> {x..<x + 8}) M M'"
proof -
  note bd = blk_bounds [OF ok g]
  let ?t = "s - n - 8"
  have t: "8 dvd ?t" "32 \<le> ?t" "?t < 2 ^ 28" using bd(3,5) n by (auto simp: dvd_diff_nat)
  have b: "n < 2 ^ 28" "g + 8 + n < 2 ^ 32" "x = g + 8 + n + 8 + ?t" using bd(4,5) n x(1) by auto
  note W = mm_split_words [OF bd(1) n(1) t(1,3) b t(2) p sp]
  show m: "m = g + 8 + n" by (rule W(1))
  have out: "load32 M' c = load32 M1 c" if "c + 4 \<le> x + 4 \<or> x + 8 \<le> c" for c
    by (rule same_outside_load [OF M'(1)]) (use that in auto)
  have S: "same_outside ({g + 4..<g + 8} \<union> {m..<m + 8} \<union> {x..<x + 8}) M M'"
    using W(5) M'(1) by (auto simp: same_outside_def)
  then show "same_outside ({g..<g + 8} \<union> {g + 8 + n..<g + 8 + n + 8} \<union> {x..<x + 8}) M M'"
    by (rule same_outside_mono) (use m in auto)
  note C = blk_carve_eq [OF g x(2) [unfolded x(1)] n(3), folded x(1)]
  have "hdr_at M' (blk_carve g n B) a" for a
  proof -
    consider "a = g" | "a = m" | "a = x" | "a \<noteq> g" "a \<noteq> m" "a \<noteq> x" by blast
    then show ?thesis
    proof cases
      case 1
      have "load32 M' (g + 4) = enc n False p" using W(2) out [of "g + 4"] x(1) by simp
      with 1 C(1) show ?thesis by (simp add: hdr_at_def)
    next
      case 2
      have "m + 4 + 4 \<le> x + 4" using m b(3) by linarith
      then have "load32 M' (m + 4) = enc ?t True False" using W(3) out [of "m + 4"] by simp
      moreover have "load32 M' x = m" using W(4) out [of x] by simp
      ultimately show ?thesis using 2 C(2) b(3) m by (simp add: hdr_at_def add.assoc)
    next
      case 3
      with C(3) M'(2) show ?thesis by (simp add: hdr_at_def)
    next
      case 4
      show ?thesis unfolding hdr_at_def
      proof (intro allI impI)
        fix u k r assume "blk_carve g n B a = Some (u, k, r)"
        with C(4) 4 m have a: "B a = Some (u, k, r)" by simp
        have load: "load32 M' c = load32 M c" "load32 M' (c + 4) = load32 M (c + 4)"
          if c: "B c = Some v" "c \<noteq> g" "c \<noteq> x" for c v
        proof -
          obtain w y z where v: "B c = Some (w, y, z)" using c(1) by (cases v) auto
          have "{c..<c + 8} \<inter> ({g + 4..<g + 8} \<union> {m..<m + 8} \<union> {x..<x + 8}) = {}"
            using blks_apartD [OF ok g v] blks_apartD [OF ok x(2) v] c m b(3) t(2) x(1) by auto
          from load_blk_head [OF S this] show "load32 M' c = load32 M c" "load32 M' (c + 4) = load32 M (c + 4)" .
        qed
        have "k \<longrightarrow> load32 M' (a + 8 + u) = a"
        proof
          assume k
          then have "u \<noteq> 0" using blk_bounds(6) [OF ok a] by auto
          then obtain w y where w: "B (a + 8 + u) = Some (w, y, k)" using blk_next [OF ok a] by blast
          have old: "load32 M (a + 8 + u) = a" using h [OF 4(1,3)] a \<open>k\<close> unfolding hdr_at_def by blast
          show "load32 M' (a + 8 + u) = a"
          proof (cases "a + 8 + u = g")
            case True
            have "{g..<g + 4} \<inter> ({g + 4..<g + 8} \<union> {m..<m + 8} \<union> {x..<x + 8}) = {}"
              using m b(3) by auto
            from same_outside_load [OF S this] old True show ?thesis by simp
          next
            case False
            have "a + 8 + u \<noteq> x" using blks_apartD [OF ok g a] 4(1) x(1) n by auto
            with load(1) [OF w False] old show ?thesis by simp
          qed
        qed
        then show "load32 M' (a + 4) = enc u k r \<and> (k \<longrightarrow> load32 M' (a + 8 + u) = a)"
          using load(2) [OF a 4(1,3)] h [OF 4(1,3)] a by (simp add: hdr_at_def)
      qed
    qed
  qed
  then show "hdrs M' (blk_carve g n B)" by (simp add: hdrs_iff)
qed

end
