(* ===== verification/KMmAlloc.thy ===== *)
theory KMmAlloc
  imports KMmHeap
begin

text \<open>
  The operations of \<^verbatim>\<open>k_mm.c\<close> on the blocks of the heap: taking a free block (with or without a
  rest), releasing a block (with its neighbours), shrinking and enlarging it in place. Each is
  shown to keep \<open>mm_ok\<close>, with the map of blocks it leads to, and to write nothing outside of
  the allocator's part of the memory and the block itself.
\<close>

section \<open>Steps\<close>

lemma coalescedD: "coalesced B \<Longrightarrow> B a = Some (s, True, p) \<Longrightarrow> \<exists>t. B (a + 8 + s) = Some (t, False, True)"
  by (simp add: coalesced_def)

lemma mm_st_mono: "mm_st T M H B L \<Longrightarrow> T \<subseteq> T' \<Longrightarrow> mm_st T' M H B L"
  unfolding mm_st_def by blast

lemma mm_st_fix: "mm_st (insert a T) M H B L \<Longrightarrow> hdr_at M B a \<Longrightarrow> mm_st T M H B L"
  by (auto simp: mm_st_def)

lemma mm_st_switch:
  assumes "mm_st T M H B L" "blks_ok B'" "\<And>c. c \<notin> T \<Longrightarrow> B' c = B c \<or> B' c = None"
    and "\<And>a s. L a = Some s \<Longrightarrow> \<exists>p. B' a = Some (s, True, p)"
  shows "mm_st T M H B' L"
  using assms unfolding mm_st_def by (metis hdr_at_cong)

lemma block_links:
  assumes "blks_ok B" "\<forall>x\<in>A. \<exists>s p. B x = Some (s, True, p)" "B g = Some (s, f, p)" "g \<notin> A"
  shows "{g..<g + 8 + s} \<inter> links A = {}"
proof -
  have "{g..<g + 8 + s} \<inter> {x + 8..<x + 16} = {}" if "x \<in> A" for x
  proof -
    from assms(2) that obtain t q where x: "B x = Some (t, True, q)" by blast
    have "x \<noteq> g" using that assms(4) by auto
    then show ?thesis using blk_bounds(6) [OF assms(1) x] blks_apartD [OF assms(1) x assms(3)] by auto
  qed
  then show ?thesis unfolding links_def by blast
qed

lemma sz_split: "n + 40 < 2 ^ 32 \<Longrightarrow> sz_add (sz_add n 8) 32 = n + 40"
  by (simp add: sz_add_small)

lemma sz_rest: "n + 40 \<le> s \<Longrightarrow> sz_sub (sz_sub s n) 8 = s - n - 8"
  by (simp add: sz_sub_small)

text \<open>Flags written by the code.\<close>

lemma buf_clear_enc:
  assumes "load32 M (a + 4) = enc s f p" "8 dvd s" "s < 2 ^ 28"
  shows "buf_clear M a 1 = store32 M (a + 4) (enc s False p)"
    and "buf_clear M a 2 = store32 M (a + 4) (enc s f False)"
  using assms enc_clear_1 [OF assms(2), of f p] enc_clear_2 [OF assms(2), of f p] by (simp_all add: buf_clear_def)

lemma buf_set_enc:
  assumes "load32 M (a + 4) = enc s f p" "8 dvd s"
  shows "buf_set M a 1 = store32 M (a + 4) (enc s True p)"
    and "buf_set M a 2 = store32 M (a + 4) (enc s f True)"
  using enc_or_1 [OF assms(2), of f p] enc_or_2 [OF assms(2), of f p]
  by (simp_all add: buf_set_def assms(1))

lemma buf_grow_enc:
  assumes "load32 M (a + 4) = enc s f p" "s + n + 3 < 2 ^ 32"
  shows "buf_grow M a n = store32 M (a + 4) (enc (s + n) f p)"
  using assms(2) by (simp add: buf_grow_def assms(1) enc_def sz_add_small)

lemma enc_less28: "8 dvd s \<Longrightarrow> s < 2 ^ 28 \<Longrightarrow> enc s f p < 2 ^ 32"
  by (rule enc_less) auto

lemma lists_only_trans:
  assumes "H1 = H\<lparr>freelist := freelist H1, free_bitmap := free_bitmap H1\<rparr>"
    and "H2 = H1\<lparr>freelist := freelist H2, free_bitmap := free_bitmap H2\<rparr>"
  shows "H2 = H\<lparr>freelist := freelist H2, free_bitmap := free_bitmap H2\<rparr>"
  using assms by (cases H; cases H1; cases H2) simp

section \<open>Taking a free block\<close>

lemma mm_split_next:
  assumes "blks_ok B" "B g = Some (s, f, p)" "8 dvd n" "32 \<le> n" "n + 40 \<le> s" "x = g + 8 + s"
    and "load32 M (g + 4) AND 2 = (if p then 2 else 0)"
    and "mm_split g n (s - n - 8) x M = (M1, m)"
  shows "load32 M1 (x + 4) = load32 M (x + 4)"
proof -
  note bd = blk_bounds [OF assms(1,2)]
  have t: "8 dvd s - n - 8" "32 \<le> s - n - 8" "s - n - 8 < 2 ^ 28" using bd(3,5) assms(3-5) by (auto simp: dvd_diff_nat)
  have b: "n < 2 ^ 28" "g + 8 + n < 2 ^ 32" "x = g + 8 + n + 8 + (s - n - 8)" using bd(4,5) assms(5,6) by auto
  note W = mm_split_words [OF bd(1) assms(3) t(1,3) b t(2) assms(7,8)]
  show ?thesis by (rule same_outside_load [OF W(5)]) (use W(1) b(3) in auto)
qed

text \<open>A split with the new block listed.\<close>

lemma mm_carve_st:
  assumes st: "mm_st T M H B L" and T: "T \<subseteq> {g, x}" and g: "B g = Some (s, f, p)" "L g = None"
    and n: "8 dvd n" "32 \<le> n" "n + 40 \<le> s"
    and x: "x = g + 8 + s" "B x = Some (s', False, f)"
    and p: "load32 M (g + 4) AND 2 = (if p then 2 else 0)"
    and sp: "mm_split g n (s - n - 8) x M = (M1, m)"
    and M2: "same_outside {x + 4..<x + 8} M1 M2" "load32 M2 (x + 4) = enc s' False True"
    and ins: "k_mm_freelist_insert m (M2, H) = (M', H')"
  shows "m = g + 8 + n" and "mm_st {} M' H' (blk_carve g n B) (L(m \<mapsto> s - n - 8))"
    and "H' = H\<lparr>freelist := freelist H', free_bitmap := free_bitmap H'\<rparr>"
    and "same_outside (meta B \<union> {g + 8 + n..<g + 8 + s}) M M'"
proof -
  note D = mm_stD [OF st]
  have h: "hdr_at M B a" if "a \<noteq> g" "a \<noteq> x" for a using D(2) T that by blast
  note S = mm_split_hdrs [OF D(1) g(1) n x h p sp M2]
  show m: "m = g + 8 + n" by (rule S(1))
  let ?X = "{g..<g + 8} \<union> {g + 8 + n..<g + 8 + n + 8} \<union> {x..<x + 8}"
  have gA: "g \<notin> dom L" using g(2) by auto
  have xA: "x \<notin> dom L" using D(5) [of x] x(2) by (cases "L x") auto
  have X: "?X \<inter> links (dom L) = {}"
  proof -
    have "x \<in> dom B" using x(2) by blast
    then have "{x..<x + 8} \<inter> links (dom L) = {}" by (rule head_links [OF D(1,4)])
    moreover have "?X \<subseteq> {g..<g + 8 + s} \<union> {x..<x + 8}" using n(3) by auto
    ultimately show ?thesis using block_links [OF D(1,4) g(1) gA] by blast
  qed
  note C = blk_carve_eq [OF g(1) x(2) [unfolded x(1)] n(3)]
  have Bm: "B m = None" using blk_split_inside [OF D(1) g(1)] n m by simp
  have free: "\<exists>q. blk_carve g n B a = Some (u, True, q)" if "L a = Some u" for a u
  proof -
    have "a \<noteq> g" "a \<noteq> x" "a \<noteq> m" using that gA xA D(5) [OF that] Bm by (auto simp: dom_def)
    with C(4) [of a] D(5) [OF that] x(1) m show ?thesis by simp
  qed
  have st2: "mm_st {} M2 H (blk_carve g n B) L"
    by (rule mm_st_heads [OF st blk_carve_ok [OF D(1) g(1) n] _ S(3) X free])
      (use S(2) in \<open>simp_all add: hdrs_iff\<close>)
  have Cm: "blk_carve g n B m = Some (s - n - 8, True, False)" using C(2) m by simp
  have Lm: "L m = None" using D(5) [of m] Bm by (cases "L m") auto
  note I = mm_insert_st [OF st2 Cm Lm mm_st_reads(1) [OF st2 _ Cm] ins]
  show "mm_st {} M' H' (blk_carve g n B) (L(m \<mapsto> s - n - 8))" by (rule I(1)) simp
  show "H' = H\<lparr>freelist := freelist H', free_bitmap := free_bitmap H'\<rparr>" by (rule I(3)) simp
  have used: "\<exists>q. blk_carve g n B a = Some (u, False, q)" if "B a = Some (u, False, r)" "a \<noteq> g" for a u r
  proof -
    have "a \<noteq> m" using that(1) Bm by auto
    then show ?thesis using that C(3) C(4) [of a] x m by (cases "a = x") auto
  qed
  let ?Y = "meta B \<union> {g + 8 + n..<g + 8 + s}"
  have m1: "meta (blk_carve g n B) \<subseteq> ?Y"
  proof
    fix y assume y: "y \<in> meta (blk_carve g n B)"
    have "\<not> (a + 8 \<le> y \<and> y < a + 8 + u)"
      if a: "B a = Some (u, False, r)" and "y \<notin> {g + 8 + n..<g + 8 + s}" for a u r
    proof (cases "a = g")
      case True
      with a g(1) have "u = s" by simp
      moreover have "\<not> (g + 8 \<le> y \<and> y < g + 8 + n)" using y C(1) unfolding meta_def by blast
      ultimately show ?thesis using that(2) True by auto
    next
      case False
      with used [OF a] y show ?thesis unfolding meta_def by blast
    qed
    then show "y \<in> ?Y" unfolding meta_def by blast
  qed
  have g_dom: "g \<in> dom B" "x \<in> dom B" using g(1) x(2) by auto
  have "?X \<subseteq> ?Y" using head_meta [OF D(1) g_dom(1)] head_meta [OF D(1) g_dom(2)] n(3) by auto
  with S(3) have "same_outside ?Y M M2" by (rule same_outside_mono)
  moreover have "same_outside ?Y M2 M'" by (rule same_outside_mono [OF I(2) m1]) simp
  ultimately show "same_outside ?Y M M'" by (rule same_outside_trans)
qed

lemma sz_min: "(if n < 32 then 32 else n) = max 32 (n::nat)"
  by auto

lemma free_no_prev:
  assumes "blks_ok B" "coalesced B" "B g = Some (s, True, p)"
  shows "\<not> p"
proof
  assume p
  then obtain b t q where b: "B b = Some (t, True, q)" "b + 8 + t = g" using blk_prev_ex [OF assms(1,3)] by blast
  with assms(2,3) show False unfolding coalesced_def by fastforce
qed

lemma free_map_of_st:
  assumes "mm_st T M H B L" "\<And>a s p. B a = Some (s, True, p) \<Longrightarrow> L a \<noteq> None"
  shows "free_map B = L"
proof
  fix a
  show "free_map B a = L a"
  proof (cases "L a")
    case (Some s)
    with mm_stD(5) [OF assms(1)] show ?thesis by (auto simp: free_map_iff)
  next
    case None
    have "free_map B a \<noteq> Some s" for s using None assms(2) unfolding free_map_iff by blast
    then show ?thesis using None by (cases "free_map B a") auto
  qed
qed

lemma blk_mark_eq:
  assumes "B g = Some (s, f, p)" "B (g + 8 + s) = Some (s', f', f)"
  shows "blk_mark g v B g = Some (s, v, p)" "blk_mark g v B (g + 8 + s) = Some (s', f', v)"
    and "a \<noteq> g \<Longrightarrow> a \<noteq> g + 8 + s \<Longrightarrow> blk_mark g v B a = B a"
  using assms by (auto simp: blk_mark_def)

lemma carve_coalesced:
  assumes ok: "blks_ok B" and co: "coalesced B" and g: "B g = Some (s, f, p)" and x: "B (g + 8 + s) = Some (s', False, f)"
    and n: "n + 40 \<le> s"
  shows "coalesced (blk_carve g n B)"
  unfolding coalesced_def
proof (intro allI impI)
  fix a u r assume a: "blk_carve g n B a = Some (u, True, r)"
  note C = blk_carve_eq [OF g x n]
  have Bm: "B (g + 8 + n) = None" using blk_split_inside [OF ok g] n by simp
  consider "a = g + 8 + n" | "a \<noteq> g" "a \<noteq> g + 8 + n" "a \<noteq> g + 8 + s"
    using a C(1,3) by force
  then show "\<exists>t. blk_carve g n B (a + 8 + u) = Some (t, False, True)"
  proof cases
    case 1
    with a C(2) have "u = s - n - 8" by simp
    with 1 n have "a + 8 + u = g + 8 + s" by simp
    with C(3) show ?thesis by metis
  next
    case 2
    with a C(4) have old: "B a = Some (u, True, r)" by simp
    define y where "y = a + 8 + u"
    from co old obtain t where t: "B y = Some (t, False, True)" by (auto simp: coalesced_def y_def)
    moreover have "y \<noteq> g + 8 + n" using t Bm by auto
    ultimately show ?thesis using C(1,3) C(4) [of y] g unfolding y_def [symmetric]
      by (cases "y = g"; cases "y = g + 8 + s") auto
  qed
qed

lemma take_coalesced:
  assumes ok: "blks_ok B" and co: "coalesced B" and g: "B g = Some (s, True, p)" and x: "B (g + 8 + s) = Some (s', False, True)"
    and s: "s \<noteq> 0"
  shows "coalesced (blk_mark g False B)"
  unfolding coalesced_def
proof (intro allI impI)
  fix a u r assume a: "blk_mark g False B a = Some (u, True, r)"
  note C = blk_mark_eq [OF g x, where v = False]
  have old: "B a = Some (u, True, r)" "a \<noteq> g" using a C by (cases "a = g"; cases "a = g + 8 + s"; auto)+
  with co obtain t where t: "B (a + 8 + u) = Some (t, False, True)" by (auto simp: coalesced_def)
  have "a + 8 + u \<noteq> g" using t g by auto
  moreover have "a + 8 + u \<noteq> g + 8 + s" using blks_apartD [OF ok g old(1)] old(2) s blk_bounds(6) [OF ok old(1)] by auto
  ultimately show "\<exists>t. blk_mark g False B (a + 8 + u) = Some (t, False, True)" using t C(3) by auto
qed

text \<open>The search result is unlisted, split when the rest is large enough, and marked used.\<close>

lemma mm_take_ok:
  assumes ok: "mm_ok M H B" and g: "B g = Some (s, True, p)" and n: "8 dvd n" "32 \<le> n" "n \<le> s"
    and tk: "mm_take g n (M, H) = (M', H')"
  shows "mm_ok M' H' (if n + 40 \<le> s then blk_carve g n B else blk_mark g False B)"
    and "H' = H\<lparr>freelist := freelist H', free_bitmap := free_bitmap H'\<rparr>"
    and "same_outside (meta B) M M'"
proof -
  have co: "coalesced B" and st: "mm_st {} M H B (free_map B)" using ok by (auto simp: mm_ok_st)
  note D = mm_stD [OF st] and bd = blk_bounds [OF mm_stD(1) [OF st] g]
  define x where "x = g + 8 + s"
  obtain s' where x: "B x = Some (s', False, True)" using co g by (auto simp: coalesced_def x_def)
  note bx = blk_bounds [OF D(1) x]
  obtain M1 H1 where del: "k_mm_freelist_delete g (M, H) = (M1, H1)" by force
  let ?L = "(free_map B)(g := None)"
  have Lg: "free_map B g = Some s" using g by (simp add: free_map_iff)
  note I = mm_delete_st [OF st Lg _ del, simplified]
  note R = mm_st_reads [OF I(1) _ g, simplified] and Rx = mm_st_reads [OF I(1) _ x, simplified]
  have n32: "sz_add (sz_add n 8) 32 = n + 40" using n(3) bd(5) by (intro sz_split) simp
  have "mm_ok M' H' (if n + 40 \<le> s then blk_carve g n B else blk_mark g False B) \<and>
    H' = H\<lparr>freelist := freelist H', free_bitmap := free_bitmap H'\<rparr> \<and> same_outside (meta B) M M'"
  proof (cases "n + 40 \<le> s")
    case True
    obtain M2 m where sp: "mm_split g n (s - n - 8) x M1 = (M2, m)" by force
    obtain M3 H3 where ins: "k_mm_freelist_insert m (M2, H1) = (M3, H3)" by force
    have tk': "M' = buf_clear M3 g 1" "H' = H3"
      using tk sp ins True by (auto simp: mm_take_def del R n32 sz_rest x_def [symmetric] Let_def split: prod.splits)
    have pf: "load32 M1 (g + 4) AND 2 = (if p then 2 else 0)" using R(6) bd(3) by (simp add: enc_prev)
    have e: "load32 M2 (x + 4) = enc s' False True"
      using mm_split_next [OF D(1) g n(1,2) True x_def pf sp] Rx(6) by simp
    have M2: "same_outside {x + 4..<x + 8} M2 M2" by (simp add: same_outside_def)
    note C = mm_carve_st [OF I(1) empty_subsetI g fun_upd_same n(1,2) True x_def x pf sp M2 e ins]
    have Cg: "blk_carve g n B g = Some (n, False, p)" using blk_carve_eq(1) [OF g x [unfolded x_def] True] .
    note Rg = mm_st_reads [OF C(2) _ Cg, simplified]
    have M': "M' = store32 M3 (g + 4) (enc n False p)"
      unfolding tk' by (rule buf_clear_enc [OF Rg(6) n(1)]) (use n(3) bd(5) in simp)
    have ne: "enc n False p < 2 ^ 32" using enc_less28 [OF n(1)] n(3) bd(5) by simp
    note S = mm_st_store [OF C(2), of g "enc n False p", folded M']
    have st': "mm_st {} M' H3 (blk_carve g n B) (?L(m \<mapsto> s - n - 8))"
    proof (rule mm_st_fix [OF S(1)])
      show "g \<in> dom (blk_carve g n B)" using Cg by blast
      show "hdr_at M' (blk_carve g n B) g" using Cg ne by (simp add: M' hdr_at_def)
    qed
    have Bm: "B (g + 8 + n) = None" using blk_split_inside [OF D(1) g] True by simp
    have "free_map (blk_carve g n B) = ?L(m \<mapsto> s - n - 8)"
    proof (rule free_map_of_st [OF st'])
      fix a u r assume a: "blk_carve g n B a = Some (u, True, r)"
      note E = blk_carve_eq [OF g x [unfolded x_def] True]
      show "(?L(m \<mapsto> s - n - 8)) a \<noteq> None"
      proof (cases "a = m")
        case False
        then have "B a = Some (u, True, r)" "a \<noteq> g" using a E C(1) by force+
        then show ?thesis by (simp add: free_map_def)
      qed simp
    qed
    then have ok': "mm_ok M' H' (blk_carve g n B)"
      using st' carve_coalesced [OF D(1) co g x [unfolded x_def] True] tk' by (simp add: mm_ok_st)
    have sub: "{g + 8 + n..<g + 8 + s} \<subseteq> meta B" using free_meta [OF D(1) g] by auto
    have "same_outside (meta B) M1 M3" by (rule same_outside_mono [OF C(4)]) (use sub in blast)
    moreover have "same_outside {g..<g + 8} M3 M'" unfolding M' by (rule same_outside_store) auto
    then have "same_outside (meta B) M3 M'"
      by (rule same_outside_mono) (rule head_meta [OF D(1)], use g in blast)
    ultimately have "same_outside (meta B) M M'" using I(2) by (metis same_outside_trans)
    with ok' True tk' lists_only_trans [OF I(3) C(3)] show ?thesis by simp
  next
    case False
    define M2 where "M2 = buf_clear M1 x 2"
    have tk': "M' = buf_clear M2 g 1" "H' = H1"
      using tk False by (auto simp: mm_take_def del R n32 x_def [symmetric] M2_def Let_def split: prod.splits)
    have M2: "M2 = store32 M1 (x + 4) (enc s' False False)"
      unfolding M2_def by (rule buf_clear_enc [OF Rx(6) bx(3,5)])
    have "load32 M2 (g + 4) = load32 M1 (g + 4)" unfolding M2
      by (rule load32_store_other) (use bd(6) in \<open>auto simp: x_def\<close>)
    then have M': "M' = store32 M2 (g + 4) (enc s False p)"
      unfolding tk' using buf_clear_enc [OF _ bd(3,5)] R(6) by simp
    note S1 = mm_st_store [OF I(1), of x "enc s' False False", folded M2]
    note S2 = mm_st_store [OF S1(1), of g "enc s False p", folded M']
    note E = blk_mark_eq [OF g x [unfolded x_def], where v = False, folded x_def]
    have "32 \<le> s" using bd(6) by simp
    note mk = blk_mark_ok [OF D(1) g this, of False]
    have st': "mm_st {g, x} M' H1 (blk_mark g False B) ?L"
    proof (rule mm_st_switch [OF _ mk])
      show "mm_st {g, x} M' H1 B ?L" using S2(1) g x by auto
      fix a u assume "?L a = Some u"
      then obtain r where r: "B a = Some (u, True, r)" "a \<noteq> g" by (auto simp: free_map_iff split: if_splits)
      then have "a \<noteq> x" using x by auto
      with r E(3) show "\<exists>r. blk_mark g False B a = Some (u, True, r)" by simp
    qed (use E(3) in auto)
    have hx: "hdr_at M' (blk_mark g False B) x"
      using E(2) enc_less28 [OF bx(3,5)] bd(6) by (simp add: hdr_at_def M' M2 x_def load32_store_other)
    have hg: "hdr_at M' (blk_mark g False B) g" using E(1) enc_less28 [OF bd(3,5)] by (simp add: hdr_at_def M')
    have "mm_st {x} M' H1 (blk_mark g False B) ?L" by (rule mm_st_fix [OF st' hg])
    from mm_st_fix [OF this hx] have st'': "mm_st {} M' H1 (blk_mark g False B) ?L" .
    have "free_map (blk_mark g False B) = ?L"
    proof (rule free_map_of_st [OF st''])
      fix a u r assume a: "blk_mark g False B a = Some (u, True, r)"
      have n: "a \<noteq> g" "a \<noteq> x" using a E(1,2) by (auto simp del: not_None_eq)
      with a E(3) have "B a = Some (u, True, r)" by simp
      with n show "?L a \<noteq> None" by (simp add: free_map_def)
    qed
    then have "mm_ok M' H' (blk_mark g False B)"
      using st'' take_coalesced [OF D(1) co g x [unfolded x_def]] bd(6) tk' by (simp add: mm_ok_st)
    moreover have "same_outside (meta B) M M'"
      using I(2) S1(2) S2(2) g x by (metis domI same_outside_trans)
    ultimately show ?thesis using False tk' I(3) by simp
  qed
  then show "mm_ok M' H' (if n + 40 \<le> s then blk_carve g n B else blk_mark g False B)"
    "H' = H\<lparr>freelist := freelist H', free_bitmap := free_bitmap H'\<rparr>" "same_outside (meta B) M M'" by auto
qed

section \<open>Releasing a block\<close>

text \<open>The used blocks with their sizes: the abstract state of the heap.\<close>

definition used_map :: "blks \<Rightarrow> addr \<rightharpoonup> nat" where
  "used_map B a = (case B a of Some (s, f, _) \<Rightarrow> if f then None else Some s | None \<Rightarrow> None)"

lemma used_map_iff: "used_map B a = Some s \<longleftrightarrow> (\<exists>p. B a = Some (s, False, p))"
  by (auto simp: used_map_def split: option.splits)

lemma meta_sub:
  assumes "\<And>a u. used_map B a = Some u \<Longrightarrow> a \<noteq> b \<Longrightarrow> used_map B' a = Some u"
    and "\<And>u. used_map B b = Some u \<Longrightarrow> {b + 8..<b + 8 + u} \<subseteq> Y" and "meta B \<subseteq> Y"
  shows "meta B' \<subseteq> Y"
proof
  fix y assume y: "y \<in> meta B'"
  show "y \<in> Y"
  proof (cases "y \<in> meta B")
    case False
    then obtain a s p where a: "B a = Some (s, False, p)" "a + 8 \<le> y" "y < a + 8 + s" by (auto simp: meta_def)
    then have "used_map B a = Some s" by (simp add: used_map_iff)
    with assms(1) have "a \<noteq> b \<Longrightarrow> \<exists>p. B' a = Some (s, False, p)" by (simp add: used_map_iff)
    with y a have "a = b" unfolding meta_def by blast
    moreover have "y \<in> {a + 8..<a + 8 + s}" using a by simp
    ultimately show ?thesis using assms(2) \<open>used_map B a = Some s\<close> by blast
  qed (use assms(3) in blast)
qed

text \<open>A free block \<open>b\<close> that is not listed yet and whose successor \<open>e\<close> is not told.\<close>

definition loose :: "addr \<Rightarrow> nat \<Rightarrow> bool \<Rightarrow> mem \<Rightarrow> k_mm_head \<Rightarrow> blks \<Rightarrow> bool" where
  "loose b s p M H B \<longleftrightarrow>
     mm_st {b, b + 8 + s} M H B ((free_map B)(b := None)) \<and> B b = Some (s, True, p) \<and>
     load32 M (b + 4) = enc s True p \<and>
     (\<exists>t f. B (b + 8 + s) = Some (t, False, True) \<and> load32 M (b + 8 + s + 4) = enc t False f)"

lemma looseD:
  assumes "loose b s p M H B"
  shows "mm_st {b, b + 8 + s} M H B ((free_map B)(b := None))" "blks_ok B" "B b = Some (s, True, p)"
    "MM_GET_BUF_SIZE M b = s" "MM_GET_BLK_SIZE M b = s + 8" "MM_GET_NEXT_BLK M b = b + 8 + s" "buf_flag M b 2 = p"
    "load32 M (b + 4) = enc s True p" "32 \<le> s"
proof -
  show st: "mm_st {b, b + 8 + s} M H B ((free_map B)(b := None))" and b: "B b = Some (s, True, p)"
    and w: "load32 M (b + 4) = enc s True p" using assms by (auto simp: loose_def)
  show ok: "blks_ok B" by (rule mm_stD(1) [OF st])
  note bd = blk_bounds [OF ok b]
  show "MM_GET_BUF_SIZE M b = s" "MM_GET_BLK_SIZE M b = s + 8" "MM_GET_NEXT_BLK M b = b + 8 + s"
    "buf_flag M b 2 = p" using enc_reads [OF w bd(3,5,4)] by auto
  show "32 \<le> s" using bd(6) by simp
qed

text \<open>Writing the address of a block behind it concerns no other block.\<close>

lemma mm_st_store_prev:
  assumes st: "mm_st T M H B L" and b: "B b = Some (s, f, p)" and T: "b \<in> T" "b + 8 + s \<in> T"
    and e: "b + 8 + s \<in> dom B"
  shows "mm_st T (store32 M (b + 8 + s) v) H B L" and "same_outside (meta B) M (store32 M (b + 8 + s) v)"
proof -
  let ?e = "b + 8 + s" let ?M2 = "store32 M ?e v"
  note D = mm_stD [OF st] and bd = blk_bounds [OF mm_stD(1) [OF st] b]
  have X: "same_outside {?e..<?e + 8} M ?M2" by (rule same_outside_store) auto
  show "mm_st T ?M2 H B L"
  proof (rule mm_st_heads [OF st D(1) _ X head_links [OF D(1,4) e] D(5)])
    fix c assume c: "c \<notin> T"
    have "load32 ?M2 (c + 4) = load32 M (c + 4) \<and> (k \<longrightarrow> load32 ?M2 (c + 8 + u) = load32 M (c + 8 + u))"
      if B: "B c = Some (u, k, r)" for u k r
    proof -
      note bc = blk_bounds [OF D(1) B]
      have "c \<noteq> b" using c T by auto
      have ne: "?e \<noteq> c + 8 + u" if k
        using blks_apartD [OF D(1) b B] \<open>c \<noteq> b\<close> bc(6) [OF that] c T by auto
      show ?thesis
        by (intro conjI impI load_store_aligned) (use ne bc(1,3) bd(1,3) in \<open>presburger | blast\<close>)+
    qed
    with D(2) [OF c] show "hdr_at ?M2 B c" by (simp add: hdr_at_def)
  qed simp_all
  show "same_outside (meta B) M ?M2" by (rule same_outside_mono [OF X head_meta [OF D(1) e]])
qed

lemma loose_listed:
  assumes l: "loose b s p M H B" and ins: "k_mm_freelist_insert b (M, H) = (M1, H1)"
    and M': "M' = buf_set (store32 M1 (b + 8 + s) b) (b + 8 + s) 2"
  shows "mm_st {} M' H1 B (free_map B)" and "MM_GET_NEXT_BLK M1 b = b + 8 + s"
    and "H1 = H\<lparr>freelist := freelist H1, free_bitmap := free_bitmap H1\<rparr>"
    and "same_outside (meta B) M M'"
proof -
  note D = looseD [OF l] and bd = blk_bounds [OF looseD(2,3) [OF l]]
  let ?e = "b + 8 + s"
  obtain t f where e: "B ?e = Some (t, False, True)" "load32 M (?e + 4) = enc t False f" using l by (auto simp: loose_def)
  note be = blk_bounds [OF D(2) e(1)]
  note I = mm_insert_st [OF D(1,3) fun_upd_same D(4) ins]
  have dom: "b \<in> dom B" "?e \<in> dom B" using D(3) e by auto
  have w: "load32 M1 (b + 4) = enc s True p" "load32 M1 (?e + 4) = enc t False f"
    using I(5) [OF dom(1)] I(5) [OF dom(2)] D(8) e(2) by auto
  show "MM_GET_NEXT_BLK M1 b = ?e" using enc_reads(3) [OF w(1) bd(3,5,4)] .
  show "H1 = H\<lparr>freelist := freelist H1, free_bitmap := free_bitmap H1\<rparr>" by (rule I(3))
  let ?M2 = "store32 M1 ?e b"
  have fm: "((free_map B)(b := None))(b \<mapsto> s) = free_map B" using D(3) by (auto simp: free_map_def fun_eq_iff)
  have st1: "mm_st {b, ?e} M1 H1 B (free_map B)" using I(1) by (simp only: fm)
  have T: "b \<in> {b, ?e}" "?e \<in> {b, ?e}" by auto
  note V = mm_st_store_prev [OF st1 D(3) T dom(2), of b]
  have w2: "load32 ?M2 (?e + 4) = enc t False f" using w(2) by (simp add: load32_store_other)
  have M'': "M' = store32 ?M2 (?e + 4) (enc t False True)" unfolding M' by (rule buf_set_enc(2) [OF w2 be(3)])
  note S = mm_st_store [OF V(1) dom(2), of "enc t False True", folded M'']
  have "load32 M' ?e = b" using bd(4) by (simp add: M'' load32_store_other)
  moreover have "load32 M' (b + 4) = enc s True p" using w(1) D(9) by (simp add: M'' load32_store_other)
  ultimately have hb: "hdr_at M' B b" using D(3) by (simp add: hdr_at_def)
  have he: "hdr_at M' B ?e" using e(1) enc_less28 [OF be(3,5)] by (simp add: hdr_at_def M'')
  have "mm_st {b, ?e} M' H1 B (free_map B)" by (rule mm_st_mono [OF S(1)]) auto
  from mm_st_fix [OF this hb] have "mm_st {?e} M' H1 B (free_map B)" .
  from mm_st_fix [OF this he] show "mm_st {} M' H1 B (free_map B)" .
  show "same_outside (meta B) M M'" by (rule same_outside_trans [OF same_outside_trans [OF I(2) V(2)] S(2)])
qed

text \<open>No free neighbours but for a free block in front of \<open>b\<close>, which its head tells.\<close>

definition almost :: "addr \<Rightarrow> bool \<Rightarrow> blks \<Rightarrow> bool" where
  "almost b p B \<longleftrightarrow> (\<forall>a s r. B a = Some (s, True, r) \<longrightarrow> a \<noteq> b \<longrightarrow>
     (if a + 8 + s = b then p else \<exists>t. B (a + 8 + s) = Some (t, False, True)))"

lemma almostD:
  "almost b p B \<Longrightarrow> B a = Some (s, True, r) \<Longrightarrow> a \<noteq> b \<Longrightarrow>
    (if a + 8 + s = b then p else \<exists>t. B (a + 8 + s) = Some (t, False, True))"
  unfolding almost_def by blast

lemma loose_coalesced:
  assumes "loose b s p M H B" "almost b False B" shows "coalesced B"
  unfolding coalesced_def
proof (intro allI impI)
  fix a u r assume a: "B a = Some (u, True, r)"
  show "\<exists>t. B (a + 8 + u) = Some (t, False, True)"
    using assms a unfolding loose_def almost_def by (cases "a = b") (fastforce split: if_splits)+
qed

lemma buf_set_st:
  assumes st: "mm_st {} M H B L" and b: "B b = Some (s, False, p)"
  shows "mm_st {b} (buf_set M b 1) H B L" and "load32 (buf_set M b 1) (b + 4) = enc s True p"
    and "same_outside (meta B) M (buf_set M b 1)"
proof -
  note bd = blk_bounds [OF mm_stD(1) [OF st] b]
  have e: "buf_set M b 1 = store32 M (b + 4) (enc s True p)"
    by (rule buf_set_enc(1) [OF mm_st_reads(6) [OF st _ b] bd(3)]) simp
  show "mm_st {b} (buf_set M b 1) H B L" "same_outside (meta B) M (buf_set M b 1)"
    using mm_st_store [OF st, of b] b unfolding e by auto
  show "load32 (buf_set M b 1) (b + 4) = enc s True p" using enc_less28 [OF bd(3,5)] unfolding e by simp
qed

text \<open>First the successor is taken in, when it is free.\<close>

lemma mm_merge_next_free:
  assumes st: "mm_st {b} M H B (free_map B)" and co: "coalesced B" and b: "B b = Some (s, False, p)" "32 \<le> s"
    and w: "load32 M (b + 4) = enc s True p" and x: "B (b + 8 + s) = Some (t, True, False)"
    and mg: "mm_merge_next b (M, H) = (M', H')"
  shows "\<exists>B2. loose b (s + 8 + t) p M' H' B2 \<and> almost b p B2 \<and> used_map B2 = (used_map B)(b := None)"
    and "H' = H\<lparr>freelist := freelist H', free_bitmap := free_bitmap H'\<rparr>"
    and "same_outside (meta B) M M'"
proof -
  note D = mm_stD [OF st] and bd = blk_bounds [OF mm_stD(1) [OF st] b(1)]
  let ?x = "b + 8 + s" and ?n = "b + 8 + (s + 8 + t)"
  note bx = blk_bounds [OF D(1) x] and Rb = enc_reads [OF w bd(3,5,4)]
  have xb: "?x \<notin> {b}" by simp
  obtain t' where "B (?x + 8 + t) = Some (t', False, True)" using coalescedD [OF co x] by blast
  then have n: "B ?n = Some (t', False, True)" by (simp add: add.assoc)
  have nb: "?n \<notin> {b}" by simp
  obtain M1 H1 where del: "k_mm_freelist_delete ?x (M, H) = (M1, H1)" by force
  have Lx: "free_map B ?x = Some t" using x unfolding free_map_iff by blast
  note I = mm_delete_st [OF st Lx xb del]
  have bdom: "b \<in> dom B" using b(1) by blast
  have w1: "load32 M1 (b + 4) = enc s True p" using I(5) [OF bdom] w by simp
  have sz: "MM_GET_BLK_SIZE M1 ?x = t + 8" by (rule mm_st_reads(2) [OF I(1) xb x])
  have "M' = buf_grow M1 b (t + 8)" and H': "H' = H1"
    using mg sz mm_st_reads(4) [OF st xb x] by (auto simp: mm_merge_next_def Rb(3) del)
  moreover have room: "s + 8 + t < 2 ^ 28" using blk_room(1) [OF D(1) b(1) _ x] b(2) bx(6) by simp
  ultimately have M': "M' = store32 M1 (b + 4) (enc (s + 8 + t) True p)"
    using buf_grow_enc [OF w1, of "t + 8"] by (simp add: ac_simps)
  note S = mm_st_store [OF I(1) bdom, of "enc (s + 8 + t) True p", folded M', simplified]
  have ok1: "blks_ok (blk_mark b True B)" by (rule blk_mark_ok [OF D(1) b])
  note E = blk_mark_eq [OF b(1) x, where v = True]
  define B2 where "B2 = blk_join b (blk_mark b True B)"
  have B2: "B2 = (blk_mark b True B)(b \<mapsto> (s + 8 + t, True, p), ?x := None)"
    unfolding B2_def blk_join_def E(1) option.case prod.case E(2) ..
  have B2c: "B2 b = Some (s + 8 + t, True, p)" "B2 ?x = None" "\<And>c. c \<noteq> b \<Longrightarrow> c \<noteq> ?x \<Longrightarrow> B2 c = B c"
    using E(3) by (simp_all add: B2)
  have ok2: "blks_ok B2" unfolding B2_def by (rule blk_join_ok [OF ok1 E(1) _ E(2)]) (use b(2) bx(6) in auto)
  have L: "(free_map B)(?x := None) = (free_map B2)(b := None)"
  proof
    fix c show "((free_map B)(?x := None)) c = ((free_map B2)(b := None)) c"
      using B2c b(1) by (cases "c = b"; cases "c = ?x") (auto simp: free_map_def)
  qed
  have st2: "mm_st {b} M' H1 B2 ((free_map B2)(b := None))"
  proof (rule mm_st_switch [OF S(1) [unfolded L] ok2])
    show "B2 c = B c \<or> B2 c = None" if "c \<notin> {b}" for c using that B2c by (cases "c = ?x") auto
  qed (auto simp: free_map_iff split: if_splits)
  have n2: "B2 ?n = Some (t', False, True)" using B2c(3) [of ?n] n by simp
  have "32 \<le> s + 8 + t" using b(2) by simp
  then have "enc (s + 8 + t) True p < 2 ^ 32" using room bd(3) bx(3) by (intro enc_less28) auto
  then have w2: "load32 M' (b + 4) = enc (s + 8 + t) True p" by (simp add: M')
  have wn: "load32 M' (?n + 4) = enc t' False True" by (rule mm_st_reads(6) [OF st2 nb n2])
  have "loose b (s + 8 + t) p M' H' B2"
    unfolding loose_def H' using mm_st_mono [OF st2, of "{b, ?n}"] B2c(1) w2 n2 wn by blast
  moreover have "almost b p B2"
    unfolding almost_def
  proof (intro allI impI)
    fix a u r assume a: "B2 a = Some (u, True, r)" "a \<noteq> b"
    then have "B a = Some (u, True, r)" using B2c by (cases "a = ?x") auto
    with co obtain v where v: "B (a + 8 + u) = Some (v, False, True)" by (auto simp: coalesced_def)
    define y where "y = a + 8 + u"
    have "y \<noteq> ?x" using v x unfolding y_def by force
    with v b(1) B2c(3) show "if a + 8 + u = b then p else \<exists>t. B2 (a + 8 + u) = Some (t, False, True)"
      unfolding y_def [symmetric] by auto
  qed
  moreover have "used_map B2 = (used_map B)(b := None)"
  proof
    fix c show "used_map B2 c = ((used_map B)(b := None)) c"
      using B2c x by (cases "c = b"; cases "c = ?x") (auto simp: used_map_def)
  qed
  ultimately show "\<exists>B2. loose b (s + 8 + t) p M' H' B2 \<and> almost b p B2 \<and> used_map B2 = (used_map B)(b := None)"
    by blast
  show "H' = H\<lparr>freelist := freelist H', free_bitmap := free_bitmap H'\<rparr>" unfolding H' by (rule I(3))
  show "same_outside (meta B) M M'" using I(2) S(2) by (rule same_outside_trans)
qed

lemma mm_merge_next_used:
  assumes st: "mm_st {b} M H B (free_map B)" and co: "coalesced B" and b: "B b = Some (s, False, p)" "32 \<le> s"
    and w: "load32 M (b + 4) = enc s True p" and x: "B (b + 8 + s) = Some (t, False, False)"
  shows "mm_merge_next b (M, H) = (M, H)"
    and "\<exists>B2. loose b s p M H B2 \<and> almost b p B2 \<and> used_map B2 = (used_map B)(b := None)"
proof -
  note D = mm_stD [OF st] and bd = blk_bounds [OF mm_stD(1) [OF st] b(1)]
  let ?x = "b + 8 + s"
  have xb: "?x \<notin> {b}" by simp
  have "MM_GET_NEXT_BLK M b = ?x" by (rule enc_reads(3) [OF w bd(3,5,4)])
  then show "mm_merge_next b (M, H) = (M, H)"
    using mm_st_reads(4) [OF st xb x] by (simp add: mm_merge_next_def)
  define B2 where "B2 = blk_mark b True B"
  note E = blk_mark_eq [OF b(1) x, where v = True, folded B2_def]
  have ok2: "blks_ok B2" unfolding B2_def by (rule blk_mark_ok [OF D(1) b])
  have fm: "free_map B = (free_map B2)(b := None)"
  proof
    fix c show "free_map B c = ((free_map B2)(b := None)) c"
      using E b(1) x by (cases "c = b"; cases "c = ?x") (auto simp: free_map_def)
  qed
  have st1: "mm_st {b, ?x} M H B ((free_map B2)(b := None))" using mm_st_mono [OF st, of "{b, ?x}"] fm by auto
  have st2: "mm_st {b, ?x} M H B2 ((free_map B2)(b := None))"
    by (rule mm_st_switch [OF st1 ok2]) (use E in \<open>auto simp: free_map_iff split: if_splits\<close>)
  have "loose b s p M H B2"
    unfolding loose_def using st2 E(1,2) w mm_st_reads(6) [OF st xb x] by blast
  moreover have "almost b p B2"
    unfolding almost_def
  proof (intro allI impI)
    fix a u r assume a: "B2 a = Some (u, True, r)" "a \<noteq> b"
    then have old: "B a = Some (u, True, r)" using E by (cases "a = ?x") auto
    define y where "y = a + 8 + u"
    from co old obtain v where "B y = Some (v, False, True)" by (auto simp: coalesced_def y_def)
    with b(1) x E(3) show "if a + 8 + u = b then p else \<exists>t. B2 (a + 8 + u) = Some (t, False, True)"
      unfolding y_def [symmetric] by (cases "y = ?x") auto
  qed
  moreover have "used_map B2 = (used_map B)(b := None)"
  proof
    fix c show "used_map B2 c = ((used_map B)(b := None)) c"
      using E x by (cases "c = b"; cases "c = ?x") (auto simp: used_map_def)
  qed
  ultimately show "\<exists>B2. loose b s p M H B2 \<and> almost b p B2 \<and> used_map B2 = (used_map B)(b := None)"
    by blast
qed

text \<open>Then the predecessor takes in the block, when it is free.\<close>

lemma mm_merge_prev_free:
  assumes l: "loose b s True M H B" and al: "almost b True B" and a: "B a = Some (t, True, q)" "a + 8 + t = b"
    and mg: "mm_merge_prev b (M, H) = ((M', H'), c)"
  shows "c = a" and "\<exists>B'. loose a (t + 8 + s) q M' H' B' \<and> coalesced B' \<and> used_map B' = used_map B"
    and "H' = H\<lparr>freelist := freelist H', free_bitmap := free_bitmap H'\<rparr>"
    and "same_outside (meta B) M M'"
proof -
  note D = looseD [OF l] and ba = blk_bounds [OF looseD(2) [OF l] a(1)] and bd = blk_bounds [OF looseD(2,3) [OF l]]
  let ?e = "b + 8 + s"
  have ne: "a \<notin> {b, ?e}" "a \<noteq> b" using a(2) by auto
  obtain v f where e: "B ?e = Some (v, False, True)" "load32 M (?e + 4) = enc v False f" using l by (auto simp: loose_def)
  note be = blk_bounds [OF D(2) e(1)]
  obtain M1 H1 where del: "k_mm_freelist_delete a (M, H) = (M1, H1)" by force
  have La: "((free_map B)(b := None)) a = Some t" using a(1) ne(2) by (simp add: free_map_iff)
  note I = mm_delete_st [OF D(1) La ne(1) del]
  have dom: "a \<in> dom B" "b \<in> dom B" "?e \<in> dom B" using a(1) D(3) e(1) by auto
  have w1: "load32 M1 (b + 4) = enc s True True" using I(5) [OF dom(2)] D(8) by simp
  have lb: "load32 M b = a" using mm_st_reads(7) [OF D(1) ne(1) a(1)] a(2) by simp
  have wa: "load32 M1 (a + 4) = enc t True q" by (rule mm_st_reads(6) [OF I(1) ne(1) a(1)])
  have "M' = buf_grow M1 a (s + 8)" and H': "H' = H1" and c: "c = a"
    using mg D(7) enc_reads(2) [OF w1 bd(3,5,4)] by (auto simp: mm_merge_prev_def lb del)
  then show "c = a" "H' = H\<lparr>freelist := freelist H', free_bitmap := free_bitmap H'\<rparr>" using I(3) by auto
  have room: "t + 8 + s < 2 ^ 28" using blk_room(1) [OF D(2) a(1)] a(2) D(3,9) ba(6) by simp
  with \<open>M' = _\<close> have M': "M' = store32 M1 (a + 4) (enc (t + 8 + s) True q)"
    using buf_grow_enc [OF wa, of "s + 8"] by (simp add: ac_simps)
  note S = mm_st_store [OF I(1) dom(1), of "enc (t + 8 + s) True q", folded M']
  show "same_outside (meta B) M M'" using I(2) S(2) by (rule same_outside_trans)
  define B' where "B' = blk_join a B"
  have B': "B' = B(a \<mapsto> (t + 8 + s, True, q), b := None)"
    unfolding B'_def blk_join_def a option.case prod.case D(3) ..
  have Bc: "B' a = Some (t + 8 + s, True, q)" "B' b = None" "\<And>c. c \<noteq> a \<Longrightarrow> c \<noteq> b \<Longrightarrow> B' c = B c"
    using ne(2) by (simp_all add: B')
  have ok: "blks_ok B'"
    unfolding B'_def by (rule blk_join_ok [OF D(2) a(1)]) (use a(2) D(3,9) ba(6) in auto)
  have L: "(free_map B)(b := None, a := None) = (free_map B')(a := None)"
  proof
    fix c show "((free_map B)(b := None, a := None)) c = ((free_map B')(a := None)) c"
      using Bc by (cases "c = a"; cases "c = b") (auto simp: free_map_def)
  qed
  have st2: "mm_st (insert a {b, ?e}) M' H1 B' ((free_map B')(a := None))"
  proof (rule mm_st_switch [OF S(1) [unfolded L] ok])
    show "B' c = B c \<or> B' c = None" if "c \<notin> insert a {b, ?e}" for c using that Bc(3) by auto
    show "\<exists>r. B' c = Some (u, True, r)" if "((free_map B')(a := None)) c = Some u" for c u
      using that by (simp add: free_map_iff split: if_splits)
  qed
  have "mm_st (insert b {a, ?e}) M' H1 B' ((free_map B')(a := None))" by (rule mm_st_mono [OF st2]) auto
  from mm_st_fix [OF this] Bc(2) have st3: "mm_st {a, ?e} M' H1 B' ((free_map B')(a := None))" by (simp add: hdr_at_def)
  have e': "a + 8 + (t + 8 + s) = ?e" using a(2) by simp
  have e2: "B' ?e = Some (v, False, True)" using Bc(3) [of ?e] e(1) ne(1) by simp
  have "enc (t + 8 + s) True q < 2 ^ 32" using room ba(3) bd(3) by (intro enc_less28) auto
  then have w2: "load32 M' (a + 4) = enc (t + 8 + s) True q" by (simp add: M')
  have "load32 M' (?e + 4) = load32 M1 (?e + 4)" unfolding M' by (rule load32_store_other) (use a(2) in auto)
  then have we: "load32 M' (?e + 4) = enc v False f" using I(5) [OF dom(3)] e(2) by simp
  have "loose a (t + 8 + s) q M' H' B'"
    unfolding loose_def e' H' using st3 Bc(1) w2 e2 we by blast
  moreover have "almost a False B'"
    unfolding almost_def
  proof (intro allI impI)
    fix c u r assume c: "B' c = Some (u, True, r)" "c \<noteq> a"
    then have "c \<noteq> b" using Bc(2) by auto
    with c Bc(3) have old: "B c = Some (u, True, r)" by simp
    have "c + 8 + u \<noteq> b" using blks_apartD [OF D(2) a(1) old] c(2) a(2) blk_bounds(6) [OF D(2) old] ba(6) by auto
    moreover from this obtain w where w: "B (c + 8 + u) = Some (w, False, True)"
      using almostD [OF al old \<open>c \<noteq> b\<close>] by auto
    moreover have "c + 8 + u \<noteq> a" using w a(1) by auto
    ultimately show "if c + 8 + u = a then False else \<exists>t. B' (c + 8 + u) = Some (t, False, True)"
      using Bc(3) by simp
  qed
  ultimately have "loose a (t + 8 + s) q M' H' B' \<and> coalesced B'" using loose_coalesced by blast
  moreover have "used_map B' = used_map B"
  proof
    fix c show "used_map B' c = used_map B c"
      using Bc a(1) D(3) by (cases "c = a"; cases "c = b") (auto simp: used_map_def)
  qed
  ultimately show "\<exists>B'. loose a (t + 8 + s) q M' H' B' \<and> coalesced B' \<and> used_map B' = used_map B" by blast
qed

lemma mm_merge_prev_ok:
  assumes l: "loose b s p M H B" and al: "almost b p B" and mg: "mm_merge_prev b (M, H) = ((M', H'), c)"
  shows "\<exists>s' q B'. loose c s' q M' H' B' \<and> coalesced B' \<and> used_map B' = used_map B"
    and "H' = H\<lparr>freelist := freelist H', free_bitmap := free_bitmap H'\<rparr>"
    and "same_outside (meta B) M M'"
proof -
  have "(\<exists>s' q B'. loose c s' q M' H' B' \<and> coalesced B' \<and> used_map B' = used_map B) \<and>
    H' = H\<lparr>freelist := freelist H', free_bitmap := free_bitmap H'\<rparr> \<and> same_outside (meta B) M M'"
  proof (cases p)
    case False
    then have "almost b False B" using al by simp
    moreover have "M' = M" "H' = H" "c = b" using mg looseD(7) [OF l] False by (auto simp: mm_merge_prev_def)
    ultimately show ?thesis using l loose_coalesced [OF l] by (metis k_mm_head.surjective k_mm_head.update_convs(7,8) same_outside_refl)
  next
    case True
    obtain a t q where a: "B a = Some (t, True, q)" "a + 8 + t = b"
      using blk_prev_ex [OF looseD(2,3) [OF l] True] by blast
    from True l al have "loose b s True M H B" "almost b True B" by auto
    note R = mm_merge_prev_free [OF this a mg]
    from R show ?thesis by blast
  qed
  then show "\<exists>s' q B'. loose c s' q M' H' B' \<and> coalesced B' \<and> used_map B' = used_map B"
    "H' = H\<lparr>freelist := freelist H', free_bitmap := free_bitmap H'\<rparr>" "same_outside (meta B) M M'" by blast+
qed

lemma mm_merge_next_ok:
  assumes st: "mm_st {b} M H B (free_map B)" and co: "coalesced B" and b: "B b = Some (s, False, p)" "32 \<le> s"
    and w: "load32 M (b + 4) = enc s True p" and mg: "mm_merge_next b (M, H) = (M', H')"
  shows "\<exists>s2 B2. loose b s2 p M' H' B2 \<and> almost b p B2 \<and> used_map B2 = (used_map B)(b := None)"
    and "H' = H\<lparr>freelist := freelist H', free_bitmap := free_bitmap H'\<rparr>"
    and "same_outside (meta B) M M'"
proof -
  obtain t f where x: "B (b + 8 + s) = Some (t, f, False)"
    using blk_next [OF mm_stD(1) [OF st] b(1)] b(2) by auto
  have "(\<exists>s2 B2. loose b s2 p M' H' B2 \<and> almost b p B2 \<and> used_map B2 = (used_map B)(b := None)) \<and>
    H' = H\<lparr>freelist := freelist H', free_bitmap := free_bitmap H'\<rparr> \<and> same_outside (meta B) M M'"
  proof (cases f)
    case True
    with x have x: "B (b + 8 + s) = Some (t, True, False)" by simp
    from mm_merge_next_free [OF st co b w x mg] show ?thesis by blast
  next
    case False
    with x have x: "B (b + 8 + s) = Some (t, False, False)" by simp
    from mm_merge_next_used [OF st co b w x] mg show ?thesis by auto
  qed
  then show "\<exists>s2 B2. loose b s2 p M' H' B2 \<and> almost b p B2 \<and> used_map B2 = (used_map B)(b := None)"
    "H' = H\<lparr>freelist := freelist H', free_bitmap := free_bitmap H'\<rparr>" "same_outside (meta B) M M'" by blast+
qed

lemma mm_release_ok:
  assumes ok: "mm_ok M H B" and b: "B b = Some (s, False, p)" "32 \<le> s"
    and rl: "mm_release b (M, H) = (M', H')"
  shows "\<exists>B'. mm_ok M' H' B' \<and> used_map B' = (used_map B)(b := None)"
    and "H' = (stats_removesize (s + 8) H)\<lparr>freelist := freelist H', free_bitmap := free_bitmap H'\<rparr>"
    and "same_outside (meta B \<union> {b + 8..<b + 8 + s}) M M'"
proof -
  have co: "coalesced B" and st: "mm_st {} M H B (free_map B)" using ok by (auto simp: mm_ok_st)
  define M0 where "M0 = buf_set M b 1"
  define H0 where "H0 = stats_removesize (s + 8) H"
  note S0 = buf_set_st [OF st b(1), folded M0_def] and bd = blk_bounds [OF mm_stD(1) [OF st] b(1)]
  have st0: "mm_st {b} M0 H0 B (free_map B)"
    by (rule mm_st_stats [OF S0(1)]) (simp_all add: H0_def stats_removesize_def Let_def)
  have sz: "MM_GET_BLK_SIZE M0 b = s + 8" by (rule enc_reads(2) [OF S0(2) bd(3,5,4)])
  obtain M1 H1 where m1: "mm_merge_next b (M0, H0) = (M1, H1)" by force
  note A = mm_merge_next_ok [OF st0 co b S0(2) m1]
  from A(1) obtain s2 B2 where B2: "loose b s2 p M1 H1 B2" "almost b p B2" "used_map B2 = (used_map B)(b := None)" by blast
  obtain M2 H2 c where m2: "mm_merge_prev b (M1, H1) = ((M2, H2), c)" by (metis surj_pair)
  note P = mm_merge_prev_ok [OF B2(1,2) m2]
  from P(1) obtain s3 q B3 where B3: "loose c s3 q M2 H2 B3" "coalesced B3" "used_map B3 = used_map B2" by blast
  obtain M3 H3 where m3: "k_mm_freelist_insert c (M2, H2) = (M3, H3)" by force
  note Q = loose_listed [OF B3(1) m3 refl]
  have res: "M' = buf_set (store32 M3 (c + 8 + s3) c) (c + 8 + s3) 2" "H' = H3"
    using rl by (simp_all add: mm_release_def Let_def M0_def [symmetric] sz H0_def [symmetric] m1 m2 m3 Q(2) del: One_nat_def)
  show "\<exists>B'. mm_ok M' H' B' \<and> used_map B' = (used_map B)(b := None)"
    using Q(1) B3(2,3) B2(3) unfolding res mm_ok_st by metis
  show "H' = (stats_removesize (s + 8) H)\<lparr>freelist := freelist H', free_bitmap := free_bitmap H'\<rparr>"
    unfolding res H0_def [symmetric] by (rule lists_only_trans [OF lists_only_trans [OF A(2) P(2)] Q(3)])
  let ?Y = "meta B \<union> {b + 8..<b + 8 + s}"
  have used: "used_map B b = Some s" using b(1) by (simp add: used_map_iff)
  have Y2: "meta B2 \<subseteq> ?Y" by (rule meta_sub [where b = b]) (use B2(3) used in auto)
  have Y3: "meta B3 \<subseteq> ?Y" by (rule meta_sub [where b = b]) (use B3(3) B2(3) used in auto)
  have O1: "same_outside ?Y M M1"
    by (rule same_outside_mono [OF same_outside_trans [OF S0(3) A(3)]]) simp
  have O2: "same_outside ?Y M1 M2" by (rule same_outside_mono [OF P(3) Y2])
  have "same_outside ?Y M2 M'" unfolding res by (rule same_outside_mono [OF Q(4) Y3])
  with same_outside_trans [OF O1 O2] show "same_outside ?Y M M'" by (rule same_outside_trans)
qed

end
