(* ===== verification/KMmCalls.thy ===== *)
theory KMmCalls
  imports KMmAlloc
begin

text \<open>
  The calls of the heap. \<open>heap_ok\<close> joins the blocks of the heap (\<open>mm_ok\<close>) with the pool of small
  blocks that lives in the payload of one of them; \<open>allocs\<close> is the set of the objects handed out,
  each with its address and its room. The theorems say what allocation and release do to this set
  and to the bytes of the objects in it.
\<close>

section \<open>Allocation from the blocks\<close>

lemma mm_ok_head:
  "freelist H' = freelist H \<Longrightarrow> free_bitmap H' = free_bitmap H \<Longrightarrow> mm_ok M H B \<Longrightarrow> mm_ok M H' B"
  unfolding mm_ok_st using mm_st_stats by blast

lemma stats_addsize_sel [simp]:
  "freelist (stats_addsize a b H) = freelist H" "free_bitmap (stats_addsize a b H) = free_bitmap H"
  "fix_pool (stats_addsize a b H) = fix_pool H" "regioninfo (stats_addsize a b H) = regioninfo H"
  by (simp_all add: stats_addsize_def Let_def)

lemma stats_removesize_sel [simp]:
  "freelist (stats_removesize a H) = freelist H" "free_bitmap (stats_removesize a H) = free_bitmap H"
  "fix_pool (stats_removesize a H) = fix_pool H" "regioninfo (stats_removesize a H) = regioninfo H"
  by (simp_all add: stats_removesize_def Let_def)

lemma lists_only_sel:
  assumes "H' = H\<lparr>freelist := freelist H', free_bitmap := free_bitmap H'\<rparr>"
  shows "fix_pool H' = fix_pool H" "regioninfo H' = regioninfo H"
  by (subst assms, simp)+

lemma take_used:
  assumes ok: "blks_ok B" "coalesced B" and g: "B g = Some (s, True, p)" and n: "n \<le> s"
  shows "used_map (if n + 40 \<le> s then blk_carve g n B else blk_mark g False B) =
    (used_map B)(g \<mapsto> (if n + 40 \<le> s then n else s))"
proof -
  obtain t where x: "B (g + 8 + s) = Some (t, False, True)" using coalescedD [OF ok(2) g] by blast
  show ?thesis
  proof (cases "n + 40 \<le> s")
    case True
    note C = blk_carve_eq [OF g x True]
    have m: "B (g + 8 + n) = None" using blk_split_inside [OF ok(1) g] True by simp
    have "used_map (blk_carve g n B) a = ((used_map B)(g \<mapsto> n)) a" for a
      using C m x True C(4) [of a]
      by (cases "a = g"; cases "a = g + 8 + n"; cases "a = g + 8 + s") (simp_all add: used_map_def)
    with True show ?thesis by auto
  next
    case False
    note C = blk_mark_eq [OF g x, where v = False]
    have "used_map (blk_mark g False B) a = ((used_map B)(g \<mapsto> s)) a" for a
      using C x C(3) [of a] by (cases "a = g"; cases "a = g + 8 + s") (simp_all add: used_map_def)
    with False show ?thesis by auto
  qed
qed

lemma alloc_size:
  assumes "sz + 7 < 2 ^ 32" "n = (if MM_ALIGN_UP sz < 32 then 32 else MM_ALIGN_UP sz)"
  shows "sz \<le> n" "32 \<le> n" "8 dvd n" "n < 2 ^ 32"
  using ALIGN_UP_bounds [OF assms(1)] assms by auto

text \<open>A size close to \<open>2 ^ 32\<close> wraps when it is rounded up: such a request is served with the
  smallest block.\<close>

lemma align_wraps:
  assumes "2 ^ 32 - 7 \<le> sz" "sz < 2 ^ 32" shows "MM_ALIGN_UP sz = 0"
proof -
  have "sz_add sz 7 = sz + 7 - 2 ^ 32" using assms by (simp add: sz_add_def mod_if)
  then have "sz_add sz 7 < 7" "sz_add sz 7 < 2 ^ 32" using assms by auto
  then show ?thesis using and_align [of "sz_add sz 7"] by (simp add: MM_ALIGN_UP_def)
qed

lemma k_mm_alloc_blocks:
  assumes ok: "mm_ok M H B" and sz: "0 < sz" "sz + 7 < 2 ^ 32"
    and pool: "(if fix_pool H \<noteq> None \<and> sz \<le> RHINO_CONFIG_MM_BLK_SIZE
      then krhino_mblk_alloc_nolock M (fix_pool H) sz else (fix_pool H, 0)) = (po, 0)"
    and n: "n = (if MM_ALIGN_UP sz < 32 then 32 else MM_ALIGN_UP sz)"
  shows "\<exists>M' H' r B'. k_mm_alloc M (Some H) sz = Some (M', Some H', r) \<and> mm_ok M' H' B' \<and> fix_pool H' = po \<and>
    (if r = 0 then M' = M \<and> B' = B \<and> (\<forall>a t p. B a = Some (t, True, p) \<longrightarrow> t < n)
     else \<exists>g k. r = g + 8 \<and> 8 dvd g \<and> n \<le> k \<and> used_map B g = None \<and> used_map B' = (used_map B)(g \<mapsto> k) \<and>
       same_outside (meta B) M M')"
proof -
  note N = alloc_size [OF sz(2) n]
  define H1 where "H1 = H\<lparr>fix_pool := po\<rparr>"
  have ok1: "mm_ok M H1 B" by (rule mm_ok_head [OF _ _ ok]) (simp_all add: H1_def)
  then have st: "mm_st {} M H1 B (free_map B)" and co: "coalesced B" by (auto simp: mm_ok_st)
  note D = mm_stD [OF st]
  have n': "(if MM_ALIGN_UP sz < MM_MIN_SIZE then MM_MIN_SIZE else MM_ALIGN_UP sz) = n" using n by simp
  have def: "k_mm_alloc M (Some H) sz =
    (if size_to_level n = -1 then Some (M, Some H1, 0)
     else Option.bind (mm_first_fit M n (freelist H1 ! nat (size_to_level n))) (\<lambda>g.
       let g = (if g = 0 then find_up_level H1 (size_to_level n) else g) in
       if g = 0 then Some (M, Some H1, 0)
       else let (M, H) = mm_take g n (M, H1);
                H = (if g + 8 \<noteq> 0 then stats_addsize (MM_GET_BLK_SIZE M g) sz H else H)
            in Some (M, Some H, g + 8)))"
    unfolding k_mm_alloc_def option.case pool prod.case Let_def H1_def [symmetric] n' using sz(1)
    by simp
  show ?thesis
  proof (cases "n < 2 ^ 28")
    case False
    with N have "size_to_level n = -1" by (intro size_to_level_big) auto
    moreover have "t < n" if "B a = Some (t, True, p)" for a t p
      using blk_bounds(5) [OF D(1) that] False by simp
    ultimately show ?thesis using ok1 by (intro exI [of _ M] exI [of _ H1] exI [of _ 0] exI [of _ B]) (simp add: def H1_def)
  next
    case True
    obtain F where F: "flists M H1 (free_map B) F" using D(3) by blast
    have sizes: "MM_GET_BUF_SIZE M x = s" if "free_map B x = Some s" for x s
      using that mm_st_reads(1) [OF st] unfolding free_map_iff by blast
    define pick where "pick r = (if r = 0 then find_up_level H1 (size_to_level n) else r)" for r
    obtain r where r: "mm_first_fit M n (freelist H1 ! nat (size_to_level n)) = Some r"
      and s: "if pick r = 0 then \<forall>x s. free_map B x = Some s \<longrightarrow> s < n else \<exists>s. free_map B (pick r) = Some s \<and> n \<le> s"
      using mm_search_ok [OF F sizes N(2) True] unfolding Let_def pick_def [symmetric] by blast
    have lv: "size_to_level n \<noteq> -1" using size_to_level_range [OF N(2) True] by fastforce
    show ?thesis
    proof (cases "pick r = 0")
      case True
      with s have "t < n" if "B a = Some (t, True, p)" for a t p using that by (auto simp: free_map_iff)
      moreover have "k_mm_alloc M (Some H) sz = Some (M, Some H1, 0)"
        unfolding def r using lv True by (simp add: pick_def [symmetric])
      ultimately show ?thesis using ok1 by (intro exI [of _ M] exI [of _ H1] exI [of _ 0] exI [of _ B]) (simp add: H1_def)
    next
      case False
      define g where "g = pick r"
      from s False obtain s p where g: "B g = Some (s, True, p)" "n \<le> s" by (auto simp: g_def free_map_iff)
      obtain M2 H2 where tk: "mm_take g n (M, H1) = (M2, H2)" by force
      note T = mm_take_ok [OF ok1 g(1) N(3,2) g(2) tk]
      define H3 where "H3 = stats_addsize (MM_GET_BLK_SIZE M2 g) sz H2"
      let ?B = "if n + 40 \<le> s then blk_carve g n B else blk_mark g False B"
      have "k_mm_alloc M (Some H) sz = Some (M2, Some H3, g + 8)"
        unfolding def r using lv False by (simp add: pick_def [symmetric] g_def [symmetric] tk H3_def)
      moreover have "mm_ok M2 H3 ?B" by (rule mm_ok_head [OF _ _ T(1)]) (simp_all add: H3_def)
      moreover have "fix_pool H3 = po" using lists_only_sel(1) [OF T(2)] by (simp add: H3_def H1_def)
      moreover have "\<exists>g' k. g + 8 = g' + 8 \<and> 8 dvd g' \<and> n \<le> k \<and> used_map B g' = None \<and>
        used_map ?B = (used_map B)(g' \<mapsto> k) \<and> same_outside (meta B) M M2"
      proof (intro exI conjI)
        show "n \<le> (if n + 40 \<le> s then n else s)" using g(2) by simp
        show "used_map B g = None" using g(1) by (simp add: used_map_def)
      qed (rule refl blk_bounds(1) [OF D(1) g(1)] take_used [OF D(1) co g] T(3))+
      moreover have "g + 8 \<noteq> 0" by simp
      ultimately show ?thesis by (metis (no_types, lifting))
    qed
  qed
qed

section \<open>The heap and its pool\<close>

text \<open>The pool occupies part of the payload of the used block \<open>h\<close>; \<open>U\<close> are its live blocks, with the
  exponents of their sizes. Without a pool \<open>h\<close> is no block.\<close>

definition pool_in :: "mem \<Rightarrow> k_mm_head \<Rightarrow> blks \<Rightarrow> addr \<Rightarrow> (addr \<times> nat) set \<Rightarrow> bool" where
  "pool_in M H B h U \<longleftrightarrow>
     (case fix_pool H of
        None \<Rightarrow> h = 0 \<and> U = {}
      | Some P \<Rightarrow> \<exists>F s. mblk_rep M P F \<and> mblk_live P F = U \<and> used_map B h = Some s \<and>
          h + 8 \<le> pool_start P \<and> pool_end P \<le> h + 8 + s)"

definition heap_ok :: "mem \<Rightarrow> k_mm_head \<Rightarrow> blks \<Rightarrow> addr \<Rightarrow> (addr \<times> nat) set \<Rightarrow> bool" where
  "heap_ok M H B h U \<longleftrightarrow> mm_ok M H B \<and> pool_in M H B h U"

text \<open>The objects in use: address and size. Used blocks below the minimal size are the heap's own.\<close>

definition allocs :: "addr \<Rightarrow> blks \<Rightarrow> (addr \<times> nat) set \<Rightarrow> (addr \<times> nat) set" where
  "allocs h B U = {(a + 8, s) | a s. used_map B a = Some s \<and> 32 \<le> s \<and> a \<noteq> h} \<union> {(a, 2 ^ t) | a t. (a, t) \<in> U}"

definition kept :: "(addr \<times> nat) set \<Rightarrow> mem \<Rightarrow> mem \<Rightarrow> bool" where
  "kept A M M' \<longleftrightarrow> (\<forall>(a, n)\<in>A. \<forall>x. a \<le> x \<and> x < a + n \<longrightarrow> M' x = M x)"

lemma allocs_cases:
  assumes "(p, n) \<in> allocs h B U"
  obtains a where "p = a + 8" "used_map B a = Some n" "32 \<le> n" "a \<noteq> h" | t where "(p, t) \<in> U" "n = 2 ^ t"
  using assms by (auto simp: allocs_def)

lemma allocs_iff:
  "(x, k) \<in> allocs h B U \<longleftrightarrow>
     8 \<le> x \<and> used_map B (x - 8) = Some k \<and> 32 \<le> k \<and> x - 8 \<noteq> h \<or> (\<exists>t. (x, t) \<in> U \<and> k = 2 ^ t)"
  unfolding allocs_def by (auto intro: exI [of _ "x - 8"])

lemma used_apart:
  assumes "blks_ok B" "used_map B a = Some s" "used_map B b = Some t" "a \<noteq> b"
  shows "a + 8 + s \<le> b \<or> b + 8 + t \<le> a"
  using assms blks_apartD unfolding used_map_iff by blast

lemma used_meta: "used_map B a = Some s \<Longrightarrow> {a + 8..<a + 8 + s} \<inter> meta B = {}"
  by (auto simp: used_map_iff meta_def)

lemma pool_inD:
  assumes "pool_in M H B h U" "(p, t) \<in> U"
  obtains P F s where "fix_pool H = Some P" "mblk_rep M P F" "mblk_live P F = U" "used_map B h = Some s"
    "h + 8 \<le> pool_start P" "pool_end P \<le> h + 8 + s" "h + 8 \<le> p" "p + 2 ^ t \<le> h + 8 + s" "4 dvd p" "0 < p"
    "pool_start P \<le> p" "p + 2 ^ t \<le> pool_end P"
proof -
  obtain P where P: "fix_pool H = Some P" using assms by (cases "fix_pool H") (auto simp: pool_in_def)
  with assms(1) obtain F s where F: "mblk_rep M P F" "mblk_live P F = U" "used_map B h = Some s"
    "h + 8 \<le> pool_start P" "pool_end P \<le> h + 8 + s" by (auto simp: pool_in_def)
  with assms(2) have "(p, t) \<in> mblk_live P F" by simp
  note L = live_bounds [OF F(1) this]
  show ?thesis by (rule that [OF P F]) (use F L in auto)
qed

lemma allocs_meta:
  assumes "pool_in M H B h U" "(p, n) \<in> allocs h B U"
  shows "{p..<p + n} \<inter> meta B = {}"
  using assms(2)
proof (cases rule: allocs_cases)
  case (1 a)
  then show ?thesis using used_meta [of B a n] by simp
next
  case (2 t)
  obtain s where s: "used_map B h = Some s" "h + 8 \<le> p" "p + 2 ^ t \<le> h + 8 + s"
    by (rule pool_inD [OF assms(1) 2(1)])
  then have "{p..<p + n} \<subseteq> {h + 8..<h + 8 + s}" using 2 by auto
  then show ?thesis using used_meta [OF s(1)] by blast
qed

lemma allocs_disjoint:
  assumes ok: "heap_ok M H B h U" and a: "(a, k) \<in> allocs h B U" and b: "(b, l) \<in> allocs h B U" and ne: "(a, k) \<noteq> (b, l)"
  shows "a + k \<le> b \<or> b + l \<le> a"
proof -
  have B: "blks_ok B" and P: "pool_in M H B h U" using ok by (auto simp: heap_ok_def mm_ok_def)
  have mixed: "x + i \<le> y \<or> y + j \<le> x"
    if x: "x = c + 8" "used_map B c = Some i" "c \<noteq> h" and y: "(y, t) \<in> U" "j = 2 ^ t" for x y i j c t
  proof -
    obtain s where s: "used_map B h = Some s" "h + 8 \<le> y" "y + 2 ^ t \<le> h + 8 + s" by (rule pool_inD [OF P y(1)])
    from used_apart [OF B x(2) s(1) x(3)] s x(1) y(2) show ?thesis by auto
  qed
  from a show ?thesis
  proof (cases rule: allocs_cases)
    case (1 c)
    note c = this
    from b show ?thesis
    proof (cases rule: allocs_cases)
      case (1 d)
      then have "c \<noteq> d" using ne c by auto
      from used_apart [OF B c(2) 1(2) this] show ?thesis using 1 c by auto
    next
      case (2 t)
      from mixed [OF c(1,2,4) 2] show ?thesis .
    qed
  next
    case (2 t)
    note t = this
    from b show ?thesis
    proof (cases rule: allocs_cases)
      case (1 d)
      from mixed [OF 1(1,2,4) t] show ?thesis by auto
    next
      case (2 u)
      obtain P' F where "mblk_rep M P' F" "mblk_live P' F = U" by (rule pool_inD [OF P t(1)])
      from live_disjoint [OF this(1), unfolded this(2), OF t(1) 2(1)] ne t(2) 2(2) show ?thesis by auto
    qed
  qed
qed

lemma kept_meta:
  assumes "pool_in M H B h U" "same_outside (meta B) M M'" "A \<subseteq> allocs h B U" shows "kept A M M'"
proof -
  have "M' x = M x" if "(a, n) \<in> A" "a \<le> x" "x < a + n" for a n x
  proof -
    have "(a, n) \<in> allocs h B U" using that(1) assms(3) by blast
    from allocs_meta [OF assms(1) this] that(2,3) have "x \<notin> meta B" by auto
    with assms(2) show ?thesis by (simp add: same_outside_def)
  qed
  then show ?thesis by (auto simp: kept_def)
qed

text \<open>Writes into the payload of used blocks do not concern the heap.\<close>

lemma mm_ok_payload:
  assumes ok: "mm_ok M H B" and X: "same_outside X M M'" "X \<inter> meta B = {}"
  shows "mm_ok M' H B"
proof -
  have st: "mm_st {} M H B (free_map B)" and co: "coalesced B" using ok by (auto simp: mm_ok_st)
  note D = mm_stD [OF st]
  have out: "{c..<c + 8} \<inter> X = {}" if "c \<in> dom B" for c using head_meta [OF D(1) that] X(2) by blast
  have "mm_st {} M' H B (free_map B)"
  proof (rule mm_st_heads [OF st D(1) _ X(1) _ D(5)])
    show "X \<inter> links (dom (free_map B)) = {}" using links_meta [OF D(1,4)] X(2) by blast
    show "hdr_at M' B a" for a by (rule hdr_at_frame [OF D(1) D(2) X(1) out]) simp_all
  qed simp_all
  with co show ?thesis by (simp add: mm_ok_st)
qed

lemma pool_in_frame:
  assumes "pool_in M H B h U" "fix_pool H' = fix_pool H" "same_outside X M M'"
    and "\<And>s. used_map B h = Some s \<Longrightarrow> used_map B' h = Some s \<and> X \<inter> {h + 8..<h + 8 + s} = {}"
  shows "pool_in M' H' B' h U"
proof (cases "fix_pool H")
  case None
  with assms(1,2) show ?thesis by (simp add: pool_in_def)
next
  case (Some P)
  with assms(1) obtain F s where F: "mblk_rep M P F" "mblk_live P F = U" "used_map B h = Some s"
    "h + 8 \<le> pool_start P" "pool_end P \<le> h + 8 + s" by (auto simp: pool_in_def)
  have "{pool_start P..<pool_end P} \<subseteq> {h + 8..<h + 8 + s}" using F(4,5) by auto
  with assms(4) [OF F(3)] have "X \<inter> {pool_start P..<pool_end P} = {}" "used_map B' h = Some s" by blast+
  with mblk_rep_cong [OF F(1) assms(3)] F Some assms(2) show ?thesis by (auto simp: pool_in_def)
qed

section \<open>Allocation\<close>

lemma heap_okD:
  assumes "heap_ok M H B h U"
  shows "mm_ok M H B" "pool_in M H B h U" "blks_ok B" "used_map B a = Some s \<Longrightarrow> 0 < a"
  using assms blk_bounds(2) by (auto simp: heap_ok_def mm_ok_def used_map_iff)

text \<open>A block of the pool that was not in use is apart from every object in use.\<close>

lemma small_fresh:
  assumes "heap_ok M H B h U" "heap_ok M' H' B h (insert (p, t) U)" "(p, t) \<notin> U"
  shows "allocs h B (insert (p, t) U) = insert (p, 2 ^ t) (allocs h B U)"
    and "\<forall>(a, k)\<in>allocs h B U. p + 2 ^ t \<le> a \<or> a + k \<le> p"
proof -
  show e: "allocs h B (insert (p, t) U) = insert (p, 2 ^ t) (allocs h B U)" by (auto simp: allocs_def)
  have "(p, 2 ^ t) \<notin> allocs h B U"
  proof
    assume "(p, 2 ^ t) \<in> allocs h B U"
    then show False
    proof (cases rule: allocs_cases)
      case (1 a)
      obtain s where s: "used_map B h = Some s" "h + 8 \<le> p" "p + 2 ^ t \<le> h + 8 + s"
        by (rule pool_inD [OF heap_okD(2) [OF assms(2)] insertI1])
      from used_apart [OF heap_okD(3) [OF assms(1)] 1(2) s(1) 1(4)] s 1 show False by auto
    next
      case (2 u)
      with assms(3) show False by simp
    qed
  qed
  then have "(a, k) \<noteq> (p, 2 ^ t)" if "(a, k) \<in> allocs h B U" for a k using that by metis
  then show "\<forall>(a, k)\<in>allocs h B U. p + 2 ^ t \<le> a \<or> a + k \<le> p"
    using allocs_disjoint [OF assms(2), of p "2 ^ t"] unfolding e by blast
qed

text \<open>A new block.\<close>

lemma big_fresh:
  assumes ok: "heap_ok M H B h U" and g: "used_map B g = None" "used_map B' = (used_map B)(g \<mapsto> k)" "32 \<le> k"
    and ok': "mm_ok M' H' B'" "fix_pool H' = fix_pool H" and X: "same_outside (meta B) M M'"
  shows "heap_ok M' H' B' h U" and "allocs h B' U = insert (g + 8, k) (allocs h B U)"
    and "\<forall>(a, l)\<in>allocs h B U. g + 8 + k \<le> a \<or> a + l \<le> g + 8"
proof -
  note D = heap_okD [OF ok]
  have B': "blks_ok B'" using ok'(1) by (simp add: mm_ok_def)
  have "used_map B' g = Some k" using g(2) by simp
  then have "0 < g" using blk_bounds(2) [OF B'] by (auto simp: used_map_iff)
  then have gh: "g \<noteq> h" using D(2) g(1) by (auto simp: pool_in_def split: option.splits)
  have "pool_in M' H' B' h U"
    by (rule pool_in_frame [OF D(2) ok'(2) X]) (use g(2) gh used_meta [of B h] in auto)
  with ok'(1) show ok2: "heap_ok M' H' B' h U" by (simp add: heap_ok_def)
  show e: "allocs h B' U = insert (g + 8, k) (allocs h B U)" using g gh by (auto simp: allocs_def split: if_splits)
  have "(g + 8, k) \<notin> allocs h B U"
  proof
    assume "(g + 8, k) \<in> allocs h B U"
    then show False
    proof (cases rule: allocs_cases)
      case (1 a) with g(1) show False by simp
    next
      case (2 t)
      obtain s where s: "used_map B h = Some s" "h + 8 \<le> g + 8" "g + 8 + 2 ^ t \<le> h + 8 + s"
        by (rule pool_inD [OF D(2) 2(1)])
      with g(2) gh have "used_map B' h = Some s" by simp
      from used_apart [OF B' \<open>used_map B' g = Some k\<close> this gh] s 2(2) show False by auto
    qed
  qed
  then have "(a, l) \<noteq> (g + 8, k)" if "(a, l) \<in> allocs h B U" for a l using that by metis
  then show "\<forall>(a, l)\<in>allocs h B U. g + 8 + k \<le> a \<or> a + l \<le> g + 8"
    using allocs_disjoint [OF ok2, of "g + 8" k] unfolding e by blast
qed

text \<open>The first try, from the pool.\<close>

lemma pool_try:
  assumes ok: "heap_ok M H B h U" and sz: "sz < 2 ^ 32"
    and t: "(if fix_pool H \<noteq> None \<and> sz \<le> RHINO_CONFIG_MM_BLK_SIZE
      then krhino_mblk_alloc_nolock M (fix_pool H) sz else (fix_pool H, 0)) = (po, p)"
  shows "if p = 0 then heap_ok M (H\<lparr>fix_pool := po\<rparr>) B h U
    else \<exists>t. sz \<le> 2 ^ t \<and> (p, t) \<notin> U \<and> heap_ok M (H\<lparr>fix_pool := po\<rparr>) B h (insert (p, t) U)"
proof (cases "fix_pool H \<noteq> None \<and> sz \<le> RHINO_CONFIG_MM_BLK_SIZE")
  case False
  with t have "po = fix_pool H" "p = 0" by auto
  with ok show ?thesis by simp
next
  case True
  then obtain P where P: "fix_pool H = Some P" by auto
  with True t have a: "krhino_mblk_alloc_nolock M (Some P) sz = (po, p)" by simp
  note D = heap_okD [OF ok]
  from D(2) P obtain F s where F: "mblk_rep M P F" "mblk_live P F = U" "used_map B h = Some s"
    "h + 8 \<le> pool_start P" "pool_end P \<le> h + 8 + s" by (auto simp: pool_in_def)
  from mblk_alloc_ok [OF F(1) sz a] obtain P' F' where P': "po = Some P'" "mblk_rep M P' F'"
    "pool_start P' = pool_start P" "pool_end P' = pool_end P"
    "if p = 0 then mblk_live P' F' = U \<and> (\<forall>u<10. sz \<le> 2 ^ u \<and> 2 \<le> u \<longrightarrow> exhausted P F u)
     else \<exists>t. 2 \<le> t \<and> sz \<le> 2 ^ t \<and> (p, t) \<notin> U \<and> mblk_live P' F' = insert (p, t) U"
    unfolding F(2) by blast
  have "heap_ok M (H\<lparr>fix_pool := po\<rparr>) B h (mblk_live P' F')"
    using mm_ok_head [OF _ _ D(1)] P' F by (auto simp: heap_ok_def pool_in_def)
  with P'(5) show ?thesis by (auto split: if_splits)
qed

lemma alloc_from_pool:
  assumes ok: "heap_ok M H B h U" and sz: "0 < sz" "sz < 2 ^ 32" and p: "p \<noteq> 0"
    and t: "(if fix_pool H \<noteq> None \<and> sz \<le> RHINO_CONFIG_MM_BLK_SIZE
      then krhino_mblk_alloc_nolock M (fix_pool H) sz else (fix_pool H, 0)) = (po, p)"
  shows "\<exists>H' U' n. k_mm_alloc M (Some H) sz = Some (M, Some H', p) \<and> heap_ok M H' B h U' \<and> U \<subseteq> U' \<and>
    sz \<le> n \<and> 4 dvd p \<and> allocs h B U' = insert (p, n) (allocs h B U) \<and>
    (\<forall>(a, k)\<in>allocs h B U. p + n \<le> a \<or> a + k \<le> p)"
proof -
  obtain t' where t': "sz \<le> 2 ^ t'" "(p, t') \<notin> U" "heap_ok M (H\<lparr>fix_pool := po\<rparr>) B h (insert (p, t') U)"
    using pool_try [OF ok sz(2) t] p by auto
  have al: "4 dvd p" by (rule pool_inD [OF heap_okD(2) [OF t'(3)] insertI1])
  have eq: "k_mm_alloc M (Some H) sz = Some (M, Some (H\<lparr>fix_pool := po\<rparr>), p)"
    unfolding k_mm_alloc_def option.case t prod.case Let_def using sz(1) p by simp
  show ?thesis
    by (intro exI [of _ "H\<lparr>fix_pool := po\<rparr>"] exI [of _ "insert (p, t') U"] exI [of _ "2 ^ t'"] conjI
        eq t'(1,3) al small_fresh [OF ok t'(3,2)] subset_insertI)
qed

lemma alloc_from_blocks:
  assumes ok: "heap_ok M H B h U" and sz: "0 < sz" "sz + 7 < 2 ^ 32"
    and t: "(if fix_pool H \<noteq> None \<and> sz \<le> RHINO_CONFIG_MM_BLK_SIZE
      then krhino_mblk_alloc_nolock M (fix_pool H) sz else (fix_pool H, 0)) = (po, 0)"
  shows "\<exists>M' H' r B'. k_mm_alloc M (Some H) sz = Some (M', Some H', r) \<and> heap_ok M' H' B' h U \<and>
    kept (allocs h B U) M M' \<and> used_map B \<subseteq>\<^sub>m used_map B' \<and>
    (if r = 0 then B' = B \<and> (\<forall>a t p. B a = Some (t, True, p) \<longrightarrow> t < max MM_MIN_SIZE (MM_ALIGN_UP sz))
     else \<exists>n. sz \<le> n \<and> 4 dvd r \<and> allocs h B' U = insert (r, n) (allocs h B U) \<and>
       (\<forall>(a, k)\<in>allocs h B U. r + n \<le> a \<or> a + k \<le> r))"
proof -
  have "sz < 2 ^ 32" using sz(2) by simp
  from pool_try [OF ok this t] have ok1: "heap_ok M (H\<lparr>fix_pool := po\<rparr>) B h U" by simp
  let ?n = "if MM_ALIGN_UP sz < 32 then 32 else MM_ALIGN_UP sz"
  note N = alloc_size [OF sz(2) refl]
  from k_mm_alloc_blocks [OF heap_okD(1) [OF ok] sz t refl] obtain M' H' r B' where
    R: "k_mm_alloc M (Some H) sz = Some (M', Some H', r)" "mm_ok M' H' B'" "fix_pool H' = po"
    "if r = 0 then M' = M \<and> B' = B \<and> (\<forall>a t p. B a = Some (t, True, p) \<longrightarrow> t < ?n)
     else \<exists>g k. r = g + 8 \<and> 8 dvd g \<and> ?n \<le> k \<and> used_map B g = None \<and> used_map B' = (used_map B)(g \<mapsto> k) \<and>
       same_outside (meta B) M M'" by blast
  have po: "fix_pool H' = fix_pool (H\<lparr>fix_pool := po\<rparr>)" using R(3) by simp
  show ?thesis
  proof (cases "r = 0")
    case True
    with R(4) have e: "M' = M" "B' = B" "\<forall>a t p. B a = Some (t, True, p) \<longrightarrow> t < ?n" by auto
    have "heap_ok M' H' B' h U" using R(2) e po heap_okD(2) [OF ok1] by (simp add: heap_ok_def pool_in_def)
    moreover have "kept (allocs h B U) M M'" by (simp add: kept_def e)
    moreover have "?n = max MM_MIN_SIZE (MM_ALIGN_UP sz)" by simp
    moreover have "used_map B \<subseteq>\<^sub>m used_map B'" by (simp add: e)
    ultimately show ?thesis using R(1) e True
      by (intro exI [of _ M'] exI [of _ H'] exI [of _ r] exI [of _ B']) (simp only: if_True simp_thms)
  next
    case False
    with R(4) obtain g k where g: "r = g + 8" "8 dvd g" "?n \<le> k" "used_map B g = None"
      "used_map B' = (used_map B)(g \<mapsto> k)" "same_outside (meta B) M M'" by auto
    have k: "sz \<le> k" "32 \<le> k" using le_trans [OF N(1) g(3)] le_trans [OF N(2) g(3)] .
    note F = big_fresh [OF ok1 g(4,5) k(2) R(2) po g(6)]
    have kp: "kept (allocs h B U) M M'" by (rule kept_meta [OF heap_okD(2) [OF ok] g(6)]) simp
    have "4 dvd r" using g(1,2) by presburger
    then have "\<exists>n. sz \<le> n \<and> 4 dvd r \<and> allocs h B' U = insert (r, n) (allocs h B U) \<and>
      (\<forall>(a, k)\<in>allocs h B U. r + n \<le> a \<or> a + k \<le> r)"
      unfolding g(1) by (intro exI [of _ k] conjI k(1) F(2,3))
    moreover have "used_map B \<subseteq>\<^sub>m used_map B'" using g(4,5) by (auto simp: map_le_def)
    ultimately show ?thesis using R(1) F(1) kp False
      by (intro exI [of _ M'] exI [of _ H'] exI [of _ r] exI [of _ B']) (simp only: if_False simp_thms)
  qed
qed

lemma heap_alloc:
  assumes ok: "heap_ok M H B h U" and sz: "0 < sz" "sz + 7 < 2 ^ 32"
  shows "\<exists>M' H' r B' U'. k_mm_alloc M (Some H) sz = Some (M', Some H', r) \<and> heap_ok M' H' B' h U' \<and>
    kept (allocs h B U) M M' \<and> U \<subseteq> U' \<and> used_map B \<subseteq>\<^sub>m used_map B' \<and>
    (if r = 0 then allocs h B' U' = allocs h B U \<and>
       (\<forall>a t p. B a = Some (t, True, p) \<longrightarrow> t < max MM_MIN_SIZE (MM_ALIGN_UP sz))
     else \<exists>n. sz \<le> n \<and> 4 dvd r \<and> allocs h B' U' = insert (r, n) (allocs h B U) \<and>
       (\<forall>(a, k)\<in>allocs h B U. r + n \<le> a \<or> a + k \<le> r))"
proof -
  obtain po p where t: "(if fix_pool H \<noteq> None \<and> sz \<le> RHINO_CONFIG_MM_BLK_SIZE
      then krhino_mblk_alloc_nolock M (fix_pool H) sz else (fix_pool H, 0)) = (po, p)" by force
  show ?thesis
  proof (cases "p = 0")
    case False
    have "sz < 2 ^ 32" using sz(2) by simp
    from alloc_from_pool [OF ok sz(1) this False t] False show ?thesis by (fastforce simp: kept_def)
  next
    case True
    from alloc_from_blocks [OF ok sz t [unfolded True]] obtain M' H' r B' where
      R: "k_mm_alloc M (Some H) sz = Some (M', Some H', r)" "heap_ok M' H' B' h U" "kept (allocs h B U) M M'"
      "used_map B \<subseteq>\<^sub>m used_map B'" "if r = 0 then B' = B \<and> (\<forall>a t p. B a = Some (t, True, p) \<longrightarrow> t < max MM_MIN_SIZE (MM_ALIGN_UP sz))
       else \<exists>n. sz \<le> n \<and> 4 dvd r \<and> allocs h B' U = insert (r, n) (allocs h B U) \<and>
         (\<forall>(a, k)\<in>allocs h B U. r + n \<le> a \<or> a + k \<le> r)" by blast
    from R(5) show ?thesis
      by (intro exI [of _ M'] exI [of _ H'] exI [of _ r] exI [of _ B'] exI [of _ U] conjI R(1-4) subset_refl)
        (auto split: if_splits)
  qed
qed

text \<open>C36. Allocation, for sizes that do not wrap when they are rounded up: the call returns, the objects in
  use keep their bytes, and either the result is a new object, aligned, large enough and apart from all
  others, which is the only one that is added; or it is \<^verbatim>\<open>NULL\<close> and no free block is large enough.\<close>

theorem k_mm_alloc_fresh:
  assumes ok: "heap_ok M H B h U" and sz: "0 < sz" "sz + 7 < 2 ^ 32"
  shows "\<exists>M' H' r B' U'. k_mm_alloc M (Some H) sz = Some (M', Some H', r) \<and> heap_ok M' H' B' h U' \<and>
    kept (allocs h B U) M M' \<and>
    (if r = 0 then allocs h B' U' = allocs h B U \<and>
       (\<forall>a t p. B a = Some (t, True, p) \<longrightarrow> t < max MM_MIN_SIZE (MM_ALIGN_UP sz))
     else \<exists>n. sz \<le> n \<and> 4 dvd r \<and> allocs h B' U' = insert (r, n) (allocs h B U) \<and>
       (\<forall>(a, k)\<in>allocs h B U. r + n \<le> a \<or> a + k \<le> r))"
  using heap_alloc [OF assms] by blast

section \<open>Release\<close>

lemma THIS_BLK: "a + 8 < 2 ^ 32 \<Longrightarrow> MM_GET_THIS_BLK (a + 8) = a"
  by (simp add: MM_GET_THIS_BLK_def sz_sub_small)

lemma kept_payload:
  assumes ok: "heap_ok M H B h U" and p: "(p, n) \<in> allocs h B U" and X: "same_outside (meta B \<union> {p..<p + n}) M M'"
  shows "kept (allocs h B U - {(p, n)}) M M'"
proof -
  have "M' x = M x" if a: "(a, k) \<in> allocs h B U" "(a, k) \<noteq> (p, n)" "a \<le> x" "x < a + k" for a k x
  proof -
    from allocs_meta [OF heap_okD(2) [OF ok] a(1)] a(3,4) have "x \<notin> meta B" by auto
    moreover have "x \<notin> {p..<p + n}" using allocs_disjoint [OF ok a(1) p a(2)] a(3,4) by auto
    ultimately show ?thesis using X by (simp add: same_outside_def)
  qed
  then show ?thesis by (auto simp: kept_def)
qed

text \<open>A used block other than the pool's is not taken for a block of the pool.\<close>

lemma not_pool:
  assumes ok: "heap_ok M H B h U" and a: "used_map B a = Some n" "a \<noteq> h" "n \<noteq> 0"
  shows "\<not> krhino_mblk_check (fix_pool H) (a + 8)"
proof (cases "fix_pool H")
  case (Some P)
  with heap_okD(2) [OF ok] obtain s where s: "used_map B h = Some s" "h + 8 \<le> pool_start P" "pool_end P \<le> h + 8 + s"
    by (auto simp: pool_in_def)
  from used_apart [OF heap_okD(3) [OF ok] a(1) s(1) a(2)] s a(3) Some show ?thesis by (auto simp: krhino_mblk_check_def)
qed (simp add: krhino_mblk_check_def)

lemma free_block:
  assumes ok: "heap_ok M H B h U" and a: "used_map B a = Some n" "32 \<le> n" "a \<noteq> h"
  shows "\<exists>M' H' B'. k_mm_free M (Some H) (a + 8) = (M', Some H') \<and> heap_ok M' H' B' h U \<and>
    used_map B' = (used_map B)(a := None) \<and> same_outside (meta B \<union> {a + 8..<a + 8 + n}) M M'"
proof -
  note D = heap_okD [OF ok]
  obtain q where q: "B a = Some (n, False, q)" using a(1) by (auto simp: used_map_iff)
  obtain M' H' where rl: "mm_release a (M, H) = (M', H')" by force
  from mm_release_ok [OF D(1) q a(2) rl] obtain B' where
    B': "mm_ok M' H' B'" "used_map B' = (used_map B)(a := None)" "fix_pool H' = fix_pool H"
    "same_outside (meta B \<union> {a + 8..<a + 8 + n}) M M'" using lists_only_sel(1) by fastforce
  have "a + 8 < 2 ^ 32" using blk_bounds(4) [OF D(3) q] by simp
  then have "k_mm_free M (Some H) (a + 8) = (M', Some H')"
    using not_pool [OF ok a(1,3)] a(2) by (simp add: k_mm_free_def THIS_BLK rl)
  moreover have "pool_in M' H' B' h U"
  proof (rule pool_in_frame [OF D(2) B'(3,4)])
    fix s assume s: "used_map B h = Some s"
    have "{a + 8..<a + 8 + n} \<inter> {h + 8..<h + 8 + s} = {}" using used_apart [OF D(3) a(1) s a(3)] by auto
    then show "used_map B' h = Some s \<and> (meta B \<union> {a + 8..<a + 8 + n}) \<inter> {h + 8..<h + 8 + s} = {}"
      using used_meta [OF s] s B'(2) a(3) by auto
  qed
  ultimately show ?thesis using B' by (auto simp: heap_ok_def)
qed

lemma free_small:
  assumes ok: "heap_ok M H B h U" and p: "(p, t) \<in> U"
  shows "\<exists>M' H'. k_mm_free M (Some H) p = (M', Some H') \<and> heap_ok M' H' B h (U - {(p, t)}) \<and>
    same_outside {p..<p + 2 ^ t} M M'"
proof -
  note D = heap_okD [OF ok]
  obtain P F s where P: "fix_pool H = Some P" "mblk_rep M P F" "mblk_live P F = U" "used_map B h = Some s"
    "h + 8 \<le> pool_start P" "pool_end P \<le> h + 8 + s" "0 < p" "pool_start P \<le> p" "p + 2 ^ t \<le> pool_end P"
    by (rule pool_inD [OF D(2) p])
  obtain M' po r where f: "krhino_mblk_free_nolock M (Some P) p = (M', po, r)" by (metis surj_pair)
  from p P(3) have live: "(p, t) \<in> mblk_live P F" by simp
  note R = mblk_free_ok [OF P(2) live f]
  from R(3) obtain P' F' where P': "po = Some P'" "mblk_rep M' P' F'" "pool_start P' = pool_start P"
    "pool_end P' = pool_end P" "mblk_live P' F' = U - {(p, t)}" unfolding P(3) by blast
  have "p < pool_end P" using P(9) by (meson less_le_trans less_add_same_cancel1 zero_less_numeral zero_less_power)
  then have "k_mm_free M (Some H) p = (M', Some (H\<lparr>fix_pool := po\<rparr>))"
    using P f by (simp add: k_mm_free_def krhino_mblk_check_def)
  moreover have "{p..<p + 2 ^ t} \<subseteq> {h + 8..<h + 8 + s}" using P by auto
  then have "mm_ok M' H B" using used_meta [OF P(4)] by (intro mm_ok_payload [OF D(1) R(2)]) blast
  then have "heap_ok M' (H\<lparr>fix_pool := po\<rparr>) B h (U - {(p, t)})"
    using P P' mm_ok_head [of "H\<lparr>fix_pool := po\<rparr>" H] by (auto simp: heap_ok_def pool_in_def)
  ultimately show ?thesis using R(2) by blast
qed

lemma block_no_slice:
  assumes ok: "heap_ok M H B h U" and a: "used_map B a = Some n" "32 \<le> n" "a \<noteq> h" shows "(a + 8, t) \<notin> U"
proof
  assume U: "(a + 8, t) \<in> U"
  obtain s where "used_map B h = Some s" "h + 8 \<le> a + 8" "a + 8 + 2 ^ t \<le> h + 8 + s"
    by (rule pool_inD [OF heap_okD(2) [OF ok] U])
  with used_apart [OF heap_okD(3) [OF ok] a(1) _ a(3), of s] a(2) show False by auto
qed

lemma heap_free:
  assumes ok: "heap_ok M H B h U" and p: "(p, n) \<in> allocs h B U"
  shows "\<exists>M' H' B' U'. k_mm_free M (Some H) p = (M', Some H') \<and> heap_ok M' H' B' h U' \<and> coalesced B' \<and>
    allocs h B' U' = allocs h B U - {(p, n)} \<and> kept (allocs h B' U') M M'"
  using p
proof (cases rule: allocs_cases)
  case (1 a)
  from free_block [OF ok 1(2-4)] 1(1) obtain M' H' B' where F: "k_mm_free M (Some H) p = (M', Some H')"
    "heap_ok M' H' B' h U" "used_map B' = (used_map B)(a := None)" "same_outside (meta B \<union> {p..<p + n}) M M'" by auto
  have "(p, t) \<notin> U" for t using block_no_slice [OF ok 1(2-4)] 1(1) by simp
  then have "(x, k) \<in> allocs h B' U \<longleftrightarrow> (x, k) \<in> allocs h B U \<and> (x, k) \<noteq> (p, n)" for x k
    unfolding allocs_iff F(3) using 1 by (cases "x = p"; cases "k = n") (auto, blast?)
  then have "allocs h B' U = allocs h B U - {(p, n)}" by auto
  moreover have "coalesced B'" using F(2) by (simp add: heap_ok_def mm_ok_def)
  ultimately show ?thesis using F(1,2) kept_payload [OF ok p F(4)] by metis
next
  case (2 t)
  from free_small [OF ok 2(1)] 2(2) obtain M' H' where F: "k_mm_free M (Some H) p = (M', Some H')"
    "heap_ok M' H' B h (U - {(p, t)})" "same_outside {p..<p + n} M M'" by auto
  obtain s where s: "used_map B h = Some s" "h + 8 \<le> p" "p + 2 ^ t \<le> h + 8 + s"
    by (rule pool_inD [OF heap_okD(2) [OF ok] 2(1)])
  have "(a + 8, k) \<noteq> (p, n)" if "used_map B a = Some k" "a \<noteq> h" for a k
    using used_apart [OF heap_okD(3) [OF ok] that(1) s(1) that(2)] s 2(2) by auto
  then have "allocs h B (U - {(p, t)}) = allocs h B U - {(p, n)}" using 2 by (auto simp: allocs_def)
  moreover have "same_outside (meta B \<union> {p..<p + n}) M M'" by (rule same_outside_mono [OF F(3)]) simp
  moreover have "coalesced B" using ok by (simp add: heap_ok_def mm_ok_def)
  ultimately show ?thesis using F(1,2) kept_payload [OF ok p] by metis
qed

text \<open>C37. Releasing an object in use removes exactly this object, keeps the bytes of all others and leaves a
  well-formed heap in which no two free blocks are neighbours.\<close>

theorem k_mm_free_exact:
  assumes ok: "heap_ok M H B h U" and p: "(p, n) \<in> allocs h B U"
  shows "\<exists>M' H' B' U'. k_mm_free M (Some H) p = (M', Some H') \<and> heap_ok M' H' B' h U' \<and> coalesced B' \<and>
    allocs h B' U' = allocs h B U - {(p, n)} \<and> kept (allocs h B' U') M M'"
  by (rule heap_free [OF assms])

end
