(* ===== verification/KMmInit.thy ===== *)
theory KMmInit
  imports KMmCalls
begin

text \<open>
  Setting up the heap (\<^verbatim>\<open>krhino_init_mm_head\<close>, \<^verbatim>\<open>krhino_add_mm_region\<close>): a region of memory
  becomes three blocks, one for the data of the region, the free space, and one of size zero that
  stops merging; the first region also gets the pool of small blocks.
\<close>

section \<open>A region\<close>

definition region_blks :: "addr \<Rightarrow> nat \<Rightarrow> blks" where
  "region_blks r len = [r \<mapsto> (8, False, False), r + 16 \<mapsto> (len - 32, True, False), r + (len - 8) \<mapsto> (0, False, True)]"

definition region_fits :: "addr \<Rightarrow> nat \<Rightarrow> bool" where
  "region_fits r len \<longleftrightarrow> 8 dvd r \<and> 0 < r \<and> 8 dvd len \<and> 64 \<le> len \<and> len \<le> 2 ^ 28 \<and> r + len < 2 ^ 32"

lemma region_eq:
  assumes "64 \<le> len"
  shows "region_blks r len r = Some (8, False, False)" "region_blks r len (r + 16) = Some (len - 32, True, False)"
    "region_blks r len (r + (len - 8)) = Some (0, False, True)"
    "region_blks r len a = Some v \<Longrightarrow> a = r \<or> a = r + 16 \<or> a = r + (len - 8)"
  using assms by (auto simp: region_blks_def split: if_splits)

lemma region_cases:
  assumes "64 \<le> len" "region_blks r len a = Some (s, f, p)"
  obtains "a = r" "s = 8" "\<not> f" "\<not> p" | "a = r + 16" "s = len - 32" "f" "\<not> p"
    | "a = r + (len - 8)" "s = 0" "\<not> f" "p"
  using assms by (auto simp: region_blks_def split: if_splits)

lemma region_range:
  assumes "64 \<le> len" "region_blks r len a = Some (s, f, p)"
  shows "r \<le> a" "a + 8 + s \<le> r + len"
  using assms(1) by (cases rule: region_cases [OF assms]; simp)+

lemma region_blks_ok:
  assumes f: "region_fits r len" shows "blks_ok (region_blks r len)"
proof -
  let ?B = "region_blks r len"
  have l: "64 \<le> len" and F: "8 dvd r" "0 < r" "8 dvd len" "len \<le> 2 ^ 28" "r + len < 2 ^ 32"
    using f by (auto simp: region_fits_def)
  note E = region_eq [OF l, of r]
  have d: "8 dvd len - 32" "8 dvd r + 16" "8 dvd r + (len - 8)" using F(1,3) l by (auto simp: dvd_diff_nat)
  have one: "blk_ok ?B a s f p" if "?B a = Some (s, f, p)" for a s f p
    using region_cases [OF l that]
  proof cases
    case 1
    show ?thesis unfolding 1(1,2)
      by (rule blk_okI [where B = ?B and y = "r + (len - 8)" and s' = "len - 32" and f' = True, OF E(3)])
        (use F l 1 E(2) in \<open>auto simp: add.commute\<close>)
  next
    case 2
    have "r + 16 + 8 + (len - 32) = r + (len - 8)" using l by simp
    with E(3) have "?B (r + 16 + 8 + (len - 32)) = Some (0, False, True)" by simp
    then show ?thesis unfolding 2(1,2)
      by (intro blk_okI [where B = ?B and y = "r + (len - 8)" and s' = 0 and f' = False, OF E(3)])
        (use F l 2 d in auto)
  next
    case 3
    have prv: "\<exists>b t q. ?B b = Some (t, True, q) \<and> b + 8 + t = r + (len - 8)"
      using E(2) l by (intro exI [of _ "r + 16"] exI [of _ "len - 32"] exI [of _ False]) simp
    show ?thesis unfolding 3(1,2)
      by (rule blk_okI [where B = ?B and y = "r + (len - 8)" and s' = 0 and f' = False, OF E(3) _ _ _ _ _ _ _ _ prv])
        (use F l 3 d in auto)
  qed
  have "a + 8 + s \<le> b" if a: "?B a = Some (s, f, p)" and b: "?B b = Some v" "a < b" for a s f p b v
    using region_cases [OF l a] region_eq(4) [OF l b(1)] b(2) l by cases auto
  then have "blks_apart ?B" unfolding blks_apart_def by blast
  with one show ?thesis by (simp add: blks_ok_def)
qed

text \<open>Blocks outside of a range and blocks inside of it.\<close>

definition outside :: "blks \<Rightarrow> addr \<Rightarrow> nat \<Rightarrow> bool" where
  "outside B r len \<longleftrightarrow> (\<forall>a s f p. B a = Some (s, f, p) \<longrightarrow> a + 8 + s \<le> r \<or> r + len \<le> a)"

lemma outsideD: "outside B r len \<Longrightarrow> B a = Some (s, f, p) \<Longrightarrow> a + 8 + s \<le> r \<or> r + len \<le> a"
  unfolding outside_def by blast

lemma add_region:
  assumes o: "outside B r len" and l: "64 \<le> len"
  shows "B a = Some v \<Longrightarrow> (B ++ region_blks r len) a = Some v"
    and "region_blks r len a = Some v \<Longrightarrow> (B ++ region_blks r len) a = Some v"
    and "(B ++ region_blks r len) a = Some v \<Longrightarrow> B a = Some v \<or> region_blks r len a = Some v"
proof -
  have "region_blks r len a = None" if "B a = Some v" for v
  proof (cases "region_blks r len a")
    case (Some w)
    obtain s f p t g q where "v = (s, f, p)" "w = (t, g, q)" by (cases v; cases w)
    with that Some have "B a = Some (s, f, p)" "region_blks r len a = Some (t, g, q)" by auto
    then show ?thesis using outsideD [OF o] region_range [OF l] l by fastforce
  qed simp
  then show "B a = Some v \<Longrightarrow> (B ++ region_blks r len) a = Some v" by (simp add: map_add_def)
qed (auto simp: map_add_def split: option.splits)

lemma blk_ok_mono:
  assumes "blk_ok B a s f p" "\<And>x v. B x = Some v \<Longrightarrow> B' x = Some v" shows "blk_ok B' a s f p"
  by (rule blk_ok_upd [OF assms(1)]) (use assms(2) in blast)+

lemma add_region_ok:
  assumes B: "blks_ok B" and o: "outside B r len" and f: "region_fits r len"
  shows "blks_ok (B ++ region_blks r len)"
proof -
  have l: "64 \<le> len" using f by (simp add: region_fits_def)
  note A = add_region [OF o l] and R = region_blks_ok [OF f]
  have "blk_ok (B ++ region_blks r len) a s g p" if "(B ++ region_blks r len) a = Some (s, g, p)" for a s g p
    using A(3) [OF that]
  proof
    assume "B a = Some (s, g, p)"
    from blk_ok_mono [OF blks_okD [OF B this]] A(1) show ?thesis by blast
  next
    assume "region_blks r len a = Some (s, g, p)"
    from blk_ok_mono [OF blks_okD [OF R this]] A(2) show ?thesis by blast
  qed
  moreover have "a + 8 + s \<le> b"
    if a: "(B ++ region_blks r len) a = Some (s, g, p)" and b: "(B ++ region_blks r len) b = Some v" and lt: "a < b" for a s g p b v
  proof -
    obtain t h q where v: "v = (t, h, q)" by (cases v)
    from A(3) [OF a] A(3) [OF b] show ?thesis
      using blks_apartD [OF B, of a s g p b t h q] blks_apartD [OF R, of a s g p b t h q] lt
        outsideD [OF o, of a s g p] outsideD [OF o, of b t h q] region_range [OF l, of r a s g p]
        region_range [OF l, of r b t h q] unfolding v by auto
  qed
  then have "blks_apart (B ++ region_blks r len)" unfolding blks_apart_def by (metis domD)
  ultimately show ?thesis unfolding blks_ok_def by blast
qed

lemma same_outside_step:
  "same_outside X M M' \<Longrightarrow> {a..<a + 4} \<subseteq> X \<Longrightarrow> same_outside X M (store32 M' a v)"
  by (rule same_outside_trans [OF _ same_outside_store])

text \<open>What \<^verbatim>\<open>init_mm_region\<close> writes: the middle block is marked used, but the last one is told already
  that its predecessor is free.\<close>

lemma init_mm_region_ok:
  assumes f: "region_fits r len" and i: "init_mm_region M r len = (M', b)"
  shows "b = r" "load32 M' (r + 4) = enc 8 False False" "load32 M' (r + 16 + 4) = enc (len - 32) False False"
    "load32 M' (r + (len - 8) + 4) = enc 0 False True" "same_outside {r..<r + len} M M'"
proof -
  have l: "64 \<le> len" and F: "8 dvd r" "0 < r" "8 dvd len" "len \<le> 2 ^ 28" "r + len < 2 ^ 32"
    using f by (auto simp: region_fits_def)
  define M1 where "M1 = store32 (store32 M r 0) (r + 4) 8"
  define e where "e = r + (len - 8)"
  have e: "sz_sub (sz_add r len) 8 = e" using l F by (simp add: sz_add_small sz_sub_small e_def)
  have up: "MM_ALIGN_UP 8 = 8" using ALIGN_UP_eq [of 8] by simp
  have "load32 M1 (r + 4) = enc 8 False False" by (simp add: M1_def enc_def)
  then have nx: "MM_GET_NEXT_BLK M1 r = r + 16" using enc_reads(3) [of M1 r 8 False False] F l by simp
  have sz: "sz_sub e (r + 16 + 8) = len - 32" using l by (simp add: e_def sz_sub_small)
  have i': "init_mm_region M r len = (store32 (store32 (store32 (store32 (store32 (store32 (store32 M1
      (r + 16 + 4) (len - 32)) (r + 16 + 12) 0) (r + 16 + 8) 0) e (r + 16)) (e + 4) 2) (r + 8 + 4) 0) (r + 8) e, r)"
    unfolding init_mm_region_def Let_def mm_consts up or.right_neutral or.left_neutral M1_def [symmetric] e nx sz ..
  show "b = r" using i unfolding i' by simp
  have M': "M' = store32 (store32 (store32 (store32 (store32 (store32 (store32 M1
      (r + 16 + 4) (len - 32)) (r + 16 + 12) 0) (r + 16 + 8) 0) e (r + 16)) (e + 4) 2) (r + 8 + 4) 0) (r + 8) e"
    using i unfolding i' prod.inject by (rule conjE) (rule sym)
  have b: "r + 56 \<le> e" "e + 8 = r + len" using l by (auto simp: e_def)
  show "load32 M' (r + 4) = enc 8 False False"
    using b by (simp add: M' M1_def load32_store_other enc_def)
  show "load32 M' (r + 16 + 4) = enc (len - 32) False False"
    using b F by (simp add: M' load32_store_other enc_def)
  show "load32 M' (r + (len - 8) + 4) = enc 0 False True"
    using b unfolding e_def [symmetric] by (simp add: M' load32_store_other enc_def)
  show "same_outside {r..<r + len} M M'"
    unfolding M' M1_def by (intro same_outside_step same_outside_refl) (use b in auto)
qed

text \<open>The free block of a new region, before it is listed.\<close>

lemma region_loose:
  assumes ok: "mm_ok M H B" and o: "outside B r len" and f: "region_fits r len"
    and w: "load32 M (r + 4) = enc 8 False False" "load32 M (r + 16 + 4) = enc (len - 32) False False"
      "load32 M (r + (len - 8) + 4) = enc 0 False True"
  shows "loose (r + 16) (len - 32) False (buf_set M (r + 16) 1) H (B ++ region_blks r len)"
    and "coalesced (B ++ region_blks r len)"
    and "same_outside {r + 16..<r + 24} M (buf_set M (r + 16) 1)"
proof -
  let ?N = "B ++ region_blks r len" and ?b = "r + 16" and ?s = "len - 32"
  have l: "64 \<le> len" and F: "8 dvd r" "0 < r" "8 dvd len" "len \<le> 2 ^ 28" "r + len < 2 ^ 32"
    using f by (auto simp: region_fits_def)
  have e: "?b + 8 + ?s = r + (len - 8)" using l by simp
  note A = add_region [OF o l] and E = region_eq [OF l, of r]
  have N: "blks_ok ?N" by (rule add_region_ok [OF _ o f]) (use ok in \<open>simp add: mm_ok_def\<close>)
  have st: "mm_st {} M H B (free_map B)" and co: "coalesced B" using ok by (auto simp: mm_ok_st)
  note D = mm_stD [OF st]
  have s8: "8 dvd ?s" "?s < 2 ^ 28" using F l by (auto simp: dvd_diff_nat)
  define M0 where "M0 = buf_set M ?b 1"
  have M0: "M0 = store32 M (?b + 4) (enc ?s True False)" unfolding M0_def by (rule buf_set_enc(1) [OF w(2) s8(1)])
  have X: "same_outside {?b..<?b + 8} M M0" unfolding M0 by (rule same_outside_store) auto
  moreover have "?b + 8 = r + 24" by simp
  ultimately show "same_outside {r + 16..<r + 24} M (buf_set M (r + 16) 1)" by (simp only: M0_def)
  have apart: "{c..<c + 8 + t} \<inter> {?b..<?b + 8} = {}" if "B c = Some (t, g, q)" for c t g q
    using outsideD [OF o that] l by auto
  have heads: "{c..<c + 8} \<inter> {?b..<?b + 8} = {}" if "c \<in> dom B" for c
  proof -
    obtain t g q where "B c = Some (t, g, q)" using \<open>c \<in> dom B\<close> by auto
    from apart [OF this] show ?thesis by auto
  qed
  have lk: "{?b..<?b + 8} \<inter> links (dom (free_map B)) = {}"
  proof -
    have "{?b..<?b + 8} \<inter> {c + 8..<c + 16} = {}" if "c \<in> dom (free_map B)" for c
    proof -
      obtain t q where c: "B c = Some (t, True, q)" using D(4) \<open>c \<in> dom (free_map B)\<close> by blast
      show ?thesis using apart [OF c] blk_bounds(6) [OF D(1) c] by auto
    qed
    then show ?thesis unfolding links_def by blast
  qed
  have free: "\<exists>p. ?N a = Some (t, True, p)" if "free_map B a = Some t" for a t
    using that A(1) unfolding free_map_iff by blast
  have hdr: "hdr_at M0 ?N a" if a: "a \<notin> {?b, ?b + 8 + ?s}" for a
  proof (cases "a = r")
    case True
    have "load32 M0 (r + 4) = enc 8 False False" using w(1) by (simp add: M0 load32_store_other)
    with True A(2) [OF E(1)] show ?thesis by (simp add: hdr_at_def)
  next
    case False
    have "hdr_at M0 B a" by (rule hdr_at_frame [OF D(1) D(2) X heads]) simp_all
    moreover have "?N a = B a"
      using a False A(1,3) E(4) [of a] unfolding e by (cases "?N a"; cases "B a") force+
    ultimately show ?thesis by (simp add: hdr_at_def)
  qed
  have st1: "mm_st {?b, ?b + 8 + ?s} M0 H ?N (free_map B)" by (rule mm_st_heads [OF st N hdr X lk free]) simp_all
  have fm: "free_map B = (free_map ?N)(?b := None)"
  proof
    fix a show "free_map B a = ((free_map ?N)(?b := None)) a"
    proof (cases "B a")
      case None
      then have n: "?N a = region_blks r len a" by (simp add: map_add_def split: option.splits)
      then show ?thesis using None E(4) [of a] E(1,3)
        by (cases "region_blks r len a") (auto simp: free_map_def n)
    next
      case (Some v)
      then have "a \<noteq> ?b" using apart [of a] by (cases v) auto
      with Some A(1) [OF Some] show ?thesis by (simp add: free_map_def)
    qed
  qed
  have "enc ?s True False < 2 ^ 32" by (rule enc_less28 [OF s8])
  then have w1: "load32 M0 (?b + 4) = enc ?s True False" by (simp add: M0)
  have we: "load32 M0 (?b + 8 + ?s + 4) = enc 0 False True" using w(3) l by (simp add: M0 e load32_store_other)
  show lo: "loose ?b ?s False (buf_set M ?b 1) H ?N"
    unfolding loose_def M0_def [symmetric] e
    by (intro conjI exI) (rule st1 [unfolded fm e] A(2) [OF E(2)] w1 A(2) [OF E(3)] we [unfolded e])+
  show "coalesced ?N"
  proof (rule loose_coalesced [OF lo])
    show "almost ?b False ?N"
      unfolding almost_def
    proof (intro allI impI)
      fix a t q assume a: "?N a = Some (t, True, q)" "a \<noteq> ?b"
      then have "B a = Some (t, True, q)" using A(3) [OF a(1)] by (auto elim: region_cases [OF l])
      with co obtain v where v: "B (a + 8 + t) = Some (v, False, True)" using coalescedD by blast
      have "a + 8 + t \<noteq> ?b" using apart [OF v] by auto
      then show "if a + 8 + t = ?b then False else \<exists>v. ?N (a + 8 + t) = Some (v, False, True)"
        using A(1) [OF v] by auto
    qed
  qed
qed

lemma region_release:
  assumes ok: "mm_ok M H B" and o: "outside B r len" and f: "region_fits r len"
    and w: "load32 M (r + 4) = enc 8 False False" "load32 M (r + 16 + 4) = enc (len - 32) False False"
      "load32 M (r + (len - 8) + 4) = enc 0 False True"
    and np: "\<not> krhino_mblk_check (fix_pool H) (r + 24)"
  shows "\<exists>M' H'. k_mm_free M (Some H) (r + 24) = (M', Some H') \<and> mm_ok M' H' (B ++ region_blks r len) \<and>
    fix_pool H' = fix_pool H \<and> same_outside (meta (B ++ region_blks r len)) M M'"
proof -
  let ?N = "B ++ region_blks r len" and ?b = "r + 16" and ?s = "len - 32"
  define H0 where "H0 = stats_removesize (?s + 8) H"
  have "mm_ok M H0 B" by (rule mm_ok_head [OF _ _ ok]) (simp_all add: H0_def)
  note L = region_loose [OF this o f w]
  note D = looseD [OF L(1)]
  define M0 where "M0 = buf_set M ?b 1"
  have l: "64 \<le> len" "r + len < 2 ^ 32" using f by (auto simp: region_fits_def)
  have e: "?b + 8 + ?s = r + (len - 8)" using l by simp
  note A = add_region [OF o l(1)] and E = region_eq [OF l(1), of r]
  have "load32 M0 (r + (len - 8) + 4) = load32 M (r + (len - 8) + 4)"
    unfolding M0_def by (rule same_outside_load [OF L(3)]) (use l in auto)
  with w(3) have we: "load32 M0 (r + (len - 8) + 4) = enc 0 False True" by simp
  have nf: "\<not> buf_flag M0 (r + (len - 8)) 1" using enc_reads(4) [OF we] l by simp
  obtain M1 H1 where ins: "k_mm_freelist_insert ?b (M0, H0) = (M1, H1)" by force
  note Q = loose_listed [OF L(1) ins [unfolded M0_def] refl]
  define M' where "M' = buf_set (store32 M1 (?b + 8 + ?s) ?b) (?b + 8 + ?s) 2"
  have "mm_merge_next ?b (M0, H0) = (M0, H0)"
    using D(6) nf unfolding M0_def [symmetric] e by (simp add: mm_merge_next_def del: One_nat_def)
  moreover have "mm_merge_prev ?b (M0, H0) = ((M0, H0), ?b)"
    using D(7) unfolding M0_def [symmetric] by (simp add: mm_merge_prev_def)
  ultimately have "mm_release ?b (M, H) = (M', H1)"
    using D(5) Q(2) unfolding mm_release_def M0_def [symmetric] M'_def
    by (simp add: Let_def H0_def [symmetric] M0_def [symmetric] ins del: One_nat_def)
  moreover have "MM_GET_THIS_BLK (r + 24) = ?b" using THIS_BLK [of ?b] l by (simp add: add.commute)
  ultimately have "k_mm_free M (Some H) (r + 24) = (M', Some H1)" using np by (simp add: k_mm_free_def)
  moreover have "mm_ok M' H1 ?N" using Q(1) L(2) by (simp add: mm_ok_st M'_def)
  moreover have "fix_pool H1 = fix_pool H" using lists_only_sel(1) [OF Q(3)] by (simp add: H0_def)
  moreover have b: "?b \<in> dom ?N" using A(2) [OF E(2)] by auto
  then have "{?b..<r + 24} \<subseteq> meta ?N" using head_meta [OF D(2)] by fastforce
  from same_outside_trans [OF same_outside_mono [OF L(3) this] Q(4)]
  have "same_outside (meta ?N) M M'" by (simp add: M'_def)
  ultimately show ?thesis by blast
qed

section \<open>Adding a region\<close>

lemma outside_frame:
  assumes ok: "mm_ok M H B" and o: "outside B r len" and X: "same_outside {r..<r + len} M M'"
  shows "mm_ok M' H B"
proof -
  have st: "mm_st {} M H B (free_map B)" and co: "coalesced B" using ok by (auto simp: mm_ok_st)
  note D = mm_stD [OF st]
  have heads: "{c..<c + 8} \<inter> {r..<r + len} = {}" if "c \<in> dom B" for c
  proof -
    obtain t g q where "B c = Some (t, g, q)" using \<open>c \<in> dom B\<close> by auto
    from outsideD [OF o this] show ?thesis by auto
  qed
  have "{r..<r + len} \<inter> {c + 8..<c + 16} = {}" if "c \<in> dom (free_map B)" for c
  proof -
    obtain t q where c: "B c = Some (t, True, q)" using D(4) \<open>c \<in> dom (free_map B)\<close> by blast
    show ?thesis using outsideD [OF o c] blk_bounds(6) [OF D(1) c] by auto
  qed
  then have "{r..<r + len} \<inter> links (dom (free_map B)) = {}" unfolding links_def by blast
  moreover have "hdr_at M' B a" for a by (rule hdr_at_frame [OF D(1) D(2) X heads]) simp_all
  ultimately have "mm_st {} M' H B (free_map B)" using mm_st_heads [OF st D(1) _ X _ D(5)] by simp
  with co show ?thesis by (simp add: mm_ok_st)
qed

lemma used_outside:
  assumes "outside B r len" "used_map B a = Some s" shows "{r..<r + len} \<inter> {a + 8..<a + 8 + s} = {}"
proof -
  obtain p where "B a = Some (s, False, p)" using assms(2) by (auto simp: used_map_iff)
  from outsideD [OF assms(1) this] show ?thesis by auto
qed

lemma region_used:
  assumes o: "outside B r len" and f: "region_fits r len"
  shows "used_map (B ++ region_blks r len) a = (if a = r then Some 8 else if a = r + (len - 8) then Some 0 else used_map B a)"
proof -
  have l: "64 \<le> len" using f by (simp add: region_fits_def)
  note A = add_region [OF o l] and E = region_eq [OF l, of r]
  show ?thesis
  proof (cases "B a")
    case (Some v)
    then have "a \<noteq> r" "a \<noteq> r + (len - 8)"
      using outsideD [OF o, of a] l by (cases v; auto)+
    then show ?thesis using A(1) [OF Some] Some by (simp add: used_map_def)
  next
    case None
    then have n: "(B ++ region_blks r len) a = region_blks r len a" by (simp add: map_add_def split: option.splits)
    show ?thesis
    proof (cases "a = r + 16")
      case True
      with n E(2) None l show ?thesis by (simp add: used_map_def)
    next
      case False
      with n E(1,3) E(4) [of a] None show ?thesis
        by (cases "region_blks r len a") (auto simp: used_map_def n)
    qed
  qed
qed

lemma region_allocs:
  assumes ok: "heap_ok M H B h U" and o: "outside B r len" and f: "region_fits r len"
  shows "allocs h (B ++ region_blks r len) U = allocs h B U"
proof -
  have l: "64 \<le> len" using f by (simp add: region_fits_def)
  have "used_map B r = None" "used_map B (r + (len - 8)) = None"
    using outsideD [OF o, of r] outsideD [OF o, of "r + (len - 8)"] l
    by (fastforce simp: used_map_def split: option.split)+
  then have "(x, k) \<in> allocs h (B ++ region_blks r len) U \<longleftrightarrow> (x, k) \<in> allocs h B U" for x k
    unfolding allocs_iff region_used [OF o f] by auto
  then show ?thesis by auto
qed

lemma region_meta:
  assumes "outside B r len" "64 \<le> len" shows "meta (B ++ region_blks r len) \<subseteq> meta B"
  unfolding meta_def using add_region(1) [OF assms] by blast

lemma kept_outside:
  assumes P: "pool_in M H B h U" and o: "outside B r len" and Y: "same_outside (meta B \<union> {r..<r + len}) M M'"
  shows "kept (allocs h B U) M M'"
proof -
  have "M' x = M x" if a: "(a, k) \<in> allocs h B U" "a \<le> x" "x < a + k" for a k x
  proof -
    obtain c s where c: "used_map B c = Some s" "c + 8 \<le> a" "a + k \<le> c + 8 + s"
      using a(1)
    proof (cases rule: allocs_cases)
      case (1 c) then show ?thesis using that by auto
    next
      case (2 t)
      show ?thesis by (rule pool_inD [OF P 2(1)]) (use that 2(2) in auto)
    qed
    with a have "x \<in> {c + 8..<c + 8 + s}" by simp
    then have "x \<notin> meta B \<union> {r..<r + len}" using used_meta [OF c(1)] used_outside [OF o c(1)] by blast
    with Y show ?thesis by (simp add: same_outside_def)
  qed
  then show ?thesis by (auto simp: kept_def)
qed

text \<open>A region that is laid out and released.\<close>

lemma region_setup:
  assumes ok: "mm_ok M H B" and o: "outside B r len" and f: "region_fits r len"
    and i: "init_mm_region M r len = (M1, b)" and X: "same_outside {r + 8..<r + 16} M1 M2"
    and H: "freelist H' = freelist H" "free_bitmap H' = free_bitmap H" and np: "\<not> krhino_mblk_check (fix_pool H') (r + 24)"
  shows "b = r" "MM_GET_NEXT_BLK M1 b = r + 16" "MM_GET_NEXT_BLK M2 b = r + 16" "MM_GET_BLK_SIZE M2 (r + 16) = len - 24"
    and "\<exists>M' H''. k_mm_free M2 (Some H') (r + 24) = (M', Some H'') \<and> mm_ok M' H'' (B ++ region_blks r len) \<and>
      fix_pool H'' = fix_pool H' \<and> same_outside (meta B \<union> {r..<r + len}) M M'"
proof -
  have l: "64 \<le> len" and F: "8 dvd r" "0 < r" "8 dvd len" "len \<le> 2 ^ 28" "r + len < 2 ^ 32"
    using f by (auto simp: region_fits_def)
  note I = init_mm_region_ok [OF f i]
  show b: "b = r" by (rule I(1))
  have w: "load32 M2 (r + 4) = enc 8 False False" "load32 M2 (r + 16 + 4) = enc (len - 32) False False"
    "load32 M2 (r + (len - 8) + 4) = enc 0 False True"
    using I(2-4) l by (simp_all add: same_outside_load [OF X])
  show "MM_GET_NEXT_BLK M1 b = r + 16" "MM_GET_NEXT_BLK M2 b = r + 16"
    using enc_reads(3) [OF I(2)] enc_reads(3) [OF w(1)] F l unfolding b by simp_all
  show "MM_GET_BLK_SIZE M2 (r + 16) = len - 24"
    using enc_reads(2) [OF w(2)] F l by (auto simp: dvd_diff_nat)
  have X2: "same_outside {r..<r + len} M M2"
    by (rule same_outside_trans [OF I(5) same_outside_mono [OF X]]) (use l in auto)
  have "mm_ok M2 H' B" by (rule mm_ok_head [OF H outside_frame [OF ok o X2]])
  from region_release [OF this o f w np] obtain M' H'' where R: "k_mm_free M2 (Some H') (r + 24) = (M', Some H'')"
    "mm_ok M' H'' (B ++ region_blks r len)" "fix_pool H'' = fix_pool H'"
    "same_outside (meta (B ++ region_blks r len)) M2 M'" by blast
  have "meta (B ++ region_blks r len) \<subseteq> meta B \<union> {r..<r + len}" using region_meta [OF o l] by blast
  from same_outside_trans [OF same_outside_mono [OF X2] same_outside_mono [OF R(4) this]]
  have "same_outside (meta B \<union> {r..<r + len}) M M'" by simp
  with R show "\<exists>M' H''. k_mm_free M2 (Some H') (r + 24) = (M', Some H'') \<and> mm_ok M' H'' (B ++ region_blks r len) \<and>
      fix_pool H'' = fix_pool H' \<and> same_outside (meta B \<union> {r..<r + len}) M M'" by blast
qed

lemma align_range:
  assumes "0 < addr" "addr + 7 < 2 ^ 32" "MM_ALIGN_UP addr - addr \<le> len" "len < 2 ^ 32"
  shows "sz_sub (MM_ALIGN_UP addr) addr = MM_ALIGN_UP addr - addr"
    "sz_sub len (sz_sub (MM_ALIGN_UP addr) addr) = len - (MM_ALIGN_UP addr - addr)"
    "8 dvd MM_ALIGN_UP addr" "8 dvd MM_ALIGN_DOWN (len - (MM_ALIGN_UP addr - addr))"
    "MM_ALIGN_DOWN (len - (MM_ALIGN_UP addr - addr)) \<le> len - (MM_ALIGN_UP addr - addr)" "addr \<le> MM_ALIGN_UP addr"
  using ALIGN_UP_bounds [OF assms(2)] assms(3,4) ALIGN_DOWN_eq [of "len - (MM_ALIGN_UP addr - addr)"]
  by (simp_all add: sz_sub_small)

text \<open>A further region: the objects in use stay as they are, and its space can be allocated.\<close>

lemma krhino_add_mm_region_ok:
  assumes ok: "heap_ok M H B h U" and a: "0 < addr" "addr + len < 2 ^ 32" "7 \<le> len"
    and r: "r = MM_ALIGN_UP addr" "l = MM_ALIGN_DOWN (len - (r - addr))" "64 \<le> l" "l \<le> 2 ^ 28" and o: "outside B r l"
  shows "\<exists>M' H'. krhino_add_mm_region M (Some H) addr len = (M', Some H', RHINO_SUCCESS) \<and>
    heap_ok M' H' (B ++ region_blks r l) h U \<and> allocs h (B ++ region_blks r l) U = allocs h B U \<and>
    kept (allocs h B U) M M'"
proof -
  have a7: "addr + 7 < 2 ^ 32" using a by simp
  note up = ALIGN_UP_bounds [OF a7, folded r(1)]
  have len: "r - addr \<le> len" "len < 2 ^ 32" using up a by auto
  note A = align_range [OF a(1) a7 len(1) [unfolded r(1)] len(2), folded r(1), folded r(2)]
  have f: "region_fits r l" using A up r(3,4) a(1,2) by (auto simp: region_fits_def)
  note D = heap_okD [OF ok]
  define M0 where "M0 = mem_set M r l"
  obtain M1 b where i: "init_mm_region M0 r l = (M1, b)" by force
  have X0: "same_outside {r..<r + l} M M0" by (auto simp: M0_def same_outside_def mem_set_def)
  define M2 where "M2 = store32 M1 (r + 12) (regioninfo H)"
  have X: "same_outside {r + 8..<r + 16} M1 M2" unfolding M2_def by (rule same_outside_store) auto
  define H' where "H' = H\<lparr>regioninfo := r + 8, used_size := sz_add (used_size H) (l - 24)\<rparr>"
  have np: "\<not> krhino_mblk_check (fix_pool H') (r + 24)"
  proof (cases "fix_pool H")
    case (Some P)
    with D(2) obtain s where s: "used_map B h = Some s" "h + 8 \<le> pool_start P" "pool_end P \<le> h + 8 + s"
      by (auto simp: pool_in_def)
    have "r + 24 \<in> {r..<r + l}" using r(3) by simp
    then have "r + 24 \<notin> {h + 8..<h + 8 + s}" using used_outside [OF o s(1)] by blast
    with s Some show ?thesis by (auto simp: krhino_mblk_check_def H'_def)
  qed (simp add: krhino_mblk_check_def H'_def)
  note S = region_setup [OF outside_frame [OF D(1) o X0] o f i X _ _ np]
  have H: "freelist H' = freelist H" "free_bitmap H' = free_bitmap H" by (simp_all add: H'_def)
  from S(5) [OF H] obtain M' H'' where R: "k_mm_free M2 (Some H') (r + 24) = (M', Some H'')"
    "mm_ok M' H'' (B ++ region_blks r l)" "fix_pool H'' = fix_pool H'" "same_outside (meta B \<union> {r..<r + l}) M0 M'" by blast
  have "\<not> (l = 0 \<or> l < sizeof_region_info + MMLIST_HEAD_SIZE * 3 + MM_MIN_SIZE)" using r(3) by simp
  then have "krhino_add_mm_region M (Some H) addr len = (M', Some H'', RHINO_SUCCESS)"
    using a(1) i S(1-4) [OF H] R(1) unfolding krhino_add_mm_region_def
    by (simp add: r(1) [symmetric] A(2) r(2) [symmetric] M0_def [symmetric] Let_def M2_def H'_def add.commute)
  moreover have Y: "same_outside (meta B \<union> {r..<r + l}) M M'"
    by (rule same_outside_trans [OF same_outside_mono [OF X0] R(4)]) simp
  have "pool_in M' H'' (B ++ region_blks r l) h U"
  proof (rule pool_in_frame [OF D(2) _ Y])
    fix s assume s: "used_map B h = Some s"
    then obtain p where "B h = Some (s, False, p)" by (auto simp: used_map_iff)
    from add_region(1) [OF o r(3) this] have "used_map (B ++ region_blks r l) h = Some s" by (simp add: used_map_iff)
    then show "used_map (B ++ region_blks r l) h = Some s \<and> (meta B \<union> {r..<r + l}) \<inter> {h + 8..<h + 8 + s} = {}"
      using used_meta [OF s] used_outside [OF o s] by blast
  qed (simp add: R(3) H'_def)
  with R(2) have "heap_ok M' H'' (B ++ region_blks r l) h U" by (simp add: heap_ok_def)
  moreover have "kept (allocs h B U) M M'" by (rule kept_outside [OF D(2) o Y])
  ultimately show ?thesis using region_allocs [OF ok o f] by blast
qed

section \<open>The first region\<close>

lemma mm_ok_empty: "mm_ok M (zero_head\<lparr>regioninfo := x\<rparr>) Map.empty"
proof -
  have "flists M (zero_head\<lparr>regioninfo := x\<rparr>) Map.empty (\<lambda>_. [])" by (simp add: flists_def zero_head_def)
  moreover have "free_map Map.empty = Map.empty" by (simp add: fun_eq_iff free_map_def)
  ultimately show ?thesis by (auto simp: mm_ok_def blks_ok_def blks_apart_def coalesced_def hdrs_def)
qed

lemma heap_ok_region:
  assumes "mm_ok M H B" "fix_pool H = None" shows "heap_ok M H B 0 {}"
  using assms by (simp add: heap_ok_def pool_in_def)

lemma first_region:
  assumes f: "region_fits r len" and i: "init_mm_region M r len = (M1, b)"
  shows "b = r" "MM_GET_NEXT_BLK M1 b = r + 16"
    and "\<exists>M' H. k_mm_free M1 (Some (zero_head\<lparr>regioninfo := r + 8\<rparr>)) (r + 24) = (M', Some H) \<and>
      mm_ok M' H (region_blks r len) \<and> fix_pool H = None"
proof -
  let ?H = "zero_head\<lparr>regioninfo := r + 8\<rparr>"
  have o: "outside Map.empty r len" by (simp add: outside_def)
  have np: "\<not> krhino_mblk_check (fix_pool ?H) (r + 24)" by (simp add: krhino_mblk_check_def zero_head_def)
  note S = region_setup [OF mm_ok_empty o f i same_outside_refl refl refl np]
  show "b = r" "MM_GET_NEXT_BLK M1 b = r + 16" using S(1,2) by auto
  have n: "fix_pool ?H = None" by (simp add: zero_head_def)
  have m: "Map.empty ++ region_blks r len = region_blks r len" by simp
  from S(5) [unfolded n m] show "\<exists>M' H. k_mm_free M1 (Some ?H) (r + 24) = (M', Some H) \<and>
      mm_ok M' H (region_blks r len) \<and> fix_pool H = None" by blast
qed

text \<open>The pool is put into the first block that is allocated.\<close>

lemma pool_setup:
  assumes ok: "heap_ok M H B 0 {}" and none: "allocs 0 B {} = {}" and big: "B a = Some (t, True, q)" "2392 \<le> t"
    and np: "fix_pool H = None"
  shows "\<exists>M1 H1 r P' M2 B'. k_mm_alloc M (Some H) 2392 = Some (M1, Some H1, r) \<and> r \<noteq> 0 \<and>
    krhino_mblk_pool_init M1 (Some P) (Some nm) (r + 344) 2048 = (M2, Some P', RHINO_SUCCESS) \<and> r + 344 < 2 ^ 32 \<and>
    heap_ok M2 (H1\<lparr>fix_pool := Some P'\<rparr>) B' (r - 8) {} \<and> allocs (r - 8) B' {} = {}"
proof -
  have t: "(if fix_pool H \<noteq> None \<and> 2392 \<le> RHINO_CONFIG_MM_BLK_SIZE
      then krhino_mblk_alloc_nolock M (fix_pool H) 2392 else (fix_pool H, 0)) = (None, 0)" by (simp add: np)
  have up: "MM_ALIGN_UP 2392 = 2392" using ALIGN_UP_eq [of 2392] by simp
  from alloc_from_blocks [OF ok _ _ t] obtain M1 H1 r B' where
    A: "k_mm_alloc M (Some H) 2392 = Some (M1, Some H1, r)" "heap_ok M1 H1 B' 0 {}" and
    R: "if r = 0 then B' = B \<and> (\<forall>a t p. B a = Some (t, True, p) \<longrightarrow> t < max MM_MIN_SIZE (MM_ALIGN_UP 2392))
     else \<exists>n. 2392 \<le> n \<and> 4 dvd r \<and> allocs 0 B' {} = insert (r, n) (allocs 0 B {}) \<and>
       (\<forall>(a, k)\<in>allocs 0 B {}. r + n \<le> a \<or> a + k \<le> r)" by auto
  have r0: "r \<noteq> 0"
  proof
    assume "r = 0"
    with R have "\<forall>a t p. B a = Some (t, True, p) \<longrightarrow> t < max 32 2392" by (simp add: up)
    with big(1) have "t < max 32 2392" by blast
    with big(2) show False by simp
  qed
  with R obtain n where n: "2392 \<le> n" "4 dvd r" "allocs 0 B' {} = {(r, n)}" using none by auto
  note D = heap_okD [OF A(2)]
  have "(r, n) \<in> allocs 0 B' {}" using n by simp
  then obtain g where g: "r = g + 8" "used_map B' g = Some n" by (cases rule: allocs_cases) auto
  then obtain p where p: "B' g = Some (n, False, p)" by (auto simp: used_map_iff)
  note bd = blk_bounds [OF D(3) p]
  obtain M2 po st where i: "krhino_mblk_pool_init M1 (Some P) (Some nm) (r + 344) 2048 = (M2, po, st)" by (metis surj_pair)
  have "r + 344 \<noteq> 0" "r + 344 + 2048 < 2 ^ 32" using n(1) bd(4) g(1) by auto
  moreover have "4 dvd r + 344" using n(2) by presburger
  ultimately have I: "st = RHINO_SUCCESS" "M2 = mem_set M1 (r + 344) 2048"
    "\<exists>P'. po = Some P' \<and> mblk_rep M2 P' (\<lambda>_. []) \<and> mblk_live P' (\<lambda>_. []) = {} \<and>
      pool_start P' = r + 344 \<and> pool_end P' = r + 344 + 2048 \<and> pool_name P' = nm"
    using mblk_init_ok [OF _ _ _ i] by blast+
  from I(3) obtain P' where P': "po = Some P'" "mblk_rep M2 P' (\<lambda>_. [])" "mblk_live P' (\<lambda>_. []) = {}"
    "pool_start P' = r + 344" "pool_end P' = r + 344 + 2048" by auto
  have X: "same_outside {r + 344..<r + 344 + 2048} M1 M2" unfolding I(2) by (auto simp: same_outside_def mem_set_def)
  have "{r + 344..<r + 344 + 2048} \<subseteq> {g + 8..<g + 8 + n}" using g(1) n(1) by auto
  then have "mm_ok M2 H1 B'" using used_meta [OF g(2)] by (intro mm_ok_payload [OF D(1) X]) blast
  then have "mm_ok M2 (H1\<lparr>fix_pool := Some P'\<rparr>) B'" by (rule mm_ok_head [rotated 2]) simp_all
  then have "heap_ok M2 (H1\<lparr>fix_pool := Some P'\<rparr>) B' (r - 8) {}"
    using P' g n(1) by (auto simp: heap_ok_def pool_in_def intro!: exI [of _ "\<lambda>_. []"] exI [of _ n])
  moreover have "(x, k) \<notin> allocs (r - 8) B' {}" for x k
  proof
    assume "(x, k) \<in> allocs (r - 8) B' {}"
    then have x: "8 \<le> x" "used_map B' (x - 8) = Some k" "32 \<le> k" "x - 8 \<noteq> g" by (auto simp: allocs_iff g(1))
    then have "(x, k) \<in> allocs 0 B' {}" using D(4) [OF x(2)] by (auto simp: allocs_iff)
    with n(3) x(4) g(1) show False by auto
  qed
  then have "allocs (r - 8) B' {} = {}" by auto
  moreover have "r + 344 < 2 ^ 32" using bd(4) g(1) n(1) by simp
  ultimately show ?thesis using A(1) r0 i P'(1) I(1) by blast
qed

lemma init_len:
  assumes "8 dvd l" "3072 \<le> l" "l < 2 ^ 32" shows "MM_ALIGN_DOWN (l - 220) = l - 224"
proof -
  obtain k where "l = 8 * k" using assms(1) by (auto simp: dvd_def)
  moreover from this assms(2) have "l - 220 = 8 * (k - 28) + 4" by simp
  ultimately show ?thesis using assms(3) ALIGN_DOWN_eq [of "l - 220"] by simp
qed

lemma init_first:
  assumes a: "8 dvd A" "0 < A" and l: "8 dvd l" "3072 \<le> l" "l \<le> 2 ^ 28" "A + l < 2 ^ 32"
  shows "\<exists>M1 M2 H2 B. init_mm_region M0 (sz_add A (MM_ALIGN_UP sizeof_k_mm_head)) (MM_ALIGN_DOWN (l - sizeof_k_mm_head)) = (M1, A + 224) \<and>
    MM_GET_NEXT_BLK M1 (A + 224) = A + 240 \<and>
    k_mm_free M1 (Some (zero_head\<lparr>regioninfo := A + 232\<rparr>)) (A + 248) = (M2, Some H2) \<and>
    fix_pool H2 = None \<and> heap_ok M2 H2 B 0 {} \<and> allocs 0 B {} = {} \<and> (\<exists>a t q. B a = Some (t, True, q) \<and> 2392 \<le> t)"
proof -
  have up: "MM_ALIGN_UP 220 = 224" using ALIGN_UP_eq [of 220] by simp
  have l32: "l < 2 ^ 32" using l(4) by simp
  have f: "region_fits (A + 224) (l - 224)" using a l by (auto simp: region_fits_def dvd_diff_nat)
  have big: "64 \<le> l - 224" using l(2) by simp
  obtain M1 b where i: "init_mm_region M0 (A + 224) (l - 224) = (M1, b)" by force
  note R = first_region [OF f i]
  from R(3) obtain M2 H2 where F: "k_mm_free M1 (Some (zero_head\<lparr>regioninfo := A + 232\<rparr>)) (A + 248) = (M2, Some H2)"
    "mm_ok M2 H2 (region_blks (A + 224) (l - 224))" "fix_pool H2 = None" by (auto simp: add.assoc)
  have o: "outside Map.empty (A + 224) (l - 224)" by (simp add: outside_def)
  have "fix_pool (zero_head\<lparr>regioninfo := 0\<rparr>) = None" by (simp add: zero_head_def)
  from region_allocs [OF heap_ok_region [OF mm_ok_empty this] o f] have "allocs 0 (region_blks (A + 224) (l - 224)) {} = {}"
    by (simp add: allocs_def used_map_def)
  moreover have "region_blks (A + 224) (l - 224) (A + 224 + 16) = Some (l - 224 - 32, True, False)" by (rule region_eq(2) [OF big])
  moreover have "2392 \<le> l - 224 - 32" using l(2) by simp
  moreover have "sz_add A (MM_ALIGN_UP sizeof_k_mm_head) = A + 224" using up l by (simp add: sz_add_small)
  ultimately show ?thesis
    using i R(1,2) F heap_ok_region [OF F(2,3)] init_len [OF l(1,2) l32] by (simp add: add.assoc) blast
qed

lemma init_heap:
  assumes a: "0 < addr" "addr + len < 2 ^ 32" "7 \<le> len"
    and l: "A = MM_ALIGN_UP addr" "l = MM_ALIGN_DOWN (len - (A - addr))" "3072 \<le> l" "l \<le> 2 ^ 28"
  shows "\<exists>M' H h B. krhino_init_mm_head M head addr len = Some (M', Some H, RHINO_SUCCESS) \<and>
      heap_ok M' H B h {} \<and> allocs h B {} = {} \<and> fix_pool H \<noteq> None"
proof -
  have a7: "addr + 7 < 2 ^ 32" using a by simp
  note up = ALIGN_UP_bounds [OF a7, folded l(1)]
  have len: "A - addr \<le> len" "len < 2 ^ 32" using up a by auto
  note R = align_range [OF a(1) a7 len(1) [unfolded l(1)] len(2), folded l(1), folded l(2)]
  have A: "8 dvd A" "0 < A" "8 dvd l" "A + l < 2 ^ 32" using R up a by auto
  define M0 where "M0 = mem_set (mem_set M addr len) A sizeof_k_mm_head"
  from init_first [OF A(1,2,3) l(3,4) A(4), of M0] obtain M1 M2 H2 B where
    F: "init_mm_region M0 (sz_add A (MM_ALIGN_UP sizeof_k_mm_head)) (MM_ALIGN_DOWN (l - sizeof_k_mm_head)) = (M1, A + 224)"
    "MM_GET_NEXT_BLK M1 (A + 224) = A + 240"
    "k_mm_free M1 (Some (zero_head\<lparr>regioninfo := A + 232\<rparr>)) (A + 248) = (M2, Some H2)" and
    h: "fix_pool H2 = None" "heap_ok M2 H2 B 0 {}" "allocs 0 B {} = {}" and
    big: "\<exists>a t q. B a = Some (t, True, q) \<and> 2392 \<le> t" by blast
  let ?f = "MM_GET_BUF_SIZE M2 (A + 240)"
  define H3 where "H3 = H2\<lparr>free_size := ?f, used_size := sz_sub l ?f, maxused_size := sz_sub l ?f, fix_pool := None\<rparr>"
  have "mm_ok M2 H3 B" by (rule mm_ok_head [OF _ _ heap_okD(1) [OF h(2)]]) (simp_all add: H3_def)
  then have h3: "heap_ok M2 H3 B 0 {}" "fix_pool H3 = None" by (simp_all add: heap_ok_region H3_def)
  define P where "P = \<lparr>pool_name = [], pool_start = 0, pool_end = 0, slice_cnt = 0, slice_type = [], blk_list = []\<rparr>"
  from pool_setup [OF h3(1) h(3) _ _ h3(2), where P = P and nm = "''fixed_mm_blk''"] big obtain M4 H4 r P' M5 B' where
    Q: "k_mm_alloc M2 (Some H3) 2392 = Some (M4, Some H4, r)" "r \<noteq> 0"
    "krhino_mblk_pool_init M4 (Some P) (Some ''fixed_mm_blk'') (r + 344) 2048 = (M5, Some P', RHINO_SUCCESS)"
    "r + 344 < 2 ^ 32" "heap_ok M5 (H4\<lparr>fix_pool := Some P'\<rparr>) B' (r - 8) {}" "allocs (r - 8) B' {} = {}" by blast
  have up344: "MM_ALIGN_UP 344 = 344" using ALIGN_UP_eq [of 344] by simp
  have r: "sz_add r 344 = r + 344" using Q(4) by (simp add: sz_add_small)
  have F3: "k_mm_free M1 (Some (zero_head\<lparr>regioninfo := 232 + A\<rparr>)) (248 + A) = (M2, Some H2)"
    using F(3) by (simp only: add.commute)
  have "\<not> (l = 0 \<or> l < MM_MIN_HEAP_SIZE + RHINO_CONFIG_MM_TLF_BLK_SIZE \<or> l > MM_MAX_SIZE)" using l(3,4) by simp
  then have "krhino_init_mm_head M head addr len = Some (M5, Some (H4\<lparr>fix_pool := Some P'\<rparr>), RHINO_SUCCESS)"
    using a(1) R(2) F(1) [unfolded M0_def, simplified] F(2) F3 Q(1) [unfolded H3_def] Q(2) Q(3) [unfolded P_def]
    by (simp add: krhino_init_mm_head_def Let_def l(1) [symmetric] l(2) [symmetric] up344 r)
  then show ?thesis using Q(5,6) by fastforce
qed

section \<open>Properties\<close>

text \<open>C39. \<^verbatim>\<open>krhino_init_mm_head\<close> turns a large enough piece of memory into a well-formed heap (blocks, flags,
  boundary tags and free lists agree, the pool of small blocks lies inside of one used block) in which
  no object is in use, and rejects any other size with an error code and no heap.\<close>

theorem krhino_init_mm_head_ok:
  assumes a: "0 < addr" "addr + len < 2 ^ 32" "7 \<le> len"
    and l: "l = MM_ALIGN_DOWN (len - (MM_ALIGN_UP addr - addr))"
  shows "if MM_MIN_HEAP_SIZE + RHINO_CONFIG_MM_TLF_BLK_SIZE \<le> l \<and> l \<le> MM_MAX_SIZE
    then \<exists>M' H h B. krhino_init_mm_head M head addr len = Some (M', Some H, RHINO_SUCCESS) \<and>
      heap_ok M' H B h {} \<and> allocs h B {} = {} \<and> fix_pool H \<noteq> None
    else krhino_init_mm_head M head addr len = Some (mem_set M addr len, head, RHINO_MM_POOL_SIZE_ERR)"
proof (cases "3072 \<le> l \<and> l \<le> 268435456")
  case True
  with init_heap [OF a refl l] show ?thesis by simp
next
  case False
  have a7: "addr + 7 < 2 ^ 32" using a by simp
  have len: "MM_ALIGN_UP addr - addr \<le> len" "len < 2 ^ 32" using ALIGN_UP_bounds [OF a7] a by auto
  have "sz_sub len (sz_sub (MM_ALIGN_UP addr) addr) = len - (MM_ALIGN_UP addr - addr)"
    by (rule align_range(2) [OF a(1) a7 len])
  with False a(1) show ?thesis by (auto simp: krhino_init_mm_head_def Let_def l [symmetric])
qed

lemma demo_align: "MM_ALIGN_UP 4096 = 4096" "MM_ALIGN_DOWN 8192 = 8192" "MM_ALIGN_UP 100 = 104"
  using ALIGN_UP_eq [of 4096] ALIGN_DOWN_eq [of 8192] ALIGN_UP_eq [of 100] by simp_all

lemma krhino_init_mm_head_ok_witness:
  "\<exists>M H h B. krhino_init_mm_head (\<lambda>_. 0) None 4096 8192 = Some (M, Some H, RHINO_SUCCESS) \<and>
    heap_ok M H B h {} \<and> fix_pool H \<noteq> None"
  using krhino_init_mm_head_ok [of 4096 8192 8192 "\<lambda>_. 0" None] by (auto simp: demo_align)

text \<open>The heap of the witness, to allocate from and to release into.\<close>

lemma demo_heap: "\<exists>M H h B. krhino_init_mm_head (\<lambda>_. 0) None 4096 8192 = Some (M, Some H, RHINO_SUCCESS) \<and> heap_ok M H B h {}"
  using init_heap [of 4096 8192 4096 8192 "\<lambda>_. 0" None] by (auto simp: demo_align)

lemma k_mm_alloc_fresh_witness:
  "\<exists>M H M' H' r h B U. krhino_init_mm_head (\<lambda>_. 0) None 4096 8192 = Some (M, Some H, RHINO_SUCCESS) \<and>
    k_mm_alloc M (Some H) 100 = Some (M', Some H', r) \<and> heap_ok M' H' B h U"
proof -
  obtain M H h B where H: "krhino_init_mm_head (\<lambda>_. 0) None 4096 8192 = Some (M, Some H, RHINO_SUCCESS)"
    "heap_ok M H B h {}" using demo_heap by blast
  from k_mm_alloc_fresh [OF H(2), of 100] H(1) show ?thesis by fastforce
qed

lemma demo_object: "\<exists>M H B p n. heap_ok M H B 0 {} \<and> (p, n) \<in> allocs 0 B {}"
proof -
  have "8 dvd (4096::nat)" "0 < (4096::nat)" "8 dvd (8192::nat)" "3072 \<le> (8192::nat)" "(8192::nat) \<le> 2 ^ 28"
    "4096 + 8192 < (2 ^ 32 :: nat)" by simp_all
  from init_first [OF this, of "\<lambda>_. 0"] obtain M H B where h: "heap_ok M H B 0 {}" "fix_pool H = None"
    "\<exists>a t q. B a = Some (t, True, q) \<and> 2392 \<le> t" by blast
  have "(if fix_pool H \<noteq> None \<and> 100 \<le> RHINO_CONFIG_MM_BLK_SIZE
      then krhino_mblk_alloc_nolock M (fix_pool H) 100 else (fix_pool H, 0)) = (None, 0)" by (simp add: h(2))
  from alloc_from_blocks [OF h(1) _ _ this] obtain M' H' r B' where A: "heap_ok M' H' B' 0 {}"
    "if r = 0 then B' = B \<and> (\<forall>a t p. B a = Some (t, True, p) \<longrightarrow> t < max MM_MIN_SIZE (MM_ALIGN_UP 100))
     else \<exists>n. 100 \<le> n \<and> 4 dvd r \<and> allocs 0 B' {} = insert (r, n) (allocs 0 B {}) \<and>
       (\<forall>(a, k)\<in>allocs 0 B {}. r + n \<le> a \<or> a + k \<le> r)" by auto
  have "r \<noteq> 0"
  proof
    assume "r = 0"
    with A(2) have "\<forall>a t p. B a = Some (t, True, p) \<longrightarrow> t < 104" by (simp add: demo_align)
    with h(3) show False by fastforce
  qed
  with A show ?thesis by fastforce
qed

lemma k_mm_free_exact_witness:
  "\<exists>M H B p n M' H' B' U'. (p, n) \<in> allocs 0 B {} \<and> k_mm_free M (Some H) p = (M', Some H') \<and>
    allocs 0 B' U' = allocs 0 B {} - {(p, n)}"
proof -
  obtain M H B p n where "heap_ok M H B 0 {}" "(p, n) \<in> allocs 0 B {}" using demo_object by blast
  note o = this
  from k_mm_free_exact [OF o] obtain M' H' B' U' where "k_mm_free M (Some H) p = (M', Some H')"
    "allocs 0 B' U' = allocs 0 B {} - {(p, n)}" by blast
  then show ?thesis using o(2) by (intro exI conjI)
qed

end
