(* ===== verification/KMmRealloc.thy ===== *)
theory KMmRealloc
  imports KMmInit
begin

text \<open>
  Reallocation (\<^verbatim>\<open>k_mm_realloc\<close>): shrinking a block, enlarging it into a free successor, and
  copying. In each case the object keeps the bytes that both sizes have in common, and no other
  object changes.
\<close>

section \<open>Joining a used block with its free successor\<close>

text \<open>The free successor of the used block \<open>a\<close> has been unlisted; \<open>join_next a B\<close> are the blocks
  when \<open>a\<close> has taken it in.\<close>

definition join_next :: "addr \<Rightarrow> blks \<Rightarrow> blks" where
  "join_next a B = (case B a of None \<Rightarrow> B | Some (s, _, _) \<Rightarrow> blk_join a (blk_mark (a + 8 + s) False B))"

lemma join_next_eq:
  assumes "B a = Some (s, False, p)" "B (a + 8 + s) = Some (t, True, False)"
    "B (a + 8 + s + 8 + t) = Some (t', False, True)"
  shows "join_next a B a = Some (s + 8 + t, False, p)" "join_next a B (a + 8 + s) = None"
    "join_next a B (a + 8 + (s + 8 + t)) = Some (t', False, False)"
    "x \<noteq> a \<Longrightarrow> x \<noteq> a + 8 + s \<Longrightarrow> x \<noteq> a + 8 + (s + 8 + t) \<Longrightarrow> join_next a B x = B x"
  using assms by (simp_all add: join_next_def blk_join_def blk_mark_def add.assoc [symmetric])

lemma join_next_ok:
  assumes ok: "blks_ok B" and a: "B a = Some (s, False, p)" "s \<noteq> 0" and x: "B (a + 8 + s) = Some (t, True, False)"
    and e: "B (a + 8 + s + 8 + t) = Some (t', False, True)"
  shows "blks_ok (join_next a B)"
proof -
  have t: "32 \<le> t" using blk_bounds(6) [OF ok x] by simp
  note E = blk_mark_eq [OF x e, where v = False]
  have "blks_ok (blk_mark (a + 8 + s) False B)" by (rule blk_mark_ok [OF ok x t])
  moreover have "blk_mark (a + 8 + s) False B a = Some (s, False, p)" using E(3) a(1) by simp
  ultimately show ?thesis using blk_join_ok [of _ a s False p t] a t E(1) by (simp add: join_next_def)
qed

lemma join_next_coalesced:
  assumes ok: "blks_ok B" and co: "coalesced B" and a: "B a = Some (s, False, p)" "s \<noteq> 0"
    and x: "B (a + 8 + s) = Some (t, True, False)" and e: "B (a + 8 + s + 8 + t) = Some (t', False, True)"
  shows "coalesced (join_next a B)"
  unfolding coalesced_def
proof (intro allI impI)
  fix c u r assume c: "join_next a B c = Some (u, True, r)"
  note E = join_next_eq [OF a(1) x e]
  have n: "c \<noteq> a" "c \<noteq> a + 8 + s" "c \<noteq> a + 8 + (s + 8 + t)" using c E(1-3) by auto
  with c E(4) have old: "B c = Some (u, True, r)" by simp
  define y where "y = c + 8 + u"
  obtain v where v: "B y = Some (v, False, True)" using coalescedD [OF co old] by (auto simp: y_def)
  have "y \<noteq> a + 8 + s" using v x by auto
  moreover have "y \<noteq> a + 8 + (s + 8 + t)"
    using blks_apartD [OF ok x old] n(2) blk_bounds(6) [OF ok old] blk_bounds(6) [OF ok x] by (auto simp: y_def)
  ultimately show "\<exists>v. join_next a B (c + 8 + u) = Some (v, False, True)"
    unfolding y_def [symmetric] using v E(1) E(4) [of y] a(1) by (cases "y = a") auto
qed

lemma join_next_used:
  assumes a: "B a = Some (s, False, p)" and x: "B (a + 8 + s) = Some (t, True, False)"
    and e: "B (a + 8 + s + 8 + t) = Some (t', False, True)"
  shows "used_map (join_next a B) = (used_map B)(a \<mapsto> s + 8 + t)"
proof
  fix c
  note E = join_next_eq [OF assms]
  have e': "B (a + 8 + (s + 8 + t)) = Some (t', False, True)" using e by (simp add: add.assoc)
  show "used_map (join_next a B) c = ((used_map B)(a \<mapsto> s + 8 + t)) c"
    using E(1-3) E(4) [of c] x e' by (cases "c = a"; cases "c = a + 8 + s"; cases "c = a + 8 + (s + 8 + t)") (auto simp: used_map_def)
qed

text \<open>The state after the successor was unlisted, with the heads of \<open>a\<close> and of the next block open.\<close>

lemma join_next_st:
  assumes st: "mm_st {} M H B (free_map B)" and co: "coalesced B" and a: "B a = Some (s, False, p)" "s \<noteq> 0"
    and x: "B (a + 8 + s) = Some (t, True, False)"
    and del: "k_mm_freelist_delete (a + 8 + s) (M, H) = (M1, H1)" and e: "e = a + 8 + (s + 8 + t)"
  obtains t' where "B (a + 8 + s + 8 + t) = Some (t', False, True)"
    "mm_st {a, e} M1 H1 (join_next a B) (free_map (join_next a B))"
    "mm_st {} M1 H1 B ((free_map B)(a + 8 + s := None))"
    "same_outside (meta B) M M1" "H1 = H\<lparr>freelist := freelist H1, free_bitmap := free_bitmap H1\<rparr>"
proof -
  note D = mm_stD [OF st]
  obtain t' where n: "B (a + 8 + s + 8 + t) = Some (t', False, True)" using coalescedD [OF co x] by blast
  have Lx: "free_map B (a + 8 + s) = Some t" using x unfolding free_map_iff by blast
  note I = mm_delete_st [OF st Lx _ del, simplified]
  note E = join_next_eq [OF a(1) x n, folded e]
  have n': "B e = Some (t', False, True)" using n by (simp add: e add.assoc)
  have L: "(free_map B)(a + 8 + s := None) = free_map (join_next a B)"
  proof
    fix c show "((free_map B)(a + 8 + s := None)) c = free_map (join_next a B) c"
      using E(1-3) E(4) [of c] a(1) n' by (cases "c = a"; cases "c = a + 8 + s"; cases "c = e") (auto simp: free_map_def)
  qed
  have st1: "mm_st {a, e} M1 H1 B (free_map (join_next a B))" using mm_st_mono [OF I(1), of "{a, e}"] by (simp add: L)
  have "mm_st {a, e} M1 H1 (join_next a B) (free_map (join_next a B))"
  proof (rule mm_st_switch [OF st1 join_next_ok [OF D(1) a x n]])
    show "join_next a B c = B c \<or> join_next a B c = None" if "c \<notin> {a, e}" for c using that E(2) E(4) [of c] by (cases "c = a + 8 + s") auto
  qed (simp add: free_map_iff)
  with n I(1,2,3) show ?thesis by (intro that)
qed

section \<open>Splitting off the rest of a used block\<close>

lemma carve_used:
  assumes ok: "blks_ok B" and g: "B g = Some (s, False, p)" and x: "B (g + 8 + s) = Some (t, False, False)" and n: "n + 40 \<le> s"
  shows "used_map (blk_carve g n B) = (used_map B)(g \<mapsto> n)"
proof
  fix a
  note C = blk_carve_eq [OF g x n]
  have m: "B (g + 8 + n) = None" using blk_split_inside [OF ok g] n by simp
  show "used_map (blk_carve g n B) a = ((used_map B)(g \<mapsto> n)) a"
    using C(1-3) C(4) [of a] m x n
    by (cases "a = g"; cases "a = g + 8 + n"; cases "a = g + 8 + s") (simp_all add: used_map_def)
qed

lemma carve_free:
  assumes ok: "blks_ok B" and g: "B g = Some (s, False, p)" and x: "B (g + 8 + s) = Some (t, False, False)" and n: "n + 40 \<le> s"
  shows "free_map (blk_carve g n B) = (free_map B)(g + 8 + n \<mapsto> s - n - 8)"
proof
  fix a
  note C = blk_carve_eq [OF g x n]
  have m: "B (g + 8 + n) = None" using blk_split_inside [OF ok g] n by simp
  show "free_map (blk_carve g n B) a = ((free_map B)(g + 8 + n \<mapsto> s - n - 8)) a"
    using C(1-3) C(4) [of a] m x n g
    by (cases "a = g"; cases "a = g + 8 + n"; cases "a = g + 8 + s") (simp_all add: free_map_def)
qed

lemma mm_split_rest_ok:
  assumes st: "mm_st T M H B (free_map B)" and T: "T \<subseteq> {a, e}" and co: "coalesced B" and a: "B a = Some (s, False, p)"
    and n: "8 dvd n" "32 \<le> n" "n + 40 \<le> s" and e: "e = a + 8 + s" "B e = Some (t, False, False)"
    and w: "load32 M (a + 4) AND 2 = (if p then 2 else 0)" and we: "load32 M (e + 4) = enc t False f"
    and sr: "mm_split_rest a s n e (M, H) = (M', H')"
  shows "mm_ok M' H' (blk_carve a n B)" "used_map (blk_carve a n B) = (used_map B)(a \<mapsto> n)"
    "H' = H\<lparr>freelist := freelist H', free_bitmap := free_bitmap H'\<rparr>"
    "same_outside (meta B \<union> {a + 8 + n..<a + 8 + s}) M M'"
proof -
  note D = mm_stD [OF st] and bd = blk_bounds [OF mm_stD(1) [OF st] a]
  note x = e(2) [unfolded e(1)]
  note be = blk_bounds [OF D(1) e(2)]
  obtain M1 m where sp: "mm_split a n (s - n - 8) e M = (M1, m)" by force
  define M2 where "M2 = buf_set M1 e 2"
  have w1: "load32 M1 (e + 4) = enc t False f"
    using mm_split_next [OF D(1) a n e(1) w sp] we by simp
  have M2: "M2 = store32 M1 (e + 4) (enc t False True)"
    unfolding M2_def by (rule buf_set_enc(2) [OF w1 be(3)])
  have X: "same_outside {e + 4..<e + 8} M1 M2" unfolding M2 by (rule same_outside_store) auto
  have w2: "load32 M2 (e + 4) = enc t False True" using enc_less28 [OF be(3,5)] by (simp add: M2)
  have n32: "sz_add (sz_add n 8) 32 = n + 40" using n(3) bd(5) by (intro sz_split) simp
  obtain M3 H3 where ins: "k_mm_freelist_insert m (M2, H) = (M3, H3)" by force
  have r: "M' = M3" "H' = H3"
    using sr sp ins n(3) by (auto simp: mm_split_rest_def n32 sz_rest Let_def M2_def [symmetric])
  have Lg: "free_map B a = None" using a by (simp add: free_map_def)
  note C = mm_carve_st [OF st T a Lg n e w sp X w2 ins]
  have "free_map (blk_carve a n B) = (free_map B)(m \<mapsto> s - n - 8)" using carve_free [OF D(1) a x n(3)] C(1) by simp
  then show "mm_ok M' H' (blk_carve a n B)"
    using C(2) carve_coalesced [OF D(1) co a x n(3)] by (simp add: mm_ok_st r)
  show "used_map (blk_carve a n B) = (used_map B)(a \<mapsto> n)" by (rule carve_used [OF D(1) a x n(3)])
  show "H' = H\<lparr>freelist := freelist H', free_bitmap := free_bitmap H'\<rparr>" unfolding r by (rule C(3))
  show "same_outside (meta B \<union> {a + 8 + n..<a + 8 + s}) M M'" unfolding r by (rule C(4))
qed

section \<open>Shrinking\<close>

lemma meta_grow:
  assumes "\<And>c u. used_map B c = Some u \<Longrightarrow> \<exists>v. used_map B' c = Some v \<and> u \<le> v" shows "meta B' \<subseteq> meta B"
proof
  fix y assume y: "y \<in> meta B'"
  have "\<not> (c + 8 \<le> y \<and> y < c + 8 + u)" if "B c = Some (u, False, p)" for c u p
  proof -
    have "used_map B c = Some u" using that by (simp add: used_map_iff)
    then obtain v q where "B' c = Some (v, False, q)" "u \<le> v" using assms by (meson used_map_iff)
    with y show ?thesis unfolding meta_def by fastforce
  qed
  then show "y \<in> meta B" unfolding meta_def by blast
qed

lemma join_next_frame:
  assumes ok: "blks_ok B" and a: "B a = Some (s, False, p)" and x: "B (a + 8 + s) = Some (t, True, False)"
    and e: "B (a + 8 + s + 8 + t) = Some (t', False, True)"
    and S: "same_outside (meta B) M M1" "same_outside (meta (join_next a B) \<union> {a + 8 + n..<a + 8 + (s + 8 + t)}) M1 M2"
  shows "same_outside (meta B \<union> {a + 8 + n..<a + 8 + s}) M M2"
proof -
  have "meta (join_next a B) \<subseteq> meta B"
    by (rule meta_grow) (use a in \<open>auto simp: join_next_used [OF a x e] used_map_def\<close>)
  moreover have "{a + 8 + n..<a + 8 + (s + 8 + t)} \<subseteq> {a + 8 + n..<a + 8 + s} \<union> {a + 8 + s..<a + 8 + s + 8 + t}" by auto
  moreover have "{a + 8 + s..<a + 8 + s + 8 + t} \<subseteq> meta B" by (rule free_meta [OF ok x])
  ultimately have "meta (join_next a B) \<union> {a + 8 + n..<a + 8 + (s + 8 + t)} \<subseteq> meta B \<union> {a + 8 + n..<a + 8 + s}" by blast
  from same_outside_trans [OF same_outside_mono [OF S(1)] same_outside_mono [OF S(2) this]] show ?thesis by simp
qed

lemma mm_shrink_ok:
  assumes ok: "mm_ok M H B" and a: "B a = Some (s, False, p)" and n: "8 dvd n" "32 \<le> n" "n \<le> s"
    and sh: "mm_shrink a n req (M, H) = (M', H')"
  shows "\<exists>B' k. mm_ok M' H' B' \<and> used_map B' = (used_map B)(a \<mapsto> k) \<and> n \<le> k \<and> k \<le> s \<and>
    same_outside (meta B \<union> {a + 8 + k..<a + 8 + s}) M M'"
    and "fix_pool H' = fix_pool H"
proof -
  have st: "mm_st {} M H B (free_map B)" and co: "coalesced B" using ok by (auto simp: mm_ok_st)
  note D = mm_stD [OF st] and bd = blk_bounds [OF mm_stD(1) [OF st] a]
  note Ra = mm_st_reads [OF st _ a, simplified]
  let ?x = "a + 8 + s"
  obtain t f where x: "B ?x = Some (t, f, False)" using blk_next [OF D(1) a] n by auto
  note Rx = mm_st_reads [OF st _ x, simplified]
  define H0 where "H0 = stats_removesize (s + 8) H"
  have st0: "mm_st {} M H0 B (free_map B)" by (rule mm_st_stats [OF st]) (simp_all add: H0_def)
  have sz: "n + 40 < 2 ^ 32" using n(3) bd(5) by simp
  have "(\<exists>B' k. mm_ok M' H' B' \<and> used_map B' = (used_map B)(a \<mapsto> k) \<and> n \<le> k \<and> k \<le> s \<and>
    same_outside (meta B \<union> {a + 8 + k..<a + 8 + s}) M M') \<and> fix_pool H' = fix_pool H"
  proof (cases f)
    case True
    with x have xf: "B ?x = Some (t, True, False)" by simp
    obtain M1 H1 where del: "k_mm_freelist_delete ?x (M, H0) = (M1, H1)" by force
    define e where "e = a + 8 + (s + 8 + t)"
    have s0: "s \<noteq> 0" using n by simp
    obtain t' where e: "B (?x + 8 + t) = Some (t', False, True)"
      and J: "mm_st {a, e} M1 H1 (join_next a B) (free_map (join_next a B))"
      and st1: "mm_st {} M1 H1 B ((free_map B)(?x := None))"
      and fr: "same_outside (meta B) M M1" "H1 = H0\<lparr>freelist := freelist H1, free_bitmap := free_bitmap H1\<rparr>"
      by (rule join_next_st [OF st0 co a s0 xf del e_def])
    note E = join_next_eq [OF a xf e, folded e_def]
    have e': "e = ?x + 8 + t" by (simp add: e_def)
    note R1 = mm_st_reads [OF st1 _ xf, simplified] and Re = mm_st_reads [OF st1 _ e, simplified]
    have wa: "load32 M1 (a + 4) AND 2 = (if p then 2 else 0)"
      using mm_st_reads(6) [OF st1 _ a] bd(3) by (simp add: enc_prev)
    have we: "load32 M1 (e + 4) = enc t' False True" using Re(6) by (simp add: e')
    have room: "s + 8 + t < 2 ^ 28" using blk_room(1) [OF D(1) a s0 xf] blk_bounds(6) [OF D(1) xf] by simp
    have nn: "n + 40 \<le> s + 8 + t" using n(3) blk_bounds(6) [OF D(1) xf] by simp
    obtain M2 H2 where sr: "mm_split_rest a (s + 8 + t) n e (M1, H1) = (M2, H2)" by force
    note C = mm_split_rest_ok [OF J subset_refl join_next_coalesced [OF D(1) co a s0 xf e] E(1) n(1,2) nn e_def E(3) wa we sr]
    have add: "sz_add s (t + 8) = s + 8 + t" using room by (simp add: sz_add_small)
    have res: "M' = M2" "freelist H' = freelist H2" "free_bitmap H' = free_bitmap H2" "fix_pool H' = fix_pool H2"
      using sh sr True by (auto simp: mm_shrink_def Ra Rx H0_def [symmetric] del R1 add e' Let_def)
    let ?B = "blk_carve a n (join_next a B)"
    have "mm_ok M' H' ?B" unfolding res(1) by (rule mm_ok_head [OF res(2,3) C(1)])
    moreover have "used_map ?B = (used_map B)(a \<mapsto> n)" using C(2) join_next_used [OF a xf e] by simp
    moreover have "fix_pool H' = fix_pool H"
      using lists_only_sel(1) [OF C(3)] lists_only_sel(1) [OF fr(2)] res(4) by (simp add: H0_def)
    moreover have "same_outside (meta B \<union> {a + 8 + n..<?x}) M M'"
      unfolding res(1) by (rule join_next_frame [OF D(1) a xf e fr(1) C(4)])
    ultimately show ?thesis using n(3) by blast
  next
    case False
    with x have xu: "B ?x = Some (t, False, False)" by simp
    show ?thesis
    proof (cases "n + 40 \<le> s")
      case True
      have wa: "load32 M (a + 4) AND 2 = (if p then 2 else 0)" using Ra(6) bd(3) by (simp add: enc_prev)
      have we: "load32 M (?x + 4) = enc t False False" using Rx(6) False by simp
      obtain M2 H2 where sr: "mm_split_rest a s n ?x (M, H0) = (M2, H2)" by force
      note C = mm_split_rest_ok [OF st0 empty_subsetI co a n(1,2) True refl xu wa we sr]
      have res: "M' = M2" "freelist H' = freelist H2" "free_bitmap H' = free_bitmap H2" "fix_pool H' = fix_pool H2"
        using sh sr False by (auto simp: mm_shrink_def Ra Rx H0_def [symmetric] Let_def)
      have "mm_ok M' H' (blk_carve a n B)" unfolding res(1) by (rule mm_ok_head [OF res(2,3) C(1)])
      moreover have "fix_pool H' = fix_pool H" using lists_only_sel(1) [OF C(3)] res(4) by (simp add: H0_def)
      ultimately show ?thesis using C(2,4) n(3) unfolding res(1) by blast
    next
      case no: False
      have "M' = M" "freelist H' = freelist H" "free_bitmap H' = free_bitmap H" "fix_pool H' = fix_pool H"
        using sh no False sz by (auto simp: mm_shrink_def Ra Rx H0_def [symmetric] Let_def mm_split_rest_def sz_split)
          (auto simp: H0_def)
      moreover have "used_map B = (used_map B)(a \<mapsto> s)" using a by (auto simp: used_map_def fun_eq_iff)
      ultimately show ?thesis using mm_ok_head [OF _ _ ok] n(3) by (metis order_refl same_outside_refl)
    qed
  qed
  then show "\<exists>B' k. mm_ok M' H' B' \<and> used_map B' = (used_map B)(a \<mapsto> k) \<and> n \<le> k \<and> k \<le> s \<and>
    same_outside (meta B \<union> {a + 8 + k..<a + 8 + s}) M M'" "fix_pool H' = fix_pool H" by blast+
qed

section \<open>Enlarging\<close>

text \<open>The block takes in its successor.\<close>

lemma grow_ok:
  assumes st: "mm_st {} M H B (free_map B)" and co: "coalesced B" and a: "B a = Some (s, False, p)" "s \<noteq> 0"
    and x: "B (a + 8 + s) = Some (t, True, False)" and e: "e = a + 8 + (s + 8 + t)"
    and del: "k_mm_freelist_delete (a + 8 + s) (M, H) = (M1, H1)"
  defines "M2 \<equiv> buf_grow M1 a (t + 8)"
  defines "M4 \<equiv> buf_clear (store32 M2 e a) e 2"
  shows "MM_GET_BLK_SIZE M1 (a + 8 + s) = t + 8" "MM_GET_NEXT_BLK M2 a = e"
    and "mm_ok M4 H1 (join_next a B)" "same_outside (meta B) M M4"
    and "H1 = H\<lparr>freelist := freelist H1, free_bitmap := free_bitmap H1\<rparr>"
    and "\<exists>t'. B (a + 8 + s + 8 + t) = Some (t', False, True)"
proof -
  let ?J = "join_next a B" and ?S = "s + 8 + t"
  note D = mm_stD [OF st] and bd = blk_bounds [OF mm_stD(1) [OF st] a(1)] and bx = blk_bounds [OF mm_stD(1) [OF st] x]
  obtain t' where n: "B (a + 8 + s + 8 + t) = Some (t', False, True)"
    and J: "mm_st {a, e} M1 H1 ?J (free_map ?J)" and st1: "mm_st {} M1 H1 B ((free_map B)(a + 8 + s := None))"
    and fr: "same_outside (meta B) M M1" "H1 = H\<lparr>freelist := freelist H1, free_bitmap := free_bitmap H1\<rparr>"
    by (rule join_next_st [OF st co a x del e])
  note E = join_next_eq [OF a(1) x n, folded e] and be = blk_bounds [OF D(1) n]
  show "H1 = H\<lparr>freelist := freelist H1, free_bitmap := free_bitmap H1\<rparr>" by (rule fr(2))
  show "\<exists>t'. B (a + 8 + s + 8 + t) = Some (t', False, True)" using n by blast
  show "MM_GET_BLK_SIZE M1 (a + 8 + s) = t + 8" by (rule mm_st_reads(2) [OF st1 _ x]) simp
  have room: "?S < 2 ^ 28" "e < 2 ^ 32" using blk_room [OF D(1) a x] bx(6) e by auto
  have S8: "8 dvd ?S" using bd(3) bx(3) by simp
  have wa: "load32 M1 (a + 4) = enc s False p" by (rule mm_st_reads(6) [OF st1 _ a(1)]) simp
  have we: "load32 M1 (e + 4) = enc t' False True" using mm_st_reads(6) [OF st1 _ n] by (simp add: e)
  have M2: "M2 = store32 M1 (a + 4) (enc ?S False p)"
    unfolding M2_def using buf_grow_enc [OF wa, of "t + 8"] room by (simp add: ac_simps)
  have w2: "load32 M2 (a + 4) = enc ?S False p" using enc_less28 [OF S8 room(1)] by (simp add: M2)
  show "MM_GET_NEXT_BLK M2 a = e" using enc_reads(3) [OF w2 S8 room(1)] room by (simp add: e)
  have "load32 (store32 M2 e a) (e + 4) = enc t' False True"
    using we e by (simp add: M2 load32_store_other)
  then have M4: "M4 = store32 (store32 M2 e a) (e + 4) (enc t' False False)"
    unfolding M4_def by (rule buf_clear_enc(2) [OF _ be(3,5)])
  have dom: "a \<in> dom ?J" "e \<in> dom ?J" using E(1,3) by auto
  have m: "meta ?J \<subseteq> meta B"
    by (rule meta_grow) (use a in \<open>auto simp: join_next_used [OF a(1) x n] used_map_def\<close>)
  note s2 = mm_st_store [OF J dom(1), of "enc ?S False p", folded M2]
  have st2: "mm_st {a, e} M2 H1 ?J (free_map ?J)" by (rule mm_st_mono [OF s2(1)]) auto
  have T: "a \<in> {a, e}" "a + 8 + ?S \<in> {a, e}" "a + 8 + ?S \<in> dom ?J" using e dom by auto
  note s3 = mm_st_store_prev [OF st2 E(1) T, of a, folded e]
  note s4 = mm_st_store [OF s3(1) dom(2), of "enc t' False False", folded M4]
  have st4: "mm_st {a, e} M4 H1 ?J (free_map ?J)" by (rule mm_st_mono [OF s4(1)]) auto
  have "load32 M4 (a + 4) = enc ?S False p" using w2 e by (simp add: M4 load32_store_other)
  then have ha: "hdr_at M4 ?J a" using E(1) by (simp add: hdr_at_def)
  have he: "hdr_at M4 ?J e" using E(3) enc_less28 [OF be(3,5)] by (simp add: hdr_at_def M4)
  from mm_st_fix [OF st4 ha] have "mm_st {e} M4 H1 ?J (free_map ?J)" .
  from mm_st_fix [OF this he] show "mm_ok M4 H1 ?J" using join_next_coalesced [OF D(1) co a x n] by (simp add: mm_ok_st)
  have "same_outside (meta ?J) M1 M4" by (rule same_outside_trans [OF same_outside_trans [OF s2(2) s3(2)] s4(2)])
  from same_outside_trans [OF fr(1) same_outside_mono [OF this m]] show "same_outside (meta B) M M4" .
qed

lemma mm_enlarge_ok:
  assumes ok: "mm_ok M H B" and a: "B a = Some (s, False, p)" and x: "B (a + 8 + s) = Some (t, True, False)"
    and n: "8 dvd n" "32 \<le> n" "s \<le> n" "n \<le> s + 8 + t" "s \<noteq> 0"
    and en: "mm_enlarge a n req (M, H) = (M', H')"
  shows "\<exists>B' k. mm_ok M' H' B' \<and> used_map B' = (used_map B)(a \<mapsto> k) \<and> n \<le> k \<and> same_outside (meta B) M M'"
    and "fix_pool H' = fix_pool H"
proof -
  have st: "mm_st {} M H B (free_map B)" and co: "coalesced B" using ok by (auto simp: mm_ok_st)
  note D = mm_stD [OF st] and bd = blk_bounds [OF mm_stD(1) [OF st] a]
  note Ra = mm_st_reads [OF st _ a, simplified]
  let ?x = "a + 8 + s" let ?J = "join_next a B" and ?S = "s + 8 + t"
  define H0 where "H0 = stats_removesize (s + 8) H"
  have st0: "mm_st {} M H0 B (free_map B)" by (rule mm_st_stats [OF st]) (simp_all add: H0_def)
  obtain M1 H1 where del: "k_mm_freelist_delete ?x (M, H0) = (M1, H1)" by force
  define e where "e = a + 8 + ?S"
  note G = grow_ok [OF st0 co a n(5) x e_def del]
  define M4 where "M4 = buf_clear (store32 (buf_grow M1 a (t + 8)) e a) e 2"
  from G(6) obtain t' where e: "B (?x + 8 + t) = Some (t', False, True)" by blast
  note E = join_next_eq [OF a x e, folded e_def]
  have ok4: "mm_ok M4 H1 ?J" and fr4: "same_outside (meta B) M M4" using G(3,4) by (simp_all add: M4_def)
  have st4: "mm_st {} M4 H1 ?J (free_map ?J)" and co4: "coalesced ?J" using ok4 by (auto simp: mm_ok_st)
  note D4 = mm_stD [OF st4]
  note R4 = mm_st_reads [OF st4 _ E(1), simplified] and Re = mm_st_reads [OF st4 _ E(3), simplified]
  have room: "?S < 2 ^ 28" using blk_bounds(5) [OF D4(1) E(1)] .
  have sz: "sz_add (sz_add n 8) 32 = n + 40" by (rule sz_split) (use n(4) room in simp)
  obtain M5 H5 where sr: "mm_split_rest a ?S n e (M4, H1) = (M5, H5)" by force
  have res: "M' = M5" "freelist H' = freelist H5" "free_bitmap H' = free_bitmap H5" "fix_pool H' = fix_pool H5"
    using en by (auto simp: mm_enlarge_def Ra H0_def [symmetric] del G(1,2) M4_def [symmetric] R4 sr Let_def)
  have f1: "fix_pool H1 = fix_pool H" using lists_only_sel(1) [OF G(5)] by (simp add: H0_def)
  have "(\<exists>B' k. mm_ok M5 H5 B' \<and> used_map B' = (used_map B)(a \<mapsto> k) \<and> n \<le> k \<and> same_outside (meta B) M M5) \<and>
    fix_pool H5 = fix_pool H"
  proof (cases "n + 40 \<le> ?S")
    case True
    have wa: "load32 M4 (a + 4) AND 2 = (if p then 2 else 0)"
      using R4(6) blk_bounds(3) [OF D4(1) E(1)] by (simp add: enc_prev)
    note C = mm_split_rest_ok [OF st4 empty_subsetI co4 E(1) n(1,2) True e_def E(3) wa Re(6) sr]
    have "used_map (blk_carve a n ?J) = (used_map B)(a \<mapsto> n)" using C(2) join_next_used [OF a x e] by simp
    moreover have "same_outside (meta B \<union> {a + 8 + n..<a + 8 + s}) M M5"
      by (rule join_next_frame [OF D(1) a x e fr4 C(4)])
    then have "same_outside (meta B) M M5" using n(3) by simp
    ultimately show ?thesis using C(1) lists_only_sel(1) [OF C(3)] f1 by auto
  next
    case False
    then have "M5 = M4" "H5 = H1" using sr by (auto simp: mm_split_rest_def sz)
    then show ?thesis using ok4 fr4 join_next_used [OF a x e] n(4) f1 by blast
  qed
  then show "\<exists>B' k. mm_ok M' H' B' \<and> used_map B' = (used_map B)(a \<mapsto> k) \<and> n \<le> k \<and> same_outside (meta B) M M'"
    "fix_pool H' = fix_pool H" using mm_ok_head [OF res(2,3)] res(1,4) by auto
qed

section \<open>Writing into an object\<close>

lemma mblk_rep_live:
  assumes rep: "mblk_rep M P F" and live: "(a, t) \<in> mblk_live P F" and X: "same_outside {a..<a + 2 ^ t} M M'"
  shows "mblk_rep M' P F"
proof -
  have ok: "mblk_ok M P F" using rep by (simp add: mblk_rep_def)
  have at: "t < 10" "a \<in> mblk_blocks P t" "a \<notin> set (F t)" using live by (auto simp: mblk_live_def)
  have "list_free M' P F u" if u: "u < 10" for u
  proof -
    note D = mblk_okD(3) [OF ok u]
    have "load32 M' (b + 0) = load32 M (b + 0)" if b: "b \<in> set (F u)" for b
    proof -
      have bb: "b \<in> mblk_blocks P u" using D b by (auto simp: list_free_def)
      have "(a, t) \<noteq> (b, u)" using b at(3) by auto
      from blocks_disjoint [OF ok at(1,2) u bb this] have "{b..<b + 4} \<inter> {a..<a + 2 ^ t} = {}"
        using block_bounds(5) [OF ok u bb] by auto
      from same_outside_load [OF X this] show ?thesis by simp
    qed
    then have "chain 0 M' p (F u) = chain 0 M p (F u)" for p by (intro chain_cong) auto
    with D show ?thesis by (simp add: list_free_def)
  qed
  with rep show ?thesis by (simp add: mblk_rep_def mblk_ok_def)
qed

lemma heap_ok_write:
  assumes ok: "heap_ok M H B h U" and p: "(p, n) \<in> allocs h B U" and X: "same_outside {p..<p + n} M M'"
  shows "heap_ok M' H B h U"
proof -
  note D = heap_okD [OF ok]
  have "mm_ok M' H B" by (rule mm_ok_payload [OF D(1) X allocs_meta [OF D(2) p]])
  moreover have "pool_in M' H B h U"
    using p
  proof (cases rule: allocs_cases)
    case (1 a)
    show ?thesis
    proof (rule pool_in_frame [OF D(2) refl X])
      fix s assume s: "used_map B h = Some s"
      from used_apart [OF D(3) 1(2) s 1(4)] s show "used_map B h = Some s \<and> {p..<p + n} \<inter> {h + 8..<h + 8 + s} = {}"
        using 1(1) by auto
    qed
  next
    case (2 t)
    obtain P F s where P: "fix_pool H = Some P" "mblk_rep M P F" "mblk_live P F = U" "used_map B h = Some s"
      "h + 8 \<le> pool_start P" "pool_end P \<le> h + 8 + s" by (rule pool_inD [OF D(2) 2(1)])
    from 2(1) P(3) have "(p, t) \<in> mblk_live P F" by simp
    from mblk_rep_live [OF P(2) this X [unfolded 2(2)]] P show ?thesis by (auto simp: pool_in_def)
  qed
  ultimately show ?thesis by (simp add: heap_ok_def)
qed

text \<open>Copying into a new object, then releasing the old one.\<close>

lemma copy_out:
  assumes ok: "heap_ok M H B h U" and p: "(p, n) \<in> allocs h B U" and r: "(r, k) \<in> allocs h B U" and ne: "(p, n) \<noteq> (r, k)"
    and c: "c \<le> k" "c \<le> n"
  shows "heap_ok (mem_copy M r p c) H B h U" "kept (allocs h B U - {(r, k)}) M (mem_copy M r p c)"
    "i < c \<Longrightarrow> mem_copy M r p c (r + i) = M (p + i)"
proof -
  have X: "same_outside {r..<r + k} M (mem_copy M r p c)" using c(1) by (auto simp: same_outside_def mem_copy_def)
  show "heap_ok (mem_copy M r p c) H B h U" by (rule heap_ok_write [OF ok r X])
  show "kept (allocs h B U - {(r, k)}) M (mem_copy M r p c)"
    by (rule kept_payload [OF ok r]) (rule same_outside_mono [OF X], simp)
  show "i < c \<Longrightarrow> mem_copy M r p c (r + i) = M (p + i)" by (simp add: mem_copy_def)
qed

lemma move_object:
  assumes ok: "heap_ok M H B h U" and p: "(p, n) \<in> allocs h B U"
    and A: "heap_ok M1 H1 B1 h U1" "kept (allocs h B U) M M1" "allocs h B1 U1 = insert (r, k) (allocs h B U)"
    and r: "\<forall>(a, j)\<in>allocs h B U. r + k \<le> a \<or> a + j \<le> r" "0 < k" and c: "c \<le> k" "c \<le> n"
  shows "\<exists>M3 H3 B3 U3. k_mm_free (mem_copy M1 r p c) (Some H1) p = (M3, Some H3) \<and> heap_ok M3 H3 B3 h U3 \<and>
    allocs h B3 U3 = insert (r, k) (allocs h B U - {(p, n)}) \<and> kept (allocs h B U - {(p, n)}) M M3 \<and>
    (\<forall>i<c. M3 (r + i) = M (p + i))"
proof -
  let ?A = "allocs h B U" and ?M2 = "mem_copy M1 r p c"
  have new: "(r, k) \<notin> ?A" using r by auto
  then have ne: "(p, n) \<noteq> (r, k)" using p by metis
  have p1: "(p, n) \<in> allocs h B1 U1" and r1: "(r, k) \<in> allocs h B1 U1" using p A(3) by auto
  note C = copy_out [OF A(1) p1 r1 ne c]
  from heap_free [OF C(1) p1] obtain M3 H3 B3 U3 where F: "k_mm_free ?M2 (Some H1) p = (M3, Some H3)"
    "heap_ok M3 H3 B3 h U3" "allocs h B3 U3 = allocs h B1 U1 - {(p, n)}" "kept (allocs h B3 U3) ?M2 M3" by blast
  have al: "allocs h B3 U3 = insert (r, k) (?A - {(p, n)})" using F(3) A(3) ne by auto
  have "M3 x = M x" if a: "(a, j) \<in> ?A - {(p, n)}" "a \<le> x" "x < a + j" for a j x
  proof -
    have "M3 x = ?M2 x" using F(4) a unfolding kept_def al by blast
    also have "\<dots> = M1 x" using C(2) a new unfolding kept_def A(3) by blast
    also have "\<dots> = M x" using A(2) a unfolding kept_def by blast
    finally show ?thesis .
  qed
  then have "kept (?A - {(p, n)}) M M3" by (auto simp: kept_def)
  moreover have "M3 (r + i) = M (p + i)" if i: "i < c" for i
  proof -
    have "\<And>x. r \<le> x \<and> x < r + k \<Longrightarrow> M3 x = ?M2 x" using F(4) unfolding kept_def al by blast
    then have "M3 (r + i) = ?M2 (r + i)" using i c(1) by simp
    also have "\<dots> = M1 (p + i)" by (rule C(3) [OF i])
    also have "\<dots> = M (p + i)"
    proof -
      have "\<And>x. p \<le> x \<and> x < p + n \<Longrightarrow> M1 x = M x" using A(2) p unfolding kept_def by blast
      then show ?thesis using i c(2) by simp
    qed
    finally show ?thesis .
  qed
  ultimately show ?thesis using F(1,2) al by blast
qed

lemma resize_in_place:
  assumes ok: "heap_ok M H B h U" and a: "used_map B a = Some n" "32 \<le> n" "a \<noteq> h"
    and ok': "mm_ok M' H' B'" "used_map B' = (used_map B)(a \<mapsto> k)" "fix_pool H' = fix_pool H" and k: "32 \<le> k"
    and X: "same_outside (meta B \<union> {a + 8 + k..<a + 8 + n}) M M'"
  shows "heap_ok M' H' B' h U" "allocs h B' U = insert (a + 8, k) (allocs h B U - {(a + 8, n)})"
    "kept (allocs h B U - {(a + 8, n)}) M M'" "i < min n k \<Longrightarrow> M' (a + 8 + i) = M (a + 8 + i)"
proof -
  note D = heap_okD [OF ok]
  have "pool_in M' H' B' h U"
  proof (rule pool_in_frame [OF D(2) ok'(3) X])
    fix s assume s: "used_map B h = Some s"
    have "{a + 8 + k..<a + 8 + n} \<inter> {h + 8..<h + 8 + s} = {}" using used_apart [OF D(3) a(1) s a(3)] by auto
    then show "used_map B' h = Some s \<and> (meta B \<union> {a + 8 + k..<a + 8 + n}) \<inter> {h + 8..<h + 8 + s} = {}"
      using used_meta [OF s] s ok'(2) a(3) by auto
  qed
  with ok'(1) show "heap_ok M' H' B' h U" by (simp add: heap_ok_def)
  have no: "(a + 8, t) \<notin> U" for t by (rule block_no_slice [OF ok a])
  have "(x, j) \<in> allocs h B' U \<longleftrightarrow> (x, j) = (a + 8, k) \<or> (x, j) \<in> allocs h B U \<and> (x, j) \<noteq> (a + 8, n)" for x j
    unfolding allocs_iff ok'(2) using a k no by (cases "x = a + 8") auto
  then show "allocs h B' U = insert (a + 8, k) (allocs h B U - {(a + 8, n)})" by auto
  have p: "(a + 8, n) \<in> allocs h B U" using a by (auto simp: allocs_iff)
  have "{a + 8 + k..<a + 8 + n} \<subseteq> {a + 8..<a + 8 + n}" by auto
  then show "kept (allocs h B U - {(a + 8, n)}) M M'" by (intro kept_payload [OF ok p] same_outside_mono [OF X]) blast
  assume i: "i < min n k"
  then have "a + 8 + i \<in> {a + 8..<a + 8 + n}" "a + 8 + i \<notin> {a + 8 + k..<a + 8 + n}" by auto
  then have "a + 8 + i \<notin> meta B \<union> {a + 8 + k..<a + 8 + n}" using used_meta [OF a(1)] by blast
  with X show "M' (a + 8 + i) = M (a + 8 + i)" by (simp add: same_outside_def)
qed

section \<open>Reallocation\<close>

text \<open>What reallocation of the object \<open>(p, n)\<close> to \<open>sz\<close> bytes promises: either nothing changes, or the
  object is replaced by one with room for \<open>sz\<close> bytes that starts with the same bytes; no other object is
  touched.\<close>

definition resized :: "(addr \<times> nat) set \<Rightarrow> mem \<Rightarrow> addr \<Rightarrow> nat \<Rightarrow> nat \<Rightarrow> (addr \<times> nat) set \<Rightarrow> mem \<Rightarrow> addr \<Rightarrow> bool" where
  "resized A M p n sz A' M' r \<longleftrightarrow>
     (if r = 0 then A' = A \<and> kept A M M'
      else \<exists>k. sz \<le> k \<and> A' = insert (r, k) (A - {(p, n)}) \<and> kept (A - {(p, n)}) M M' \<and>
        (\<forall>i<min n sz. M' (r + i) = M (p + i)))"

lemma resizedI:
  assumes "r \<noteq> 0" "sz \<le> k" "A' = insert (r, k) (A - {(p, n)})" "kept (A - {(p, n)}) M M'"
    "\<And>i. i < min n sz \<Longrightarrow> M' (r + i) = M (p + i)"
  shows "resized A M p n sz A' M' r"
  using assms unfolding resized_def by auto

text \<open>By a new object and copying; \<open>m\<close> is the size that is asked for.\<close>

lemma realloc_copy:
  assumes ok: "heap_ok M H B h U" and p: "(p, n) \<in> allocs h B U" and m: "0 < m" "m + 7 < 2 ^ 32" "sz \<le> m"
  obtains M1 H1 r B1 U1 where "k_mm_alloc M (Some H) m = Some (M1, Some H1, r)" "heap_ok M1 H1 B1 h U1"
    "U \<subseteq> U1" "used_map B \<subseteq>\<^sub>m used_map B1"
    "if r = 0 then resized (allocs h B U) M p n sz (allocs h B1 U1) M1 0
     else \<exists>M3 H3 B3 U3. k_mm_free (mem_copy M1 r p (min n m)) (Some H1) p = (M3, Some H3) \<and> heap_ok M3 H3 B3 h U3 \<and>
       resized (allocs h B U) M p n sz (allocs h B3 U3) M3 r"
proof -
  from heap_alloc [OF ok m(1,2)] obtain M1 H1 r B1 U1 where
    A: "k_mm_alloc M (Some H) m = Some (M1, Some H1, r)" "heap_ok M1 H1 B1 h U1" "kept (allocs h B U) M M1"
    "U \<subseteq> U1" "used_map B \<subseteq>\<^sub>m used_map B1" and
    R: "if r = 0 then allocs h B1 U1 = allocs h B U \<and>
       (\<forall>a t p. B a = Some (t, True, p) \<longrightarrow> t < max MM_MIN_SIZE (MM_ALIGN_UP m))
     else \<exists>k. m \<le> k \<and> 4 dvd r \<and> allocs h B1 U1 = insert (r, k) (allocs h B U) \<and>
       (\<forall>(a, j)\<in>allocs h B U. r + k \<le> a \<or> a + j \<le> r)" by blast
  show ?thesis
  proof (cases "r = 0")
    case True
    with R A show ?thesis by (intro that [OF A(1,2,4,5)]) (simp add: resized_def)
  next
    case False
    with R obtain k where k: "m \<le> k" "allocs h B1 U1 = insert (r, k) (allocs h B U)"
      "\<forall>(a, j)\<in>allocs h B U. r + k \<le> a \<or> a + j \<le> r" by auto
    have "0 < k" "min n m \<le> k" "min n m \<le> n" using k(1) m(1) by auto
    from move_object [OF ok p A(2,3) k(2,3) this] obtain M3 H3 B3 U3 where
      F: "k_mm_free (mem_copy M1 r p (min n m)) (Some H1) p = (M3, Some H3)" "heap_ok M3 H3 B3 h U3"
      "allocs h B3 U3 = insert (r, k) (allocs h B U - {(p, n)})" "kept (allocs h B U - {(p, n)}) M M3"
      "\<forall>i<min n m. M3 (r + i) = M (p + i)" by blast
    have "sz \<le> k" using m(3) k(1) by simp
    moreover have "M3 (r + i) = M (p + i)" if "i < min n sz" for i using F(5) that m(3) by simp
    ultimately have "resized (allocs h B U) M p n sz (allocs h B3 U3) M3 r"
      using resizedI [OF False] F(3,4) by blast
    with F(1,2) False show ?thesis by (intro that [OF A(1,2,4,5)]) auto
  qed
qed

lemma mblk_get_size_live:
  assumes "mblk_rep M P F" "(p, t) \<in> mblk_live P F" shows "krhino_mblk_get_size P p = 2 ^ t"
proof -
  have ok: "mblk_ok M P F" and t: "t < 10" "p \<in> mblk_blocks P t" using assms by (auto simp: mblk_rep_def mblk_live_def)
  from slice_idx_block(2) [OF ok t] mblk_okD(2) [OF ok t(1)] show ?thesis
    by (simp add: krhino_mblk_get_size_def list_shape_def Let_def)
qed

lemma realloc_small:
  assumes ok: "heap_ok M H B h U" and p: "(p, t) \<in> U" and sz: "0 < sz" "sz + 7 < 2 ^ 32"
  shows "\<exists>M' H' r B' U'. k_mm_realloc M (Some H) p sz = Some (M', Some H', r) \<and> heap_ok M' H' B' h U' \<and>
    resized (allocs h B U) M p (2 ^ t) sz (allocs h B' U') M' r"
proof -
  have chk: "krhino_mblk_check (fix_pool H) p" "p \<noteq> 0" if hk: "heap_ok M H B h U" and pu: "(p, t) \<in> U" for M H B U
  proof -
    obtain P where "fix_pool H = Some P" "pool_start P \<le> p" "p + 2 ^ t \<le> pool_end P" "0 < p"
      by (rule pool_inD [OF heap_okD(2) [OF hk] pu])
    then show "krhino_mblk_check (fix_pool H) p" "p \<noteq> 0"
      by (auto simp: krhino_mblk_check_def intro: less_le_trans [of p "p + 2 ^ t"])
  qed
  have "(p, 2 ^ t) \<in> allocs h B U" using p by (auto simp: allocs_iff)
  then obtain M1 H1 r B1 U1 where A: "k_mm_alloc M (Some H) sz = Some (M1, Some H1, r)" "heap_ok M1 H1 B1 h U1" "U \<subseteq> U1"
    "if r = 0 then resized (allocs h B U) M p (2 ^ t) sz (allocs h B1 U1) M1 0
     else \<exists>M3 H3 B3 U3. k_mm_free (mem_copy M1 r p (min (2 ^ t) sz)) (Some H1) p = (M3, Some H3) \<and> heap_ok M3 H3 B3 h U3 \<and>
       resized (allocs h B U) M p (2 ^ t) sz (allocs h B3 U3) M3 r"
    by (rule realloc_copy [OF ok _ sz order_refl])
  have p1: "(p, t) \<in> U1" using p A(3) by blast
  obtain P F where P: "fix_pool H1 = Some P" "mblk_rep M1 P F" "mblk_live P F = U1" by (rule pool_inD [OF heap_okD(2) [OF A(2)] p1])
  have gs: "krhino_mblk_get_size P p = 2 ^ t" by (rule mblk_get_size_live [OF P(2)]) (use P(3) p1 in simp)
  have len: "(if sz < 2 ^ t then sz else 2 ^ t) = min (2 ^ t) sz" by auto
  note C = chk [OF ok p] and C1 = chk [OF A(2) p1]
  show ?thesis
  proof (cases "r = 0")
    case True
    have "k_mm_realloc M (Some H) p sz = Some (M1, Some H1, 0)"
      using C sz(1) A(1) P(1) True by (simp add: k_mm_realloc_def)
    with A(2,4) True show ?thesis by auto
  next
    case False
    then obtain M3 H3 B3 U3 where F: "k_mm_free (mem_copy M1 r p (min (2 ^ t) sz)) (Some H1) p = (M3, Some H3)"
      "heap_ok M3 H3 B3 h U3" "resized (allocs h B U) M p (2 ^ t) sz (allocs h B3 U3) M3 r" using A(4) by auto
    have "k_mm_realloc M (Some H) p sz = Some (M3, Some H3, r)"
      using C C1 sz(1) A(1) P(1) False F(1) by (auto simp: k_mm_realloc_def k_mm_free_def gs len split: prod.splits)
    with F(2,3) show ?thesis by blast
  qed
qed

lemma used_reads:
  assumes "heap_ok M H B h U" "used_map B a = Some n"
  shows "MM_GET_BUF_SIZE M a = n" "MM_GET_NEXT_BLK M a = a + 8 + n" "MM_GET_THIS_BLK (a + 8) = a"
proof -
  obtain q where q: "B a = Some (n, False, q)" using assms(2) by (auto simp: used_map_iff)
  have st: "mm_st {} M H B (free_map B)" using heap_okD(1) [OF assms(1)] by (simp add: mm_ok_st)
  show "MM_GET_BUF_SIZE M a = n" "MM_GET_NEXT_BLK M a = a + 8 + n" using mm_st_reads(1,3) [OF st _ q] by auto
  show "MM_GET_THIS_BLK (a + 8) = a" using THIS_BLK blk_bounds(4) [OF heap_okD(3) [OF assms(1)] q] by simp
qed

lemma realloc_block:
  assumes ok: "heap_ok M H B h U" and a: "used_map B a = Some n" "32 \<le> n" "a \<noteq> h" and sz: "0 < sz" "sz + 7 < 2 ^ 32"
  shows "\<exists>M' H' r B' U'. k_mm_realloc M (Some H) (a + 8) sz = Some (M', Some H', r) \<and> heap_ok M' H' B' h U' \<and>
    resized (allocs h B U) M (a + 8) n sz (allocs h B' U') M' r"
proof -
  note D = heap_okD [OF ok] and R = used_reads [OF ok a(1)]
  define m where "m = (if MM_ALIGN_UP sz < 32 then 32 else MM_ALIGN_UP sz)"
  note N = alloc_size [OF sz(2) m_def]
  have n0: "n \<noteq> 0" using a(2) by simp
  note np = not_pool [OF ok a(1,3) n0]
  obtain q where q: "B a = Some (n, False, q)" using a(1) by (auto simp: used_map_iff)
  obtain t f where x: "B (a + 8 + n) = Some (t, f, False)" using blk_next [OF D(3) q] n0 by blast
  have st: "mm_st {} M H B (free_map B)" using D(1) by (simp add: mm_ok_st)
  note Rx = mm_st_reads [OF st _ x, simplified]
  have p: "(a + 8, n) \<in> allocs h B U" using a by (auto simp: allocs_iff)
  let ?re = "\<lambda>M' r A'. resized (allocs h B U) M (a + 8) n sz A' M' r"
  have m': "(if MM_ALIGN_UP sz < MM_MIN_SIZE then MM_MIN_SIZE else MM_ALIGN_UP sz) = m" by (simp add: m_def)
  have def: "k_mm_realloc M (Some H) (a + 8) sz =
    (if m \<le> n then let (M', H') = mm_shrink a m sz (M, H) in Some (M', Some H', a + 8)
     else if f \<and> m \<le> sz_add n (t + 8) then let (M', H') = mm_enlarge a m sz (M, H) in Some (M', Some H', a + 8)
     else Option.bind (k_mm_alloc M (Some H) m) (\<lambda>(M1, head, r).
       if r = 0 then Some (M1, head, 0)
       else let c = (if MM_GET_BUF_SIZE M1 a > m then m else MM_GET_BUF_SIZE M1 a);
                (M3, head) = k_mm_free (mem_copy M1 r (a + 8) c) head (a + 8)
            in Some (M3, head, r)))"
    unfolding k_mm_realloc_def Let_def option.case m' R using sz(1) np by (simp add: R Rx cong: if_cong)
  show ?thesis
  proof (cases "m \<le> n")
    case True
    obtain M' H' where sh: "mm_shrink a m sz (M, H) = (M', H')" by force
    from mm_shrink_ok [OF D(1) q N(3,2) True sh] obtain B' k where S: "mm_ok M' H' B'" "fix_pool H' = fix_pool H"
      "used_map B' = (used_map B)(a \<mapsto> k)" "m \<le> k" "k \<le> n" "same_outside (meta B \<union> {a + 8 + k..<a + 8 + n}) M M'" by blast
    have k: "32 \<le> k" "sz \<le> k" using N(1,2) S(4) by simp_all
    note P = resize_in_place [OF ok a S(1,3,2) k(1) S(6)]
    have "?re M' (a + 8) (allocs h B' U)" by (rule resizedI [OF _ k(2) P(2,3,4)]) (use S(5) k(2) in auto)
    moreover have "k_mm_realloc M (Some H) (a + 8) sz = Some (M', Some H', a + 8)" using True sh by (simp add: def)
    ultimately show ?thesis using P(1) by blast
  next
    case no: False
    show ?thesis
    proof (cases "f \<and> m \<le> sz_add n (t + 8)")
      case True
      with x have xf: "B (a + 8 + n) = Some (t, True, False)" by simp
      have "n + 8 + t < 2 ^ 28" using blk_room(1) [OF D(3) q n0 xf] blk_bounds(6) [OF D(3) xf] by simp
      with True have le: "m \<le> n + 8 + t" "n \<le> m" using no by (simp_all add: sz_add_small)
      obtain M' H' where en: "mm_enlarge a m sz (M, H) = (M', H')" by force
      from mm_enlarge_ok [OF D(1) q xf N(3,2) le(2,1) n0 en] obtain B' k where S: "mm_ok M' H' B'"
        "fix_pool H' = fix_pool H" "used_map B' = (used_map B)(a \<mapsto> k)" "m \<le> k" "same_outside (meta B) M M'" by blast
      have k: "32 \<le> k" "sz \<le> k" using N(1,2) S(4) by simp_all
      have "same_outside (meta B \<union> {a + 8 + k..<a + 8 + n}) M M'" by (rule same_outside_mono [OF S(5)]) simp
      note P = resize_in_place [OF ok a S(1,3,2) k(1) this]
      have "?re M' (a + 8) (allocs h B' U)" by (rule resizedI [OF _ k(2) P(2,3,4)]) (use k(2) in auto)
      moreover have "k_mm_realloc M (Some H) (a + 8) sz = Some (M', Some H', a + 8)"
        unfolding def if_not_P [OF no] if_P [OF True] by (simp add: en)
      ultimately show ?thesis using P(1) by blast
    next
      case False
      have "m < 4294967296" using N(4) by simp
      with N(3) have "m + 7 < 4294967296" by presburger
      then have m: "0 < m" "m + 7 < 2 ^ 32" using N(2) by simp_all
      obtain M1 H1 r B1 U1 where A: "k_mm_alloc M (Some H) m = Some (M1, Some H1, r)" "heap_ok M1 H1 B1 h U1"
        "used_map B \<subseteq>\<^sub>m used_map B1" "if r = 0 then ?re M1 0 (allocs h B1 U1)
         else \<exists>M3 H3 B3 U3. k_mm_free (mem_copy M1 r (a + 8) (min n m)) (Some H1) (a + 8) = (M3, Some H3) \<and>
           heap_ok M3 H3 B3 h U3 \<and> ?re M3 r (allocs h B3 U3)" by (rule realloc_copy [OF ok p m N(1)])
      have "used_map B1 a = Some n" using A(3) a(1) by (auto simp: map_le_def dom_def)
      from used_reads(1) [OF A(2) this] have c: "(if MM_GET_BUF_SIZE M1 a > m then m else MM_GET_BUF_SIZE M1 a) = min n m" by auto
      show ?thesis
      proof (cases "r = 0")
        case True
        then have "k_mm_realloc M (Some H) (a + 8) sz = Some (M1, Some H1, 0)"
          unfolding def if_not_P [OF no] if_not_P [OF False] using A(1) by simp
        with A(2,4) True show ?thesis by auto
      next
        case r: False
        with A(4) obtain M3 H3 B3 U3 where F: "k_mm_free (mem_copy M1 r (a + 8) (min n m)) (Some H1) (a + 8) = (M3, Some H3)"
          "heap_ok M3 H3 B3 h U3" "?re M3 r (allocs h B3 U3)" by auto
        have "k_mm_realloc M (Some H) (a + 8) sz = Some (M3, Some H3, r)"
          unfolding def if_not_P [OF no] if_not_P [OF False] using A(1) r F(1) by (simp add: c)
        with F(2,3) show ?thesis by blast
      qed
    qed
  qed
qed

text \<open>C38. Reallocation to a size that does not wrap when it is rounded up: the call returns; either the result is
  \<^verbatim>\<open>NULL\<close> and every object is in use as before, with its bytes, or the object has been replaced by one with
  room for the new size which starts with the bytes that fit both, and all others have kept theirs.\<close>

theorem k_mm_realloc_resizes:
  assumes ok: "heap_ok M H B h U" and p: "(p, n) \<in> allocs h B U" and sz: "0 < sz" "sz + 7 < 2 ^ 32"
  shows "\<exists>M' H' r B' U'. k_mm_realloc M (Some H) p sz = Some (M', Some H', r) \<and> heap_ok M' H' B' h U' \<and>
    resized (allocs h B U) M p n sz (allocs h B' U') M' r"
  using p
proof (cases rule: allocs_cases)
  case (1 a)
  with realloc_block [OF ok 1(2-4) sz] show ?thesis by simp
next
  case (2 t)
  with realloc_small [OF ok 2(1) sz] show ?thesis by simp
qed

lemma k_mm_realloc_resizes_witness:
  "\<exists>M H B p n M' H' r B' U'. (p, n) \<in> allocs 0 B {} \<and> k_mm_realloc M (Some H) p 400 = Some (M', Some H', r) \<and>
    resized (allocs 0 B {}) M p n 400 (allocs 0 B' U') M' r"
proof -
  obtain M H B p n where o: "heap_ok M H B 0 {}" "(p, n) \<in> allocs 0 B {}" using demo_object by blast
  have "0 < (400::nat)" "400 + 7 < (2 ^ 32 :: nat)" by simp_all
  from k_mm_realloc_resizes [OF o this] obtain M' H' r B' U' where
    "k_mm_realloc M (Some H) p 400 = Some (M', Some H', r)" "resized (allocs 0 B {}) M p n 400 (allocs 0 B' U') M' r" by blast
  then show ?thesis using o(2) by (intro exI conjI)
qed

end
